(* ===== verification/Prelude.thy ===== *)
theory Prelude
  imports Main "HOL-Library.Word" "HOL-Library.Monad_Syntax"
begin

text \<open>
  Shared vocabulary of the development: the C integer types of the LP64 target the file system
  is built for, byte buffers and the \<open>memcpy\<close>/\<open>memset\<close> calls on them, little-endian images of
  unsigned integers, the collections of rewrite rules the component theories fill, and the
  generic lemmas on lists and words they share.

  A C function that can run into undefined behaviour (a null or out-of-range access, a read of
  memory that was never written) or that can block for ever on a mutex returns an \<^typ>\<open>'a option\<close>;
  \<^term>\<open>None\<close> stands for exactly these outcomes.  Every other outcome, the error codes of the
  code included, is a value.
\<close>

unbundle bit_operations_syntax

named_theorems codec_simps \<open>encoding and decoding of on-disk structures\<close>
named_theorems disk_simps \<open>reads of the disk after a write\<close>
named_theorems frame_simps \<open>parts of the state an operation leaves alone\<close>

section \<open>C integer types\<close>

type_synonym byte = "8 word"
type_synonym size_t = "64 word"
type_synonym time_t = "64 word"
type_synonym mode_t = "32 word"
type_synonym uid_t = "32 word"
type_synonym gid_t = "32 word"
type_synonym pid_t = "32 word"

text \<open>\<open>-1\<close> stored in a \<open>size_t\<close>.\<close>

abbreviation SIZE_MAX :: size_t where
  "SIZE_MAX \<equiv> - 1"

text \<open>Conversion of a \<open>size_t\<close> to \<open>int\<close> (truncation) and back (sign extension).\<close>

definition to_c_int :: "size_t \<Rightarrow> 32 word" where
  "to_c_int x = ucast x"

definition of_c_int :: "32 word \<Rightarrow> size_t" where
  "of_c_int x = scast x"

section \<open>Byte buffers\<close>

text \<open>
  \<open>memcpy(dst + off, src, length src)\<close> on a buffer; callers stay inside \<open>dst\<close>.
\<close>

definition memcpy_at :: "nat \<Rightarrow> byte list \<Rightarrow> byte list \<Rightarrow> byte list" where
  "memcpy_at off src dst = take off dst @ src @ drop (off + length src) dst"

definition memset_at :: "nat \<Rightarrow> byte \<Rightarrow> nat \<Rightarrow> byte list \<Rightarrow> byte list" where
  "memset_at off c n dst = memcpy_at off (replicate n c) dst"

definition bytes_at :: "nat \<Rightarrow> nat \<Rightarrow> byte list \<Rightarrow> byte list" where
  "bytes_at off n b = take n (drop off b)"

lemma length_memcpy_at [simp]:
  "off + length src \<le> length dst \<Longrightarrow> length (memcpy_at off src dst) = length dst"
  by (simp add: memcpy_at_def)

lemma length_memset_at [simp]:
  "off + n \<le> length dst \<Longrightarrow> length (memset_at off c n dst) = length dst"
  by (simp add: memset_at_def)

lemma length_bytes_at [simp]: "off + n \<le> length b \<Longrightarrow> length (bytes_at off n b) = n"
  by (simp add: bytes_at_def)

lemma nth_memcpy_at:
  assumes "off + length src \<le> length dst" and "i < length dst"
  shows "memcpy_at off src dst ! i =
    (if off \<le> i \<and> i < off + length src then src ! (i - off) else dst ! i)"
  using assms by (auto simp: memcpy_at_def nth_append min_def)

lemma nth_bytes_at [simp]:
  "off + n \<le> length b \<Longrightarrow> i < n \<Longrightarrow> bytes_at off n b ! i = b ! (off + i)"
  by (simp add: bytes_at_def)

lemma bytes_at_memcpy_same [simp]:
  "off + length src \<le> length dst \<Longrightarrow> n = length src \<Longrightarrow> bytes_at off n (memcpy_at off src dst) = src"
  by (simp add: memcpy_at_def bytes_at_def)

lemma bytes_at_memcpy_other:
  assumes "off + length src \<le> length dst" and "o' + n \<le> length dst"
    and "o' + n \<le> off \<or> off + length src \<le> o'"
  shows "bytes_at o' n (memcpy_at off src dst) = bytes_at o' n dst"
  by (rule nth_equalityI) (use assms in \<open>auto simp: nth_memcpy_at\<close>)

lemma bytes_at_bytes_at [simp]:
  "o2 + m \<le> n \<Longrightarrow> bytes_at o2 m (bytes_at o1 n b) = bytes_at (o1 + o2) m b"
  by (simp add: bytes_at_def drop_take add.commute min_def)

lemma bytes_at_0_all [simp]: "length b = n \<Longrightarrow> bytes_at 0 n b = b"
  by (simp add: bytes_at_def)

lemma bytes_at_append1: "off + n \<le> length a \<Longrightarrow> bytes_at off n (a @ b) = bytes_at off n a"
  by (simp add: bytes_at_def)

lemma bytes_at_append2:
  "length a \<le> off \<Longrightarrow> bytes_at off n (a @ b) = bytes_at (off - length a) n b"
  by (simp add: bytes_at_def)

section \<open>Little-endian images\<close>

primrec le_nat :: "byte list \<Rightarrow> nat" where
  "le_nat [] = 0"
| "le_nat (b # bs) = unat b + 256 * le_nat bs"

primrec nat_bytes :: "nat \<Rightarrow> nat \<Rightarrow> byte list" where
  "nat_bytes 0 x = []"
| "nat_bytes (Suc n) x = word_of_nat x # nat_bytes n (x div 256)"

definition le_bytes :: "nat \<Rightarrow> 'a::len word \<Rightarrow> byte list" where
  "le_bytes n w = nat_bytes n (unat w)"

definition le_word :: "byte list \<Rightarrow> 'a::len word" where
  "le_word bs = word_of_nat (le_nat bs)"

lemma unat_bound: "unat (w :: 'a::len word) < 2 ^ LENGTH('a)"
  by (rule unsigned_less)

lemma length_nat_bytes [simp]: "length (nat_bytes n x) = n"
  by (induction n arbitrary: x) auto

lemma length_le_bytes [simp]: "length (le_bytes n w) = n"
  by (simp add: le_bytes_def)

lemma le_nat_bound: "le_nat bs < 256 ^ length bs"
proof (induction bs)
  case (Cons b bs)
  have "unat b < 256" using unat_bound [of b] by simp
  with Cons show ?case by simp
qed simp

lemma le_nat_nat_bytes: "le_nat (nat_bytes n x) = x mod 256 ^ n"
proof (induction n arbitrary: x)
  case (Suc n)
  have "unat (word_of_nat x :: byte) = x mod 256"
    by (simp add: unat_of_nat)
  with Suc show ?case
    by (simp add: mod_mult2_eq)
qed simp

lemma nat_bytes_le_nat: "nat_bytes (length bs) (le_nat bs) = bs"
proof (induction bs)
  case (Cons b bs)
  have b: "unat b < 256" using unat_bound [of b] by simp
  have "(256 :: byte) = 0" by simp
  then have "(word_of_nat (unat b + 256 * le_nat bs) :: byte) = b"
    by (simp only: of_nat_add of_nat_mult of_nat_numeral) simp
  with Cons b show ?case by simp
qed simp

lemma le_word_le_bytes:
  fixes w :: "'a::len word"
  assumes "LENGTH('a) \<le> 8 * n"
  shows "le_word (le_bytes n w) = w"
proof -
  have "unat w < 2 ^ (8 * n)"
    using unat_bound [of w] power_increasing [OF assms, of "2::nat"] by linarith
  then have "unat w < 256 ^ n" by (simp add: power_mult)
  then show ?thesis by (simp add: le_word_def le_bytes_def le_nat_nat_bytes)
qed

lemma le_word_le_bytes_64 [codec_simps]: "le_word (le_bytes 8 w) = (w :: 64 word)"
  by (rule le_word_le_bytes) simp

lemma le_word_le_bytes_32 [codec_simps]: "le_word (le_bytes 4 w) = (w :: 32 word)"
  by (rule le_word_le_bytes) simp

lemma le_bytes_le_word:
  assumes "8 * length bs \<le> LENGTH('a::len)"
  shows "le_bytes (length bs) (le_word bs :: 'a word) = bs"
proof -
  have "(256::nat) ^ length bs \<le> 2 ^ LENGTH('a)"
    using assms power_increasing [OF assms, of "2::nat"] by (simp add: power_mult)
  with le_nat_bound [of bs] have "le_nat bs < 2 ^ LENGTH('a)" by simp
  then have "unat (le_word bs :: 'a word) = le_nat bs"
    by (simp add: le_word_def unat_of_nat)
  then show ?thesis by (simp add: le_bytes_def nat_bytes_le_nat)
qed

text \<open>Copying only the low \<open>k\<close> bytes of a \<open>size_t\<close> keeps its value modulo \<open>256 ^ k\<close>.\<close>

lemma le_word_le_bytes_low:
  "le_word (le_bytes k (w :: size_t)) = (word_of_nat (unat w mod 256 ^ k) :: size_t)"
  by (simp add: le_word_def le_bytes_def le_nat_nat_bytes)

lemma le_word_low2_small [codec_simps]:
  assumes "unat w < 65536"
  shows "le_word (le_bytes 2 (w :: size_t)) = (w :: size_t)"
  using assms by (simp add: le_word_le_bytes_low)

lemma unat_le_word_2:
  "length bs = 2 \<Longrightarrow> unat (le_word bs :: size_t) < 65536"
  using le_nat_bound [of bs] by (simp add: le_word_def unat_of_nat)

section \<open>Arrays of integers inside a buffer\<close>

text \<open>
  \<open>memcpy(&v, src, k)\<close> into a \<open>size_t\<close> variable: the low \<open>k\<close> bytes are replaced, the others stay.
\<close>

definition memcpy_low :: "byte list \<Rightarrow> size_t \<Rightarrow> size_t" where
  "memcpy_low src v = le_word (src @ drop (length src) (le_bytes 8 v))"

text \<open>
  The loop \<open>memcpy(ptr, &xs[counter], w); counter++; ptr += w\<close> over an array, and the loop
  \<open>memcpy(&v, ptr, w); xs[counter] = v; counter++; ptr += w\<close> with its variable \<open>v\<close> carried on.
\<close>

primrec store_entries :: "nat \<Rightarrow> size_t list \<Rightarrow> nat \<Rightarrow> byte list \<Rightarrow> byte list" where
  "store_entries w [] ptr b = b"
| "store_entries w (x # xs) ptr b = store_entries w xs (ptr + w) (memcpy_at ptr (le_bytes w x) b)"

primrec load_entries :: "nat \<Rightarrow> nat \<Rightarrow> nat \<Rightarrow> size_t \<Rightarrow> byte list \<Rightarrow> size_t list" where
  "load_entries w 0 ptr v b = []"
| "load_entries w (Suc n) ptr v b =
     (let v' = memcpy_low (bytes_at ptr w b) v in v' # load_entries w n (ptr + w) v' b)"

lemma length_load_entries [simp]: "length (load_entries w n ptr v b) = n"
  by (induction n arbitrary: ptr v) (auto simp: Let_def)

lemma le_nat_append: "le_nat (xs @ ys) = le_nat xs + 256 ^ length xs * le_nat ys"
  by (induction xs) (auto simp: algebra_simps)

lemma le_nat_replicate0 [simp]: "le_nat (replicate n 0) = 0"
  by (induction n) auto

lemma nat_bytes_0: "nat_bytes n 0 = replicate n 0"
  by (induction n) auto

text \<open>The upper bytes of the carried variable stay zero, so they do not show in the result.\<close>

lemma memcpy_low_clean:
  assumes "length src = w" and "w \<le> 8" and "unat v < 256 ^ w"
  shows "memcpy_low src v = le_word src"
proof -
  have "nat_bytes 8 (unat v) = nat_bytes w (unat v) @ replicate (8 - w) 0"
  proof -
    have *: "x < 256 ^ k \<Longrightarrow> nat_bytes (k + j) x = nat_bytes k x @ replicate j 0" for k j x
    proof (induction k arbitrary: x)
      case (Suc k)
      then have "x div 256 < 256 ^ k" by (simp add: less_mult_imp_div_less)
      with Suc show ?case by simp
    qed (simp add: nat_bytes_0)
    from * [of "unat v" w "8 - w"] assms(2,3) show ?thesis by simp
  qed
  with assms show ?thesis
    by (simp add: memcpy_low_def le_bytes_def le_word_def le_nat_append)
qed

lemma unat_le_word_bound:
  assumes "length bs \<le> 8"
  shows "unat (le_word bs :: size_t) < 256 ^ length bs"
proof -
  have "(256::nat) ^ length bs \<le> 256 ^ 8" using assms by (intro power_increasing) auto
  with le_nat_bound [of bs] show ?thesis
    by (simp add: le_word_def unat_of_nat)
qed

lemma load_entries_eq:
  assumes "w \<le> 8" and "ptr + n * w \<le> length b" and "unat v < 256 ^ w"
  shows "load_entries w n ptr v b = map (\<lambda>k. le_word (bytes_at (ptr + w * k) w b)) [0..<n]"
  using assms(2,3)
proof (induction n arbitrary: ptr v)
  case (Suc n)
  let ?v' = "le_word (bytes_at ptr w b) :: size_t"
  have len: "length (bytes_at ptr w b) = w" using Suc.prems by simp
  then have v': "memcpy_low (bytes_at ptr w b) v = ?v'"
    using assms(1) Suc.prems by (simp add: memcpy_low_clean)
  have "unat ?v' < 256 ^ w" using unat_le_word_bound [of "bytes_at ptr w b"] assms(1) len by simp
  then have "load_entries w n (ptr + w) ?v' b =
      map (\<lambda>k. le_word (bytes_at (ptr + w + w * k) w b)) [0..<n]"
    using Suc.IH Suc.prems by simp
  then show ?case
    using v' by (simp add: Let_def upt_conv_Cons map_Suc_upt [symmetric] ac_simps del: upt_Suc)
qed simp

lemma store_entries_eq:
  "ptr + w * length xs \<le> length b \<Longrightarrow>
   store_entries w xs ptr b =
     take ptr b @ concat (map (le_bytes w) xs) @ drop (ptr + w * length xs) b"
proof (induction xs arbitrary: ptr b)
  case (Cons x xs)
  then have "length (memcpy_at ptr (le_bytes w x) b) = length b" by simp
  with Cons show ?case by (simp add: memcpy_at_def ac_simps)
qed simp

lemma length_concat_le: "length (concat (map (le_bytes w) xs)) = w * length xs"
  by (induction xs) auto

lemma length_store_entries [simp]:
  "ptr + w * length xs \<le> length b \<Longrightarrow> length (store_entries w xs ptr b) = length b"
  by (simp add: store_entries_eq length_concat_le)

lemma bytes_at_concat_le:
  "k < length xs \<Longrightarrow> bytes_at (w * k) w (concat (map (le_bytes w) xs) @ ys) = le_bytes w (xs ! k)"
proof (induction xs arbitrary: k)
  case (Cons x xs)
  show ?case
  proof (cases k)
    case (Suc j)
    with Cons show ?thesis by (simp add: bytes_at_append2)
  qed (simp add: bytes_at_append1)
qed simp

lemma load_store_entries:
  assumes "w \<le> 8" and "w * length xs \<le> length b"
  shows "load_entries w (length xs) 0 0 (store_entries w xs 0 b) =
    map (\<lambda>x. le_word (le_bytes w x)) xs"
proof -
  have "load_entries w (length xs) 0 0 (store_entries w xs 0 b) =
      map (\<lambda>k. le_word (bytes_at (w * k) w (store_entries w xs 0 b))) [0..<length xs]"
    using assms by (subst load_entries_eq) (auto simp: ac_simps)
  also have "\<dots> = map (\<lambda>k. le_word (le_bytes w (xs ! k))) [0..<length xs]"
    using assms by (intro map_cong) (auto simp: store_entries_eq bytes_at_concat_le)
  also have "\<dots> = map (\<lambda>x. le_word (le_bytes w x)) xs"
    by (rule nth_equalityI) auto
  finally show ?thesis .
qed

lemma concat_bytes_at:
  "n * w = length b \<Longrightarrow> concat (map (\<lambda>k. bytes_at (w * k) w b) [0..<n]) = b"
proof (induction n arbitrary: b)
  case (Suc n)
  have *: "bytes_at (w * k) w (take (n * w) b) = bytes_at (w * k) w b" if "k < n" for k
  proof -
    have "w * k + w \<le> n * w" using that by (metis Suc_leI mult.commute mult_Suc_right mult_le_mono1 add.commute)
    then show ?thesis by (simp add: bytes_at_def drop_take min_def)
  qed
  have "concat (map (\<lambda>k. bytes_at (w * k) w (take (n * w) b)) [0..<n]) = take (n * w) b"
    using Suc by simp
  moreover have "map (\<lambda>k. bytes_at (w * k) w (take (n * w) b)) [0..<n] =
      map (\<lambda>k. bytes_at (w * k) w b) [0..<n]"
    using * by simp
  moreover have "bytes_at (w * n) w b = drop (n * w) b"
    using Suc.prems by (simp add: bytes_at_def mult.commute)
  ultimately show ?case by simp
qed simp

lemma store_load_entries:
  assumes "w \<le> 8" and "n * w = length b" and "length b' = length b"
  shows "store_entries w (load_entries w n 0 0 b) 0 b' = b"
proof -
  have "map (le_bytes w) (load_entries w n 0 0 b) = map (\<lambda>k. bytes_at (w * k) w b) [0..<n]"
  proof -
    have "le_bytes w (le_word (bytes_at (w * k) w b) :: size_t) = bytes_at (w * k) w b" if "k < n" for k
    proof -
      have "w * k + w \<le> n * w" using that by (metis Suc_leI mult.commute mult_Suc_right mult_le_mono1 add.commute)
      then have "length (bytes_at (w * k) w b) = w" using assms(2) by simp
      then show ?thesis
        using le_bytes_le_word [of "bytes_at (w * k) w b", where 'a = 64] assms(1) by simp
    qed
    then show ?thesis using assms by (subst load_entries_eq) auto
  qed
  then have "concat (map (le_bytes w) (load_entries w n 0 0 b)) = b"
    using concat_bytes_at [OF assms(2)] by simp
  moreover have "w * n = length b'" using assms by (simp add: mult.commute)
  ultimately show ?thesis by (simp add: store_entries_eq)
qed

section \<open>Generic lemmas\<close>

lemma unat_add1_less:
  fixes a b :: "'a::len word"
  assumes "a < b"
  shows "unat (a + 1) = unat a + 1"
proof -
  have lt: "unat a + 1 < 2 ^ LENGTH('a)"
    using assms [unfolded word_less_nat_alt] unat_bound [of b] by linarith
  show ?thesis
  proof (cases "LENGTH('a) = 1")
    case False
    then have "unat (1 :: 'a word) = 1" by simp
    with lt show ?thesis by (simp add: unat_word_ariths)
  qed (use lt in \<open>simp add: unat_word_ariths\<close>)
qed

lemma bind_Some_iff: "(Option.bind m f = Some y) = (\<exists>x. m = Some x \<and> f x = Some y)"
  by (cases m) auto

lemma unat_of_nat_small: "m < 2 ^ 64 \<Longrightarrow> unat (of_nat m :: size_t) = m"
  by (simp add: unat_of_nat take_bit_eq_mod)

end
