(* ===== verification/INode.thy ===== *)
theory INode
  imports Prelude
begin

text \<open>
  The two inode structures: \<open>struct iNode\<close> as it lies on the disk (\<open>include/inode/iNode.h\<close>) with
  its memory image on the LP64 target, \<open>initializeINode\<close> (\<open>src/inode/iNode.c\<close>), and
  \<open>struct inCoreiNode\<close> (\<open>include/inode/inCoreiNode.h\<close>) with the two copying functions of
  \<open>src/inode/inCoreiNode.c\<close>.  Fields of the disk structure carry the prefix \<open>di_\<close>; \<open>type\<close> and
  \<open>size\<close> of the in-core structure are \<open>itype\<close> and \<open>isize\<close>.

  The lemmas show that the memory image of an inode determines it, and that copying an inode
  from disk into the cache and back loses nothing.
\<close>

section \<open>Data\<close>

text \<open>
  An enum variable holds any value of its underlying type \<open>unsigned int\<close>; a value read back from
  the disk need not be one of the three names.
\<close>

type_synonym iNodeType = "32 word"

abbreviation (input) T_FREE :: iNodeType where "T_FREE \<equiv> 0"
abbreviation (input) T_REGULAR :: iNodeType where "T_REGULAR \<equiv> 1"
abbreviation (input) T_DIRECTORY :: iNodeType where "T_DIRECTORY \<equiv> 2"

abbreviation (input) BLOCKS_IN_INODE :: nat where "BLOCKS_IN_INODE \<equiv> 13"

text \<open>\<open>NUM_OF_INODES\<close> is \<open>1 << (INODE_ADDRESS_SIZE * 8)\<close>.\<close>

abbreviation (input) NUM_OF_INODES :: size_t where "NUM_OF_INODES \<equiv> 65536"

record iNode =
  di_device_number :: size_t
  di_inode_number :: size_t
  di_access :: time_t
  di_modification :: time_t
  di_status_change :: time_t
  di_linksCount :: size_t
  di_type :: iNodeType
  di_file_mode :: mode_t
  di_owner_uid :: uid_t
  di_group_uid :: gid_t
  di_dataBlockNums :: "size_t list"
  di_size :: size_t

record inCoreiNode =
  iNodeMutex :: bool
  reference_count :: size_t
  device_number :: size_t
  inode_number :: size_t
  access :: time_t
  modification :: time_t
  status_change :: time_t
  linksCount :: size_t
  itype :: iNodeType
  file_mode :: mode_t
  owner_uid :: uid_t
  group_uid :: gid_t
  dataBlockNums :: "size_t list"
  inode_changed :: bool
  file_data_changed :: bool
  isize :: size_t

text \<open>The data block array has its declared length: the well-formedness of both structures.\<close>

definition wf_iNode :: "iNode \<Rightarrow> bool" where
  "wf_iNode i \<longleftrightarrow> length (di_dataBlockNums i) = BLOCKS_IN_INODE"

definition wf_inCore :: "inCoreiNode \<Rightarrow> bool" where
  "wf_inCore i \<longleftrightarrow> length (dataBlockNums i) = BLOCKS_IN_INODE"

section \<open>The memory image of \<open>struct iNode\<close>\<close>

text \<open>
  Offsets under the LP64 ABI: six 8-byte fields, four 4-byte fields, thirteen 8-byte block
  numbers and the size; no padding, 176 bytes.
\<close>

abbreviation (input) sizeof_iNode :: nat where "sizeof_iNode \<equiv> 176"

definition iNode_bytes :: "iNode \<Rightarrow> byte list" where
  "iNode_bytes i =
     le_bytes 8 (di_device_number i) @ le_bytes 8 (di_inode_number i) @
     le_bytes 8 (di_access i) @ le_bytes 8 (di_modification i) @ le_bytes 8 (di_status_change i) @
     le_bytes 8 (di_linksCount i) @
     le_bytes 4 (di_type i) @ le_bytes 4 (di_file_mode i) @
     le_bytes 4 (di_owner_uid i) @ le_bytes 4 (di_group_uid i) @
     concat (map (le_bytes 8) (di_dataBlockNums i)) @ le_bytes 8 (di_size i)"

definition iNode_of_bytes :: "byte list \<Rightarrow> iNode" where
  "iNode_of_bytes b =
     \<lparr> di_device_number = le_word (bytes_at 0 8 b),
       di_inode_number = le_word (bytes_at 8 8 b),
       di_access = le_word (bytes_at 16 8 b),
       di_modification = le_word (bytes_at 24 8 b),
       di_status_change = le_word (bytes_at 32 8 b),
       di_linksCount = le_word (bytes_at 40 8 b),
       di_type = le_word (bytes_at 48 4 b),
       di_file_mode = le_word (bytes_at 52 4 b),
       di_owner_uid = le_word (bytes_at 56 4 b),
       di_group_uid = le_word (bytes_at 60 4 b),
       di_dataBlockNums = map (\<lambda>k. le_word (bytes_at (64 + 8 * k) 8 b)) [0..<BLOCKS_IN_INODE],
       di_size = le_word (bytes_at 168 8 b) \<rparr>"

section \<open>Operations\<close>

text \<open>\<open>memset(iNodePtr, 0, sizeof(iNode))\<close>\<close>

definition zero_iNode :: iNode where
  "zero_iNode =
     \<lparr> di_device_number = 0, di_inode_number = 0, di_access = 0, di_modification = 0,
       di_status_change = 0, di_linksCount = 0, di_type = 0, di_file_mode = 0,
       di_owner_uid = 0, di_group_uid = 0, di_dataBlockNums = replicate BLOCKS_IN_INODE 0,
       di_size = 0 \<rparr>"

definition initializeINode :: "size_t \<Rightarrow> iNode" where
  "initializeINode iNodeNum =
     (if NUM_OF_INODES \<le> iNodeNum then zero_iNode
      else zero_iNode
        \<lparr> di_device_number := 0, di_inode_number := iNodeNum, di_linksCount := 0,
          di_type := T_FREE, di_file_mode := 0, di_owner_uid := 0, di_group_uid := 0 \<rparr>)"

text \<open>
  The two copying loops run over the thirteen block numbers; the fields of the destination that
  the source structure does not have keep their values.
\<close>

definition insertDiskInodeData :: "iNode \<Rightarrow> inCoreiNode \<Rightarrow> inCoreiNode" where
  "insertDiskInodeData disk_inode in_core = in_core
     \<lparr> device_number := di_device_number disk_inode,
       inode_number := di_inode_number disk_inode,
       access := di_access disk_inode,
       modification := di_modification disk_inode,
       status_change := di_status_change disk_inode,
       linksCount := di_linksCount disk_inode,
       itype := di_type disk_inode,
       file_mode := di_file_mode disk_inode,
       owner_uid := di_owner_uid disk_inode,
       group_uid := di_group_uid disk_inode,
       isize := di_size disk_inode,
       dataBlockNums := map (\<lambda>k. di_dataBlockNums disk_inode ! k) [0..<BLOCKS_IN_INODE] \<rparr>"

definition getDiskINodeData :: "inCoreiNode \<Rightarrow> iNode" where
  "getDiskINodeData in_core =
     \<lparr> di_device_number = device_number in_core,
       di_inode_number = inode_number in_core,
       di_access = access in_core,
       di_modification = modification in_core,
       di_status_change = status_change in_core,
       di_linksCount = linksCount in_core,
       di_type = itype in_core,
       di_file_mode = file_mode in_core,
       di_owner_uid = owner_uid in_core,
       di_group_uid = group_uid in_core,
       di_dataBlockNums = map (\<lambda>k. dataBlockNums in_core ! k) [0..<BLOCKS_IN_INODE],
       di_size = isize in_core \<rparr>"

section \<open>Lemmas\<close>

lemma length_concat_le8 [simp]: "length (concat (map (le_bytes 8) xs)) = 8 * length xs"
  by (induction xs) auto

lemma length_iNode_bytes [simp]: "wf_iNode i \<Longrightarrow> length (iNode_bytes i) = sizeof_iNode"
  by (simp add: iNode_bytes_def wf_iNode_def)

lemma bytes_at_concat_le8:
  "k < length xs \<Longrightarrow> bytes_at (8 * k) 8 (concat (map (le_bytes 8) xs) @ ys) = le_bytes 8 (xs ! k)"
proof (induction xs arbitrary: k)
  case (Cons x xs)
  show ?case
  proof (cases k)
    case (Suc j)
    with Cons show ?thesis by (simp add: bytes_at_append2)
  qed (simp add: bytes_at_append1)
qed simp

lemma wf_iNode_of_bytes [simp]: "wf_iNode (iNode_of_bytes b)"
  by (simp add: wf_iNode_def iNode_of_bytes_def)

lemma wf_zero_iNode [simp]: "wf_iNode zero_iNode"
  by (simp add: wf_iNode_def zero_iNode_def)

lemma wf_initializeINode [simp]: "wf_iNode (initializeINode n)"
  by (simp add: initializeINode_def wf_iNode_def zero_iNode_def)

lemma wf_insertDiskInodeData [simp]: "wf_inCore (insertDiskInodeData i c)"
  by (simp add: insertDiskInodeData_def wf_inCore_def)

lemma wf_getDiskINodeData [simp]: "wf_iNode (getDiskINodeData c)"
  by (simp add: getDiskINodeData_def wf_iNode_def)

text \<open>The block number array is read back from the image.\<close>

lemma iNode_of_bytes_blocks:
  assumes "wf_iNode i"
  shows "di_dataBlockNums (iNode_of_bytes (iNode_bytes i)) = di_dataBlockNums i"
proof (rule nth_equalityI)
  show "length (di_dataBlockNums (iNode_of_bytes (iNode_bytes i))) = length (di_dataBlockNums i)"
    using assms by (simp add: iNode_of_bytes_def wf_iNode_def)
next
  fix k assume "k < length (di_dataBlockNums (iNode_of_bytes (iNode_bytes i)))"
  then have k: "k < BLOCKS_IN_INODE" by (simp add: iNode_of_bytes_def)
  then have "bytes_at (64 + 8 * k) 8 (iNode_bytes i) = le_bytes 8 (di_dataBlockNums i ! k)"
    using assms bytes_at_concat_le8 [of k "di_dataBlockNums i"]
    by (simp add: iNode_bytes_def wf_iNode_def bytes_at_append2)
  with k show "di_dataBlockNums (iNode_of_bytes (iNode_bytes i)) ! k = di_dataBlockNums i ! k"
    by (simp add: iNode_of_bytes_def codec_simps)
qed

lemma iNode_of_bytes_inverse [codec_simps]:
  assumes "wf_iNode i"
  shows "iNode_of_bytes (iNode_bytes i) = i"
proof -
  note blocks = iNode_of_bytes_blocks [OF assms]
  have len: "length (di_dataBlockNums i) = 13" using assms by (simp add: wf_iNode_def)
  show ?thesis
    using blocks len
    by (cases i)
      (simp add: iNode_of_bytes_def iNode_bytes_def bytes_at_append1 bytes_at_append2 codec_simps
        del: upt_rec_numeral)
qed

lemma insert_get_disk_data:
  "wf_iNode i \<Longrightarrow> getDiskINodeData (insertDiskInodeData i c) = i"
  by (cases i) (simp add: getDiskINodeData_def insertDiskInodeData_def wf_iNode_def
      map_nth list_eq_iff_nth_eq)

lemma get_insert_disk_data:
  "wf_inCore c \<Longrightarrow> insertDiskInodeData (getDiskINodeData c) c = c"
  by (cases c) (simp add: getDiskINodeData_def insertDiskInodeData_def wf_inCore_def
      map_nth list_eq_iff_nth_eq)

section \<open>Properties\<close>

text \<open>
  C37. Copying an inode from disk into a cache node and back loses nothing, and the copy does not touch what
  only the cache node has: its reference count, its lock and its dirty flags.
\<close>

theorem inCore_roundtrip:
  assumes "wf_iNode i"
  shows "getDiskINodeData (insertDiskInodeData i c) = i \<and> wf_inCore (insertDiskInodeData i c) \<and>
    reference_count (insertDiskInodeData i c) = reference_count c \<and>
    iNodeMutex (insertDiskInodeData i c) = iNodeMutex c \<and>
    inode_changed (insertDiskInodeData i c) = inode_changed c \<and>
    file_data_changed (insertDiskInodeData i c) = file_data_changed c"
  using insert_get_disk_data [OF assms, of c] by (simp add: insertDiskInodeData_def wf_inCore_def)

theorem inCore_roundtrip_witness:
  "\<exists>c. getDiskINodeData (insertDiskInodeData (initializeINode 5) c) = initializeINode 5 \<and> reference_count c = 3"
  using inCore_roundtrip [OF wf_initializeINode [of 5], of "inCoreiNode.make False 3 0 0 0 0 0 0 0 0 0 0 [] False False 0"]
  by (intro exI [of _ "inCoreiNode.make False 3 0 0 0 0 0 0 0 0 0 0 [] False False 0"])
    (simp add: inCoreiNode.defs)

end
