(* ===== verification/Disk.thy ===== *)
theory Disk
  imports INode
begin

text \<open>
  The block store under everything else: the parameters of \<open>include/mandsk/params.h\<close> and
  \<open>include/mkfs/diskParams.h\<close>, the global sizes computed by \<open>initializeINodeParams\<close>
  (\<open>src/mandsk/params.c\<close>), the in-memory disk (\<open>src/dsk/mdisk.c\<close>), the device file
  (\<open>src/dsk/diskAccess.c\<close>) and the dispatch between the two (\<open>src/dsk/blkfetch.c\<close>).

  The locale \<open>block_store\<close> states what the rest of the code relies on: a block read after a write
  is the block written, and a write touches no other block.  It is interpreted for the memory
  disk, for the device file and for the dispatching functions.
\<close>

section \<open>Parameters\<close>

abbreviation (input) BLOCK_SIZE :: "'a::numeral" where "BLOCK_SIZE \<equiv> 1024"
abbreviation (input) BLOCK_ADDRESS_SIZE :: nat where "BLOCK_ADDRESS_SIZE \<equiv> 8"
abbreviation (input) INODE_ADDRESS_SIZE :: nat where "INODE_ADDRESS_SIZE \<equiv> 2"
abbreviation (input) BLOCK_ADDRESSES_PER_BLOCK :: nat where "BLOCK_ADDRESSES_PER_BLOCK \<equiv> 128"
abbreviation (input) INODE_NOS_PER_BLOCK :: nat where "INODE_NOS_PER_BLOCK \<equiv> 512"
abbreviation (input) DISK_SIZE_IN_GB :: size_t where "DISK_SIZE_IN_GB \<equiv> 30"
abbreviation (input) NUM_OF_BLOCKS_IN_MEM :: size_t where "NUM_OF_BLOCKS_IN_MEM \<equiv> 65536"

abbreviation (input) BOOT_BLOCK :: size_t where "BOOT_BLOCK \<equiv> 0"
abbreviation (input) SUPER_BLOCK :: size_t where "SUPER_BLOCK \<equiv> 1"
abbreviation (input) FREE_LIST_BLOCK :: size_t where "FREE_LIST_BLOCK \<equiv> 2"
abbreviation (input) INODE_LIST_BLOCK :: size_t where "INODE_LIST_BLOCK \<equiv> 3"
abbreviation (input) INODE_BLOCKS_HEAD :: size_t where "INODE_BLOCKS_HEAD \<equiv> 4"

section \<open>State\<close>

type_synonym disk_block = "byte list"

text \<open>
  \<open>mem_disk\<close> is the array of \<^term>\<open>NUM_OF_BLOCKS_IN_MEM\<close> blocks; no function looks at an index
  beyond it.  \<open>device\<close> is the content of the file behind \<open>devFD\<close>, \<open>host_files\<close> the readable and
  writable files \<open>access(2)\<close> finds, \<open>clock\<close> the value \<open>time(NULL)\<close> returns.
\<close>

record dsk =
  mem_disk :: "size_t \<Rightarrow> disk_block"
  isDiskAvailable :: bool
  devName :: "string option"
  device :: "byte list"
  host_files :: "string \<Rightarrow> byte list option"
  clock :: time_t
  INODE_SIZE :: size_t
  INODES_PER_BLOCK :: size_t
  NUM_OF_INODE_BLOCKS :: size_t
  NUM_OF_BLOCKS :: size_t

section \<open>params.c\<close>

text \<open>The loop of \<open>initializeINodeParams\<close>: \<open>iNodeSize\<close> doubles while \<open>iNodeStructSize\<close> halves.\<close>

function inode_size_loop :: "size_t \<Rightarrow> size_t \<Rightarrow> size_t" where
  "inode_size_loop iNodeStructSize iNodeSize =
     (if iNodeStructSize \<noteq> 0 then inode_size_loop (iNodeStructSize div 2) (iNodeSize * 2)
      else iNodeSize)"
  by pat_completeness auto
termination
proof (relation "measure (\<lambda>(a, b). unat a)")
  fix a b :: size_t
  assume "a \<noteq> 0"
  then have "unat a \<noteq> 0" by (simp add: unat_eq_zero)
  then show "((a div 2, b * 2), (a, b)) \<in> measure (\<lambda>(a, b). unat a)"
    by (simp add: unat_div_distrib)
qed simp

definition initializeINodeParams :: "dsk \<Rightarrow> dsk" where
  "initializeINodeParams d =
     (let iNodeSize = inode_size_loop (word_of_nat sizeof_iNode) 1
      in d\<lparr> INODE_SIZE := iNodeSize,
            INODES_PER_BLOCK := BLOCK_SIZE div iNodeSize,
            NUM_OF_INODE_BLOCKS := iNodeSize * NUM_OF_INODES div BLOCK_SIZE,
            NUM_OF_BLOCKS := DISK_SIZE_IN_GB * push_bit 20 1 \<rparr>)"

section \<open>mdisk.c\<close>

text \<open>
  A fetch takes the caller's buffer, \<^term>\<open>None\<close> when it is fresh from \<open>malloc\<close>, and gives it back.
\<close>

definition fetchMemoryDiskBlock ::
    "size_t \<Rightarrow> disk_block option \<Rightarrow> dsk \<Rightarrow> int \<times> disk_block option" where
  "fetchMemoryDiskBlock blockNumber blockData d =
     (if NUM_OF_BLOCKS_IN_MEM \<le> blockNumber then (- 1, blockData)
      else (0, Some (mem_disk d blockNumber)))"

definition writeMemoryDiskBlock :: "size_t \<Rightarrow> disk_block \<Rightarrow> dsk \<Rightarrow> int \<times> dsk" where
  "writeMemoryDiskBlock blockNumber blockData d =
     (if NUM_OF_BLOCKS_IN_MEM \<le> blockNumber then (- 1, d)
      else (0, d\<lparr> mem_disk := (mem_disk d)(blockNumber := blockData) \<rparr>))"

section \<open>diskAccess.c\<close>

definition initDeviceAccessor :: "string \<Rightarrow> dsk \<Rightarrow> int \<times> dsk" where
  "initDeviceAccessor inputDev d =
     (if devName d \<noteq> None then (- 1, d)
      else case host_files d inputDev of
        None \<Rightarrow> (- 1, d)
      | Some content \<Rightarrow> (0, d\<lparr> devName := Some inputDev, device := content \<rparr>))"

text \<open>
  \<open>lseek\<close> to \<open>blockNumber * BLOCK_SIZE\<close>, then \<open>read\<close>: the bytes that are there, at most
  \<open>BLOCK_SIZE\<close>; a short read is an error that leaves the bytes it got in the buffer.
\<close>

definition fetchDeviceDiskBlock ::
    "size_t \<Rightarrow> disk_block option \<Rightarrow> dsk \<Rightarrow> int \<times> disk_block option" where
  "fetchDeviceDiskBlock blockNumber blockData d =
     (if NUM_OF_BLOCKS d \<le> blockNumber then (- 1, blockData)
      else
        let got = bytes_at (unat (blockNumber * BLOCK_SIZE)) BLOCK_SIZE (device d)
        in if length got \<noteq> BLOCK_SIZE
           then (- 1, map_option (\<lambda>b. got @ drop (length got) b) blockData)
           else (0, Some got))"

text \<open>
  \<open>write\<close> on a device of fixed size: what fits is written, and beyond the end it is \<open>-1\<close>
  (\<open>ENOSPC\<close>).  A short write is not an error for this code.
\<close>

definition writeDeviceDiskBlock :: "size_t \<Rightarrow> disk_block \<Rightarrow> dsk \<Rightarrow> int \<times> dsk" where
  "writeDeviceDiskBlock blockNumber blockData d =
     (if NUM_OF_BLOCKS d \<le> blockNumber then (- 1, d)
      else
        let off = unat (blockNumber * BLOCK_SIZE);
            fits = take (length (device d) - off) blockData
        in if length (device d) \<le> off then (- 1, d)
           else (0, d\<lparr> device := memcpy_at off fits (device d) \<rparr>))"

section \<open>blkfetch.c\<close>

definition setupDisk :: "string \<Rightarrow> dsk \<Rightarrow> int \<times> dsk" where
  "setupDisk inputDev d =
     (if isDiskAvailable d then (- 1, d)
      else
        let (retValue, d') = initDeviceAccessor inputDev d
        in if retValue = 0 then (retValue, d'\<lparr> isDiskAvailable := True \<rparr>) else (retValue, d'))"

definition getDiskBlock ::
    "size_t \<Rightarrow> disk_block option \<Rightarrow> dsk \<Rightarrow> int \<times> disk_block option" where
  "getDiskBlock blockNumber blockData d =
     (if isDiskAvailable d then fetchDeviceDiskBlock blockNumber blockData d
      else fetchMemoryDiskBlock blockNumber blockData d)"

definition writeDiskBlock :: "size_t \<Rightarrow> disk_block \<Rightarrow> dsk \<Rightarrow> int \<times> dsk" where
  "writeDiskBlock blockNumber blockData d =
     (if isDiskAvailable d then writeDeviceDiskBlock blockNumber blockData d
      else writeMemoryDiskBlock blockNumber blockData d)"

text \<open>
  The idiom of every caller: \<open>malloc\<close> a block and read into it; when the read fails the buffer is
  never written and using it is undefined.  And a write whose return value is dropped.
\<close>

definition read_block :: "size_t \<Rightarrow> dsk \<Rightarrow> disk_block option" where
  "read_block n d = snd (getDiskBlock n None d)"

definition put_block :: "size_t \<Rightarrow> disk_block \<Rightarrow> dsk \<Rightarrow> dsk" where
  "put_block n b d = snd (writeDiskBlock n b d)"

text \<open>The state of a program before \<open>main\<close>: static storage is zero.\<close>

definition static_dsk :: "(string \<Rightarrow> byte list option) \<Rightarrow> time_t \<Rightarrow> dsk" where
  "static_dsk host now =
     \<lparr> mem_disk = (\<lambda>_. replicate BLOCK_SIZE 0), isDiskAvailable = False, devName = None,
       device = [], host_files = host, clock = now, INODE_SIZE = 0, INODES_PER_BLOCK = 0,
       NUM_OF_INODE_BLOCKS = 0, NUM_OF_BLOCKS = 0 \<rparr>"

section \<open>Well-formed disks\<close>

text \<open>The globals hold what \<open>initializeINodeParams\<close> computes.\<close>

definition params_ok :: "dsk \<Rightarrow> bool" where
  "params_ok d \<longleftrightarrow> INODE_SIZE d = 256 \<and> INODES_PER_BLOCK d = 4 \<and>
     NUM_OF_INODE_BLOCKS d = 16384 \<and> NUM_OF_BLOCKS d = 31457280"

definition disk_ok :: "dsk \<Rightarrow> bool" where
  "disk_ok d \<longleftrightarrow> params_ok d \<and> (\<forall>n < NUM_OF_BLOCKS_IN_MEM. length (mem_disk d n) = BLOCK_SIZE)"

text \<open>Block numbers that can be read and written in full.\<close>

definition mem_valid :: "dsk \<Rightarrow> size_t \<Rightarrow> bool" where
  "mem_valid d n \<longleftrightarrow> n < NUM_OF_BLOCKS_IN_MEM"

definition dev_valid :: "dsk \<Rightarrow> size_t \<Rightarrow> bool" where
  "dev_valid d n \<longleftrightarrow> n < NUM_OF_BLOCKS d \<and> unat n * BLOCK_SIZE + BLOCK_SIZE \<le> length (device d)"

definition blk_valid :: "dsk \<Rightarrow> size_t \<Rightarrow> bool" where
  "blk_valid d n = (if isDiskAvailable d then dev_valid d n else mem_valid d n)"

section \<open>The contract of a block store\<close>

locale block_store =
  fixes get :: "size_t \<Rightarrow> dsk \<Rightarrow> disk_block option"
    and put :: "size_t \<Rightarrow> disk_block \<Rightarrow> dsk \<Rightarrow> dsk"
    and valid :: "dsk \<Rightarrow> size_t \<Rightarrow> bool"
  assumes get_valid: "disk_ok d \<Longrightarrow> valid d n \<Longrightarrow> \<exists>b. get n d = Some b \<and> length b = BLOCK_SIZE"
    and get_put_same:
      "disk_ok d \<Longrightarrow> valid d n \<Longrightarrow> length b = BLOCK_SIZE \<Longrightarrow> get n (put n b d) = Some b"
    and get_put_other:
      "disk_ok d \<Longrightarrow> length b = BLOCK_SIZE \<Longrightarrow> m \<noteq> n \<Longrightarrow> valid d m \<Longrightarrow> get m (put n b d) = get m d"
    and valid_put: "disk_ok d \<Longrightarrow> length b = BLOCK_SIZE \<Longrightarrow> valid (put n b d) m = valid d m"
    and ok_put: "disk_ok d \<Longrightarrow> length b = BLOCK_SIZE \<Longrightarrow> disk_ok (put n b d)"
begin

text \<open>The last of two writes to one block wins.\<close>

lemma get_put_put:
  assumes "disk_ok d" and "valid d n" and "length b = BLOCK_SIZE" and "length c = BLOCK_SIZE"
  shows "get n (put n c (put n b d)) = Some c"
  using assms by (simp add: get_put_same ok_put valid_put)

text \<open>Writes to different blocks do not interfere, in either order.\<close>

lemma get_put_swap:
  assumes "disk_ok d" and "valid d k" and "length b = BLOCK_SIZE" and "length c = BLOCK_SIZE"
    and "m \<noteq> n" and "valid d m" and "valid d n"
  shows "get k (put m c (put n b d)) = get k (put n b (put m c d))"
proof -
  note [simp] = assms ok_put valid_put get_put_same get_put_other
  consider "k = m" | "k = n" | "k \<noteq> m \<and> k \<noteq> n" by blast
  then show ?thesis
    using \<open>m \<noteq> n\<close> \<open>m \<noteq> n\<close> [symmetric] by cases auto
qed

text \<open>A failed read of a block that is in range cannot happen.\<close>

lemma get_length: "disk_ok d \<Longrightarrow> valid d n \<Longrightarrow> get n d = Some b \<Longrightarrow> length b = BLOCK_SIZE"
  using get_valid by fastforce

end

section \<open>Interpretations\<close>

lemma unat_blk_offset:
  assumes "params_ok d" and "n < NUM_OF_BLOCKS d"
  shows "unat (n * BLOCK_SIZE) = unat n * BLOCK_SIZE"
proof -
  from assms have "unat n < 31457280" by (simp add: params_ok_def word_less_nat_alt)
  then show ?thesis by (simp add: unat_word_ariths)
qed

interpretation mem: block_store
  "\<lambda>n d. snd (fetchMemoryDiskBlock n None d)" "\<lambda>n b d. snd (writeMemoryDiskBlock n b d)" mem_valid
  by unfold_locales
    (auto simp: fetchMemoryDiskBlock_def writeMemoryDiskBlock_def mem_valid_def disk_ok_def
      params_ok_def not_le)

lemma device_disjoint:
  fixes m n :: size_t
  assumes "m \<noteq> n"
  shows "unat m * BLOCK_SIZE + BLOCK_SIZE \<le> unat n * BLOCK_SIZE \<or>
    unat n * BLOCK_SIZE + BLOCK_SIZE \<le> unat m * (BLOCK_SIZE :: nat)"
proof -
  from assms have "unat m \<noteq> unat n" by (simp add: word_unat_eq_iff)
  then show ?thesis by arith
qed

interpretation dev: block_store
  "\<lambda>n d. snd (fetchDeviceDiskBlock n None d)" "\<lambda>n b d. snd (writeDeviceDiskBlock n b d)" dev_valid
proof
  fix d n b
  assume "disk_ok d" and "dev_valid d n"
  then show "\<exists>b. snd (fetchDeviceDiskBlock n None d) = Some b \<and> length b = BLOCK_SIZE"
    by (auto simp: fetchDeviceDiskBlock_def dev_valid_def disk_ok_def unat_blk_offset not_le Let_def)
next
  fix d n and b :: disk_block
  assume "disk_ok d" and "dev_valid d n" and "length b = BLOCK_SIZE"
  then show "snd (fetchDeviceDiskBlock n None (snd (writeDeviceDiskBlock n b d))) = Some b"
    by (auto simp: fetchDeviceDiskBlock_def writeDeviceDiskBlock_def dev_valid_def disk_ok_def
        unat_blk_offset not_le Let_def)
next
  fix d m n and b :: disk_block
  assume *: "disk_ok d" "length b = BLOCK_SIZE" "m \<noteq> n" "dev_valid d m"
  let ?off = "unat n * BLOCK_SIZE" and ?fits = "take (length (device d) - unat n * BLOCK_SIZE) b"
  have "bytes_at (unat m * BLOCK_SIZE) BLOCK_SIZE (memcpy_at ?off ?fits (device d)) =
      bytes_at (unat m * BLOCK_SIZE) BLOCK_SIZE (device d)" if "?off < length (device d)"
    by (rule bytes_at_memcpy_other)
      (use * that device_disjoint [OF \<open>m \<noteq> n\<close>] in \<open>auto simp: dev_valid_def min_def\<close>)
  with * show "snd (fetchDeviceDiskBlock m None (snd (writeDeviceDiskBlock n b d))) =
      snd (fetchDeviceDiskBlock m None d)"
    by (auto simp: fetchDeviceDiskBlock_def writeDeviceDiskBlock_def dev_valid_def disk_ok_def
        unat_blk_offset params_ok_def not_le Let_def)
next
  fix d m n and b :: disk_block
  assume "disk_ok d" and "length b = BLOCK_SIZE"
  then show "dev_valid (snd (writeDeviceDiskBlock n b d)) m = dev_valid d m"
    and "disk_ok (snd (writeDeviceDiskBlock n b d))"
    by (auto simp: writeDeviceDiskBlock_def dev_valid_def disk_ok_def params_ok_def not_le Let_def)
qed

lemma isDiskAvailable_put_block [frame_simps]: "isDiskAvailable (put_block n b d) = isDiskAvailable d"
  by (simp add: put_block_def writeDiskBlock_def writeDeviceDiskBlock_def writeMemoryDiskBlock_def
      Let_def)

interpretation blk: block_store read_block put_block blk_valid
proof
  note disp = read_block_def put_block_def blk_valid_def getDiskBlock_def writeDiskBlock_def
  show "\<exists>b. read_block n d = Some b \<and> length b = BLOCK_SIZE"
    if "disk_ok d" and "blk_valid d n" for d n
    using that mem.get_valid dev.get_valid by (simp add: disp split: if_splits)
  fix d and b :: disk_block
  assume ok: "disk_ok d" and len: "length b = BLOCK_SIZE"
  note av = isDiskAvailable_put_block [unfolded put_block_def writeDiskBlock_def]
  note M = mem.get_put_same mem.get_put_other mem.valid_put mem.ok_put
  note D = dev.get_put_same dev.get_put_other dev.valid_put dev.ok_put
  show "read_block n (put_block n b d) = Some b" if "blk_valid d n" for n
    using that ok len M(1) [where d = d and n = n and b = b] D(1) [where d = d and n = n and b = b] av [where n = n and b = b and d = d]
    by (auto simp: disp split: if_splits)
  show "read_block m (put_block n b d) = read_block m d" if "m \<noteq> n" and "blk_valid d m" for m n
    using that ok len M(2) [where d = d and b = b and n = n and m = m] D(2) [where d = d and b = b and n = n and m = m] av [where n = n and b = b and d = d]
    by (auto simp: disp split: if_splits)
  show "blk_valid (put_block n b d) m = blk_valid d m" for n m
    using ok len M(3) [where d = d and b = b and n = n and m = m] D(3) [where d = d and b = b and n = n and m = m] av [where n = n and b = b and d = d]
    by (auto simp: disp split: if_splits)
  show "disk_ok (put_block n b d)" for n
    using ok len M(4) [where d = d and b = b and n = n] D(4) [where d = d and b = b and n = n] by (auto simp: disp split: if_splits)
qed

lemmas blk_laws [disk_simps] =
  blk.get_put_same blk.get_put_other blk.valid_put blk.ok_put

text \<open>Fields of the state no block write touches.\<close>

lemma put_block_fields [frame_simps]:
  "clock (put_block n b d) = clock d"
  "INODE_SIZE (put_block n b d) = INODE_SIZE d"
  "INODES_PER_BLOCK (put_block n b d) = INODES_PER_BLOCK d"
  "NUM_OF_INODE_BLOCKS (put_block n b d) = NUM_OF_INODE_BLOCKS d"
  "NUM_OF_BLOCKS (put_block n b d) = NUM_OF_BLOCKS d"
  by (simp_all add: put_block_def writeDiskBlock_def writeDeviceDiskBlock_def
      writeMemoryDiskBlock_def Let_def)

lemma memcpy_at_twice:
  "length a = length b \<Longrightarrow> off + length a \<le> length x \<Longrightarrow> memcpy_at off b (memcpy_at off a x) = memcpy_at off b x"
  by (simp add: memcpy_at_def)

lemma put_block_twice: "length b = length c \<Longrightarrow> put_block n c (put_block n b d) = put_block n c d"
  by (auto simp: put_block_def writeDiskBlock_def writeMemoryDiskBlock_def writeDeviceDiskBlock_def Let_def memcpy_at_twice
      split: if_splits)

lemma params_ok_put_block [frame_simps]: "params_ok (put_block n b d) = params_ok d"
  by (simp add: params_ok_def frame_simps)

lemma disk_ok_params: "disk_ok d \<Longrightarrow> params_ok d"
  by (simp add: disk_ok_def)

lemma params_ok_initializeINodeParams: "params_ok (initializeINodeParams d)"
  by (simp add: initializeINodeParams_def params_ok_def inode_size_loop.simps)

lemma initializeINodeParams_fields [frame_simps]:
  "mem_disk (initializeINodeParams d) = mem_disk d"
  "isDiskAvailable (initializeINodeParams d) = isDiskAvailable d"
  "device (initializeINodeParams d) = device d"
  by (simp_all add: initializeINodeParams_def)

text \<open>The blank memory disk, with the sizes computed.\<close>

definition blank_disk :: dsk where
  "blank_disk = initializeINodeParams (static_dsk (\<lambda>_. None) 0)"

lemma disk_ok_blank: "disk_ok blank_disk"
  by (simp add: blank_disk_def disk_ok_def params_ok_initializeINodeParams frame_simps static_dsk_def)

lemma blk_valid_blank: "blk_valid blank_disk n \<longleftrightarrow> n < 65536"
  by (simp add: blank_disk_def blk_valid_def mem_valid_def frame_simps static_dsk_def)

section \<open>Properties\<close>

text \<open>
  C33. The block layer behaves as an array of blocks, whichever of the memory disk and the device file
  serves it: a block that is written is read back unchanged, every other readable block keeps its
  content, and the disk stays well-formed with the same readable blocks.
\<close>

theorem disk_write_read:
  assumes "disk_ok d" and "blk_valid d n" and "length b = BLOCK_SIZE"
  shows "read_block n (put_block n b d) = Some b \<and>
    (\<forall>m. m \<noteq> n \<and> blk_valid d m \<longrightarrow> read_block m (put_block n b d) = read_block m d) \<and>
    disk_ok (put_block n b d) \<and> (\<forall>m. blk_valid (put_block n b d) m = blk_valid d m)"
  using assms by (simp add: disk_simps)

theorem disk_write_read_witness:
  "read_block 7 (put_block 7 (replicate BLOCK_SIZE 1) blank_disk) = Some (replicate BLOCK_SIZE 1)"
  using disk_write_read [OF disk_ok_blank, of 7 "replicate BLOCK_SIZE 1"] by (simp add: blk_valid_blank)

text \<open>
  Whatever the globals held before, \<open>initializeINodeParams\<close> computes an inode slot of 256 bytes, the
  smallest power of two above the 176 bytes of \<open>struct iNode\<close>, so that four whole slots fill a block, the
  table of 65536 inodes takes 16384 blocks, and a disk has 31457280 blocks.
\<close>

lemma disk_sizes:
  "params_ok (initializeINodeParams d) \<and> unat (INODES_PER_BLOCK (initializeINodeParams d)) *
     unat (INODE_SIZE (initializeINodeParams d)) = BLOCK_SIZE \<and>
   sizeof_iNode < unat (INODE_SIZE (initializeINodeParams d)) \<and>
   unat (INODE_SIZE (initializeINodeParams d)) \<le> 2 * sizeof_iNode"
  using params_ok_initializeINodeParams [of d] by (simp add: params_ok_def)

text \<open>
  An access outside the disk is refused with \<open>-1\<close> and changes neither the caller's buffer nor the disk,
  on the memory disk and on a device alike.
\<close>

lemma disk_out_of_range:
  assumes "if isDiskAvailable d then NUM_OF_BLOCKS d \<le> n else NUM_OF_BLOCKS_IN_MEM \<le> n"
  shows "getDiskBlock n buf d = (- 1, buf) \<and> writeDiskBlock n b d = (- 1, d)"
  using assms by (auto simp: getDiskBlock_def writeDiskBlock_def fetchDeviceDiskBlock_def
      writeDeviceDiskBlock_def fetchMemoryDiskBlock_def writeMemoryDiskBlock_def split: if_splits)

text \<open>
  The device is attached at most once: after a successful \<open>setupDisk\<close> the blocks come from the file
  named, and every further \<open>setupDisk\<close> is refused without effect.
\<close>

lemma setupDisk_once:
  assumes "setupDisk dev d = (0, d')"
  shows "isDiskAvailable d' \<and> devName d' = Some dev \<and> Some (device d') = host_files d dev \<and>
    setupDisk dev' d' = (- 1, d')"
  using assms by (auto simp: setupDisk_def initDeviceAccessor_def split: if_splits option.splits)

end
