(* ===== verification/MetaBlocks.thy ===== *)
theory MetaBlocks
  imports Disk
begin

text \<open>
  The structures kept in whole blocks (\<open>include/mkfs/metaBlocks.h\<close>, \<open>src/mkfs/metaBlocks.c\<close>) and the
  two functions of \<open>src/inode/iNode.c\<close> that fill a block.  The structures whose only member is an
  array are that array: \<open>freeDiskListBlock\<close> has 128 block numbers, \<open>iNodeListBlock\<close> 512 inode
  numbers, of which two bytes each are stored.

  The lemmas are the round trips between the structures and their blocks.
\<close>

section \<open>Data\<close>

record superBlock =
  rememberedINode :: size_t

type_synonym freeDiskListBlock = "size_t list"
type_synonym iNodeListBlock = "size_t list"

record iNodesBlock =
  iNodesList :: "iNode list"

section \<open>metaBlocks.c\<close>

definition makeSuperBlock :: "disk_block \<Rightarrow> superBlock" where
  "makeSuperBlock blockPtr =
     \<lparr> rememberedINode = memcpy_low (bytes_at 0 INODE_ADDRESS_SIZE blockPtr) 0 \<rparr>"

definition writeSuperBlock :: "superBlock \<Rightarrow> disk_block \<Rightarrow> disk_block" where
  "writeSuperBlock theBlock blockPtr =
     memcpy_at 0 (le_bytes INODE_ADDRESS_SIZE (rememberedINode theBlock)) blockPtr"

definition makeFreeDiskListBlock :: "disk_block \<Rightarrow> freeDiskListBlock" where
  "makeFreeDiskListBlock blockPtr =
     load_entries BLOCK_ADDRESS_SIZE (BLOCK_SIZE div BLOCK_ADDRESS_SIZE) 0 0 blockPtr"

definition writeFreeDiskListBlock :: "freeDiskListBlock \<Rightarrow> disk_block \<Rightarrow> disk_block" where
  "writeFreeDiskListBlock theBlock blockPtr = store_entries BLOCK_ADDRESS_SIZE theBlock 0 blockPtr"

definition makeINodeListBlock :: "disk_block \<Rightarrow> iNodeListBlock" where
  "makeINodeListBlock blockPtr =
     load_entries INODE_ADDRESS_SIZE (BLOCK_SIZE div INODE_ADDRESS_SIZE) 0 0 blockPtr"

definition writeINodeListBlock :: "iNodeListBlock \<Rightarrow> disk_block \<Rightarrow> disk_block" where
  "writeINodeListBlock theBlock blockPtr = store_entries INODE_ADDRESS_SIZE theBlock 0 blockPtr"

text \<open>
  One \<open>memcpy\<close> of \<open>INODES_PER_BLOCK * sizeof(iNode)\<close> bytes between the start of the block and an
  array of \<open>iNode\<close>: the inodes are taken to lie \<open>sizeof(iNode)\<close> bytes apart.
\<close>

definition makeINodesBlock :: "dsk \<Rightarrow> disk_block \<Rightarrow> iNodesBlock" where
  "makeINodesBlock d blockPtr =
     \<lparr> iNodesList = map (\<lambda>k. iNode_of_bytes (bytes_at (sizeof_iNode * k) sizeof_iNode blockPtr))
         [0..<unat (INODES_PER_BLOCK d)] \<rparr>"

definition writeINodesBlock :: "dsk \<Rightarrow> iNodesBlock \<Rightarrow> disk_block \<Rightarrow> disk_block" where
  "writeINodesBlock d theBlock blockPtr =
     memcpy_at 0 (concat (map iNode_bytes (take (unat (INODES_PER_BLOCK d)) (iNodesList theBlock))))
       blockPtr"

section \<open>iNode.c\<close>

text \<open>
  The loop of \<open>populateINodesIn\<close>; \<open>ptr\<close> is \<open>ptrIntoBlock - blockPtr->data\<close>.  With \<open>INODE_SIZE\<close> still
  zero it would run for ever, and a \<open>memcpy\<close> past the end of the block is undefined.
\<close>

partial_function (option) populate_loop ::
    "nat \<Rightarrow> nat \<Rightarrow> size_t \<Rightarrow> disk_block \<Rightarrow> (size_t \<times> disk_block) option" where
  "populate_loop iNodeSize ptr iNodeCounter b =
     (if ptr < BLOCK_SIZE then
        if ptr + sizeof_iNode \<le> BLOCK_SIZE then
          populate_loop iNodeSize (ptr + iNodeSize) (iNodeCounter + 1)
            (memcpy_at ptr (iNode_bytes (initializeINode iNodeCounter)) b)
        else None
      else Some (iNodeCounter, b))"

definition populateINodesIn :: "size_t \<Rightarrow> dsk \<Rightarrow> (size_t \<times> disk_block) option" where
  "populateINodesIn iNodeNum d =
     populate_loop (unat (INODE_SIZE d)) 0 iNodeNum (replicate BLOCK_SIZE 0)"

text \<open>
  \<open>initINodeListBlock\<close> does not look at the end of the block while it copies; a list of more than
  512 numbers would be written past it.
\<close>

primrec init_list_loop :: "size_t list \<Rightarrow> nat \<Rightarrow> disk_block \<Rightarrow> (nat \<times> disk_block) option" where
  "init_list_loop [] ptr b = Some (ptr, b)"
| "init_list_loop (x # xs) ptr b =
     (if ptr + INODE_ADDRESS_SIZE \<le> BLOCK_SIZE
      then init_list_loop xs (ptr + INODE_ADDRESS_SIZE) (memcpy_at ptr (le_bytes INODE_ADDRESS_SIZE x) b)
      else None)"

definition initINodeListBlock :: "size_t list \<Rightarrow> (size_t \<times> disk_block) option" where
  "initINodeListBlock iNodeList =
     do {
       (ptr, b) \<leftarrow> init_list_loop iNodeList 0 (replicate BLOCK_SIZE 0);
       Some (if ptr = BLOCK_SIZE then iNodeList ! (length iNodeList - 1) else 0, b)
     }"

section \<open>Lemmas: block number lists\<close>

lemma length_makeFreeDiskListBlock [simp]: "length (makeFreeDiskListBlock b) = 128"
  by (simp add: makeFreeDiskListBlock_def)

lemma length_writeFreeDiskListBlock [simp]:
  "length xs = 128 \<Longrightarrow> length b = BLOCK_SIZE \<Longrightarrow> length (writeFreeDiskListBlock xs b) = BLOCK_SIZE"
  by (simp add: writeFreeDiskListBlock_def)

lemma make_writeFreeDiskListBlock [codec_simps]:
  assumes "length xs = 128" and "length b = BLOCK_SIZE"
  shows "makeFreeDiskListBlock (writeFreeDiskListBlock xs b) = xs"
  using load_store_entries [of 8 xs b] assms
  by (simp add: makeFreeDiskListBlock_def writeFreeDiskListBlock_def codec_simps)

lemma write_makeFreeDiskListBlock [codec_simps]:
  assumes "length b = BLOCK_SIZE" and "length b' = BLOCK_SIZE"
  shows "writeFreeDiskListBlock (makeFreeDiskListBlock b) b' = b"
  using store_load_entries [of 8 128 b b'] assms
  by (simp add: makeFreeDiskListBlock_def writeFreeDiskListBlock_def)

section \<open>Lemmas: inode number lists and the super block\<close>

lemma length_makeINodeListBlock [simp]: "length (makeINodeListBlock b) = 512"
  by (simp add: makeINodeListBlock_def)

lemma length_writeINodeListBlock [simp]:
  "length xs = 512 \<Longrightarrow> length b = BLOCK_SIZE \<Longrightarrow> length (writeINodeListBlock xs b) = BLOCK_SIZE"
  by (simp add: writeINodeListBlock_def)

lemma le_word_low2: "le_word (le_bytes 2 x) = x mod (65536 :: size_t)"
  by (rule word_unat_eq_iff [THEN iffD2])
    (simp add: le_word_le_bytes_low unat_of_nat unat_mod_distrib)

lemma make_writeINodeListBlock [codec_simps]:
  assumes "length xs = 512" and "length b = BLOCK_SIZE"
  shows "makeINodeListBlock (writeINodeListBlock xs b) = map (\<lambda>x. x mod 65536) xs"
  using load_store_entries [of 2 xs b] assms
  by (simp add: makeINodeListBlock_def writeINodeListBlock_def le_word_low2)

lemma write_makeINodeListBlock [codec_simps]:
  assumes "length b = BLOCK_SIZE" and "length b' = BLOCK_SIZE"
  shows "writeINodeListBlock (makeINodeListBlock b) b' = b"
  using store_load_entries [of 2 512 b b'] assms
  by (simp add: makeINodeListBlock_def writeINodeListBlock_def)

lemma makeINodeListBlock_bound:
  assumes "length b = BLOCK_SIZE" and "x \<in> set (makeINodeListBlock b)"
  shows "x < NUM_OF_INODES"
proof -
  have "makeINodeListBlock b = map (\<lambda>k. le_word (bytes_at (2 * k) 2 b)) [0..<512]"
    using assms(1) by (simp add: makeINodeListBlock_def load_entries_eq del: upt_rec_numeral)
  with assms(2) obtain k where "k < 512" and x: "x = le_word (bytes_at (2 * k) 2 b)"
    by auto
  then have "unat x < 65536"
    using unat_le_word_2 [of "bytes_at (2 * k) 2 b"] assms(1) by simp
  then show ?thesis by (simp add: word_less_nat_alt)
qed

lemma length_writeSuperBlock [simp]:
  "length b = BLOCK_SIZE \<Longrightarrow> length (writeSuperBlock sb b) = BLOCK_SIZE"
  by (simp add: writeSuperBlock_def)

lemma make_writeSuperBlock [codec_simps]:
  assumes "length b = BLOCK_SIZE"
  shows "makeSuperBlock (writeSuperBlock sb b) = \<lparr> rememberedINode = rememberedINode sb mod 65536 \<rparr>"
  using assms
  by (simp add: makeSuperBlock_def writeSuperBlock_def memcpy_low_clean le_word_low2)

lemma makeFreeDiskListBlock_store_prefix:
  assumes "length xs \<le> 128"
  shows "makeFreeDiskListBlock (store_entries 8 xs 0 (replicate BLOCK_SIZE 0)) =
    xs @ replicate (128 - length xs) 0"
proof -
  let ?zs = "replicate (128 - length xs) (0 :: size_t)"
  have z: "concat (map (le_bytes 8) (replicate n (0 :: size_t))) = replicate (8 * n) 0" for n
    by (induction n) (simp_all add: le_bytes_def nat_bytes_0 replicate_add [symmetric])
  have "store_entries 8 xs 0 (replicate BLOCK_SIZE 0) =
      store_entries 8 (xs @ ?zs) 0 (replicate BLOCK_SIZE 0)"
    using assms z [of "128 - length xs"] by (simp add: store_entries_eq)
  also have "\<dots> = writeFreeDiskListBlock (xs @ ?zs) (replicate BLOCK_SIZE 0)"
    by (simp add: writeFreeDiskListBlock_def)
  finally show ?thesis using assms by (simp add: codec_simps)
qed

lemma makeFreeDiskListBlock_zero: "makeFreeDiskListBlock (replicate BLOCK_SIZE 0) = replicate 128 0"
  using makeFreeDiskListBlock_store_prefix [of "[]"] by simp

section \<open>Properties\<close>

text \<open>
  A free list block and its block of bytes determine each other: 128 block numbers of eight bytes, written
  and read back in both directions.
\<close>

lemma free_list_block_roundtrip:
  assumes "length nos = BLOCK_ADDRESSES_PER_BLOCK" and "length b = BLOCK_SIZE" and "length b' = BLOCK_SIZE"
  shows "makeFreeDiskListBlock (writeFreeDiskListBlock nos b) = nos \<and>
    writeFreeDiskListBlock (makeFreeDiskListBlock b) b' = b"
  using assms by (simp add: codec_simps)

text \<open>
  An inode list block keeps two bytes of each of its 512 numbers: it reads back the numbers modulo 65536,
  which are the numbers themselves for every inode there is.
\<close>

lemma inode_list_block_roundtrip:
  assumes "length nos = INODE_NOS_PER_BLOCK" and "length b = BLOCK_SIZE"
  shows "makeINodeListBlock (writeINodeListBlock nos b) = map (\<lambda>x. x mod NUM_OF_INODES) nos"
  using assms by (simp add: codec_simps)

end
