(* ===== verification/DiskINodes.thy ===== *)
theory DiskINodes
  imports MetaBlocks
begin

text \<open>
  The inode table on the disk: \<open>src/mkfs/iNodeManager.c\<close> (reading, writing and searching disk
  inodes), \<open>src/mkfs/ialloc.c\<close> (allocation from the free inode list) and \<open>src/mkfs/ifree.c\<close>.

  The mutexes of \<open>ialloc.c\<close> and \<open>ifree.c\<close> are taken and released within one call; the file system
  runs single threaded, so they have no state here.

  The lemmas state the table as the locale \<open>inode_store\<close> (read after write, no interference
  between different inodes) and give the behaviour of allocation and release on the free list.
\<close>

section \<open>iNodeManager.c\<close>

datatype iNodeAccessType = INODE_READ | INODE_WRITE

definition getReturnValue :: "iNodeListBlock \<Rightarrow> nat \<Rightarrow> size_t" where
  "getReturnValue iNodeNums freeINodeCounter =
     (if freeINodeCounter = 0 then 0
      else if freeINodeCounter < INODE_NOS_PER_BLOCK then 0
      else iNodeNums ! (freeINodeCounter - 1))"

text \<open>
  \<open>nextAddrAt\<close> is the index into \<open>iNodeNos\<close>; the caller does not leave room for a whole block of
  free inodes, so the write can fall behind the array.
\<close>

fun getFromBlock :: "iNode list \<Rightarrow> nat \<Rightarrow> iNodeListBlock \<Rightarrow> (nat \<times> iNodeListBlock) option" where
  "getFromBlock [] nextAddrAt nos = Some (0, nos)"
| "getFromBlock (theINode # rest) nextAddrAt nos =
     (if di_type theINode = T_FREE then
        if nextAddrAt < length nos then
          do {
            (collectedCount, nos') \<leftarrow>
              getFromBlock rest (nextAddrAt + 1) (nos[nextAddrAt := di_inode_number theINode]);
            Some (collectedCount + 1, nos')
          }
        else None
      else getFromBlock rest nextAddrAt nos)"

definition endOfINodeBlocks :: "dsk \<Rightarrow> size_t" where
  "endOfINodeBlocks d = INODE_BLOCKS_HEAD + INODE_SIZE d * NUM_OF_INODES div BLOCK_SIZE"

function search_loop ::
    "size_t \<Rightarrow> nat \<Rightarrow> iNodeListBlock \<Rightarrow> dsk \<Rightarrow> (nat \<times> iNodeListBlock) option" where
  "search_loop blockCounter freeINodeCounter nos d =
     (if freeINodeCounter < INODE_NOS_PER_BLOCK then
        if endOfINodeBlocks d \<le> blockCounter then Some (freeINodeCounter, nos)
        else
          do {
            iNodesData \<leftarrow> read_block blockCounter d;
            (c, nos') \<leftarrow> getFromBlock (iNodesList (makeINodesBlock d iNodesData)) freeINodeCounter nos;
            search_loop (blockCounter + 1) (freeINodeCounter + c) nos' d
          }
      else Some (freeINodeCounter, nos))"
  by pat_completeness auto
termination
proof (relation "measure (\<lambda>(blockCounter, c, nos, d). unat (endOfINodeBlocks d) - unat blockCounter)")
  fix blockCounter :: size_t and d :: dsk and c :: nat and nos :: iNodeListBlock
    and c' :: nat and nos' :: iNodeListBlock
  assume "\<not> endOfINodeBlocks d \<le> blockCounter"
  then have lt: "blockCounter < endOfINodeBlocks d" by simp
  then have "unat (blockCounter + 1) = unat blockCounter + 1" by (rule unat_add1_less)
  with lt show "((blockCounter + 1, c', nos', d), (blockCounter, c, nos, d)) \<in>
      measure (\<lambda>(blockCounter, c, nos, d). unat (endOfINodeBlocks d) - unat blockCounter)"
    by (simp add: word_less_nat_alt)
qed simp

declare search_loop.simps [simp del]

definition searchINodes :: "size_t \<Rightarrow> iNodeListBlock \<Rightarrow> dsk \<Rightarrow> (size_t \<times> iNodeListBlock) option" where
  "searchINodes startINodeNum iNodeNums d =
     (if startINodeNum = 0 then Some (0, iNodeNums)
      else if INODES_PER_BLOCK d = 0 then None
      else
        do {
          (freeINodeCounter, nos) \<leftarrow>
            search_loop (startINodeNum div INODES_PER_BLOCK d + INODE_BLOCKS_HEAD) 0 iNodeNums d;
          Some (getReturnValue nos freeINodeCounter, nos)
        })"

text \<open>
  Every caller passes \<open>NULL\<close> for \<open>blockPtr\<close>, so the block buffer is a local \<open>malloc\<close>.  \<open>inode\<close> is the
  caller's buffer, \<^term>\<open>None\<close> while it is uninitialised; before \<open>initializeINodeParams\<close> the
  division by \<open>INODES_PER_BLOCK\<close> traps.
\<close>

definition accessINodeAndItsBlock ::
    "size_t \<Rightarrow> iNode option \<Rightarrow> iNodeAccessType \<Rightarrow> dsk \<Rightarrow> (int \<times> iNode option \<times> dsk) option" where
  "accessINodeAndItsBlock iNodeNum inode accessType d =
     (if NUM_OF_INODES \<le> iNodeNum then Some (- 1, inode, d)
      else if INODES_PER_BLOCK d = 0 then None
      else
        let blockNum = iNodeNum div INODES_PER_BLOCK d + INODE_BLOCKS_HEAD;
            index = iNodeNum mod INODES_PER_BLOCK d;
            off = unat (index * INODE_SIZE d)
        in do {
          metaBlock \<leftarrow> read_block blockNum d;
          case accessType of
            INODE_READ \<Rightarrow>
              if off + sizeof_iNode \<le> BLOCK_SIZE
              then Some (0, Some (iNode_of_bytes (bytes_at off sizeof_iNode metaBlock)), d)
              else None
          | INODE_WRITE \<Rightarrow>
              if off + max sizeof_iNode (unat (INODE_SIZE d)) \<le> BLOCK_SIZE
              then do {
                i \<leftarrow> inode;
                let cleared = memset_at off 0 (unat (INODE_SIZE d)) metaBlock;
                Some (0, inode, put_block blockNum (memcpy_at off (iNode_bytes i) cleared) d)
              }
              else None
        })"

definition updateINodeData ::
    "size_t \<Rightarrow> iNodeType \<Rightarrow> mode_t \<Rightarrow> uid_t \<Rightarrow> gid_t \<Rightarrow> size_t \<Rightarrow> size_t \<Rightarrow> dsk \<Rightarrow> dsk option" where
  "updateINodeData iNodeNum iType mode o_uid g_uid sz links d =
     do {
       (_, inode, d) \<leftarrow> accessINodeAndItsBlock iNodeNum None INODE_READ d;
       let inode = map_option (\<lambda>i. i
             \<lparr> di_status_change := clock d, di_type := iType, di_file_mode := mode,
               di_owner_uid := o_uid, di_group_uid := g_uid, di_size := sz,
               di_linksCount := links \<rparr>) inode;
       (_, _, d) \<leftarrow> accessINodeAndItsBlock iNodeNum inode INODE_WRITE d;
       Some d
     }"

definition getDiskInode :: "size_t \<Rightarrow> dsk \<Rightarrow> (int \<times> iNode option) option" where
  "getDiskInode iNodeNum d =
     map_option (\<lambda>(r, i, _). (r, i)) (accessINodeAndItsBlock iNodeNum None INODE_READ d)"

definition writeDiskInode :: "size_t \<Rightarrow> iNode \<Rightarrow> dsk \<Rightarrow> (int \<times> dsk) option" where
  "writeDiskInode iNodeNum inode d =
     map_option (\<lambda>(r, _, d'). (r, d')) (accessINodeAndItsBlock iNodeNum (Some inode) INODE_WRITE d)"

section \<open>ialloc.c\<close>

text \<open>The scan of \<open>checkAndGetFreeINode\<close>; it returns \<open>counter\<close> and \<open>freeINode\<close> as they are after it.\<close>

function free_scan :: "nat \<Rightarrow> size_t \<Rightarrow> iNodeListBlock \<Rightarrow> nat \<times> size_t" where
  "free_scan counter freeINode nos =
     (if counter < INODE_NOS_PER_BLOCK \<and> freeINode = 0
      then free_scan (counter + 1) (nos ! counter) nos
      else (counter, freeINode))"
  by pat_completeness auto
termination
  by (relation "measure (\<lambda>(counter, f, nos). INODE_NOS_PER_BLOCK - counter)") auto

declare free_scan.simps [simp del]

definition checkAndGetFreeINode :: "iNodeListBlock \<Rightarrow> size_t \<times> iNodeListBlock" where
  "checkAndGetFreeINode iNodeList =
     (let (counter, freeINode) = free_scan 0 0 iNodeList
      in if counter = INODE_NOS_PER_BLOCK then (SIZE_MAX, iNodeList)
         else (freeINode, iNodeList[counter - 1 := 0]))"

definition fetchFreeINodes :: "iNodeListBlock \<Rightarrow> dsk \<Rightarrow> (iNodeListBlock \<times> dsk) option" where
  "fetchFreeINodes iNodeList d =
     do {
       superBlockData \<leftarrow> read_block SUPER_BLOCK d;
       let theSuperBlock = makeSuperBlock superBlockData;
       (remembered, nos) \<leftarrow> searchINodes (rememberedINode theSuperBlock) iNodeList d;
       let theSuperBlock = theSuperBlock\<lparr> rememberedINode := remembered \<rparr>;
       Some (nos, put_block SUPER_BLOCK (writeSuperBlock theSuperBlock superBlockData) d)
     }"

definition getNewINode :: "iNodeType \<Rightarrow> mode_t \<Rightarrow> uid_t \<Rightarrow> gid_t \<Rightarrow> dsk \<Rightarrow> (size_t \<times> dsk) option" where
  "getNewINode fileType fileMode uid gid d =
     do {
       iNodeListData \<leftarrow> read_block INODE_LIST_BLOCK d;
       let (freeINode, iNodeList) = checkAndGetFreeINode (makeINodeListBlock iNodeListData);
       (freeINode, iNodeList, d) \<leftarrow>
         (if freeINode = 0 then
            do {
              (iNodeList, d) \<leftarrow> fetchFreeINodes iNodeList d;
              let (freeINode, iNodeList) = checkAndGetFreeINode iNodeList;
              Some (freeINode, iNodeList, d)
            }
          else Some (freeINode, iNodeList, d));
       d \<leftarrow> updateINodeData freeINode fileType fileMode uid gid 0 0 d;
       Some (freeINode, put_block INODE_LIST_BLOCK (writeINodeListBlock iNodeList iNodeListData) d)
     }"

section \<open>ifree.c\<close>

function save_scan :: "nat \<Rightarrow> size_t \<Rightarrow> iNodeListBlock \<Rightarrow> nat \<times> iNodeListBlock" where
  "save_scan counter iNodeNum nos =
     (if counter < INODE_NOS_PER_BLOCK then
        if nos ! counter \<noteq> 0
        then (counter, if 0 < counter then nos[counter - 1 := iNodeNum] else nos)
        else save_scan (counter + 1) iNodeNum nos
      else (counter, nos))"
  by pat_completeness auto
termination
  by (relation "measure (\<lambda>(counter, n, nos). INODE_NOS_PER_BLOCK - counter)") auto

declare save_scan.simps [simp del]

definition saveInListIfPossible :: "size_t \<Rightarrow> iNodeListBlock \<Rightarrow> bool \<times> iNodeListBlock" where
  "saveInListIfPossible iNodeNum iNodeList =
     (let (counter, nos) = save_scan 0 iNodeNum iNodeList in (counter \<noteq> 0, nos))"

definition rememberIfNeeded :: "size_t \<Rightarrow> iNodeListBlock \<Rightarrow> dsk \<Rightarrow> dsk option" where
  "rememberIfNeeded iNodeNum iNodeList d =
     (let lastINodeNum = iNodeList ! (INODE_NOS_PER_BLOCK - 1)
      in if lastINodeNum < iNodeNum then Some d
         else do {
           superBlockData \<leftarrow> read_block SUPER_BLOCK d;
           let theSuperBlock = (makeSuperBlock superBlockData)\<lparr> rememberedINode := iNodeNum \<rparr>;
           Some (put_block SUPER_BLOCK (writeSuperBlock theSuperBlock superBlockData) d)
         })"

text \<open>
  When the number does not fit into the list, \<open>iNodeListData\<close> is freed in the branch and once more
  after it: a double \<open>free\<close>, which is undefined.
\<close>

definition freeINode :: "size_t \<Rightarrow> dsk \<Rightarrow> dsk option" where
  "freeINode iNodeNum d =
     do {
       d \<leftarrow> updateINodeData iNodeNum 0 0 0 0 0 0 d;
       iNodeListData \<leftarrow> read_block INODE_LIST_BLOCK d;
       let (isSavedInList, iNodeList) = saveInListIfPossible iNodeNum (makeINodeListBlock iNodeListData);
       if \<not> isSavedInList then
         do { d \<leftarrow> rememberIfNeeded iNodeNum iNodeList d; None }
       else Some (put_block INODE_LIST_BLOCK (writeINodeListBlock iNodeList iNodeListData) d)
     }"


section \<open>The inode table as a store\<close>

text \<open>All blocks before the first data block are on the disk.\<close>

definition meta_ok :: "dsk \<Rightarrow> bool" where
  "meta_ok d \<longleftrightarrow> disk_ok d \<and> (\<forall>n < 16388. blk_valid d n)"

locale inode_store =
  fixes getI :: "size_t \<Rightarrow> dsk \<Rightarrow> (int \<times> iNode option) option"
    and putI :: "size_t \<Rightarrow> iNode \<Rightarrow> dsk \<Rightarrow> (int \<times> dsk) option"
    and ok :: "dsk \<Rightarrow> bool"
  assumes get_in_range: "ok d \<Longrightarrow> n < NUM_OF_INODES \<Longrightarrow> \<exists>i. getI n d = Some (0, Some i) \<and> wf_iNode i"
    and put_in_range:
      "ok d \<Longrightarrow> n < NUM_OF_INODES \<Longrightarrow> wf_iNode i \<Longrightarrow> \<exists>d'. putI n i d = Some (0, d') \<and> ok d'"
    and get_after_put:
      "ok d \<Longrightarrow> n < NUM_OF_INODES \<Longrightarrow> wf_iNode i \<Longrightarrow> putI n i d = Some (0, d') \<Longrightarrow>
       getI n d' = Some (0, Some i)"
    and get_other_after_put:
      "ok d \<Longrightarrow> n < NUM_OF_INODES \<Longrightarrow> m < NUM_OF_INODES \<Longrightarrow> m \<noteq> n \<Longrightarrow> wf_iNode i \<Longrightarrow>
       putI n i d = Some (0, d') \<Longrightarrow> getI m d' = getI m d"
    and get_out_of_range: "NUM_OF_INODES \<le> n \<Longrightarrow> getI n d = Some (- 1, None)"
    and put_out_of_range: "NUM_OF_INODES \<le> n \<Longrightarrow> putI n i d = Some (- 1, d)"
begin

text \<open>Writing back what was read changes no inode.\<close>

lemma put_get_same:
  assumes "ok d" and "n < NUM_OF_INODES" and "getI n d = Some (0, Some i)" and "wf_iNode i"
    and "putI n i d = Some (0, d')" and "m < NUM_OF_INODES"
  shows "getI m d' = getI m d"
  using assms get_after_put get_other_after_put by (cases "m = n") auto

text \<open>A write either fails without effect or is read back.\<close>

lemma put_cases:
  assumes "ok d" and "wf_iNode i"
  obtains (written) d' where "putI n i d = Some (0, d')" and "ok d'" and "getI n d' = Some (0, Some i)"
  | (refused) "putI n i d = Some (- 1, d)"
proof (cases "n < NUM_OF_INODES")
  case True
  from put_in_range [OF assms(1) True assms(2)] obtain d'
    where "putI n i d = Some (0, d')" and "ok d'" by blast
  with get_after_put [OF assms(1) True assms(2)] written show ?thesis by blast
qed (use put_out_of_range refused in \<open>simp add: not_less\<close>)

end

section \<open>Where an inode lies\<close>

definition iblk :: "size_t \<Rightarrow> size_t" where
  "iblk n = n div 4 + INODE_BLOCKS_HEAD"

definition ioff :: "size_t \<Rightarrow> nat" where
  "ioff n = unat n mod 4 * 256"

lemma ioff_bound: "ioff n + 256 \<le> BLOCK_SIZE"
proof -
  have "unat n mod 4 < 4" by simp
  then show ?thesis unfolding ioff_def by linarith
qed

lemma unat_ioff: "unat ((n :: size_t) mod 4 * 256) = ioff n"
  by (simp add: ioff_def unat_word_ariths unat_mod_distrib)

lemma unat_iblk:
  assumes "n < NUM_OF_INODES"
  shows "unat (iblk n) = unat n div 4 + 4"
proof -
  have "unat n < 65536" using assms by (simp add: word_less_nat_alt)
  then show ?thesis by (simp add: iblk_def unat_word_ariths unat_div_distrib)
qed

lemma iblk_range:
  assumes "n < NUM_OF_INODES"
  shows "iblk n < 16388" and "3 < iblk n"
proof -
  have "unat n < 65536" using assms by (simp add: word_less_nat_alt)
  then show "iblk n < 16388" and "3 < iblk n"
    using unat_iblk [OF assms] by (simp_all add: word_less_nat_alt)
qed

lemma iblk_ioff_disjoint:
  assumes "m < NUM_OF_INODES" and "n < NUM_OF_INODES" and "m \<noteq> n" and "iblk m = iblk n"
  shows "ioff m + 256 \<le> ioff n \<or> ioff n + 256 \<le> ioff m"
proof -
  have "unat m div 4 = unat n div 4"
    using assms unat_iblk [of m] unat_iblk [of n] by simp
  moreover have "unat m \<noteq> unat n" using \<open>m \<noteq> n\<close> by (simp add: word_unat_eq_iff)
  ultimately have "unat m mod 4 \<noteq> unat n mod 4" by (metis div_mult_mod_eq)
  then show ?thesis unfolding ioff_def by linarith
qed

definition inode_at :: "dsk \<Rightarrow> size_t \<Rightarrow> iNode" where
  "inode_at d n = iNode_of_bytes (bytes_at (ioff n) sizeof_iNode (the (read_block (iblk n) d)))"

definition put_inode :: "size_t \<Rightarrow> iNode \<Rightarrow> dsk \<Rightarrow> dsk" where
  "put_inode n i d = put_block (iblk n)
     (memcpy_at (ioff n) (iNode_bytes i) (memset_at (ioff n) 0 256 (the (read_block (iblk n) d)))) d"

lemma meta_okD:
  assumes "meta_ok d"
  shows "disk_ok d" and "INODE_SIZE d = 256" and "INODES_PER_BLOCK d = 4"
    and "n < 16388 \<Longrightarrow> blk_valid d n"
  using assms by (auto simp: meta_ok_def disk_ok_def params_ok_def)

lemma meta_ok_put_block [disk_simps]:
  "meta_ok d \<Longrightarrow> length b = BLOCK_SIZE \<Longrightarrow> meta_ok (put_block n b d)"
  by (auto simp: meta_ok_def disk_simps)

lemma meta_block:
  assumes "meta_ok d" and "n < 16388"
  obtains b where "read_block n d = Some b" and "length b = BLOCK_SIZE"
  using assms blk.get_valid [of d n] by (auto simp: meta_ok_def)

lemma inode_block:
  assumes "meta_ok d" and "n < NUM_OF_INODES"
  obtains b where "read_block (iblk n) d = Some b" and "length b = BLOCK_SIZE"
  using meta_block [OF assms(1) iblk_range(1) [OF assms(2)]] .

lemma wf_inode_at [simp]: "wf_iNode (inode_at d n)"
  by (simp add: inode_at_def)

text \<open>The image of an inode in its block, whatever surrounds it.\<close>

lemma length_inode_image:
  assumes "length b = BLOCK_SIZE" and "wf_iNode i"
  shows "length (memcpy_at (ioff n) (iNode_bytes i) (memset_at (ioff n) 0 256 b)) = BLOCK_SIZE"
  using assms ioff_bound [of n] by simp

lemma access_read:
  assumes "meta_ok d" and "n < NUM_OF_INODES"
  shows "accessINodeAndItsBlock n i INODE_READ d = Some (0, Some (inode_at d n), d)"
proof -
  obtain b where b: "read_block (iblk n) d = Some b" "length b = BLOCK_SIZE"
    using inode_block [OF assms] .
  with assms meta_okD(2,3) [OF assms(1)] ioff_bound [of n] show ?thesis
    by (simp add: accessINodeAndItsBlock_def inode_at_def iblk_def unat_ioff not_le Let_def)
qed

lemma access_write:
  assumes "meta_ok d" and "n < NUM_OF_INODES"
  shows "accessINodeAndItsBlock n (Some i) INODE_WRITE d = Some (0, Some i, put_inode n i d)"
proof -
  obtain b where b: "read_block (iblk n) d = Some b" "length b = BLOCK_SIZE"
    using inode_block [OF assms] .
  with assms meta_okD(2,3) [OF assms(1)] ioff_bound [of n] show ?thesis
    by (simp add: accessINodeAndItsBlock_def put_inode_def iblk_def unat_ioff not_le Let_def)
qed

lemma access_out_of_range:
  "NUM_OF_INODES \<le> n \<Longrightarrow> accessINodeAndItsBlock n i a d = Some (- 1, i, d)"
  by (simp add: accessINodeAndItsBlock_def)

lemma meta_ok_put_inode [disk_simps]:
  assumes "meta_ok d" and "n < NUM_OF_INODES" and "wf_iNode i"
  shows "meta_ok (put_inode n i d)"
proof -
  obtain b where "read_block (iblk n) d = Some b" "length b = BLOCK_SIZE"
    using inode_block [OF assms(1,2)] .
  then show ?thesis
    using assms by (simp add: put_inode_def disk_simps length_inode_image)
qed

lemma inode_at_put_inode:
  assumes "meta_ok d" and "n < NUM_OF_INODES" and "m < NUM_OF_INODES" and "wf_iNode i"
  shows "inode_at (put_inode n i d) m = (if m = n then i else inode_at d m)"
proof -
  obtain b where b: "read_block (iblk n) d = Some b" "length b = BLOCK_SIZE"
    using inode_block [OF assms(1,2)] .
  let ?im = "memcpy_at (ioff n) (iNode_bytes i) (memset_at (ioff n) 0 256 b)"
  have len: "length ?im = BLOCK_SIZE" using length_inode_image b assms(4) by blast
  have wr: "read_block k (put_inode n i d) = (if k = iblk n then Some ?im else read_block k d)"
    if "k < 16388" for k
    using b that len iblk_range(1) [OF assms(2)] meta_okD(1,4) [OF assms(1)]
    by (auto simp: put_inode_def blk.get_put_same blk.get_put_other)
  consider "m = n" | "m \<noteq> n" "iblk m \<noteq> iblk n" | "m \<noteq> n" "iblk m = iblk n" by blast
  then show ?thesis
  proof cases
    case 1
    have "bytes_at (ioff n) sizeof_iNode ?im = iNode_bytes i"
      using b assms(4) ioff_bound [of n] by simp
    with 1 show ?thesis
      using wr iblk_range(1) [OF assms(2)] assms(4) by (simp add: inode_at_def codec_simps)
  next
    case 2
    then show ?thesis using wr iblk_range(1) [OF assms(3)] by (simp add: inode_at_def)
  next
    case 3
    note dis = iblk_ioff_disjoint [OF assms(3,2) 3]
    have "bytes_at (ioff m) sizeof_iNode ?im = bytes_at (ioff m) sizeof_iNode (memset_at (ioff n) 0 256 b)"
      by (rule bytes_at_memcpy_other) (use b assms(4) dis ioff_bound [of m] ioff_bound [of n] in auto)
    also have "\<dots> = bytes_at (ioff m) sizeof_iNode b"
      unfolding memset_at_def
      by (rule bytes_at_memcpy_other) (use b dis ioff_bound [of m] ioff_bound [of n] in auto)
    finally show ?thesis
      using 3 wr iblk_range(1) [OF assms(3)] b by (simp add: inode_at_def)
  qed
qed

lemma read_block_put_inode:
  assumes "meta_ok d" and "n < NUM_OF_INODES" and "wf_iNode i" and "blk_valid d k" and "k \<noteq> iblk n"
  shows "read_block k (put_inode n i d) = read_block k d"
proof -
  obtain b where b: "read_block (iblk n) d = Some b" "length b = BLOCK_SIZE"
    using inode_block [OF assms(1,2)] .
  then show ?thesis
    using assms meta_okD(1) by (simp add: put_inode_def blk.get_put_other length_inode_image)
qed

lemma blk_valid_put_inode [disk_simps]:
  assumes "meta_ok d" and "n < NUM_OF_INODES" and "wf_iNode i"
  shows "blk_valid (put_inode n i d) k = blk_valid d k"
proof -
  obtain b where b: "read_block (iblk n) d = Some b" "length b = BLOCK_SIZE"
    using inode_block [OF assms(1,2)] .
  then show ?thesis
    using assms meta_okD(1) by (simp add: put_inode_def blk.valid_put length_inode_image)
qed

lemma clock_put_inode [frame_simps]: "clock (put_inode n i d) = clock d"
  by (simp add: put_inode_def frame_simps)

lemma inode_at_put_block:
  assumes "meta_ok d" and "length b = BLOCK_SIZE" and "n < NUM_OF_INODES" and "k \<le> 3 \<or> 16388 \<le> k"
  shows "inode_at (put_block k b d) n = inode_at d n"
proof -
  have "k \<noteq> iblk n" using iblk_range [OF assms(3)] assms(4) by auto
  then show ?thesis
    using assms meta_okD(1) meta_okD(4) [OF assms(1) iblk_range(1) [OF assms(3)]]
    by (simp add: inode_at_def blk.get_put_other)
qed

interpretation dinode: inode_store getDiskInode writeDiskInode meta_ok
proof
  fix d n
  assume *: "meta_ok d" "n < NUM_OF_INODES"
  show "\<exists>i. getDiskInode n d = Some (0, Some i) \<and> wf_iNode i"
    using * by (simp add: getDiskInode_def access_read)
  fix i :: iNode
  assume i: "wf_iNode i"
  show "\<exists>d'. writeDiskInode n i d = Some (0, d') \<and> meta_ok d'"
    using * i by (simp add: writeDiskInode_def access_write disk_simps)
  fix d'
  assume w: "writeDiskInode n i d = Some (0, d')"
  then have d': "d' = put_inode n i d" using * by (simp add: writeDiskInode_def access_write)
  have ok': "meta_ok d'" using * i d' by (simp add: disk_simps)
  show "getDiskInode n d' = Some (0, Some i)"
    using * i ok' d' by (simp add: getDiskInode_def access_read inode_at_put_inode)
  show "getDiskInode m d' = getDiskInode m d" if "m < NUM_OF_INODES" and "m \<noteq> n" for m
    using * i ok' d' that by (simp add: getDiskInode_def access_read inode_at_put_inode)
qed (simp_all add: getDiskInode_def writeDiskInode_def access_out_of_range)


section \<open>Lemmas: updating a disk inode\<close>

lemma updateINodeData_in_range:
  assumes "meta_ok d" and "n < NUM_OF_INODES"
  shows "updateINodeData n t m u g sz l d = Some (put_inode n
    ((inode_at d n)\<lparr> di_status_change := clock d, di_type := t, di_file_mode := m,
       di_owner_uid := u, di_group_uid := g, di_size := sz, di_linksCount := l \<rparr>) d)"
  using assms by (simp add: updateINodeData_def access_read access_write)

lemma updateINodeData_out_of_range:
  "NUM_OF_INODES \<le> n \<Longrightarrow> updateINodeData n t m u g sz l d = Some d"
  by (simp add: updateINodeData_def access_out_of_range)

section \<open>Lemmas: the free inode list\<close>

text \<open>
  The free inode list as a stack: the array is filled up with zeros at its low end, and the rest,
  read upwards, is the stack with its top first.
\<close>

definition inode_stack :: "dsk \<Rightarrow> size_t list \<Rightarrow> bool" where
  "inode_stack d xs \<longleftrightarrow> 0 \<notin> set xs \<and> length xs \<le> INODE_NOS_PER_BLOCK \<and>
     (\<exists>b. read_block INODE_LIST_BLOCK d = Some b \<and> length b = BLOCK_SIZE \<and>
        makeINodeListBlock b = replicate (INODE_NOS_PER_BLOCK - length xs) 0 @ xs)"

lemma free_scan_hit:
  assumes "c \<le> i" and "i < INODE_NOS_PER_BLOCK" and "\<And>j. c \<le> j \<Longrightarrow> j < i \<Longrightarrow> nos ! j = 0"
    and "nos ! i \<noteq> 0"
  shows "free_scan c 0 nos = (Suc i, nos ! i)"
  using assms
proof (induction "i - c" arbitrary: c)
  case 0
  then show ?case by (simp add: free_scan.simps [of c 0] free_scan.simps [of "Suc c" "nos ! c"])
next
  case (Suc k)
  then have "nos ! c = 0" and "free_scan (Suc c) 0 nos = (Suc i, nos ! i)" by simp_all
  with Suc show ?case by (simp add: free_scan.simps [of c 0])
qed

lemma free_scan_miss:
  assumes "c \<le> INODE_NOS_PER_BLOCK" and "\<And>j. c \<le> j \<Longrightarrow> j < INODE_NOS_PER_BLOCK \<Longrightarrow> nos ! j = 0"
  shows "free_scan c 0 nos = (INODE_NOS_PER_BLOCK, 0)"
  using assms
proof (induction "INODE_NOS_PER_BLOCK - c" arbitrary: c)
  case 0
  then show ?case by (simp add: free_scan.simps [of 512 0])
next
  case (Suc k)
  then have "nos ! c = 0" and "free_scan (Suc c) 0 nos = (INODE_NOS_PER_BLOCK, 0)" by simp_all
  with Suc show ?case by (simp add: free_scan.simps [of c 0])
qed

lemma checkAndGetFreeINode_Cons:
  assumes "x \<noteq> 0" and "i + Suc (length xs) = INODE_NOS_PER_BLOCK"
  shows "checkAndGetFreeINode (replicate i 0 @ x # xs) =
    (if xs = [] then (SIZE_MAX, replicate i 0 @ x # xs) else (x, replicate (Suc i) 0 @ xs))"
proof -
  have "free_scan 0 0 (replicate i 0 @ x # xs) = (Suc i, x)"
    using free_scan_hit [of 0 i "replicate i 0 @ x # xs"] assms by (simp add: nth_append)
  moreover have "replicate (Suc i) 0 @ xs = replicate i 0 @ 0 # xs"
    by (metis append_Cons append_assoc append_Nil replicate_Suc replicate_append_same)
  ultimately show ?thesis
    using assms(2) by (auto simp: checkAndGetFreeINode_def list_update_append)
qed

lemma checkAndGetFreeINode_Nil:
  "checkAndGetFreeINode (replicate INODE_NOS_PER_BLOCK 0) = (SIZE_MAX, replicate INODE_NOS_PER_BLOCK 0)"
  by (simp add: checkAndGetFreeINode_def free_scan_miss)

lemma save_scan_hit:
  assumes "c \<le> i" and "i < INODE_NOS_PER_BLOCK" and "\<And>j. c \<le> j \<Longrightarrow> j < i \<Longrightarrow> nos ! j = 0"
    and "nos ! i \<noteq> 0"
  shows "save_scan c n nos = (i, if 0 < i then nos[i - 1 := n] else nos)"
  using assms
proof (induction "i - c" arbitrary: c)
  case 0
  then show ?case by (simp add: save_scan.simps [of c])
next
  case (Suc k)
  then have "nos ! c = 0" and "save_scan (Suc c) n nos = (i, if 0 < i then nos[i - 1 := n] else nos)"
    by simp_all
  with Suc show ?case by (simp add: save_scan.simps [of c])
qed

lemma saveInListIfPossible_Cons:
  assumes "x \<noteq> 0" and "Suc i + Suc (length xs) = INODE_NOS_PER_BLOCK"
  shows "saveInListIfPossible n (replicate (Suc i) 0 @ x # xs) = (True, replicate i 0 @ n # x # xs)"
proof -
  have "save_scan 0 n (replicate (Suc i) 0 @ x # xs) =
      (Suc i, (replicate (Suc i) 0 @ x # xs)[i := n])"
    using save_scan_hit [of 0 "Suc i" "replicate (Suc i) 0 @ x # xs" n] assms
    by (simp add: nth_append del: replicate_Suc)
  moreover have "replicate (Suc i) (0 :: size_t) = replicate i 0 @ [0]"
    by (simp add: replicate_append_same)
  then have "(replicate (Suc i) 0 @ x # xs)[i := n] = replicate i 0 @ n # x # xs"
    by (simp add: list_update_append del: replicate.simps)
  ultimately show ?thesis by (simp add: saveInListIfPossible_def)
qed

text \<open>Numbers on the stack are inode numbers: they come out of two-byte fields.\<close>

lemma inode_stack_bound:
  assumes "inode_stack d xs" and "x \<in> set xs"
  shows "x < NUM_OF_INODES"
proof -
  from assms obtain b where "length b = BLOCK_SIZE" "x \<in> set (makeINodeListBlock b)"
    by (auto simp: inode_stack_def)
  then show ?thesis by (rule makeINodeListBlock_bound)
qed

lemma map_mod_id: "(\<And>x. x \<in> set xs \<Longrightarrow> x < 65536) \<Longrightarrow> map (\<lambda>x. x mod (65536 :: size_t)) xs = xs"
  by (rule map_idI) (auto simp: word_less_nat_alt word_unat_eq_iff unat_mod_distrib)

text \<open>Writing a list block whose entries are small makes it the stack.\<close>

lemma inode_stack_put:
  assumes "meta_ok d" and "length b = BLOCK_SIZE" and "0 \<notin> set xs"
    and "length xs \<le> INODE_NOS_PER_BLOCK" and "\<And>x. x \<in> set xs \<Longrightarrow> x < NUM_OF_INODES"
    and "nos = replicate (INODE_NOS_PER_BLOCK - length xs) 0 @ xs"
  shows "inode_stack (put_block INODE_LIST_BLOCK (writeINodeListBlock nos b) d) xs"
proof -
  have len: "length nos = 512" using assms(4,6) by simp
  have "map (\<lambda>x. x mod 65536) nos = nos" using assms(5,6) by (intro map_mod_id) auto
  with len assms(2) have "makeINodeListBlock (writeINodeListBlock nos b) = nos"
    by (simp add: codec_simps)
  then show ?thesis
    using assms len meta_okD(1,4) [OF assms(1)]
    by (auto simp: inode_stack_def disk_simps)
qed

text \<open>Allocation takes the top of the stack as long as it is not the last entry.\<close>

definition assigned :: "iNodeType \<Rightarrow> mode_t \<Rightarrow> uid_t \<Rightarrow> gid_t \<Rightarrow> dsk \<Rightarrow> iNode \<Rightarrow> iNode" where
  "assigned t m u g d i = i\<lparr> di_status_change := clock d, di_type := t, di_file_mode := m, di_owner_uid := u,
     di_group_uid := g, di_size := 0, di_linksCount := 0 \<rparr>"

lemma wf_assigned [simp]: "wf_iNode (assigned t m u g d i) = wf_iNode i"
  by (simp add: assigned_def wf_iNode_def)

lemma getNewINode_eq:
  assumes ok: "meta_ok d" and st: "inode_stack d (x # xs)" and "xs \<noteq> []"
  obtains b where "length b = BLOCK_SIZE" and "x < NUM_OF_INODES"
    and "getNewINode t m u g d = Some (x, put_block INODE_LIST_BLOCK b (put_inode x (assigned t m u g d (inode_at d x)) d))"
    and "inode_stack (put_block INODE_LIST_BLOCK b (put_inode x (assigned t m u g d (inode_at d x)) d)) xs"
proof -
  from st obtain b where b: "read_block INODE_LIST_BLOCK d = Some b" "length b = BLOCK_SIZE"
    and nos: "makeINodeListBlock b = replicate (INODE_NOS_PER_BLOCK - Suc (length xs)) 0 @ x # xs"
    and x0: "x \<noteq> 0" "0 \<notin> set xs" and len: "Suc (length xs) \<le> INODE_NOS_PER_BLOCK"
    by (auto simp: inode_stack_def)
  have x: "x < NUM_OF_INODES" using inode_stack_bound [OF st] by simp
  let ?i = "INODE_NOS_PER_BLOCK - Suc (length xs)" and ?new = "assigned t m u g d (inode_at d x)"
  have cg: "checkAndGetFreeINode (makeINodeListBlock b) = (x, replicate (Suc ?i) 0 @ xs)"
    using checkAndGetFreeINode_Cons [of x ?i xs] x0 len \<open>xs \<noteq> []\<close> nos by simp
  let ?nos = "replicate (INODE_NOS_PER_BLOCK - length xs) 0 @ xs"
  have "Suc ?i = INODE_NOS_PER_BLOCK - length xs" using len by simp
  then have "getNewINode t m u g d =
      Some (x, put_block INODE_LIST_BLOCK (writeINodeListBlock ?nos b) (put_inode x ?new d))"
    using b cg x0 ok x by (simp add: getNewINode_def updateINodeData_in_range assigned_def del: replicate.simps)
  moreover have "inode_stack (put_block INODE_LIST_BLOCK (writeINodeListBlock ?nos b) (put_inode x ?new d)) xs"
    using inode_stack_bound [OF st] ok x by (intro inode_stack_put) (use b x0 len in \<open>auto simp: disk_simps\<close>)
  ultimately show ?thesis using that [of "writeINodeListBlock ?nos b"] b x len by simp
qed

text \<open>An inode and the block of free numbers are written.\<close>

lemma list_and_inode:
  assumes "meta_ok d" and "wf_iNode i" and "x < NUM_OF_INODES" and "length b = BLOCK_SIZE"
  shows "meta_ok (put_block INODE_LIST_BLOCK b (put_inode x i d))"
    and "n < NUM_OF_INODES \<Longrightarrow> inode_at (put_block INODE_LIST_BLOCK b (put_inode x i d)) n = (if n = x then i else inode_at d n)"
  using assms by (simp_all add: disk_simps inode_at_put_block inode_at_put_inode)

lemma getNewINode_pop:
  assumes "meta_ok d" and "inode_stack d (x # xs)" and "xs \<noteq> []"
  shows "\<exists>d'. getNewINode t m u g d = Some (x, d') \<and> meta_ok d' \<and> inode_stack d' xs \<and>
    (\<forall>n < NUM_OF_INODES. inode_at d' n = (if n = x then assigned t m u g d (inode_at d x) else inode_at d n))"
  using getNewINode_eq [OF assms, of t m u g] list_and_inode [OF assms(1)] by (metis wf_assigned wf_inode_at)

text \<open>With one entry left no inode is found; the disk is not searched for more.\<close>

lemma getNewINode_exhausted:
  assumes ok: "meta_ok d" and st: "inode_stack d xs" and "length xs \<le> 1"
  shows "\<exists>d'. getNewINode t m u g d = Some (SIZE_MAX, d') \<and> meta_ok d' \<and> inode_stack d' xs \<and>
    (\<forall>n < NUM_OF_INODES. inode_at d' n = inode_at d n)"
proof -
  from st obtain b where b: "read_block INODE_LIST_BLOCK d = Some b" "length b = BLOCK_SIZE"
    and nos: "makeINodeListBlock b = replicate (INODE_NOS_PER_BLOCK - length xs) 0 @ xs"
    and x0: "0 \<notin> set xs"
    by (auto simp: inode_stack_def)
  have "checkAndGetFreeINode (makeINodeListBlock b) = (SIZE_MAX, makeINodeListBlock b)"
  proof (cases xs)
    case Nil
    then show ?thesis using nos checkAndGetFreeINode_Nil by simp
  next
    case (Cons x ys)
    then show ?thesis
      using nos x0 assms(3) checkAndGetFreeINode_Cons [of x 511 "[]"] by (simp del: replicate.simps)
  qed
  then have get: "getNewINode t m u g d =
      Some (SIZE_MAX, put_block INODE_LIST_BLOCK (writeINodeListBlock (makeINodeListBlock b) b) d)"
    using b by (simp add: getNewINode_def updateINodeData_out_of_range word_order.extremum)
  have l: "length (writeINodeListBlock (makeINodeListBlock b) b) = BLOCK_SIZE" using b by simp
  have "inode_stack (put_block INODE_LIST_BLOCK (writeINodeListBlock (makeINodeListBlock b) b) d) xs"
    using inode_stack_bound [OF st] by (intro inode_stack_put) (use ok b x0 nos assms(3) in auto)
  moreover have "inode_at (put_block INODE_LIST_BLOCK (writeINodeListBlock (makeINodeListBlock b) b) d) n
      = inode_at d n" if "n < NUM_OF_INODES" for n
    using that ok l by (simp add: inode_at_put_block)
  ultimately show ?thesis using get ok l by (auto simp: disk_simps)
qed

text \<open>Release pushes the number, as long as the list is neither empty nor full.\<close>

lemma freeINode_eq:
  assumes ok: "meta_ok d" and st: "inode_stack d (y # ys)" and "length (y # ys) < INODE_NOS_PER_BLOCK"
    and x: "x < NUM_OF_INODES" "x \<noteq> 0"
  obtains b where "length b = BLOCK_SIZE"
    and "freeINode x d = Some (put_block INODE_LIST_BLOCK b (put_inode x (assigned T_FREE 0 0 0 d (inode_at d x)) d))"
    and "inode_stack (put_block INODE_LIST_BLOCK b (put_inode x (assigned T_FREE 0 0 0 d (inode_at d x)) d)) (x # y # ys)"
proof -
  let ?d1 = "put_inode x (assigned T_FREE 0 0 0 d (inode_at d x)) d"
  from st obtain b where b: "read_block INODE_LIST_BLOCK d = Some b" "length b = BLOCK_SIZE"
    and nos: "makeINodeListBlock b = replicate (INODE_NOS_PER_BLOCK - Suc (length ys)) 0 @ y # ys"
    and y0: "y \<noteq> 0" "0 \<notin> set ys"
    by (auto simp: inode_stack_def)
  let ?i = "INODE_NOS_PER_BLOCK - Suc (Suc (length ys))"
  have "INODE_NOS_PER_BLOCK - Suc (length ys) = Suc ?i" using assms(3) by simp
  then have sv: "saveInListIfPossible x (makeINodeListBlock b) = (True, replicate ?i 0 @ x # y # ys)"
    using saveInListIfPossible_Cons [of y ?i ys x] y0 assms(3) nos by simp
  have "INODE_LIST_BLOCK \<noteq> iblk x" using iblk_range(2) [OF x(1)] by auto
  then have b1: "read_block INODE_LIST_BLOCK ?d1 = Some b"
    using read_block_put_inode [OF ok x(1) _ meta_okD(4) [OF ok]] b by simp
  let ?nos = "replicate ?i 0 @ x # y # ys"
  have "freeINode x d = Some (put_block INODE_LIST_BLOCK (writeINodeListBlock ?nos b) ?d1)"
    using ok x b1 sv by (simp add: freeINode_def updateINodeData_in_range assigned_def)
  moreover have "inode_stack (put_block INODE_LIST_BLOCK (writeINodeListBlock ?nos b) ?d1) (x # y # ys)"
    using inode_stack_bound [OF st] ok x by (intro inode_stack_put) (use b y0 assms(3) in \<open>auto simp: disk_simps\<close>)
  ultimately show ?thesis using that [of "writeINodeListBlock ?nos b"] b assms(3) by simp
qed

lemma freeINode_push:
  assumes "meta_ok d" and "inode_stack d (y # ys)" and "length (y # ys) < INODE_NOS_PER_BLOCK"
    and "x < NUM_OF_INODES" and "x \<noteq> 0"
  shows "\<exists>d'. freeINode x d = Some d' \<and> meta_ok d' \<and> inode_stack d' (x # y # ys) \<and>
    (\<forall>n < NUM_OF_INODES. inode_at d' n = (if n = x then assigned T_FREE 0 0 0 d (inode_at d x) else inode_at d n))"
  using freeINode_eq [OF assms] list_and_inode [OF assms(1)] by (metis wf_assigned wf_inode_at assms(4))

lemma meta_ok_memory:
  assumes "\<not> isDiskAvailable d" and "\<forall>n < NUM_OF_BLOCKS_IN_MEM. length (mem_disk d n) = BLOCK_SIZE"
  shows "meta_ok (initializeINodeParams d)"
proof -
  have "n < NUM_OF_BLOCKS_IN_MEM" if "n < 16388" for n :: size_t
    using that by (simp add: word_less_nat_alt)
  then show ?thesis
    using assms by (auto simp: meta_ok_def disk_ok_def params_ok_initializeINodeParams blk_valid_def
        mem_valid_def frame_simps)
qed

lemma meta_ok_blank: "meta_ok blank_disk"
  unfolding blank_disk_def by (rule meta_ok_memory) (simp_all add: static_dsk_def)

lemma inode_stack_exists:
  assumes "0 \<notin> set xs" and "length xs \<le> INODE_NOS_PER_BLOCK" and "\<forall>x \<in> set xs. x < NUM_OF_INODES"
  obtains d where "meta_ok d" and "inode_stack d xs"
proof
  let ?b = "writeINodeListBlock (replicate (INODE_NOS_PER_BLOCK - length xs) 0 @ xs) (replicate BLOCK_SIZE 0)"
  show "inode_stack (put_block INODE_LIST_BLOCK ?b blank_disk) xs"
    by (rule inode_stack_put [OF meta_ok_blank]) (use assms in auto)
  show "meta_ok (put_block INODE_LIST_BLOCK ?b blank_disk)"
    by (rule meta_ok_put_block [OF meta_ok_blank length_writeINodeListBlock]) (use assms in auto)
qed

lemma inode_stack_unique: "inode_stack d xs \<Longrightarrow> inode_stack d ys \<Longrightarrow> xs = ys"
proof -
  assume "inode_stack d xs" "inode_stack d ys"
  then have e: "replicate (512 - length xs) 0 @ xs = replicate (512 - length ys) 0 @ ys" and z: "0 \<notin> set xs" "0 \<notin> set ys"
    by (auto simp: inode_stack_def)
  have "filter (\<lambda>x. x \<noteq> 0) (replicate (512 - length zs) 0 @ zs) = zs" if "0 \<notin> set zs" for zs :: "size_t list"
    using that by (auto simp: filter_id_conv)
  then show ?thesis using e z by metis
qed

section \<open>Properties\<close>

text \<open>
  The inode table is an array of 65536 inodes on the disk: a write is read back, leaves every other inode
  alone, and an index outside the table is refused with \<open>-1\<close> and no effect.
\<close>

lemma inode_table:
  assumes "meta_ok d" and "wf_iNode i" and "n < NUM_OF_INODES" and "NUM_OF_INODES \<le> k"
  shows "\<exists>d'. writeDiskInode n i d = Some (0, d') \<and> meta_ok d' \<and> getDiskInode n d' = Some (0, Some i) \<and>
    (\<forall>m < NUM_OF_INODES. m \<noteq> n \<longrightarrow> getDiskInode m d' = getDiskInode m d) \<and>
    writeDiskInode k i d = Some (- 1, d) \<and> getDiskInode k d = Some (- 1, None)"
  using assms
  by (auto simp: writeDiskInode_def getDiskInode_def access_read access_write access_out_of_range
      inode_at_put_inode disk_simps)

text \<open>
  C31. As long as two or more numbers are listed, \<open>getNewINode\<close> hands out the first of them, takes it off the list and
  initialises its inode with the type, mode and owner asked for, and changes no other inode.
\<close>

theorem getNewINode_correct:
  assumes "meta_ok d" and "inode_stack d (x # xs)" and "xs \<noteq> []"
  shows "\<exists>d'. getNewINode t m u g d = Some (x, d') \<and> meta_ok d' \<and> inode_stack d' xs \<and>
    (\<forall>n < NUM_OF_INODES. inode_at d' n = (if n = x then (inode_at d x)
       \<lparr> di_status_change := clock d, di_type := t, di_file_mode := m, di_owner_uid := u,
         di_group_uid := g, di_size := 0, di_linksCount := 0 \<rparr> else inode_at d n))"
  using getNewINode_pop [OF assms, of t m u g] unfolding assigned_def by blast

theorem getNewINode_correct_witness:
  "\<exists>d d'. inode_stack d [3, 4] \<and> getNewINode T_REGULAR 0 0 0 d = Some (3, d') \<and> inode_stack d' [4]"
proof -
  obtain d where d: "meta_ok d" "inode_stack d [3, 4]" using inode_stack_exists [of "[3, 4]"] by auto
  then show ?thesis using getNewINode_correct [OF d(1,2), of T_REGULAR 0 0 0] by auto
qed

text \<open>
  The last number of the list is never handed out: with one number or none left \<open>getNewINode\<close> gives \<open>-1\<close>
  (as a \<open>size_t\<close>) and changes no inode; the branch that would look for more free inodes is not reached.
\<close>

lemma getNewINode_runs_out:
  assumes "meta_ok d" and "inode_stack d xs" and "length xs \<le> 1"
  shows "\<exists>d'. getNewINode t m u g d = Some (SIZE_MAX, d') \<and> meta_ok d' \<and> inode_stack d' xs \<and>
    (\<forall>n < NUM_OF_INODES. inode_at d' n = inode_at d n)"
  by (rule getNewINode_exhausted [OF assms])

text \<open>
  C32. An inode given back to a list that is neither empty nor full is the next one handed out, and its type is
  free in between.
\<close>

theorem freeINode_getNewINode:
  assumes "meta_ok d" and "inode_stack d (y # ys)" and "length (y # ys) < INODE_NOS_PER_BLOCK"
    and "x < NUM_OF_INODES" and "x \<noteq> 0"
  shows "\<exists>d1 d2. freeINode x d = Some d1 \<and> di_type (inode_at d1 x) = T_FREE \<and>
    getNewINode t m u g d1 = Some (x, d2) \<and> inode_stack d2 (y # ys)"
proof -
  obtain d1 where d1: "freeINode x d = Some d1" "meta_ok d1" "inode_stack d1 (x # y # ys)"
      "di_type (inode_at d1 x) = T_FREE"
    using freeINode_push [OF assms] assms(4) by (auto simp: assigned_def)
  then show ?thesis using getNewINode_pop [OF d1(2,3), of t m u g] by auto
qed

theorem freeINode_getNewINode_witness:
  "\<exists>d d1 d2. freeINode 8 d = Some d1 \<and> getNewINode T_REGULAR 0 0 0 d1 = Some (8, d2) \<and> inode_stack d2 [3, 4]"
proof -
  obtain d where d: "meta_ok d" "inode_stack d [3, 4]" using inode_stack_exists [of "[3, 4]"] by auto
  then show ?thesis using freeINode_getNewINode [OF d, of 8 T_REGULAR 0 0 0] by auto
qed

end
