(* ===== verification/BlockAlloc.thy ===== *)
theory BlockAlloc
  imports DiskINodes
begin

text \<open>
  Allocation and release of disk blocks: \<open>src/dsk/alloc.c\<close> and \<open>src/dsk/free.c\<close>.  The free blocks form
  a chain: block \<open>FREE_LIST_BLOCK\<close> holds 128 block numbers, unused entries are zero, and the block
  named by the last entry holds the next 128 numbers.

  The lemmas relate the chain to the list of free blocks in the order in which they are handed
  out (\<open>free_list\<close>): allocation takes its head, release puts a block in front.  They are stated
  once as the locale \<open>block_pool\<close> and interpreted on the code's functions.
\<close>

section \<open>alloc.c\<close>

text \<open>The \<open>for\<close> loop of \<open>blockAlloc\<close>: the final \<open>counter\<close>, \<open>new_block\<close> and the changed array.\<close>

function alloc_scan :: "nat \<Rightarrow> freeDiskListBlock \<Rightarrow> nat \<times> size_t \<times> freeDiskListBlock" where
  "alloc_scan counter blkNos =
     (if counter < BLOCK_ADDRESSES_PER_BLOCK then
        if blkNos ! counter \<noteq> 0 then (counter, blkNos ! counter, blkNos[counter := 0])
        else alloc_scan (counter + 1) blkNos
      else (counter, 0, blkNos))"
  by pat_completeness auto
termination
  by (relation "measure (\<lambda>(counter, nos). BLOCK_ADDRESSES_PER_BLOCK - counter)") auto

declare alloc_scan.simps [simp del]

definition blockAlloc :: "dsk \<Rightarrow> (size_t \<times> dsk) option" where
  "blockAlloc d =
     do {
       freeListBlock \<leftarrow> read_block FREE_LIST_BLOCK d;
       let (counter, new_block, blkNos) = alloc_scan 0 (makeFreeDiskListBlock freeListBlock);
       freeListBlock \<leftarrow>
         (if counter = BLOCK_ADDRESSES_PER_BLOCK - 1
          then snd (getDiskBlock new_block (Some freeListBlock) d)
          else Some (writeFreeDiskListBlock blkNos freeListBlock));
       Some (new_block, put_block FREE_LIST_BLOCK freeListBlock d)
     }"

section \<open>free.c\<close>

text \<open>The downward loop that puts the number into the last unused entry.\<close>

primrec free_slot :: "nat \<Rightarrow> size_t \<Rightarrow> freeDiskListBlock \<Rightarrow> freeDiskListBlock" where
  "free_slot 0 blockNumber blkNos = blkNos"
| "free_slot (Suc i) blockNumber blkNos =
     (if blkNos ! i = 0 then blkNos[i := blockNumber] else free_slot i blockNumber blkNos)"

definition freeInto :: "size_t \<Rightarrow> size_t \<Rightarrow> dsk \<Rightarrow> dsk option" where
  "freeInto freeListBlockNumber blockNumber d =
     do {
       freeListBlock \<leftarrow> read_block freeListBlockNumber d;
       let blkNos = makeFreeDiskListBlock freeListBlock;
       let (blkNos, d) =
         (if blkNos ! 0 \<noteq> 0 then
            (foldl (\<lambda>nos counter. nos[counter := 0])
               (blkNos[BLOCK_ADDRESSES_PER_BLOCK - 1 := blockNumber])
               [0..<BLOCK_ADDRESSES_PER_BLOCK - 1],
             put_block blockNumber freeListBlock d)
          else (free_slot BLOCK_ADDRESSES_PER_BLOCK blockNumber blkNos, d));
       Some (put_block freeListBlockNumber (writeFreeDiskListBlock blkNos freeListBlock) d)
     }"

definition blockFree :: "size_t \<Rightarrow> dsk \<Rightarrow> dsk option" where
  "blockFree blockNumber d = freeInto FREE_LIST_BLOCK blockNumber d"

text \<open>
  \<open>diskBlockFree\<close> with its loop over the block numbers of an indirect block; the first argument is
  \<open>recursionLevel\<close>, \<open>leftSize\<close> is passed on and returned.
\<close>

function diskBlockFree :: "nat \<Rightarrow> size_t \<Rightarrow> int \<Rightarrow> dsk \<Rightarrow> (int \<times> dsk) option"
  and diskBlocksFree :: "nat \<Rightarrow> size_t list \<Rightarrow> int \<Rightarrow> dsk \<Rightarrow> (int \<times> dsk) option" where
  "diskBlockFree 0 diskBlockNumber leftSize d =
     do {
       d \<leftarrow> blockFree diskBlockNumber d;
       Some (leftSize - BLOCK_SIZE, d)
     }"
| "diskBlockFree (Suc level) diskBlockNumber leftSize d =
     do {
       blockToBeFreed \<leftarrow> read_block diskBlockNumber d;
       (leftSize, d) \<leftarrow> diskBlocksFree level (makeFreeDiskListBlock blockToBeFreed) leftSize d;
       d \<leftarrow> blockFree diskBlockNumber d;
       Some (leftSize, d)
     }"
| "diskBlocksFree level [] leftSize d = Some (leftSize, d)"
| "diskBlocksFree level (n # ns) leftSize d =
     (if 0 < leftSize then
        do {
          (leftSize, d) \<leftarrow> diskBlockFree level n leftSize d;
          diskBlocksFree level ns leftSize d
        }
      else Some (leftSize, d))"
  by pat_completeness auto
termination
  by (relation "measures [\<lambda>x. case x of Inl (r, _) \<Rightarrow> 2 * r | Inr (r, _) \<Rightarrow> 2 * r + 1,
       \<lambda>x. case x of Inl _ \<Rightarrow> 0 | Inr (_, ns, _) \<Rightarrow> length ns]") auto

text \<open>The loop over the direct blocks from index \<open>i\<close>; \<open>n\<close> is the number of indices left.\<close>

primrec free_direct ::
    "nat \<Rightarrow> nat \<Rightarrow> size_t list \<Rightarrow> int \<Rightarrow> dsk \<Rightarrow> (size_t list \<times> int \<times> dsk) option" where
  "free_direct 0 i nums leftSize d = Some (nums, leftSize, d)"
| "free_direct (Suc n) i nums leftSize d =
     (if 0 < leftSize then
        do {
          d \<leftarrow> blockFree (nums ! i) d;
          free_direct n (i + 1) (nums[i := 0]) (leftSize - BLOCK_SIZE) d
        }
      else Some (nums, leftSize, d))"

text \<open>
  The loop over the three indirect blocks; a size that is still left after the triple indirect
  one makes the code read behind its array of indices.
\<close>

primrec free_indirect ::
    "nat \<Rightarrow> nat \<Rightarrow> size_t list \<Rightarrow> int \<Rightarrow> dsk \<Rightarrow> (size_t list \<times> int \<times> dsk) option" where
  "free_indirect 0 i nums leftSize d = (if 0 < leftSize then None else Some (nums, leftSize, d))"
| "free_indirect (Suc n) i nums leftSize d =
     (if 0 < leftSize then
        do {
          (leftSize, d) \<leftarrow> diskBlockFree (i + 1) (nums ! (10 + i)) leftSize d;
          free_indirect n (i + 1) (nums[10 + i := 0]) leftSize d
        }
      else Some (nums, leftSize, d))"

definition inodeBlocksFree :: "inCoreiNode \<Rightarrow> dsk \<Rightarrow> (inCoreiNode \<times> dsk) option" where
  "inodeBlocksFree inode d =
     do {
       (nums, leftSize, d) \<leftarrow> free_direct 10 0 (dataBlockNums inode) (sint (isize inode)) d;
       (nums, leftSize, d) \<leftarrow> free_indirect 3 0 nums leftSize d;
       Some (inode\<lparr> dataBlockNums := nums \<rparr>, d)
     }"

section \<open>The chain of free blocks\<close>

text \<open>
  \<open>free_chain d nos xs\<close>: a list block with the numbers \<open>nos\<close> and the blocks linked from it stand for
  the free blocks \<open>xs\<close>.  In the last list block the last entry is unused.
\<close>

inductive free_chain :: "dsk \<Rightarrow> size_t list \<Rightarrow> size_t list \<Rightarrow> bool" for d where
  last: "nos = replicate i 0 @ ys @ replicate j 0 \<Longrightarrow> i + length ys + j = 128 \<Longrightarrow> 0 < j \<Longrightarrow>
    0 \<notin> set ys \<Longrightarrow> free_chain d nos ys"
| link: "nos = replicate i 0 @ ys @ [x] \<Longrightarrow> i + length ys = 127 \<Longrightarrow> 0 \<notin> set ys \<Longrightarrow> x \<noteq> 0 \<Longrightarrow>
    read_block x d = Some b \<Longrightarrow> free_chain d (makeFreeDiskListBlock b) zs \<Longrightarrow>
    free_chain d nos (ys @ x # zs)"

definition free_list :: "dsk \<Rightarrow> size_t list \<Rightarrow> bool" where
  "free_list d xs \<longleftrightarrow> meta_ok d \<and> distinct xs \<and> (\<forall>x \<in> set xs. 16388 \<le> x \<and> blk_valid d x) \<and>
     (\<exists>b. read_block FREE_LIST_BLOCK d = Some b \<and> free_chain d (makeFreeDiskListBlock b) xs)"

text \<open>
  The list block can take one more number: its low end is used up, so that it becomes the content
  of the released block, or its link is in place.
\<close>

definition free_list_linked :: "dsk \<Rightarrow> bool" where
  "free_list_linked d \<longleftrightarrow>
     (case read_block FREE_LIST_BLOCK d of
        None \<Rightarrow> False
      | Some b \<Rightarrow> makeFreeDiskListBlock b ! 0 \<noteq> 0 \<or> makeFreeDiskListBlock b ! 127 \<noteq> 0)"


section \<open>Lemmas: the scans\<close>

lemma alloc_scan_hit:
  assumes "c \<le> i" and "i < 128" and "\<And>j. c \<le> j \<Longrightarrow> j < i \<Longrightarrow> nos ! j = 0" and "nos ! i \<noteq> 0"
  shows "alloc_scan c nos = (i, nos ! i, nos[i := 0])"
  using assms
proof (induction "i - c" arbitrary: c)
  case 0
  then show ?case by (simp add: alloc_scan.simps [of c])
next
  case (Suc k)
  then have "nos ! c = 0" and "alloc_scan (Suc c) nos = (i, nos ! i, nos[i := 0])" by simp_all
  with Suc show ?case by (simp add: alloc_scan.simps [of c])
qed

lemma alloc_scan_miss:
  assumes "c \<le> 128" and "\<And>j. c \<le> j \<Longrightarrow> j < 128 \<Longrightarrow> nos ! j = 0"
  shows "alloc_scan c nos = (128, 0, nos)"
  using assms
proof (induction "128 - c" arbitrary: c)
  case 0
  then show ?case by (simp add: alloc_scan.simps [of 128])
next
  case (Suc k)
  then have "nos ! c = 0" and "alloc_scan (Suc c) nos = (128, 0, nos)" by simp_all
  with Suc show ?case by (simp add: alloc_scan.simps [of c])
qed

lemma replicate_Suc_snoc: "replicate (Suc i) x = replicate i x @ [x]"
  by (simp add: replicate_append_same)

lemma alloc_scan_Cons:
  assumes "x \<noteq> 0" and "i + Suc (length ys) = 128"
  shows "alloc_scan 0 (replicate i 0 @ x # ys) = (i, x, replicate (Suc i) 0 @ ys)"
proof -
  have "alloc_scan 0 (replicate i 0 @ x # ys) = (i, x, (replicate i 0 @ x # ys)[i := 0])"
    using alloc_scan_hit [of 0 i "replicate i 0 @ x # ys"] assms by (simp add: nth_append)
  then show ?thesis by (simp add: list_update_append replicate_Suc_snoc del: replicate.simps)
qed

lemma free_slot_last:
  assumes "i \<le> k" and "0 \<notin> set ys" and "k = i + length ys"
  shows "free_slot (Suc k) n (replicate (Suc i) 0 @ ys @ zs) = replicate i 0 @ n # ys @ zs"
  using assms
proof (induction ys arbitrary: k zs rule: rev_induct)
  case Nil
  then show ?case
    by (simp add: replicate_Suc_snoc nth_append list_update_append del: replicate.simps)
next
  case (snoc y ys)
  then obtain k' where k: "k = Suc k'" "k' = i + length ys" by (cases k) auto
  have "(replicate (Suc i) 0 @ (ys @ [y]) @ zs) ! k = y"
    using k by (simp add: nth_append del: replicate.simps)
  moreover have "y \<noteq> 0" using snoc.prems by auto
  moreover have "free_slot (Suc k') n (replicate (Suc i) 0 @ ys @ [y] @ zs) =
      replicate i 0 @ n # ys @ [y] @ zs"
    using snoc k by (intro snoc.IH) auto
  ultimately show ?case using k by (simp del: replicate.simps)
qed

lemma foldl_zero_prefix:
  "n \<le> length nos \<Longrightarrow> foldl (\<lambda>nos c. nos[c := (0 :: size_t)]) nos [0..<n] = replicate n 0 @ drop n nos"
proof (induction n)
  case (Suc n)
  then have "(replicate n 0 @ drop n nos)[n := 0] = replicate n 0 @ 0 # drop (Suc n) nos"
    by (simp add: list_update_append Cons_nth_drop_Suc [symmetric])
  with Suc show ?case by (simp add: replicate_append_same [symmetric])
qed simp

lemma free_full:
  fixes nos :: "size_t list"
  assumes "length nos = 128"
  shows "foldl (\<lambda>nos c. nos[c := 0]) (nos[127 := n]) [0..<127] = replicate 127 0 @ [n]"
proof -
  have "drop 127 (nos[127 := n]) = [n]"
    using assms by (simp add: drop_update_swap) (simp add: list_eq_iff_nth_eq)
  with assms show ?thesis by (subst foldl_zero_prefix) auto
qed

section \<open>Lemmas: the chain\<close>

text \<open>A write to a block that is not a free block leaves the chain alone.\<close>

lemma free_chain_put:
  assumes "free_chain d nos xs" and "disk_ok d" and "length c = BLOCK_SIZE" and "m \<notin> set xs"
    and "\<forall>x \<in> set xs. blk_valid d x"
  shows "free_chain (put_block m c d) nos xs"
  using assms(1,4,5)
proof (induction rule: free_chain.induct)
  case (last nos i ys j)
  then show ?case by (blast intro: free_chain.last)
next
  case (link nos i ys x b zs)
  have "read_block x (put_block m c d) = Some b"
    using link.prems link.hyps assms(2,3) by (auto simp: blk.get_put_other)
  with link show ?case by (intro free_chain.link [of nos i ys x]) auto
qed

lemma free_list_put:
  assumes fl: "free_list d xs" and "length c = BLOCK_SIZE" and "m \<notin> set xs" and "m \<noteq> FREE_LIST_BLOCK"
  shows "free_list (put_block m c d) xs"
proof -
  from fl obtain b where b: "read_block FREE_LIST_BLOCK d = Some b"
    and ch: "free_chain d (makeFreeDiskListBlock b) xs"
    and meta: "meta_ok d" and v: "\<forall>x \<in> set xs. 16388 \<le> x \<and> blk_valid d x" and "distinct xs"
    by (auto simp: free_list_def)
  have "free_chain (put_block m c d) (makeFreeDiskListBlock b) xs"
    using ch meta_okD(1) [OF meta] assms(2,3) v by (intro free_chain_put) auto
  moreover have "read_block FREE_LIST_BLOCK (put_block m c d) = Some b"
    using b assms meta meta_okD(1,4) by (simp add: blk.get_put_other)
  ultimately show ?thesis
    using meta \<open>distinct xs\<close> v assms(2) meta_okD(1) [OF meta]
    by (auto simp: free_list_def disk_simps)
qed

text \<open>Replacing the list block: the new array and the old chain behind it.\<close>

lemma free_list_replace:
  assumes meta: "meta_ok d" and "free_chain d nos xs" and "length nos = 128" and "length b = BLOCK_SIZE"
    and v: "\<forall>x \<in> set xs. 16388 \<le> x \<and> blk_valid d x" and "distinct xs"
  shows "free_list (put_block FREE_LIST_BLOCK (writeFreeDiskListBlock nos b) d) xs"
proof -
  let ?c = "writeFreeDiskListBlock nos b"
  have len: "length ?c = BLOCK_SIZE" using assms by simp
  have "FREE_LIST_BLOCK \<notin> set xs" using v by auto
  then have "free_chain (put_block FREE_LIST_BLOCK ?c d) nos xs"
    using assms len meta_okD(1) [OF meta] by (intro free_chain_put) auto
  moreover have "read_block FREE_LIST_BLOCK (put_block FREE_LIST_BLOCK ?c d) = Some ?c"
    using meta len meta_okD(1,4) by (simp add: blk.get_put_same)
  ultimately show ?thesis
    using meta len v \<open>distinct xs\<close> assms(3,4) meta_okD(1) [OF meta]
    by (auto simp: free_list_def disk_simps codec_simps)
qed

text \<open>A list block taken over byte for byte from the linked block.\<close>

lemma free_list_follow:
  assumes meta: "meta_ok d" and "read_block x d = Some b" and "free_chain d (makeFreeDiskListBlock b) xs"
    and "blk_valid d x" and v: "\<forall>x \<in> set xs. 16388 \<le> x \<and> blk_valid d x" and "distinct xs"
  shows "free_list (put_block FREE_LIST_BLOCK b d) xs"
proof -
  have b: "length b = BLOCK_SIZE"
    using blk.get_length [OF meta_okD(1) [OF meta] assms(4,2)] .
  then have "writeFreeDiskListBlock (makeFreeDiskListBlock b) b = b" by (simp add: codec_simps)
  then show ?thesis
    using free_list_replace [OF meta assms(3) _ b v \<open>distinct xs\<close>] by simp
qed

lemma free_chain_Nil:
  assumes "free_chain d nos []"
  shows "nos = replicate 128 0"
  using assms by cases (auto simp: replicate_add [symmetric])

text \<open>A chain whose list block has its link in place.\<close>

lemma free_chain_linkE:
  assumes "free_chain d nos xs" and "nos ! 127 \<noteq> 0"
  obtains i ys y c zs where "nos = replicate i 0 @ ys @ [y]" and "i + length ys = 127"
    and "0 \<notin> set ys" and "y \<noteq> 0" and "read_block y d = Some c"
    and "free_chain d (makeFreeDiskListBlock c) zs" and "xs = ys @ y # zs"
  using assms(1)
proof cases
  case (last i j)
  then have "\<not> 127 < i" and "\<not> 127 - i < length xs" and "127 - i - length xs < j" by linarith+
  then have "nos ! 127 = 0" using last(1) by (simp add: nth_append)
  with assms(2) show ?thesis by simp
qed (use that in blast)

text \<open>What a non-empty chain looks like at its head.\<close>

lemma free_chain_Cons:
  assumes "free_chain d nos (x # xs)"
  obtains (here) i ys where "nos = replicate i 0 @ x # ys" and "i + Suc (length ys) = 128"
      and "ys \<noteq> []" and "x \<noteq> 0" and "free_chain d (replicate (Suc i) 0 @ ys) xs"
  | (follow) b where "nos = replicate 127 0 @ [x]" and "x \<noteq> 0" and "read_block x d = Some b"
      and "free_chain d (makeFreeDiskListBlock b) xs"
  using assms
proof cases
  case (last i j)
  have "free_chain d (replicate (Suc i) 0 @ xs @ replicate j 0) xs"
    by (rule free_chain.last [of _ "Suc i" _ j]) (use last in auto)
  then show ?thesis using last by (intro here [of i "xs @ replicate j 0"]) auto
next
  case (link i ys y b zs)
  show ?thesis
  proof (cases ys)
    case Nil
    then show ?thesis using link by (intro follow [of b]) auto
  next
    case (Cons y' ys')
    have "free_chain d (replicate (Suc i) 0 @ ys' @ [y]) (ys' @ y # zs)"
      by (rule free_chain.link [of _ "Suc i" _ y _ b]) (use link Cons in auto)
    then show ?thesis using link Cons by (intro here [of i "ys' @ [y]"]) auto
  qed
qed


section \<open>The contract of the block pool\<close>

text \<open>\<open>k\<close> allocations in a row, collecting the block numbers.\<close>

primrec alloc_many :: "(dsk \<Rightarrow> (size_t \<times> dsk) option) \<Rightarrow> nat \<Rightarrow> dsk \<Rightarrow> (size_t list \<times> dsk) option" where
  "alloc_many alloc 0 d = Some ([], d)"
| "alloc_many alloc (Suc k) d =
     do {
       (x, d) \<leftarrow> alloc d;
       (xs, d) \<leftarrow> alloc_many alloc k d;
       Some (x # xs, d)
     }"

locale block_pool =
  fixes alloc :: "dsk \<Rightarrow> (size_t \<times> dsk) option"
    and release :: "size_t \<Rightarrow> dsk \<Rightarrow> dsk option"
    and pool :: "dsk \<Rightarrow> size_t list \<Rightarrow> bool"
    and ready :: "dsk \<Rightarrow> bool"
  assumes alloc_Cons: "pool d (x # xs) \<Longrightarrow> \<exists>d'. alloc d = Some (x, d') \<and> pool d' xs"
    and alloc_Nil: "pool d [] \<Longrightarrow> \<exists>d'. alloc d = Some (0, d') \<and> pool d' []"
    and release_Cons: "pool d xs \<Longrightarrow> ready d \<Longrightarrow> 16388 \<le> x \<Longrightarrow> blk_valid d x \<Longrightarrow> x \<notin> set xs \<Longrightarrow>
      \<exists>d'. release x d = Some d' \<and> pool d' (x # xs) \<and> ready d'"
    and alloc_frame: "pool d xs \<Longrightarrow> alloc d = Some (x, d') \<Longrightarrow> n \<noteq> FREE_LIST_BLOCK \<Longrightarrow> blk_valid d n \<Longrightarrow>
      read_block n d' = read_block n d \<and> blk_valid d' n"
    and release_frame: "pool d xs \<Longrightarrow> release x d = Some d' \<Longrightarrow> n \<noteq> FREE_LIST_BLOCK \<Longrightarrow> n \<noteq> x \<Longrightarrow>
      blk_valid d n \<Longrightarrow> read_block n d' = read_block n d \<and> blk_valid d' n"
begin

text \<open>A released block is the next one handed out, and the pool is as before.\<close>

lemma release_alloc:
  assumes "pool d xs" and "ready d" and "16388 \<le> x" and "blk_valid d x" and "x \<notin> set xs"
  obtains d1 d2 where "release x d = Some d1" and "alloc d1 = Some (x, d2)" and "pool d2 xs"
  using release_Cons [OF assms] alloc_Cons by blast

text \<open>\<open>k\<close> allocations hand out the first \<open>k\<close> free blocks and then nothing but zero.\<close>

lemma alloc_many_take:
  assumes "pool d xs"
  shows "\<exists>d'. alloc_many alloc k d = Some (take k xs @ replicate (k - length xs) 0, d') \<and>
    pool d' (drop k xs)"
  using assms
proof (induction k arbitrary: d xs)
  case (Suc k)
  show ?case
  proof (cases xs)
    case Nil
    with Suc.prems alloc_Nil obtain d' where d': "alloc d = Some (0, d')" "pool d' []" by blast
    with Suc.IH [OF d'(2)] Nil show ?thesis by auto
  next
    case (Cons x ys)
    with Suc.prems alloc_Cons obtain d' where d': "alloc d = Some (x, d')" "pool d' ys" by blast
    with Suc.IH [OF d'(2)] Cons show ?thesis by auto
  qed
qed simp

end

section \<open>The code implements the contract\<close>

lemma free_listE:
  assumes "free_list d xs"
  obtains b where "read_block FREE_LIST_BLOCK d = Some b" and "length b = BLOCK_SIZE"
    and "free_chain d (makeFreeDiskListBlock b) xs" and "meta_ok d" and "disk_ok d" and "distinct xs"
    and "\<forall>x \<in> set xs. 16388 \<le> x \<and> blk_valid d x"
proof -
  from assms obtain b where b: "read_block FREE_LIST_BLOCK d = Some b" "meta_ok d"
    and rest: "free_chain d (makeFreeDiskListBlock b) xs" "distinct xs"
      "\<forall>x \<in> set xs. 16388 \<le> x \<and> blk_valid d x"
    by (auto simp: free_list_def)
  have ok: "disk_ok d" using meta_okD(1) b by blast
  moreover have "length b = BLOCK_SIZE"
    using blk.get_length [OF ok meta_okD(4) [OF b(2)] b(1)] by simp
  ultimately show ?thesis using that b rest by blast
qed

lemma getDiskBlock_read_block: "read_block n d = Some c \<Longrightarrow> snd (getDiskBlock n (Some b) d) = Some c"
  by (auto simp: read_block_def getDiskBlock_def fetchDeviceDiskBlock_def fetchMemoryDiskBlock_def
      Let_def split: if_splits)

lemma blockAlloc_Cons:
  assumes "free_list d (x # xs)"
  shows "\<exists>d'. blockAlloc d = Some (x, d') \<and> free_list d' xs"
proof -
  from assms obtain b where b: "read_block FREE_LIST_BLOCK d = Some b" "length b = BLOCK_SIZE"
    and ch: "free_chain d (makeFreeDiskListBlock b) (x # xs)" and meta: "meta_ok d"
    and dist: "distinct (x # xs)" and v: "\<forall>y \<in> set (x # xs). 16388 \<le> y \<and> blk_valid d y"
    by (rule free_listE)
  from ch show ?thesis
  proof (cases rule: free_chain_Cons)
    case (here i ys)
    have scan: "alloc_scan 0 (makeFreeDiskListBlock b) = (i, x, replicate (Suc i) 0 @ ys)"
      using here alloc_scan_Cons by simp
    have "i \<noteq> 127" using here by (cases ys) auto
    then have "blockAlloc d = Some (x, put_block FREE_LIST_BLOCK
        (writeFreeDiskListBlock (replicate (Suc i) 0 @ ys) b) d)"
      using b scan by (simp add: blockAlloc_def del: replicate.simps)
    moreover have "length (replicate (Suc i) 0 @ ys) = 128" using here by simp
    ultimately show ?thesis
      using free_list_replace [OF meta here(5) _ b(2)] v dist by (auto simp del: replicate.simps)
  next
    case (follow c)
    have scan: "alloc_scan 0 (makeFreeDiskListBlock b) = (127, x, replicate 128 0)"
      using follow alloc_scan_Cons [of x 127 "[]"] by (simp add: eval_nat_numeral)
    then have "blockAlloc d = Some (x, put_block FREE_LIST_BLOCK c d)"
      using b getDiskBlock_read_block [OF follow(3)] by (simp add: blockAlloc_def)
    then show ?thesis
      using free_list_follow [OF meta follow(3,4)] v dist by auto
  qed
qed

lemma blockAlloc_Nil:
  assumes "free_list d []"
  shows "\<exists>d'. blockAlloc d = Some (0, d') \<and> free_list d' []"
proof -
  from assms obtain b where b: "read_block FREE_LIST_BLOCK d = Some b" "length b = BLOCK_SIZE"
    and ch: "free_chain d (makeFreeDiskListBlock b) []" and meta: "meta_ok d"
    by (rule free_listE)
  have nos: "makeFreeDiskListBlock b = replicate 128 0" using free_chain_Nil [OF ch] .
  then have "alloc_scan 0 (makeFreeDiskListBlock b) = (128, 0, replicate 128 0)"
    by (simp add: alloc_scan_miss)
  then have "blockAlloc d =
      Some (0, put_block FREE_LIST_BLOCK (writeFreeDiskListBlock (replicate 128 0) b) d)"
    using b by (simp add: blockAlloc_def)
  then show ?thesis
    using free_list_replace [OF meta ch _ b(2)] nos by auto
qed

lemma linked_put:
  assumes "disk_ok d" and "blk_valid d FREE_LIST_BLOCK" and "length nos = 128" and "length b = BLOCK_SIZE" and "nos ! 127 \<noteq> 0"
  shows "free_list_linked (put_block FREE_LIST_BLOCK (writeFreeDiskListBlock nos b) d)"
  using assms by (simp add: free_list_linked_def disk_simps codec_simps)

lemma blockFree_Cons:
  assumes fl: "free_list d xs" and "free_list_linked d" and x: "16388 \<le> x" "blk_valid d x" "x \<notin> set xs"
  shows "\<exists>d'. blockFree x d = Some d' \<and> free_list d' (x # xs) \<and> free_list_linked d'"
proof -
  from fl obtain b where b: "read_block FREE_LIST_BLOCK d = Some b" "length b = BLOCK_SIZE"
    and ch: "free_chain d (makeFreeDiskListBlock b) xs" and meta: "meta_ok d" and ok: "disk_ok d"
    and dist: "distinct xs" and v: "\<forall>y \<in> set xs. 16388 \<le> y \<and> blk_valid d y"
    by (rule free_listE)
  have x0: "x \<noteq> 0" "x \<noteq> FREE_LIST_BLOCK" using x(1) by auto
  let ?nos = "makeFreeDiskListBlock b"
  show ?thesis
  proof (cases "?nos ! 0 = 0")
    case False
    let ?d1 = "put_block x b d"
    have "free_chain ?d1 ?nos xs" using ch ok b v x by (intro free_chain_put) auto
    moreover have "read_block x ?d1 = Some b" using ok b x by (simp add: disk_simps)
    ultimately have "free_chain ?d1 (replicate 127 0 @ [] @ [x]) ([] @ x # xs)"
      using x0 by (intro free_chain.link) auto
    then have "free_list (put_block FREE_LIST_BLOCK
        (writeFreeDiskListBlock (replicate 127 0 @ [x]) b) ?d1) (x # xs)"
      using meta ok b x v dist by (intro free_list_replace) (auto simp: disk_simps)
    moreover have "blockFree x d = Some (put_block FREE_LIST_BLOCK
        (writeFreeDiskListBlock (replicate 127 0 @ [x]) b) ?d1)"
      using b False free_full [of ?nos x]
      by (simp add: blockFree_def freeInto_def del: upt_rec_numeral)
    moreover have "free_list_linked (put_block FREE_LIST_BLOCK (writeFreeDiskListBlock (replicate 127 0 @ [x]) b) ?d1)"
      using x0 by (intro linked_put) (use b ok x meta_okD(4) [OF meta] in \<open>auto simp: disk_simps nth_append\<close>)
    ultimately show ?thesis by blast
  next
    case True
    with assms(2) b have "?nos ! 127 \<noteq> 0" by (simp add: free_list_linked_def)
    with ch obtain i ys y c zs where nos: "?nos = replicate i 0 @ ys @ [y]" and "i + length ys = 127"
      and "0 \<notin> set ys" "y \<noteq> 0" and c: "read_block y d = Some c"
      "free_chain d (makeFreeDiskListBlock c) zs" and xs: "xs = ys @ y # zs"
      by (rule free_chain_linkE)
    with True obtain k where i: "i = Suc k" by (cases i; cases ys) auto
    have "free_chain d (replicate k 0 @ (x # ys) @ [y]) ((x # ys) @ y # zs)"
      by (rule free_chain.link) (use x0 i c \<open>i + length ys = 127\<close> \<open>0 \<notin> set ys\<close> \<open>y \<noteq> 0\<close> in auto)
    moreover have slot: "free_slot 128 x ?nos = replicate k 0 @ (x # ys) @ [y]"
    proof -
      have "free_slot (Suc 127) x (replicate (Suc k) 0 @ (ys @ [y]) @ []) =
          replicate k 0 @ x # (ys @ [y]) @ []"
        by (rule free_slot_last) (use i \<open>i + length ys = 127\<close> \<open>0 \<notin> set ys\<close> \<open>y \<noteq> 0\<close> in auto)
      then show ?thesis using nos i by simp
    qed
    ultimately have "free_list (put_block FREE_LIST_BLOCK
        (writeFreeDiskListBlock (replicate k 0 @ (x # ys) @ [y]) b) d) (x # xs)"
      using meta b x v dist xs i \<open>i + length ys = 127\<close> by (intro free_list_replace) auto
    moreover have "blockFree x d = Some (put_block FREE_LIST_BLOCK
        (writeFreeDiskListBlock (replicate k 0 @ (x # ys) @ [y]) b) d)"
      using b True slot by (simp add: blockFree_def freeInto_def)
    moreover have "free_list_linked (put_block FREE_LIST_BLOCK
        (writeFreeDiskListBlock (replicate k 0 @ (x # ys) @ [y]) b) d)"
      by (intro linked_put)
        (use b ok i \<open>i + length ys = 127\<close> \<open>y \<noteq> 0\<close> meta_okD(4) [OF meta] in \<open>auto simp: nth_append\<close>)
    ultimately show ?thesis by blast
  qed
qed

text \<open>With 128 free blocks or more the chain has a link, so blocks can be released.\<close>

lemma free_list_ready:
  assumes "free_list d xs" and "128 \<le> length xs"
  shows "free_list_linked d"
proof -
  obtain b where b: "read_block FREE_LIST_BLOCK d = Some b" "free_chain d (makeFreeDiskListBlock b) xs"
    using assms(1) by (rule free_listE)
  from b(2) have "makeFreeDiskListBlock b ! 127 \<noteq> 0"
    by cases (use assms(2) in \<open>auto simp: nth_append\<close>)
  then show ?thesis using b(1) by (simp add: free_list_linked_def)
qed

text \<open>
  Without such a link a released block becomes the link itself, and the next allocation takes whatever the
  block contains for the list of free blocks.
\<close>

lemma free_into_empty:
  assumes fl: "free_list d []" and x: "16388 \<le> x" "blk_valid d x" "read_block x d = Some c"
  shows "\<exists>d1 d2. blockFree x d = Some d1 \<and> blockAlloc d1 = Some (x, d2) \<and> read_block FREE_LIST_BLOCK d2 = Some c"
proof -
  from fl obtain b where b: "read_block FREE_LIST_BLOCK d = Some b" "length b = BLOCK_SIZE"
    and ch: "free_chain d (makeFreeDiskListBlock b) []" and meta: "meta_ok d" and ok: "disk_ok d"
    by (rule free_listE)
  have v: "blk_valid d 2" and x0: "x \<noteq> 0" "x \<noteq> 2" using meta_okD(4) [OF meta] x by auto
  have nos: "makeFreeDiskListBlock b = replicate 128 0" using free_chain_Nil [OF ch] .
  have slot: "free_slot 128 x (replicate 128 0) = replicate 127 0 @ [x]"
    using free_slot_last [of 127 127 "[]" x "[]"] by (simp add: eval_nat_numeral)
  let ?c = "writeFreeDiskListBlock (replicate 127 0 @ [x]) b"
  let ?d1 = "put_block FREE_LIST_BLOCK ?c d"
  have f: "blockFree x d = Some ?d1" using b nos slot by (simp add: blockFree_def freeInto_def)
  have r1: "read_block FREE_LIST_BLOCK ?d1 = Some ?c" "read_block x ?d1 = Some c" using ok v b x x0 by (simp_all add: disk_simps)
  have len: "length c = BLOCK_SIZE" using blk.get_length [OF ok x(2,3)] .
  have "alloc_scan 0 (replicate 127 0 @ [x]) = (127, x, replicate 128 0)"
    using alloc_scan_Cons [of x 127 "[]"] x0 by (simp add: eval_nat_numeral)
  then have "blockAlloc ?d1 = Some (x, put_block FREE_LIST_BLOCK c ?d1)"
    using r1 b getDiskBlock_read_block [OF r1(2)] by (simp add: blockAlloc_def codec_simps)
  moreover have "read_block FREE_LIST_BLOCK (put_block FREE_LIST_BLOCK c ?d1) = Some c"
    using ok v b len by (simp add: disk_simps)
  ultimately show ?thesis using f by blast
qed

text \<open>The only blocks written: the list block, and a released block that becomes a list block.\<close>

lemma blockAlloc_put:
  assumes "free_list d xs" and "blockAlloc d = Some (x, d')"
  shows "\<exists>b. length b = BLOCK_SIZE \<and> d' = put_block FREE_LIST_BLOCK b d"
proof (cases xs)
  case Nil
  from assms(1) obtain b where b: "read_block FREE_LIST_BLOCK d = Some b" "length b = BLOCK_SIZE"
    and ch: "free_chain d (makeFreeDiskListBlock b) xs"
    by (rule free_listE)
  from free_chain_Nil [OF ch [unfolded Nil]]
  have "alloc_scan 0 (makeFreeDiskListBlock b) = (128, 0, replicate 128 0)"
    by (simp add: alloc_scan_miss)
  then have "d' = put_block FREE_LIST_BLOCK (writeFreeDiskListBlock (replicate 128 0) b) d"
    using b assms(2) by (simp add: blockAlloc_def)
  then show ?thesis using b by (intro exI [of _ "writeFreeDiskListBlock (replicate 128 0) b"]) simp
next
  case (Cons y ys)
  from assms(1) obtain b where b: "read_block FREE_LIST_BLOCK d = Some b" "length b = BLOCK_SIZE"
    and ch: "free_chain d (makeFreeDiskListBlock b) xs" and ok: "disk_ok d"
    and v: "\<forall>x \<in> set xs. 16388 \<le> x \<and> blk_valid d x"
    by (rule free_listE)
  from ch [unfolded Cons] show ?thesis
  proof (cases rule: free_chain_Cons)
    case (here i zs)
    then have "alloc_scan 0 (makeFreeDiskListBlock b) = (i, y, replicate (Suc i) 0 @ zs)"
      using alloc_scan_Cons by simp
    moreover have "i \<noteq> 127" using here by (cases zs) auto
    ultimately have "d' = put_block FREE_LIST_BLOCK
        (writeFreeDiskListBlock (replicate (Suc i) 0 @ zs) b) d"
      using b assms(2) by (simp add: blockAlloc_def del: replicate.simps)
    then show ?thesis
      using b here(2) by (intro exI [of _ "writeFreeDiskListBlock (replicate (Suc i) 0 @ zs) b"]) simp
  next
    case (follow c)
    then have "alloc_scan 0 (makeFreeDiskListBlock b) = (127, y, replicate 128 0)"
      using alloc_scan_Cons [of y 127 "[]"] by (simp add: eval_nat_numeral)
    moreover have "length c = BLOCK_SIZE"
      using blk.get_length [OF ok _ follow(3)] v Cons by simp
    ultimately show ?thesis
      using b assms(2) getDiskBlock_read_block [OF follow(3)] by (auto simp: blockAlloc_def)
  qed
qed

lemma blockFree_put:
  assumes "free_list d xs" and "blockFree x d = Some d'"
  shows "\<exists>b c. length b = BLOCK_SIZE \<and> length c = BLOCK_SIZE \<and>
    (d' = put_block FREE_LIST_BLOCK b d \<or> d' = put_block FREE_LIST_BLOCK b (put_block x c d))"
proof -
  have [simp]: "length (free_slot k n nos) = length nos" for k n nos by (induction k) auto
  from assms(1) obtain b where b: "read_block FREE_LIST_BLOCK d = Some b" "length b = BLOCK_SIZE"
    by (rule free_listE)
  show ?thesis
  proof (cases "makeFreeDiskListBlock b ! 0 = 0")
    case True
    let ?c = "writeFreeDiskListBlock (free_slot 128 x (makeFreeDiskListBlock b)) b"
    have "d' = put_block FREE_LIST_BLOCK ?c d"
      using b True assms(2) by (simp add: blockFree_def freeInto_def)
    then show ?thesis using b by (intro exI [of _ ?c] exI [of _ b]) simp
  next
    case False
    let ?c = "writeFreeDiskListBlock (replicate 127 0 @ [x]) b"
    have "d' = put_block FREE_LIST_BLOCK ?c (put_block x b d)"
      using b False assms(2) free_full [of "makeFreeDiskListBlock b" x]
      by (simp add: blockFree_def freeInto_def del: upt_rec_numeral)
    then show ?thesis using b by (intro exI [of _ ?c] exI [of _ b]) simp
  qed
qed

interpretation pool: block_pool blockAlloc blockFree free_list free_list_linked
proof
  fix d xs x d' n
  assume fl: "free_list d xs"
  have ok: "disk_ok d" using fl by (rule free_listE)
  show "read_block n d' = read_block n d \<and> blk_valid d' n"
    if "blockAlloc d = Some (x, d')" "n \<noteq> FREE_LIST_BLOCK" "blk_valid d n"
    using blockAlloc_put [OF fl that(1)] ok that by (auto simp: disk_simps)
  show "read_block n d' = read_block n d \<and> blk_valid d' n"
    if "blockFree x d = Some d'" "n \<noteq> FREE_LIST_BLOCK" "n \<noteq> x" "blk_valid d n"
    using blockFree_put [OF fl that(1)] ok that by (auto simp: disk_simps)
qed (fact blockAlloc_Cons blockAlloc_Nil blockFree_Cons)+

text \<open>Releasing a block writes at most the list block and the block itself.\<close>

lemma blockFree_step:
  assumes "free_list d xs" and "free_list_linked d" and "16388 \<le> x" and "blk_valid d x" and "x \<notin> set xs"
  obtains d' where "blockFree x d = Some d'" and "free_list d' (x # xs)" and "free_list_linked d'"
    and "\<And>n. blk_valid d' n = blk_valid d n"
    and "\<And>n. blk_valid d n \<Longrightarrow> n \<noteq> FREE_LIST_BLOCK \<Longrightarrow> n \<noteq> x \<Longrightarrow> read_block n d' = read_block n d"
proof -
  obtain d' where d': "blockFree x d = Some d'" "free_list d' (x # xs)" "free_list_linked d'"
    using blockFree_Cons [OF assms] by blast
  have ok: "disk_ok d" using assms(1) by (rule free_listE)
  have "blk_valid d' n = blk_valid d n" for n
    using blockFree_put [OF assms(1) d'(1)] ok by (auto simp: disk_simps)
  then show thesis using that [OF d'] pool.release_frame [OF assms(1) d'(1)] by blast
qed

text \<open>Disks with a given free list.\<close>

lemma free_list_exists:
  assumes "distinct xs" and "length xs < 128" and "\<forall>x \<in> set xs. 16388 \<le> x \<and> x < 65536"
  obtains d where "free_list d xs"
proof -
  let ?nos = "[] @ xs @ replicate (128 - length xs) 0"
  have "0 \<notin> set xs" using assms(3) by auto
  then have "free_chain blank_disk ?nos xs"
    by (intro free_chain.last [where i = 0 and j = "128 - length xs"]) (use assms(2) in auto)
  then have "free_list (put_block FREE_LIST_BLOCK (writeFreeDiskListBlock ?nos (replicate BLOCK_SIZE 0)) blank_disk) xs"
    by (intro free_list_replace meta_ok_blank) (use assms in \<open>auto simp: blk_valid_blank\<close>)
  then show ?thesis by (rule that)
qed

lemma linked_free_list_exists:
  obtains d where "free_list d [16390]" and "free_list_linked d" and "blk_valid d 16400"
proof -
  let ?nos = "replicate 127 0 @ [] @ [16390] :: size_t list" and ?z = "replicate BLOCK_SIZE 0"
  let ?d = "put_block FREE_LIST_BLOCK (writeFreeDiskListBlock ?nos ?z) blank_disk"
  have z: "read_block 16390 blank_disk = Some ?z"
    by (simp add: read_block_def getDiskBlock_def fetchMemoryDiskBlock_def blank_disk_def static_dsk_def frame_simps)
  have "makeFreeDiskListBlock ?z = replicate 128 0"
    using makeFreeDiskListBlock_zero .
  then have "free_chain blank_disk (makeFreeDiskListBlock ?z) []"
    by (intro free_chain.last [where i = 127 and j = 1]) (auto simp: replicate_Suc_snoc [symmetric] eval_nat_numeral)
  then have "free_chain blank_disk ?nos ([] @ 16390 # [])"
    by (intro free_chain.link [OF _ _ _ _ z]) auto
  then have "free_list ?d [16390]"
    by (intro free_list_replace meta_ok_blank) (auto simp: blk_valid_blank)
  moreover have "free_list_linked ?d"
    by (simp add: free_list_linked_def disk_simps disk_ok_blank blk_valid_blank codec_simps nth_append)
  moreover have "blk_valid ?d 16400" by (simp add: disk_simps disk_ok_blank blk_valid_blank)
  ultimately show ?thesis by (rule that)
qed

text \<open>The disk determines the list.\<close>

lemma free_chain_unique:
  assumes "free_chain d nos xs" and "free_chain d nos ys"
  shows "xs = ys"
  using assms
proof (induction arbitrary: ys rule: free_chain.induct)
  case (last nos i xs j)
  have f: "filter (\<lambda>x. x \<noteq> 0) nos = xs" using last.hyps(1,4) by (auto simp: filter_id_conv)
  from last.prems show ?case
  proof cases
    case (last i' j')
    then show ?thesis using f by (auto simp: filter_id_conv)
  next
    case (link i' ys' x b zs)
    have "List.last nos = 0" using last.hyps(1,3) by simp
    then show ?thesis using link by simp
  qed
next
  case (link nos i xs x b zs)
  have f: "filter (\<lambda>x. x \<noteq> 0) nos = xs @ [x]" using link.hyps(1,3,4) by (auto simp: filter_id_conv)
  have lst: "List.last nos = x" using link.hyps(1) by simp
  from link.prems show ?case
  proof cases
    case (last i' j')
    then have "List.last nos = 0" by simp
    then show ?thesis using lst link.hyps(4) by simp
  next
    case l: (link i' ys' x' b' zs')
    then have "filter (\<lambda>x. x \<noteq> 0) nos = ys' @ [x']" by (auto simp: filter_id_conv)
    then have "ys' = xs" "x' = x" using f by simp_all
    moreover then have "zs = zs'" using l link.hyps(5) link.IH by auto
    ultimately show ?thesis using l by simp
  qed
qed

lemma free_list_unique: "free_list d xs \<Longrightarrow> free_list d ys \<Longrightarrow> xs = ys"
  using free_chain_unique by (auto simp: free_list_def)

section \<open>Properties\<close>

text \<open>
  C21. The chain of free list blocks refines a list of free block numbers: \<open>k\<close> calls of \<open>blockAlloc\<close> hand out its first
  \<open>k\<close> elements in order, each once, across the borders between list blocks, then \<open>0\<close> for ever; what is left is the
  rest of the list.
\<close>

theorem blockAlloc_takes:
  assumes "free_list d xs"
  shows "\<exists>d'. alloc_many blockAlloc k d = Some (take k xs @ replicate (k - length xs) 0, d') \<and>
    free_list d' (drop k xs)"
  by (rule pool.alloc_many_take [OF assms])

theorem blockAlloc_takes_witness:
  "\<exists>d d'. free_list d [16390, 16400] \<and> alloc_many blockAlloc 3 d = Some ([16390, 16400, 0], d')"
proof -
  obtain d where d: "free_list d [16390, 16400]" using free_list_exists [of "[16390, 16400]"] by auto
  then show ?thesis using blockAlloc_takes [OF d, of 3] by (auto simp: numeral_2_eq_2 eval_nat_numeral)
qed

text \<open>
  C22. A block given back while the list block at hand is full or linked becomes the head of the free list, also
  when it has to become a list block itself; the next \<open>blockAlloc\<close> returns it and restores the list.
\<close>

theorem blockFree_blockAlloc:
  assumes "free_list d xs" and "free_list_linked d" and "16388 \<le> x" and "blk_valid d x" and "x \<notin> set xs"
  shows "\<exists>d1 d2. blockFree x d = Some d1 \<and> free_list d1 (x # xs) \<and> blockAlloc d1 = Some (x, d2) \<and> free_list d2 xs"
  using blockFree_Cons [OF assms] blockAlloc_Cons by meson

theorem blockFree_blockAlloc_witness:
  "\<exists>d d1 d2. blockFree 16400 d = Some d1 \<and> blockAlloc d1 = Some (16400, d2) \<and> free_list d2 [16390]"
proof -
  obtain d where d: "free_list d [16390]" "free_list_linked d" "blk_valid d 16400"
    using linked_free_list_exists by auto
  then show ?thesis using blockFree_blockAlloc [OF d(1,2) _ d(3)] by auto
qed

text \<open>
  Allocation is confined: it writes only the block that heads the free list, so every other block, the inode table
  and all file data included, reads as before.
\<close>

lemma blockAlloc_frame:
  assumes "free_list d xs" and "blockAlloc d = Some (x, d')" and "n \<noteq> FREE_LIST_BLOCK" and "blk_valid d n"
  shows "read_block n d' = read_block n d \<and> blk_valid d' n"
  by (rule pool.alloc_frame [OF assms])

end
