(* ===== verification/Mkfs.thy ===== *)
theory Mkfs
  imports BlockAlloc
begin

text \<open>
  Making a file system: \<open>src/mkfs/freeBlockList.c\<close>, \<open>src/mkfs/mkfs.c\<close>, and the two programs
  \<open>src/mkfs/exec-mkfs.c\<close> and \<open>src/mkfs/diskReader.c\<close>, whose \<open>main\<close> takes the list of arguments; for
  the reader the printed values are the result.

  The lemmas show that \<open>makeFileSystem\<close> sets up the free block chain over all data blocks, the
  stack of free inodes, and an inode table in which only the root directory is in use.
\<close>

section \<open>freeBlockList.c\<close>

text \<open>\<open>ptr\<close> is \<open>ptrIntoBlock - blockPtr->data\<close>; \<open>bound\<close> is \<open>NUM_OF_BLOCKS\<close>.\<close>

function one_block_loop :: "size_t \<Rightarrow> nat \<Rightarrow> size_t \<Rightarrow> disk_block \<Rightarrow> nat \<times> size_t \<times> disk_block" where
  "one_block_loop bound ptr nodeCounter b =
     (if ptr < BLOCK_SIZE \<and> nodeCounter < bound
      then one_block_loop bound (ptr + BLOCK_ADDRESS_SIZE) (nodeCounter + 1)
             (memcpy_at ptr (le_bytes BLOCK_ADDRESS_SIZE nodeCounter) b)
      else (ptr, nodeCounter, b))"
  by pat_completeness auto
termination
  by (relation "measure (\<lambda>(bound, ptr, n, b). BLOCK_SIZE - ptr)") auto

declare one_block_loop.simps [simp del]

definition makeOneBlock :: "size_t \<Rightarrow> dsk \<Rightarrow> size_t \<times> disk_block" where
  "makeOneBlock startNode d =
     (let (ptr, nodeCounter, b) = one_block_loop (NUM_OF_BLOCKS d) 0 startNode (replicate BLOCK_SIZE 0)
      in (if ptr = BLOCK_SIZE then nodeCounter - 1 else 0, b))"

section \<open>Lemmas: one list block\<close>

lemma one_block_loop_eq:
  assumes "ptr \<le> BLOCK_SIZE" and "8 dvd ptr" and "length b = BLOCK_SIZE"
    and "m = min ((BLOCK_SIZE - ptr) div 8) (unat bound - unat s)"
  shows "one_block_loop bound ptr s b =
    (ptr + 8 * m, s + word_of_nat m, store_entries 8 (map (\<lambda>k. s + word_of_nat k) [0..<m]) ptr b)"
  using assms
proof (induction bound ptr s b arbitrary: m rule: one_block_loop.induct)
  case (1 bound ptr s b)
  show ?case
  proof (cases "ptr < BLOCK_SIZE \<and> s < bound")
    case False
    then have "m = 0" using "1.prems" by (auto simp: word_less_nat_alt)
    then show ?thesis using False by (auto simp: one_block_loop.simps [of bound ptr])
  next
    case True
    then have s1: "unat (s + 1) = unat s + 1" and "unat s < unat bound"
      using unat_add1_less [of s bound] by (simp_all add: word_less_nat_alt)
    from "1.prems"(2) True obtain q where q: "ptr = 8 * q" by (auto simp: dvd_def)
    with True have "q < 128" by simp
    with q s1 \<open>unat s < unat bound\<close> "1.prems"(4)
    have m: "m = Suc (min ((BLOCK_SIZE - (ptr + 8)) div 8) (unat bound - unat (s + 1)))"
      by (simp add: min_def) linarith
    let ?m = "min ((BLOCK_SIZE - (ptr + 8)) div 8) (unat bound - unat (s + 1))"
    have "one_block_loop bound (ptr + 8) (s + 1) (memcpy_at ptr (le_bytes 8 s) b) =
        (ptr + 8 + 8 * ?m, s + 1 + word_of_nat ?m,
         store_entries 8 (map (\<lambda>k. s + 1 + word_of_nat k) [0..<?m]) (ptr + 8)
           (memcpy_at ptr (le_bytes 8 s) b))"
      using True "1.prems" q by (intro "1.IH") auto
    moreover have "map (\<lambda>k. s + word_of_nat k) [0..<m] =
        s # map (\<lambda>k. s + 1 + word_of_nat k) [0..<?m]"
      unfolding m by (simp add: upt_conv_Cons map_Suc_upt [symmetric] del: upt_Suc)
    ultimately show ?thesis
      using True m by (simp add: one_block_loop.simps [of bound ptr] algebra_simps)
  qed
qed

text \<open>The numbers one list block gets, and the number of the next list block.\<close>

lemma makeOneBlock_eq:
  fixes s :: size_t and d :: dsk
  defines "m \<equiv> min 128 (unat (NUM_OF_BLOCKS d) - unat s)"
  shows "makeFreeDiskListBlock (snd (makeOneBlock s d)) =
      map (\<lambda>k. s + word_of_nat k) [0..<m] @ replicate (128 - m) 0"
    and "fst (makeOneBlock s d) = (if m = 128 then s + 127 else 0)"
    and "length (snd (makeOneBlock s d)) = BLOCK_SIZE"
proof -
  have loop: "one_block_loop (NUM_OF_BLOCKS d) 0 s (replicate BLOCK_SIZE 0) =
      (8 * m, s + word_of_nat m,
       store_entries 8 (map (\<lambda>k. s + word_of_nat k) [0..<m]) 0 (replicate BLOCK_SIZE 0))"
    using one_block_loop_eq [of 0 "replicate BLOCK_SIZE 0" m "NUM_OF_BLOCKS d" s]
    by (simp add: m_def)
  have "m \<le> 128" by (simp add: m_def)
  then show "makeFreeDiskListBlock (snd (makeOneBlock s d)) =
      map (\<lambda>k. s + word_of_nat k) [0..<m] @ replicate (128 - m) 0"
    and "length (snd (makeOneBlock s d)) = BLOCK_SIZE"
    using loop by (simp_all add: makeOneBlock_def makeFreeDiskListBlock_store_prefix)
  show "fst (makeOneBlock s d) = (if m = 128 then s + 127 else 0)"
    using loop by (auto simp: makeOneBlock_def)
qed

lemma makeOneBlock_next:
  assumes "fst (makeOneBlock s d) \<noteq> 0"
  shows "unat s + 128 \<le> unat (NUM_OF_BLOCKS d)" and "fst (makeOneBlock s d) = s + 127"
  using assms makeOneBlock_eq(2) [of s d] by (auto split: if_splits)

section \<open>mkfs.c\<close>

abbreviation (input) S_IFDIR :: mode_t where "S_IFDIR \<equiv> 0x4000"

text \<open>\<open>S_IFDIR | S_IRWXU | S_IRGRP | S_IXGRP | S_IWGRP | S_IROTH | S_IXOTH | S_IWOTH\<close>\<close>

definition root_mode :: mode_t where
  "root_mode = S_IFDIR OR 0x1C0 OR 0x20 OR 0x8 OR 0x10 OR 0x4 OR 0x1 OR 0x2"

definition assignRootData :: "dsk \<Rightarrow> dsk option" where
  "assignRootData d =
     do {
       (_, rootINode) \<leftarrow> getDiskInode 0 d;
       (blockNum, d) \<leftarrow> blockAlloc d;
       rootINode \<leftarrow> rootINode;
       (_, d) \<leftarrow> writeDiskInode 0 (rootINode
         \<lparr> di_type := T_DIRECTORY, di_file_mode := root_mode,
           di_dataBlockNums := (di_dataBlockNums rootINode)[0 := blockNum] \<rparr>) d;
       Some d
     }"

definition writeINodeListToDisk :: "size_t \<Rightarrow> nat \<Rightarrow> dsk \<Rightarrow> (size_t \<times> dsk) option" where
  "writeINodeListToDisk freeBlockNum iNodeListSize d =
     do {
       d \<leftarrow> assignRootData d;
       let iNodeList = map (\<lambda>iNodeCounter. word_of_nat iNodeCounter + 1) [0..<iNodeListSize];
       (rememberedINode, metaBlock) \<leftarrow> initINodeListBlock iNodeList;
       Some (rememberedINode, put_block freeBlockNum metaBlock d)
     }"

definition getINodeListSize :: nat where
  "getINodeListSize =
     (let iNodeAddressesPerBlock = BLOCK_SIZE div INODE_ADDRESS_SIZE
      in if iNodeAddressesPerBlock > unat NUM_OF_INODES then unat NUM_OF_INODES
         else iNodeAddressesPerBlock)"

function create_loop :: "size_t \<Rightarrow> size_t \<Rightarrow> size_t \<Rightarrow> dsk \<Rightarrow> dsk option" where
  "create_loop endOfBlocks blockCounter iNodeCounter d =
     (if blockCounter < endOfBlocks then
        do {
          (iNodeCounter, metaBlock) \<leftarrow> populateINodesIn iNodeCounter d;
          create_loop endOfBlocks (blockCounter + 1) iNodeCounter (put_block blockCounter metaBlock d)
        }
      else Some d)"
  by pat_completeness auto
termination
  by (relation "measure (\<lambda>(e, b, i, d). unat e - unat b)")
    (auto simp: unat_add1_less word_less_nat_alt)

declare create_loop.simps [simp del]

definition createINodes :: "size_t \<Rightarrow> dsk \<Rightarrow> dsk option" where
  "createINodes startPos d = create_loop (startPos + NUM_OF_INODE_BLOCKS d) startPos 0 d"

definition initializeINodeData :: "size_t \<Rightarrow> size_t \<Rightarrow> dsk \<Rightarrow> (size_t \<times> dsk) option" where
  "initializeINodeData freeBlockNum startPos d =
     do {
       d \<leftarrow> createINodes startPos d;
       writeINodeListToDisk freeBlockNum getINodeListSize d
     }"

function disk_blocks_loop :: "size_t \<Rightarrow> size_t \<Rightarrow> dsk \<Rightarrow> dsk" where
  "disk_blocks_loop pointerBlockNumber startPos d =
     (if pointerBlockNumber < NUM_OF_BLOCKS d then
        let (nextFreeListNumber, metaBlock) = makeOneBlock startPos d;
            d = put_block pointerBlockNumber metaBlock d
        in if nextFreeListNumber = 0 then d
           else disk_blocks_loop nextFreeListNumber (startPos + 128) d
      else d)"
  by pat_completeness auto
termination
proof (relation "measure (\<lambda>(p, s, d). unat (NUM_OF_BLOCKS d) - unat s)")
  fix p s :: size_t and d d' :: dsk and x y z
  assume "x = makeOneBlock s d" and "(y, z) = x" and d': "d' = put_block p z d" and "y \<noteq> 0"
  then have "unat s + 128 \<le> unat (NUM_OF_BLOCKS d)"
    using makeOneBlock_next [of s d] by (metis fst_conv)
  moreover have "unat (NUM_OF_BLOCKS d) < 2 ^ 64" using unat_bound [of "NUM_OF_BLOCKS d"] by simp
  ultimately have "unat (s + 128) = unat s + 128" by (simp add: unat_word_ariths)
  then show "((y, s + 128, d'), (p, s, d)) \<in> measure (\<lambda>(p, s, d). unat (NUM_OF_BLOCKS d) - unat s)"
    using d' \<open>unat s + 128 \<le> unat (NUM_OF_BLOCKS d)\<close> by (simp add: frame_simps)
qed simp

declare disk_blocks_loop.simps [simp del]

definition initializeDiskBlocks :: "size_t \<Rightarrow> size_t \<Rightarrow> dsk \<Rightarrow> dsk" where
  "initializeDiskBlocks freeBlockNum startPos d = disk_blocks_loop freeBlockNum startPos d"

text \<open>\<open>superBlockData\<close> is a \<open>malloc\<close>ed block with content \<open>junk\<close>, of which two bytes are overwritten.\<close>

definition makeFileSystem :: "disk_block \<Rightarrow> dsk \<Rightarrow> dsk option" where
  "makeFileSystem junk d =
     do {
       let d = initializeINodeParams d;
       (iNodeToRemember, d) \<leftarrow> initializeINodeData INODE_LIST_BLOCK INODE_BLOCKS_HEAD d;
       let d = initializeDiskBlocks FREE_LIST_BLOCK (4 + NUM_OF_INODE_BLOCKS d) d;
       Some (put_block SUPER_BLOCK (writeSuperBlock \<lparr> rememberedINode = iNodeToRemember \<rparr> junk) d)
     }"

section \<open>exec-mkfs.c and diskReader.c\<close>

definition exec_mkfs_main :: "disk_block \<Rightarrow> string list \<Rightarrow> dsk \<Rightarrow> (int \<times> dsk) option" where
  "exec_mkfs_main junk argv d =
     (if length argv \<noteq> 2 then Some (0, d)
      else
        let (retValue, d) = setupDisk (argv ! 1) d
        in if retValue = - 1 then Some (- 1, d)
           else do { d \<leftarrow> makeFileSystem junk d; Some (0, d) })"

definition printFreeList :: "dsk \<Rightarrow> size_t list option" where
  "printFreeList d = map_option makeFreeDiskListBlock (read_block FREE_LIST_BLOCK d)"

definition printFreeINodeList :: "dsk \<Rightarrow> size_t list option" where
  "printFreeINodeList d = map_option makeINodeListBlock (read_block INODE_LIST_BLOCK d)"

definition printINodeForSanity :: "dsk \<Rightarrow> iNode option" where
  "printINodeForSanity d =
     do {
       dataBlock \<leftarrow> read_block INODE_BLOCKS_HEAD d;
       case iNodesList (makeINodesBlock d dataBlock) of [] \<Rightarrow> None | i # _ \<Rightarrow> Some i
     }"

definition diskReader_main :: "string list \<Rightarrow> dsk \<Rightarrow> (size_t list \<times> size_t list \<times> iNode) option option" where
  "diskReader_main argv d =
     (if length argv \<noteq> 2 then Some None
      else
        let (retValue, d) = setupDisk (argv ! 1) d
        in if retValue = - 1 then Some None
           else do {
             blocks \<leftarrow> printFreeList d;
             inodes \<leftarrow> printFreeINodeList d;
             i \<leftarrow> printINodeForSanity d;
             Some (Some (blocks, inodes, i))
           })"


section \<open>Lemmas: the free block chain\<close>

definition block_range :: "nat \<Rightarrow> nat \<Rightarrow> size_t list" where
  "block_range a b = map word_of_nat [a..<b]"

lemma disk_blocks_loop_frame:
  assumes "disk_ok d" and "p < s"
  shows "disk_ok (disk_blocks_loop p s d) \<and>
    (\<forall>n. blk_valid (disk_blocks_loop p s d) n = blk_valid d n) \<and>
    (\<forall>n. n \<noteq> p \<longrightarrow> n < s \<longrightarrow> blk_valid d n \<longrightarrow> read_block n (disk_blocks_loop p s d) = read_block n d)"
  using assms
proof (induction p s d rule: disk_blocks_loop.induct)
  case (1 p s d)
  obtain nx mb where mb: "makeOneBlock s d = (nx, mb)" by fastforce
  have len: "length mb = BLOCK_SIZE" using makeOneBlock_eq(3) [of s d] mb by simp
  let ?d1 = "put_block p mb d"
  have ok1: "disk_ok ?d1" and v1: "\<And>n. blk_valid ?d1 n = blk_valid d n"
    using "1.prems"(1) len by (simp_all add: disk_simps)
  consider "\<not> p < NUM_OF_BLOCKS d" | "p < NUM_OF_BLOCKS d" "nx = 0" | "p < NUM_OF_BLOCKS d" "nx \<noteq> 0"
    by blast
  then show ?case
  proof cases
    case 1
    then show ?thesis using "1.prems" by (simp add: disk_blocks_loop.simps [of p s d])
  next
    case 2
    then have "disk_blocks_loop p s d = ?d1" using mb by (simp add: disk_blocks_loop.simps [of p s d])
    then show ?thesis using ok1 v1 len "1.prems"(1) by (simp add: disk_simps)
  next
    case 3
    then have step: "disk_blocks_loop p s d = disk_blocks_loop nx (s + 128) ?d1"
      using mb by (simp add: disk_blocks_loop.simps [of p s d])
    have nx: "nx = s + 127" and room: "unat s + 128 \<le> unat (NUM_OF_BLOCKS d)"
      using makeOneBlock_next [of s d] mb 3 by auto
    have "unat (NUM_OF_BLOCKS d) < 2 ^ 64" using unat_bound [of "NUM_OF_BLOCKS d"] by simp
    with room have u: "unat (s + 127) = unat s + 127" "unat (s + 128) = unat s + 128"
      by (simp_all add: unat_word_ariths)
    have "nx < s + 128" using nx u by (simp add: word_less_nat_alt)
    then have IH: "disk_ok (disk_blocks_loop nx (s + 128) ?d1) \<and>
      (\<forall>n. blk_valid (disk_blocks_loop nx (s + 128) ?d1) n = blk_valid ?d1 n) \<and>
      (\<forall>n. n \<noteq> nx \<longrightarrow> n < s + 128 \<longrightarrow> blk_valid ?d1 n \<longrightarrow>
         read_block n (disk_blocks_loop nx (s + 128) ?d1) = read_block n ?d1)"
      using "1.IH" [OF _ mb [symmetric] refl] 3 mb ok1 by auto
    have "n \<noteq> nx" and "n < s + 128" if "n < s" for n
      using that nx u by (auto simp: word_less_nat_alt)
    with IH show ?thesis using v1 len "1.prems"(1) by (auto simp: step disk_simps)
  qed
qed

lemma word_range_shift:
  "map (\<lambda>k. (s :: size_t) + word_of_nat k) [0..<m] = block_range (unat s) (unat s + m)"
  by (rule nth_equalityI) (simp_all add: block_range_def)

lemma block_range_split:
  "a \<le> b \<Longrightarrow> b \<le> c \<Longrightarrow> block_range a c = block_range a b @ block_range b c"
  using upt_add_eq_append [of a b "c - b"] by (simp add: block_range_def)

lemma block_range_nonzero: "0 < a \<Longrightarrow> b \<le> 2 ^ 64 \<Longrightarrow> 0 \<notin> set (block_range a b)"
  by (auto simp: block_range_def word_unat_eq_iff unat_of_nat)

lemma in_block_range:
  assumes "b \<le> 2 ^ 64"
  shows "x \<in> set (block_range a b) \<longleftrightarrow> a \<le> unat x \<and> unat x < b"
proof -
  have "unat (word_of_nat k :: size_t) = k" if "k < b" for k
    using that assms by (simp add: unat_of_nat)
  then show ?thesis by (force simp: block_range_def image_iff intro: bexI [of _ "unat x"])
qed

lemma distinct_block_range:
  assumes "b \<le> 2 ^ 64"
  shows "distinct (block_range a b)"
proof -
  have "unat (word_of_nat k :: size_t) = k" if "k < b" for k
    using that assms by (simp add: unat_of_nat)
  then have "inj_on (word_of_nat :: nat \<Rightarrow> size_t) {a..<b}"
    by (metis atLeastLessThan_iff inj_onI)
  then show ?thesis by (simp add: block_range_def distinct_map)
qed

text \<open>With every block on the disk, the loop leaves the chain of all blocks from \<open>s\<close> on.\<close>

lemma disk_blocks_loop_chain:
  assumes "disk_ok d" and "\<forall>n < NUM_OF_BLOCKS d. blk_valid d n" and "p < s" and "s \<le> NUM_OF_BLOCKS d"
    and "p < NUM_OF_BLOCKS d"
  shows "\<exists>b. read_block p (disk_blocks_loop p s d) = Some b \<and>
    free_chain (disk_blocks_loop p s d) (makeFreeDiskListBlock b)
      (block_range (unat s) (unat (NUM_OF_BLOCKS d)))"
  using assms
proof (induction p s d rule: disk_blocks_loop.induct)
  case (1 p s d)
  obtain nx mb where mb: "makeOneBlock s d = (nx, mb)" by fastforce
  define N where "N = unat (NUM_OF_BLOCKS d)"
  define m where "m = min 128 (N - unat s)"
  have len: "length mb = BLOCK_SIZE"
    and nos: "makeFreeDiskListBlock mb = block_range (unat s) (unat s + m) @ replicate (128 - m) 0"
    and nx: "nx = (if m = 128 then s + 127 else 0)"
    using makeOneBlock_eq [of s d] mb by (simp_all add: word_range_shift m_def N_def)
  let ?d1 = "put_block p mb d"
  have ok1: "disk_ok ?d1" and v1: "\<And>n. blk_valid ?d1 n = blk_valid d n"
    and p1: "read_block p ?d1 = Some mb" and N1: "NUM_OF_BLOCKS ?d1 = NUM_OF_BLOCKS d"
    using "1.prems" len by (simp_all add: disk_simps frame_simps)
  have N64: "N < 2 ^ 64" using unat_bound [of "NUM_OF_BLOCKS d"] by (simp add: N_def)
  have sN: "unat s \<le> N" using "1.prems"(4) by (simp add: N_def word_le_nat_alt)
  have s0: "0 < unat s" using "1.prems"(3) by (auto simp: word_less_nat_alt)
  show ?case
  proof (cases "m = 128")
    case False
    then have m: "m = N - unat s" "m < 128" by (auto simp: m_def)
    have s_ne: "s \<noteq> 0" using s0 by auto
    have step: "disk_blocks_loop p s d = ?d1"
      using mb nx False "1.prems"(5) by (simp add: disk_blocks_loop.simps [of p s d])
    have "free_chain ?d1 (replicate 0 0 @ block_range (unat s) N @ replicate (128 - m) 0)
        (block_range (unat s) N)"
      by (rule free_chain.last [of _ 0 _ "128 - m"])
        (use m sN N64 s0 block_range_nonzero in \<open>auto simp: block_range_def\<close>)
    then show ?thesis using p1 nos m sN step by (simp add: N_def)
  next
    case True
    have room: "unat s + 128 \<le> N" using True by (simp add: m_def)
    with N64 have u: "unat (s + 127) = unat s + 127" "unat (s + 128) = unat s + 128"
      by (simp_all add: unat_word_ariths)
    have nx': "nx = s + 127" using nx True by simp
    then have "nx \<noteq> 0" using u(1) by auto
    then have step: "disk_blocks_loop p s d = disk_blocks_loop nx (s + 128) ?d1"
      using mb "1.prems"(5) by (simp add: disk_blocks_loop.simps [of p s d])
    have lt: "nx < s + 128" "s + 128 \<le> NUM_OF_BLOCKS ?d1" "nx < NUM_OF_BLOCKS ?d1" "p \<noteq> nx" "p < s + 128"
      using u room nx' N1 "1.prems"(3) by (auto simp: word_less_nat_alt word_le_nat_alt N_def)
    have "\<exists>b. read_block nx (disk_blocks_loop nx (s + 128) ?d1) = Some b \<and>
      free_chain (disk_blocks_loop nx (s + 128) ?d1) (makeFreeDiskListBlock b)
        (block_range (unat (s + 128)) (unat (NUM_OF_BLOCKS ?d1)))"
      using "1.IH" [OF _ mb [symmetric] refl] \<open>nx \<noteq> 0\<close> "1.prems" ok1 v1 N1 lt mb by simp
    then obtain b where b: "read_block nx (disk_blocks_loop nx (s + 128) ?d1) = Some b"
      and ch: "free_chain (disk_blocks_loop nx (s + 128) ?d1) (makeFreeDiskListBlock b)
        (block_range (unat s + 128) N)"
      using u N1 by (auto simp: N_def)
    have pd': "read_block p (disk_blocks_loop nx (s + 128) ?d1) = Some mb"
      using disk_blocks_loop_frame [OF ok1 lt(1)] lt p1 v1 "1.prems" by simp
    have "[unat s..<unat s + 128] = [unat s..<unat s + 127] @ [unat s + 127]"
      using upt_Suc_append [of "unat s" "unat s + 127"] by (simp add: add.commute)
    then have split: "block_range (unat s) (unat s + 128) = block_range (unat s) (unat s + 127) @ [nx]"
      using nx' by (simp only: block_range_def map_append list.map) simp
    have "free_chain (disk_blocks_loop nx (s + 128) ?d1)
        (replicate 0 0 @ block_range (unat s) (unat s + 127) @ [nx])
        (block_range (unat s) (unat s + 127) @ nx # block_range (unat s + 128) N)"
      by (rule free_chain.link [OF refl _ _ \<open>nx \<noteq> 0\<close> b ch])
        (use s0 N64 room block_range_nonzero in \<open>auto simp: block_range_def\<close>)
    moreover have "block_range (unat s) N =
        block_range (unat s) (unat s + 127) @ nx # block_range (unat s + 128) N"
      using room block_range_split [of "unat s" "unat s + 128" N] split by simp
    ultimately show ?thesis using pd' nos True split step by (simp add: N_def)
  qed
qed


section \<open>Lemmas: the inode blocks\<close>

text \<open>The four inodes of one block.\<close>

definition inode_block4 :: "size_t \<Rightarrow> disk_block" where
  "inode_block4 n =
     memcpy_at 768 (iNode_bytes (initializeINode (n + 1 + 1 + 1)))
       (memcpy_at 512 (iNode_bytes (initializeINode (n + 1 + 1)))
         (memcpy_at 256 (iNode_bytes (initializeINode (n + 1)))
           (memcpy_at 0 (iNode_bytes (initializeINode n)) (replicate BLOCK_SIZE 0))))"

lemma populateINodesIn_eq:
  "INODE_SIZE d = 256 \<Longrightarrow> populateINodesIn n d = Some (n + 4, inode_block4 n)"
  by (simp add: populateINodesIn_def inode_block4_def populate_loop.simps)

lemma length_inode_block4 [simp]: "length (inode_block4 n) = BLOCK_SIZE"
  by (simp add: inode_block4_def)

lemma inode_block4_nth:
  assumes "j < 4"
  shows "iNode_of_bytes (bytes_at (j * 256) sizeof_iNode (inode_block4 n)) =
    initializeINode (n + word_of_nat j)"
proof -
  from assms consider "j = 0" | "j = 1" | "j = 2" | "j = 3" by linarith
  then show ?thesis
    by cases (simp_all add: inode_block4_def bytes_at_memcpy_other codec_simps numeral_2_eq_2
        numeral_3_eq_3 add.assoc)
qed

text \<open>An inode whose block is the one written with the four inodes from \<open>4 * k\<close> on.\<close>

lemma iNode_in_block4:
  assumes "n < NUM_OF_INODES" and "unat (iblk n) = k + 4"
  shows "iNode_of_bytes (bytes_at (ioff n) sizeof_iNode (inode_block4 (word_of_nat (4 * k)))) =
    initializeINode n"
proof -
  have k: "unat n div 4 = k" using assms unat_iblk by simp
  have "4 * k + unat n mod 4 = unat n" using k by presburger
  then have "word_of_nat (4 * k) + word_of_nat (unat n mod 4) = (word_of_nat (unat n) :: size_t)"
    by (metis of_nat_add)
  then show ?thesis
    using inode_block4_nth [of "unat n mod 4" "word_of_nat (4 * k)"] by (simp add: ioff_def)
qed

text \<open>All inode blocks from the \<open>k\<close>th on hold fresh inodes in \<open>d'\<close>; the rest is as in \<open>d\<close>.\<close>

definition created_from :: "nat \<Rightarrow> dsk \<Rightarrow> dsk \<Rightarrow> bool" where
  "created_from k d d' \<longleftrightarrow> meta_ok d' \<and> (\<forall>n. blk_valid d' n = blk_valid d n) \<and>
     (\<forall>n < NUM_OF_INODES. inode_at d' n =
        (if k + 4 \<le> unat (iblk n) then initializeINode n else inode_at d n)) \<and>
     (\<forall>n. blk_valid d n \<longrightarrow> n \<le> 3 \<or> 16388 \<le> n \<longrightarrow> read_block n d' = read_block n d) \<and>
     clock d' = clock d \<and> NUM_OF_INODE_BLOCKS d' = NUM_OF_INODE_BLOCKS d \<and>
     NUM_OF_BLOCKS d' = NUM_OF_BLOCKS d"

lemma created_from_step:
  assumes ok: "meta_ok d" and k: "k < 16384" and ub: "unat bc = k + 4"
    and rest: "created_from (Suc k) (put_block bc (inode_block4 (word_of_nat (4 * k))) d) d'"
  shows "created_from k d d'"
proof -
  let ?b = "inode_block4 (word_of_nat (4 * k))"
  let ?d1 = "put_block bc ?b d"
  have bc: "bc < 16388" "3 < bc" using k ub by (simp_all add: word_less_nat_alt)
  have valid1: "blk_valid ?d1 n = blk_valid d n" for n
    using ok meta_okD(1) by (simp add: disk_simps)
  have at1: "inode_at ?d1 n = (if unat (iblk n) = k + 4 then initializeINode n else inode_at d n)"
    if "n < NUM_OF_INODES" for n
  proof (cases "iblk n = bc")
    case True
    then have "read_block (iblk n) ?d1 = Some ?b"
      using ok meta_okD(1,4) bc by (simp add: disk_simps)
    then show ?thesis
      using iNode_in_block4 [OF that] True ub by (simp add: inode_at_def)
  next
    case False
    then have "unat (iblk n) \<noteq> k + 4" using ub by (simp add: word_unat_eq_iff)
    moreover have "read_block (iblk n) ?d1 = read_block (iblk n) d"
      using False ok meta_okD(1,4) iblk_range(1) [OF that] by (simp add: disk_simps)
    ultimately show ?thesis by (simp add: inode_at_def)
  qed
  have frame: "read_block n ?d1 = read_block n d" if "blk_valid d n" "n \<le> 3 \<or> 16388 \<le> n" for n
  proof -
    have "n \<noteq> bc" using that(2) bc by auto
    then show ?thesis using that(1) ok meta_okD(1) by (simp add: disk_simps)
  qed
  show ?thesis
    using rest at1 frame valid1 unfolding created_from_def by (auto simp: frame_simps)
qed

lemma create_loop_ok:
  assumes "meta_ok d" and "k \<le> 16384"
  shows "\<exists>d'. create_loop 16388 (word_of_nat (k + 4)) (word_of_nat (4 * k)) d = Some d' \<and>
    created_from k d d'"
  using assms
proof (induction "16384 - k" arbitrary: k d)
  case 0
  then have "create_loop 16388 (word_of_nat (k + 4)) (word_of_nat (4 * k)) d = Some d"
    by (simp add: create_loop.simps [of _ 16388])
  moreover have "\<not> k + 4 \<le> unat (iblk n)" if "n < NUM_OF_INODES" for n
    using iblk_range(1) [OF that] 0 by (simp add: word_less_nat_alt)
  ultimately show ?case using 0 by (simp add: created_from_def)
next
  case (Suc j)
  let ?bc = "word_of_nat (k + 4) :: size_t" and ?ic = "word_of_nat (4 * k) :: size_t"
  from Suc have k: "k < 16384" by simp
  have ub: "unat ?bc = k + 4" using k by (simp add: unat_of_nat del: of_nat_add)
  then have bc: "?bc < 16388" using k by (simp add: word_less_nat_alt)
  let ?d1 = "put_block ?bc (inode_block4 ?ic) d"
  have ok1: "meta_ok ?d1" using Suc.prems(1) by (simp add: disk_simps)
  have "create_loop 16388 ?bc ?ic d = create_loop 16388 (?bc + 1) (?ic + 4) ?d1"
    using bc Suc.prems(1) meta_okD(2)
    by (simp add: create_loop.simps [of _ ?bc] populateINodesIn_eq del: of_nat_add of_nat_mult)
  also have "?bc + 1 = word_of_nat (Suc k + 4)" by simp
  also have "?ic + 4 = word_of_nat (4 * Suc k)" by simp
  finally have step: "create_loop 16388 ?bc ?ic d =
      create_loop 16388 (word_of_nat (Suc k + 4)) (word_of_nat (4 * Suc k)) ?d1" .
  have "j = 16384 - Suc k" and "Suc k \<le> 16384" using Suc.hyps(2) k by simp_all
  from Suc.hyps(1) [OF this(1) ok1 this(2)] obtain d'
    where d': "create_loop 16388 (word_of_nat (Suc k + 4)) (word_of_nat (4 * Suc k)) ?d1 = Some d'"
      "created_from (Suc k) ?d1 d'"
    by blast
  then show ?case using created_from_step [OF Suc.prems(1) k ub] step by auto
qed

section \<open>Lemmas: the root inode and the free inode list\<close>

text \<open>Allocation always returns and writes at most the list block, whatever the block holds.\<close>

lemma blockAlloc_any:
  assumes "meta_ok d"
  shows "\<exists>x b. blockAlloc d = Some (x, put_block FREE_LIST_BLOCK b d) \<and> length b = BLOCK_SIZE"
proof -
  obtain b where b: "read_block FREE_LIST_BLOCK d = Some b" "length b = BLOCK_SIZE"
    using meta_block [OF assms, of FREE_LIST_BLOCK] by auto
  obtain c x nos where sc: "alloc_scan 0 (makeFreeDiskListBlock b) = (c, x, nos)"
    using prod_cases3 by blast
  have [simp]: "length nos = 128"
  proof -
    have "length (snd (snd (alloc_scan c nos))) = length nos" for c nos
      by (induction c nos rule: alloc_scan.induct) (subst alloc_scan.simps, simp)
    from this [of 0 "makeFreeDiskListBlock b"] sc show ?thesis by simp
  qed
  obtain b' where b': "snd (getDiskBlock x (Some b) d) = Some b'" "length b' = BLOCK_SIZE"
  proof -
    have "\<exists>b'. snd (getDiskBlock x (Some b) d) = Some b' \<and> length b' = BLOCK_SIZE"
      using b meta_okD(1) [OF assms]
      by (auto simp: getDiskBlock_def fetchDeviceDiskBlock_def fetchMemoryDiskBlock_def Let_def
          disk_ok_def bytes_at_def)
    then show ?thesis using that by blast
  qed
  show ?thesis
  proof (cases "c = 127")
    case True
    then show ?thesis using b sc b' by (simp add: blockAlloc_def exI [of _ b'])
  next
    case False
    then show ?thesis
      using b sc by (auto simp: blockAlloc_def intro!: exI [of _ "writeFreeDiskListBlock nos b"])
  qed
qed

lemma init_list_loop_eq:
  "ptr + 2 * length xs \<le> BLOCK_SIZE \<Longrightarrow>
   init_list_loop xs ptr b = Some (ptr + 2 * length xs, store_entries 2 xs ptr b)"
  by (induction xs arbitrary: ptr b) auto

lemma initINodeListBlock_full:
  assumes "length xs = INODE_NOS_PER_BLOCK"
  shows "initINodeListBlock xs = Some (xs ! 511, writeINodeListBlock xs (replicate BLOCK_SIZE 0))"
  using assms by (simp add: initINodeListBlock_def init_list_loop_eq writeINodeListBlock_def)

definition first_inodes :: "size_t list" where
  "first_inodes = map (\<lambda>k. word_of_nat k + 1) [0..<INODE_NOS_PER_BLOCK]"

lemma first_inodes_props:
  "length first_inodes = INODE_NOS_PER_BLOCK" "0 \<notin> set first_inodes"
  "x \<in> set first_inodes \<Longrightarrow> x < NUM_OF_INODES" "first_inodes ! 511 = 512"
proof -
  have u: "unat (word_of_nat k + 1 :: size_t) = k + 1" if "k < 512" for k
    using that by (simp add: unat_word_ariths unat_of_nat)
  show "length first_inodes = INODE_NOS_PER_BLOCK" by (simp add: first_inodes_def)
  show "0 \<notin> set first_inodes" using u by (fastforce simp: first_inodes_def word_unat_eq_iff)
  show "x < NUM_OF_INODES" if "x \<in> set first_inodes"
    using that u by (auto simp: first_inodes_def word_less_nat_alt)
  show "first_inodes ! 511 = 512" by (simp add: first_inodes_def del: upt_rec_numeral)
qed

definition root_inode :: "iNode \<Rightarrow> size_t \<Rightarrow> iNode" where
  "root_inode i blockNum = i\<lparr> di_type := T_DIRECTORY, di_file_mode := root_mode,
     di_dataBlockNums := (di_dataBlockNums i)[0 := blockNum] \<rparr>"

lemma writeINodeListToDisk_ok:
  assumes "meta_ok d"
  shows "\<exists>d' x. writeINodeListToDisk INODE_LIST_BLOCK getINodeListSize d = Some (512, d') \<and>
    meta_ok d' \<and> inode_stack d' first_inodes \<and> (\<forall>n. blk_valid d' n = blk_valid d n) \<and>
    (\<forall>n < NUM_OF_INODES. inode_at d' n = (if n = 0 then root_inode (inode_at d 0) x else inode_at d n)) \<and>
    NUM_OF_INODE_BLOCKS d' = NUM_OF_INODE_BLOCKS d \<and> NUM_OF_BLOCKS d' = NUM_OF_BLOCKS d"
proof -
  from blockAlloc_any [OF assms] obtain x b
    where al: "blockAlloc d = Some (x, put_block FREE_LIST_BLOCK b d)" and b: "length b = BLOCK_SIZE"
    by blast
  let ?d1 = "put_block FREE_LIST_BLOCK b d"
  let ?root = "root_inode (inode_at d 0) x"
  let ?d2 = "put_inode 0 ?root ?d1"
  let ?blk = "writeINodeListBlock first_inodes (replicate BLOCK_SIZE 0)"
  let ?d3 = "put_block INODE_LIST_BLOCK ?blk ?d2"
  have wf: "wf_iNode ?root" using wf_inode_at [of d 0] by (simp add: root_inode_def wf_iNode_def)
  have ok1: "meta_ok ?d1" using assms b by (simp add: disk_simps)
  have ok2: "meta_ok ?d2" using ok1 wf by (simp add: disk_simps)
  have blk: "length ?blk = BLOCK_SIZE" using first_inodes_props(1) by simp
  have "assignRootData d = Some ?d2"
    using assms al ok1
    by (simp add: assignRootData_def getDiskInode_def access_read writeDiskInode_def access_write
        root_inode_def)
  moreover have "map (\<lambda>k. word_of_nat k + 1) [0..<getINodeListSize] = first_inodes"
    by (simp add: getINodeListSize_def first_inodes_def del: upt_rec_numeral)
  ultimately have res: "writeINodeListToDisk INODE_LIST_BLOCK getINodeListSize d = Some (512, ?d3)"
    using initINodeListBlock_full [OF first_inodes_props(1)] first_inodes_props(4)
    by (simp add: writeINodeListToDisk_def)
  have "inode_stack ?d3 first_inodes"
    by (rule inode_stack_put [OF ok2]) (use first_inodes_props in auto)
  moreover have "inode_at ?d3 n = (if n = 0 then ?root else inode_at d n)" if "n < NUM_OF_INODES" for n
    using that ok1 ok2 wf b blk assms by (simp add: inode_at_put_block inode_at_put_inode)
  moreover have "blk_valid ?d3 n = blk_valid d n" for n
    using ok1 ok2 wf b blk assms meta_okD(1) by (simp add: disk_simps)
  moreover have "meta_ok ?d3" using ok2 blk by (simp add: disk_simps)
  ultimately show ?thesis
    by (intro exI [of _ ?d3] exI [of _ x]) (simp add: res put_inode_def frame_simps)
qed


section \<open>Lemmas: the whole file system\<close>

text \<open>
  The inode side of \<open>makeFileSystem\<close>, on any disk that holds the metadata blocks: the free inode
  stack, the inode table and the super block; and what the free block list is computed from.
\<close>

lemma makeFileSystem_meta:
  assumes "meta_ok (initializeINodeParams d)" and "length junk = BLOCK_SIZE"
  shows "\<exists>d1 x. makeFileSystem junk d = Some (put_block SUPER_BLOCK
      (writeSuperBlock \<lparr> rememberedINode = 512 \<rparr> junk) (disk_blocks_loop FREE_LIST_BLOCK 16388 d1)) \<and>
    meta_ok d1 \<and> NUM_OF_BLOCKS d1 = 31457280 \<and>
    (\<forall>n. blk_valid d1 n = blk_valid (initializeINodeParams d) n) \<and> inode_stack d1 first_inodes \<and>
    (\<forall>n < NUM_OF_INODES. inode_at d1 n =
       (if n = 0 then root_inode (initializeINode 0) x else initializeINode n))"
proof -
  let ?d0 = "initializeINodeParams d"
  note P = params_ok_initializeINodeParams [of d, unfolded params_ok_def]
  have "create_loop 16388 4 0 ?d0 = createINodes INODE_BLOCKS_HEAD ?d0"
    using P by (simp add: createINodes_def)
  with create_loop_ok [OF assms(1), of 0] obtain c
    where c: "createINodes INODE_BLOCKS_HEAD ?d0 = Some c" "created_from 0 ?d0 c" by auto
  have metac: "meta_ok c" and atc: "\<And>n. n < NUM_OF_INODES \<Longrightarrow> inode_at c n = initializeINode n"
    using c(2) iblk_range(2) unfolding created_from_def by (force simp: word_less_nat_alt)+
  from writeINodeListToDisk_ok [OF metac] obtain d1 x
    where w: "writeINodeListToDisk INODE_LIST_BLOCK getINodeListSize c = Some (512, d1)"
      "meta_ok d1" "inode_stack d1 first_inodes" "\<forall>n. blk_valid d1 n = blk_valid c n"
      "\<forall>n < NUM_OF_INODES. inode_at d1 n = (if n = 0 then root_inode (inode_at c 0) x else inode_at c n)"
      "NUM_OF_INODE_BLOCKS d1 = NUM_OF_INODE_BLOCKS c" "NUM_OF_BLOCKS d1 = NUM_OF_BLOCKS c"
    by blast
  have n: "NUM_OF_INODE_BLOCKS d1 = 16384" "NUM_OF_BLOCKS d1 = 31457280"
    using w c(2) P by (simp_all add: created_from_def)
  have "makeFileSystem junk d = Some (put_block SUPER_BLOCK
      (writeSuperBlock \<lparr> rememberedINode = 512 \<rparr> junk) (disk_blocks_loop FREE_LIST_BLOCK 16388 d1))"
    using c(1) w(1) n by (simp add: makeFileSystem_def initializeINodeData_def initializeDiskBlocks_def)
  then show ?thesis
    using w atc n c(2) by (intro exI [of _ d1] exI [of _ x]) (auto simp: created_from_def)
qed

lemma makeFileSystem_inodes:
  assumes "meta_ok (initializeINodeParams d)" and "length junk = BLOCK_SIZE"
  shows "\<exists>d' x. makeFileSystem junk d = Some d' \<and> meta_ok d' \<and> inode_stack d' first_inodes \<and>
    (\<forall>n < NUM_OF_INODES. inode_at d' n =
       (if n = 0 then root_inode (initializeINode 0) x else initializeINode n)) \<and>
    (\<exists>sb. read_block SUPER_BLOCK d' = Some sb \<and> makeSuperBlock sb = \<lparr> rememberedINode = 512 \<rparr>)"
proof -
  from makeFileSystem_meta [OF assms] obtain d1 x where
    mk: "makeFileSystem junk d = Some (put_block SUPER_BLOCK
      (writeSuperBlock \<lparr> rememberedINode = 512 \<rparr> junk) (disk_blocks_loop FREE_LIST_BLOCK 16388 d1))"
    and ok1: "meta_ok d1" and st: "inode_stack d1 first_inodes"
    and at1: "\<forall>n < NUM_OF_INODES. inode_at d1 n =
       (if n = 0 then root_inode (initializeINode 0) x else initializeINode n)"
    by blast
  let ?sb = "writeSuperBlock \<lparr> rememberedINode = 512 \<rparr> junk"
  let ?d2 = "disk_blocks_loop FREE_LIST_BLOCK 16388 d1"
  let ?d3 = "put_block SUPER_BLOCK ?sb ?d2"
  have sb: "length ?sb = BLOCK_SIZE" "makeSuperBlock ?sb = \<lparr> rememberedINode = 512 \<rparr>"
    using assms(2) by (simp_all add: codec_simps)
  have fr: "disk_ok ?d2" "\<And>n. blk_valid ?d2 n = blk_valid d1 n"
    "\<And>n. n \<noteq> FREE_LIST_BLOCK \<Longrightarrow> n < 16388 \<Longrightarrow> read_block n ?d2 = read_block n d1"
    using disk_blocks_loop_frame [OF meta_okD(1) [OF ok1], of FREE_LIST_BLOCK 16388] meta_okD(4) [OF ok1]
    by auto
  have ok2: "meta_ok ?d2" using fr ok1 by (simp add: meta_ok_def)
  have rd: "read_block n ?d3 = read_block n d1" if "n \<noteq> FREE_LIST_BLOCK" "n \<noteq> SUPER_BLOCK" "n < 16388" for n
    using that fr sb meta_okD(4) [OF ok2] by (simp add: disk_simps)
  have "inode_at ?d3 n = inode_at d1 n" if "n < NUM_OF_INODES" for n
  proof -
    have "iblk n \<noteq> FREE_LIST_BLOCK" and "iblk n \<noteq> SUPER_BLOCK" using iblk_range(2) [OF that] by auto
    then show ?thesis using rd [of "iblk n"] iblk_range(1) [OF that] by (simp add: inode_at_def)
  qed
  moreover have "inode_stack ?d3 first_inodes"
    using st rd [of INODE_LIST_BLOCK] by (simp add: inode_stack_def)
  moreover have "meta_ok ?d3" using ok2 sb by (simp add: disk_simps)
  moreover have "read_block SUPER_BLOCK ?d3 = Some ?sb"
    using fr(1) sb meta_okD(4) [OF ok2] by (simp add: disk_simps)
  ultimately show ?thesis
    using at1 sb(2) by (intro exI [of _ ?d3] exI [of _ x]) (simp add: mk)
qed

text \<open>The block side, when every block of the configured size is on the disk.\<close>

lemma makeFileSystem_free_list:
  assumes "meta_ok (initializeINodeParams d)" and "length junk = BLOCK_SIZE"
    and "\<forall>n < 31457280. blk_valid (initializeINodeParams d) n"
  shows "\<exists>d'. makeFileSystem junk d = Some d' \<and> free_list d' (block_range 16388 31457280)"
proof -
  from makeFileSystem_meta [OF assms(1,2)] obtain d1 where
    mk: "makeFileSystem junk d = Some (put_block SUPER_BLOCK
      (writeSuperBlock \<lparr> rememberedINode = 512 \<rparr> junk) (disk_blocks_loop FREE_LIST_BLOCK 16388 d1))"
    and ok1: "meta_ok d1" and N: "NUM_OF_BLOCKS d1 = 31457280"
    and v1: "\<forall>n < 31457280. blk_valid d1 n"
    using assms(3) by auto
  let ?d2 = "disk_blocks_loop FREE_LIST_BLOCK 16388 d1"
  have fr: "disk_ok ?d2" "\<And>n. blk_valid ?d2 n = blk_valid d1 n"
    using disk_blocks_loop_frame [OF meta_okD(1) [OF ok1], of FREE_LIST_BLOCK 16388] by auto
  have ok2: "meta_ok ?d2" using fr ok1 by (simp add: meta_ok_def)
  have "\<exists>b. read_block FREE_LIST_BLOCK ?d2 = Some b \<and>
      free_chain ?d2 (makeFreeDiskListBlock b) (block_range 16388 31457280)"
    using disk_blocks_loop_chain [of d1 FREE_LIST_BLOCK 16388] meta_okD(1) [OF ok1] v1 N by simp
  moreover note in_range = in_block_range [of 31457280 _ 16388]
  have "\<forall>x \<in> set (block_range 16388 31457280). 16388 \<le> x \<and> blk_valid ?d2 x"
    using v1 fr(2) in_range by (auto simp: word_le_nat_alt word_less_nat_alt)
  moreover have "distinct (block_range 16388 31457280)" by (rule distinct_block_range) simp
  ultimately have fl: "free_list ?d2 (block_range 16388 31457280)"
    using ok2 by (auto simp: free_list_def)
  moreover have "SUPER_BLOCK \<notin> set (block_range 16388 31457280)"
    using in_range by simp
  ultimately show ?thesis
    using mk assms(2) by (simp add: free_list_put)
qed

text \<open>Disks that satisfy the assumptions: the memory disk, and a device of the configured size.\<close>

lemma device_all_valid:
  assumes "isDiskAvailable d" and "31457280 * BLOCK_SIZE \<le> length (device d)" and "n < 31457280"
  shows "blk_valid (initializeINodeParams d) n"
proof -
  have "unat n < 31457280" using assms(3) by (simp add: word_less_nat_alt)
  then have "unat n * BLOCK_SIZE + BLOCK_SIZE \<le> length (device d)" using assms(2) by linarith
  then show ?thesis
    using assms params_ok_initializeINodeParams [of d]
    by (simp add: blk_valid_def dev_valid_def params_ok_def frame_simps)
qed

lemma meta_ok_device:
  assumes "isDiskAvailable d" and "31457280 * BLOCK_SIZE \<le> length (device d)"
    and "\<forall>n < NUM_OF_BLOCKS_IN_MEM. length (mem_disk d n) = BLOCK_SIZE"
  shows "meta_ok (initializeINodeParams d)"
proof -
  have "n < 31457280" if "n < 16388" for n :: size_t using that by (simp add: word_less_nat_alt)
  then show ?thesis
    using assms device_all_valid
    by (auto simp: meta_ok_def disk_ok_def params_ok_initializeINodeParams frame_simps)
qed

text \<open>Repeated calls of \<open>getNewINode\<close>: the list without its last element, then \<open>-1\<close>.\<close>

lemma inodes_exhausted:
  assumes "meta_ok d" and "inode_stack d xs" and "length xs \<le> 1"
  shows "\<exists>d'. alloc_many (getNewINode t m u g) k d = Some (replicate k SIZE_MAX, d')"
  using assms
proof (induction k arbitrary: d)
  case (Suc k)
  obtain d1 where d1: "getNewINode t m u g d = Some (SIZE_MAX, d1)" "meta_ok d1" "inode_stack d1 xs"
    using getNewINode_exhausted [OF Suc.prems, of t m u g] by blast
  with Suc.IH [OF d1(2,3) Suc.prems(3)] show ?case by auto
qed simp

lemma inodes_handed_out:
  assumes "meta_ok d" and "inode_stack d (xs @ [y])"
  shows "\<exists>d'. alloc_many (getNewINode t m u g) (length xs + k) d = Some (xs @ replicate k SIZE_MAX, d')"
  using assms
proof (induction xs arbitrary: d)
  case Nil
  then show ?case using inodes_exhausted [of d "[y]"] by simp
next
  case (Cons x xs)
  obtain d1 where d1: "getNewINode t m u g d = Some (x, d1)" "meta_ok d1" "inode_stack d1 (xs @ [y])"
    using getNewINode_pop [OF Cons.prems(1), of x "xs @ [y]" t m u g] Cons.prems(2) by auto
  with Cons.IH [OF d1(2,3)] show ?case by auto
qed

section \<open>Properties\<close>

text \<open>
  C29. On any disk that holds the metadata blocks, \<open>makeFileSystem\<close> ends and leaves 65536 initialised inodes, of which
  number 0 is a directory with the root's mode, the list of the free inodes 1 to 512, and a super block that
  remembers 512.
\<close>

theorem mkfs_inodes:
  assumes "meta_ok (initializeINodeParams d)" and "length junk = BLOCK_SIZE"
  shows "\<exists>d' x. makeFileSystem junk d = Some d' \<and> meta_ok d' \<and> inode_stack d' first_inodes \<and>
    (\<forall>n < NUM_OF_INODES. inode_at d' n =
       (if n = 0 then root_inode (initializeINode 0) x else initializeINode n)) \<and>
    (\<exists>sb. read_block SUPER_BLOCK d' = Some sb \<and> makeSuperBlock sb = \<lparr> rememberedINode = 512 \<rparr>)"
  by (rule makeFileSystem_inodes [OF assms])

theorem mkfs_inodes_witness:
  "\<exists>d'. makeFileSystem (replicate BLOCK_SIZE 7) (static_dsk (\<lambda>_. None) 0) = Some d' \<and> inode_stack d' first_inodes"
  using mkfs_inodes [of "static_dsk (\<lambda>_. None) 0" "replicate BLOCK_SIZE 7"] meta_ok_blank
  by (auto simp: blank_disk_def)

text \<open>
  C28. On a device of the configured size the free list of a new file system holds every block behind the inode table,
  16388 to 31457279, each once and in ascending order, as a well-formed chain of list blocks.
\<close>

theorem mkfs_free_blocks:
  assumes "isDiskAvailable d" and "31457280 * BLOCK_SIZE \<le> length (device d)"
    and "\<forall>n < NUM_OF_BLOCKS_IN_MEM. length (mem_disk d n) = BLOCK_SIZE" and "length junk = BLOCK_SIZE"
  shows "\<exists>d'. makeFileSystem junk d = Some d' \<and> free_list d' (block_range 16388 31457280)"
  using makeFileSystem_free_list [OF meta_ok_device [OF assms(1-3)] assms(4)] device_all_valid [OF assms(1,2)] by blast

theorem mkfs_free_blocks_witness:
  "\<exists>d d'. makeFileSystem (replicate BLOCK_SIZE 0) d = Some d' \<and> free_list d' (block_range 16388 31457280)"
  using mkfs_free_blocks [of "(static_dsk (\<lambda>_. None) 0)\<lparr> isDiskAvailable := True,
      device := replicate (31457280 * BLOCK_SIZE) 0 \<rparr>" "replicate BLOCK_SIZE 0"]
  by (auto simp: static_dsk_def)

text \<open>
  C30. From a new file system \<open>getNewINode\<close> hands out the inodes 1, 2, ... in order, up to 511; the next call and all
  later ones give \<open>-1\<close>, although 65024 inodes are still free.
\<close>

theorem all_inodes_handed_out:
  assumes "meta_ok (initializeINodeParams d)" and "length junk = BLOCK_SIZE"
  shows "\<exists>d0 d'. makeFileSystem junk d = Some d0 \<and>
    alloc_many (getNewINode t m u g) (511 + k) d0 = Some (map (\<lambda>j. word_of_nat j + 1) [0..<511] @ replicate k SIZE_MAX, d')"
proof -
  obtain d0 where d0: "makeFileSystem junk d = Some d0" "meta_ok d0" "inode_stack d0 first_inodes"
    using makeFileSystem_inodes [OF assms] by blast
  have "first_inodes = map (\<lambda>j. word_of_nat j + 1) [0..<511] @ [512]"
    by (simp add: first_inodes_def upt_Suc_append [of 0 511, simplified] del: upt_rec_numeral)
  with d0 show ?thesis using inodes_handed_out [of d0 "map (\<lambda>j. word_of_nat j + 1) [0..<511]" 512 t m u g k]
    by (auto simp del: upt_rec_numeral)
qed

theorem all_inodes_handed_out_witness:
  "\<exists>d0 d'. makeFileSystem (replicate BLOCK_SIZE 0) (static_dsk (\<lambda>_. None) 0) = Some d0 \<and>
     alloc_many (getNewINode T_REGULAR 0 0 0) (511 + 2) d0 =
       Some (map (\<lambda>j. word_of_nat j + 1) [0..<511] @ replicate 2 SIZE_MAX, d')"
  by (rule all_inodes_handed_out) (use meta_ok_blank in \<open>simp_all add: blank_disk_def\<close>)

text \<open>
  \<open>diskReader\<close> never calls \<open>initializeINodeParams\<close>, so that the number of blocks is still 0 and every read of an
  attached device is refused: the program goes on with buffers that were never written.
\<close>

lemma diskReader_fails:
  assumes "host dev = Some content"
  shows "diskReader_main [prog, dev] (static_dsk host now) = None"
  using assms
  by (simp add: diskReader_main_def setupDisk_def initDeviceAccessor_def static_dsk_def printFreeList_def read_block_def
      getDiskBlock_def fetchDeviceDiskBlock_def)

end
