(* ===== verification/InodeCache.thy ===== *)
theory InodeCache
  imports BlockAlloc
begin

text \<open>
  The in-core inode cache: the nodes (\<open>include/incoreInodeOps/node.h\<close>), the circular doubly linked
  free list (\<open>src/incoreInodeOps/freeList.c\<close>) and the hash queues (\<open>src/incoreInodeOps/hashQ.c\<close>).

  Nodes live in a store indexed by their address; a pointer is \<^typ>\<open>nat option\<close> with \<^term>\<open>None\<close> for
  \<open>NULL\<close>.  Each node gets its \<open>inCoreiNode\<close> once, in \<open>initFreeInCoreINodeList\<close>, and keeps it, so the
  inode is part of the node and an \<open>inCoreiNode *\<close> is the address of its node.

  The lemmas relate the pointer structures to lists: the free list is a queue (locale
  \<open>node_queue\<close>), a hash queue a stack with removal and lookup (locale \<open>node_index\<close>).
\<close>

section \<open>State\<close>

type_synonym ptr = "nat option"

record Node =
  inode :: inCoreiNode
  n_prev :: ptr
  n_next :: ptr
  hash_prev :: ptr
  hash_next :: ptr

record icache =
  nodes :: "nat \<Rightarrow> Node"
  freeList :: ptr
  hashQ :: "ptr list"

abbreviation (input) INODE_BUFFER_SIZE :: nat where "INODE_BUFFER_SIZE \<equiv> 32"
abbreviation (input) INODE_HASH_SIZE :: nat where "INODE_HASH_SIZE \<equiv> 8"

text \<open>Assignments through a pointer.\<close>

definition upd_node :: "nat \<Rightarrow> (Node \<Rightarrow> Node) \<Rightarrow> icache \<Rightarrow> icache" where
  "upd_node p f c = c\<lparr> nodes := (nodes c)(p := f (nodes c p)) \<rparr>"

abbreviation set_next :: "nat \<Rightarrow> ptr \<Rightarrow> icache \<Rightarrow> icache" where
  "set_next p v \<equiv> upd_node p (n_next_update (\<lambda>_. v))"

abbreviation set_prev :: "nat \<Rightarrow> ptr \<Rightarrow> icache \<Rightarrow> icache" where
  "set_prev p v \<equiv> upd_node p (n_prev_update (\<lambda>_. v))"

abbreviation set_hash_next :: "nat \<Rightarrow> ptr \<Rightarrow> icache \<Rightarrow> icache" where
  "set_hash_next p v \<equiv> upd_node p (hash_next_update (\<lambda>_. v))"

abbreviation set_hash_prev :: "nat \<Rightarrow> ptr \<Rightarrow> icache \<Rightarrow> icache" where
  "set_hash_prev p v \<equiv> upd_node p (hash_prev_update (\<lambda>_. v))"

section \<open>freeList.c\<close>

definition freeListInsert :: "nat \<Rightarrow> icache \<Rightarrow> icache option" where
  "freeListInsert node c =
     (case freeList c of
        None \<Rightarrow>
          let c = c\<lparr> freeList := Some node \<rparr>;
              c = set_next node (freeList c) c
          in Some (set_prev node (freeList c) c)
      | Some f \<Rightarrow>
          let c = set_next node (Some f) c;
              c = set_prev node (n_prev (nodes c f)) c
          in do {
            q \<leftarrow> n_prev (nodes c f);
            let c = set_next q (Some node) c;
            Some (set_prev f (Some node) c)
          })"

definition popFreeList :: "icache \<Rightarrow> (ptr \<times> icache) option" where
  "popFreeList c =
     (case freeList c of
        None \<Rightarrow> Some (None, c)
      | Some f \<Rightarrow>
          if n_next (nodes c f) = Some f then Some (Some f, c\<lparr> freeList := None \<rparr>)
          else do {
            q \<leftarrow> n_prev (nodes c f);
            let c = set_next q (n_next (nodes c f)) c;
            r \<leftarrow> n_next (nodes c f);
            let c = set_prev r (n_prev (nodes c f)) c;
            let c = c\<lparr> freeList := n_next (nodes c f) \<rparr>;
            let c = set_next f None c;
            Some (Some f, set_prev f None c)
          })"

text \<open>
  The search of \<open>freeListRemove\<close>: whether \<open>node\<close> is met from \<open>workingNode\<close> on before the list closes.
\<close>

partial_function (option) fl_find :: "nat \<Rightarrow> nat \<Rightarrow> icache \<Rightarrow> bool option" where
  "fl_find node workingNode c =
     (if node = workingNode then Some True
      else case n_next (nodes c workingNode) of
        None \<Rightarrow> Some False
      | Some w \<Rightarrow> if Some w = freeList c then Some False else fl_find node w c)"

definition freeListRemove :: "nat \<Rightarrow> icache \<Rightarrow> icache option" where
  "freeListRemove node c =
     (case freeList c of
        None \<Rightarrow> Some c
      | Some f \<Rightarrow>
          if node = f \<and> n_next (nodes c f) = Some f then
            let c = c\<lparr> freeList := None \<rparr>;
                c = set_next node None c
            in Some (set_prev node None c)
          else do {
            found \<leftarrow> fl_find node f c;
            if found then do {
              let c = (if f = node then c\<lparr> freeList := n_next (nodes c node) \<rparr> else c);
              r \<leftarrow> n_next (nodes c node);
              let c = set_prev r (n_prev (nodes c node)) c;
              q \<leftarrow> n_prev (nodes c node);
              let c = set_next q (n_next (nodes c node)) c;
              let c = set_next node None c;
              Some (set_prev node None c)
            }
            else Some c
          })"

definition getFreeINodeFromList :: "icache \<Rightarrow> ptr" where
  "getFreeINodeFromList c = freeList c"

definition checkFreeListEmpty :: "icache \<Rightarrow> bool" where
  "checkFreeListEmpty c = (freeList c = None)"

text \<open>\<open>memset\<close> to zero of an \<open>inCoreiNode\<close> and of a \<open>Node\<close>.\<close>

definition zero_inCore :: inCoreiNode where
  "zero_inCore =
     \<lparr> iNodeMutex = False, reference_count = 0, device_number = 0, inode_number = 0, access = 0,
       modification = 0, status_change = 0, linksCount = 0, itype = 0, file_mode = 0,
       owner_uid = 0, group_uid = 0, dataBlockNums = replicate BLOCKS_IN_INODE 0,
       inode_changed = False, file_data_changed = False, isize = 0 \<rparr>"

definition zero_Node :: Node where
  "zero_Node = \<lparr> inode = zero_inCore, n_prev = None, n_next = None, hash_prev = None, hash_next = None \<rparr>"

text \<open>The \<open>counter\<close>th \<open>malloc\<close> of the loop returns the address \<open>counter\<close>.\<close>

primrec init_free_loop :: "nat list \<Rightarrow> icache \<Rightarrow> icache option" where
  "init_free_loop [] c = Some c"
| "init_free_loop (counter # rest) c =
     do {
       c \<leftarrow> freeListInsert counter (upd_node counter (\<lambda>_. zero_Node) c);
       init_free_loop rest c
     }"

definition initFreeInCoreINodeList :: "icache \<Rightarrow> icache option" where
  "initFreeInCoreINodeList c = init_free_loop [0..<INODE_BUFFER_SIZE] (c\<lparr> freeList := None \<rparr>)"

section \<open>hashQ.c\<close>

text \<open>\<open>counter\<close> starts with whatever its uninitialised stack slot holds.\<close>

definition initHashQueues :: "nat \<Rightarrow> icache \<Rightarrow> icache" where
  "initHashQueues counter c =
     c\<lparr> hashQ := foldl (\<lambda>q k. q[k := None]) (hashQ c) [counter..<INODE_HASH_SIZE] \<rparr>"

text \<open>
  The shift of the target machine, which takes the count modulo 64.  The C standard does not
  define a shift by 64 or more.
\<close>

definition shl64 :: "size_t \<Rightarrow> size_t \<Rightarrow> size_t" where
  "shl64 x n = push_bit (unat n mod 64) x"

text \<open>\<open>+\<close> and \<open>-\<close> bind stronger than \<open><<\<close>.\<close>

definition getHash :: "size_t \<Rightarrow> size_t \<Rightarrow> size_t" where
  "getHash iNodeNumber deviceNumber =
     shl64 (shl64 (deviceNumber + iNodeNumber) (6 + iNodeNumber)) (16 - iNodeNumber) mod 8"

definition removeFromHashQ :: "nat \<Rightarrow> icache \<Rightarrow> icache" where
  "removeFromHashQ node c =
     (let hashIndex = unat (getHash (inode_number (inode (nodes c node))) (device_number (inode (nodes c node))));
          c = (if hashQ c ! hashIndex = Some node
               then c\<lparr> hashQ := (hashQ c)[hashIndex := hash_next (nodes c node)] \<rparr> else c);
          c = (case hash_next (nodes c node) of
                 None \<Rightarrow> c
               | Some r \<Rightarrow> set_hash_prev r (hash_prev (nodes c node)) c);
          c = (case hash_prev (nodes c node) of
                 None \<Rightarrow> c
               | Some q \<Rightarrow> set_hash_next q (hash_next (nodes c node)) c);
          c = set_hash_next node None c
      in set_hash_prev node None c)"

definition insertInHash :: "nat \<Rightarrow> size_t \<Rightarrow> size_t \<Rightarrow> icache \<Rightarrow> icache" where
  "insertInHash node iNodeNumber deviceNumber c =
     (let hashIndex = unat (getHash iNodeNumber deviceNumber);
          head = hashQ c ! hashIndex;
          c = set_hash_next node head c;
          c = (case head of None \<Rightarrow> c | Some h \<Rightarrow> set_hash_prev h (Some node) c);
          c = set_hash_prev node None c
      in c\<lparr> hashQ := (hashQ c)[hashIndex := Some node] \<rparr>)"

definition updateInHashQ :: "nat \<Rightarrow> size_t \<Rightarrow> size_t \<Rightarrow> icache \<Rightarrow> icache" where
  "updateInHashQ node iNodeNumber deviceNumber c =
     insertInHash node iNodeNumber deviceNumber (removeFromHashQ node c)"

partial_function (option) hash_walk :: "size_t \<Rightarrow> ptr \<Rightarrow> icache \<Rightarrow> ptr option" where
  "hash_walk iNodeNumber head c =
     (case head of
        None \<Rightarrow> Some None
      | Some h \<Rightarrow>
          if inode_number (inode (nodes c h)) = iNodeNumber then Some (Some h)
          else hash_walk iNodeNumber (hash_next (nodes c h)) c)"

definition hashLookup :: "size_t \<Rightarrow> size_t \<Rightarrow> icache \<Rightarrow> ptr option" where
  "hashLookup iNodeNumber deviceNumber c =
     hash_walk iNodeNumber (hashQ c ! unat (getHash iNodeNumber deviceNumber)) c"


section \<open>The circular free list as a sequence of nodes\<close>

lemma nodes_upd_node [simp]: "nodes (upd_node p f c) = (nodes c)(p := f (nodes c p))"
  by (simp add: upd_node_def)

lemma freeList_upd_node [simp]: "freeList (upd_node p f c) = freeList c"
  by (simp add: upd_node_def)

lemma hashQ_upd_node [simp]: "hashQ (upd_node p f c) = hashQ c"
  by (simp add: upd_node_def)

text \<open>Every two neighbours of the sequence point at each other.\<close>

fun linked :: "icache \<Rightarrow> nat list \<Rightarrow> bool" where
  "linked c (x # y # zs) \<longleftrightarrow>
     n_next (nodes c x) = Some y \<and> n_prev (nodes c y) = Some x \<and> linked c (y # zs)"
| "linked c _ \<longleftrightarrow> True"

definition fl_list :: "icache \<Rightarrow> nat list \<Rightarrow> bool" where
  "fl_list c xs \<longleftrightarrow>
     (case xs of [] \<Rightarrow> freeList c = None
      | f # _ \<Rightarrow> freeList c = Some f \<and> distinct xs \<and> linked c (xs @ [f]))"

lemma linked_join:
  "linked c (xs @ q # r # ys) \<longleftrightarrow>
     linked c (xs @ [q]) \<and> n_next (nodes c q) = Some r \<and> n_prev (nodes c r) = Some q \<and> linked c (r # ys)"
  by (induction c xs rule: linked.induct) (auto simp: neq_Nil_conv)

lemma linked_frame:
  assumes "linked c xs"
    and "\<And>x. x \<in> set (butlast xs) \<Longrightarrow> n_next (nodes c' x) = n_next (nodes c x)"
    and "\<And>x. x \<in> set (tl xs) \<Longrightarrow> n_prev (nodes c' x) = n_prev (nodes c x)"
  shows "linked c' xs"
  using assms
proof (induction c xs rule: linked.induct)
  case (1 c x y zs)
  then have "linked c' (y # zs)"
    by (cases zs) auto
  with 1 show ?case by auto
qed auto

lemma fl_list_Nil [simp]: "fl_list c [] \<longleftrightarrow> freeList c = None"
  by (simp add: fl_list_def)

lemma fl_listI:
  "xs \<noteq> [] \<Longrightarrow> freeList c = Some (hd xs) \<Longrightarrow> distinct xs \<Longrightarrow> linked c (xs @ [hd xs]) \<Longrightarrow> fl_list c xs"
  by (cases xs) (simp_all add: fl_list_def)

lemma linked_tail: "linked c (x # xs) \<Longrightarrow> linked c xs"
  by (cases xs) simp_all

lemma fl_list_distinct: "fl_list c xs \<Longrightarrow> distinct xs"
  by (cases xs) (auto simp: fl_list_def)

text \<open>What the free list operations leave alone, and what the hash queue operations leave alone.\<close>

definition fl_frame :: "icache \<Rightarrow> icache \<Rightarrow> bool" where
  "fl_frame c c' \<longleftrightarrow> hashQ c' = hashQ c \<and>
     (\<forall>p. inode (nodes c' p) = inode (nodes c p) \<and> hash_prev (nodes c' p) = hash_prev (nodes c p) \<and>
          hash_next (nodes c' p) = hash_next (nodes c p))"

definition hq_frame :: "icache \<Rightarrow> icache \<Rightarrow> bool" where
  "hq_frame c c' \<longleftrightarrow> freeList c' = freeList c \<and>
     (\<forall>p. inode (nodes c' p) = inode (nodes c p) \<and> n_prev (nodes c' p) = n_prev (nodes c p) \<and>
          n_next (nodes c' p) = n_next (nodes c p))"

lemma fl_list_insert:
  assumes "fl_list c xs" and "p \<notin> set xs"
  shows "\<exists>c'. freeListInsert p c = Some c' \<and> fl_list c' (xs @ [p]) \<and> fl_frame c c'"
proof (cases xs)
  case Nil
  with assms show ?thesis
    by (auto simp: freeListInsert_def fl_list_def fl_frame_def Let_def)
next
  case (Cons f ys)
  define us where "us = butlast xs"
  define q where "q = last xs"
  have xs: "xs = us @ [q]" using Cons by (simp add: us_def q_def)
  have e: "xs @ [f] = us @ [q, f]" by (simp add: xs)
  from assms Cons have "freeList c = Some f" "distinct xs" "linked c (xs @ [f])"
    by (auto simp: fl_list_def)
  then have c: "freeList c = Some f" "distinct xs" "linked c (us @ [q, f])"
    unfolding e by auto
  let ?c = "set_prev f (Some p) (set_next q (Some p) (set_prev p (Some q) (set_next p (Some f) c)))"
  have ne: "f \<noteq> p" "q \<noteq> p" using assms(2) Cons by (auto simp: q_def)
  have ins: "freeListInsert p c = Some ?c"
    using c ne by (simp add: freeListInsert_def Let_def linked_join)
  have "linked ?c (us @ [q])"
  proof (rule linked_frame)
    show "linked c (us @ [q])" using c by (simp add: linked_join)
    show "n_next (nodes ?c x) = n_next (nodes c x)" if "x \<in> set (butlast (us @ [q]))" for x
      using that assms(2) c(2) xs by auto
    show "n_prev (nodes ?c x) = n_prev (nodes c x)" if "x \<in> set (tl (us @ [q]))" for x
      using that assms(2) c(2) xs Cons by (cases us) auto
  qed
  then have "linked ?c (us @ q # p # [f])"
    using ne by (simp add: linked_join)
  moreover have "us @ q # p # [f] = (xs @ [p]) @ [hd (xs @ [p])]"
    unfolding xs using Cons xs by (cases us) auto
  ultimately have "linked ?c ((xs @ [p]) @ [hd (xs @ [p])])" by argo
  then have "fl_list ?c (xs @ [p])"
    by (intro fl_listI) (use c(1,2) assms(2) Cons in simp_all)
  moreover have "fl_frame c ?c"
    by (simp add: fl_frame_def)
  ultimately show ?thesis using ins by blast
qed

text \<open>Taking a node out of a ring: its two neighbours \<open>q\<close> and \<open>r\<close> are joined.\<close>

lemma ring_neighbours:
  assumes "linked c (us @ p # vs @ [hd (us @ [p])])" and "us @ vs \<noteq> []"
  shows "n_next (nodes c p) = Some (hd (vs @ us)) \<and> n_prev (nodes c p) = Some (last (vs @ us))"
proof (cases us rule: rev_cases)
  case Nil
  define q where "q = last vs"
  have vs: "vs = butlast vs @ [q]" "vs = hd vs # tl vs" using assms Nil by (simp_all add: q_def)
  have "linked c (p # vs @ [p])" using assms Nil by simp
  then have "linked c (p # butlast vs @ [q, p])" "linked c (p # hd vs # tl vs @ [p])"
    using vs by (metis append.assoc append_Cons append_Nil)+
  then show ?thesis
    using linked_join [of c "p # butlast vs" q p "[]"] Nil by (simp add: q_def)
next
  case (snoc us' q)
  have "linked c (us' @ q # p # vs @ [hd us])" using assms(1) snoc by (cases us') simp_all
  then have "n_prev (nodes c p) = Some q" "linked c (p # vs @ [hd us])" by (simp_all add: linked_join)
  then show ?thesis using snoc by (cases vs; cases us') simp_all
qed

lemma ring_cut:
  assumes lk: "linked c (us @ p # vs @ [hd (us @ [p])])" and ne: "us @ vs \<noteq> []"
    and d: "distinct (us @ p # vs)" and q: "q = last (vs @ us)" and r: "r = hd (vs @ us)"
    and qr: "n_next (nodes c' q) = Some r" "n_prev (nodes c' r) = Some q"
    and nx: "\<And>x. x \<noteq> p \<Longrightarrow> x \<noteq> q \<Longrightarrow> n_next (nodes c' x) = n_next (nodes c x)"
    and pv: "\<And>x. x \<noteq> p \<Longrightarrow> x \<noteq> r \<Longrightarrow> n_prev (nodes c' x) = n_prev (nodes c x)"
  shows "linked c' (us @ vs @ [hd (us @ vs)])"
proof (cases us rule: rev_cases)
  case Nil
  then obtain ws where vs: "vs = ws @ [q]" "hd vs = r" using ne q r by (cases vs rule: rev_cases) auto
  have "linked c (p # vs @ [p])" using lk Nil by simp
  then have "linked c (p # vs)"
    using linked_join [of c "p # ws" q p "[]"] vs by simp
  then have "linked c vs" by (rule linked_tail)
  then have "linked c' vs"
    by (rule linked_frame)
      (use d Nil vs in \<open>cases ws; auto intro!: nx pv\<close>)+
  then show ?thesis using Nil vs qr by (simp add: linked_join)
next
  case (snoc us' q')
  then have us: "us = us' @ [q]" using q by simp
  obtain ws where rw: "vs @ [hd us] = r # ws" using r us by (cases vs) auto
  have e: "us @ p # vs @ [hd (us @ [p])] = us' @ q # p # r # ws" using us rw by (cases us') simp_all
  have l: "linked c (us' @ [q])" "linked c (r # ws)" using lk unfolding e by (simp_all add: linked_join)
  have hus: "r \<in> set vs \<or> r = hd us" using rw by (cases vs) auto
  have "linked c' (us' @ [q])"
  proof (rule linked_frame [OF l(1)])
    show "n_next (nodes c' x) = n_next (nodes c x)" if "x \<in> set (butlast (us' @ [q]))" for x
      using that d us by (intro nx) auto
    show "n_prev (nodes c' x) = n_prev (nodes c x)" if "x \<in> set (tl (us' @ [q]))" for x
      using that d us hus by (intro pv) (cases us'; auto)+
  qed
  moreover have "linked c' (r # ws)"
  proof (rule linked_frame [OF l(2)])
    have bl: "butlast (r # ws) = vs" using rw by (metis butlast_snoc)
    show "n_next (nodes c' x) = n_next (nodes c x)" if "x \<in> set (butlast (r # ws))" for x
      using that d us unfolding bl by (intro nx) auto
    show "n_prev (nodes c' x) = n_prev (nodes c x)" if "x \<in> set (tl (r # ws))" for x
      using that d us rw by (intro pv) (cases vs; cases us'; auto)+
  qed
  ultimately have "linked c' (us' @ q # r # ws)" using qr by (simp add: linked_join)
  moreover have "us @ vs @ [hd (us @ vs)] = us' @ q # r # ws"
    using rw us by (cases us') simp_all
  ultimately show ?thesis by argo
qed

lemma fl_list_pop:
  assumes "fl_list c (f # xs)"
  shows "\<exists>c'. popFreeList c = Some (Some f, c') \<and> fl_list c' xs \<and> fl_frame c c'"
proof (cases xs)
  case Nil
  with assms show ?thesis by (auto simp: popFreeList_def fl_list_def fl_frame_def)
next
  case (Cons r ys)
  define q where "q = last xs"
  from assms have c: "freeList c = Some f" "distinct (f # xs)" "linked c (f # xs @ [f])"
    by (auto simp: fl_list_def)
  have fr: "n_next (nodes c f) = Some r" "n_prev (nodes c f) = Some q" "q \<in> set xs" "r \<in> set xs"
    using ring_neighbours [of c "[]" f xs] c(3) Cons by (simp_all add: q_def)
  let ?c = "set_prev f None (set_next f None
     ((set_prev r (Some q) (set_next q (Some r) c))\<lparr> freeList := Some r \<rparr>))"
  have pop: "popFreeList c = Some (Some f, ?c)"
    using c fr by (auto simp: popFreeList_def Let_def fun_upd_def)
  have "linked ?c ([] @ xs @ [hd ([] @ xs)])"
    by (rule ring_cut [where c = c and p = f and q = q and r = r])
      (use c fr Cons in \<open>auto simp: q_def\<close>)
  then have "fl_list ?c xs" using c Cons by (simp add: fl_list_def)
  moreover have "fl_frame c ?c" by (simp add: fl_frame_def)
  ultimately show ?thesis using pop by blast
qed

lemma popFreeList_empty: "fl_list c [] \<Longrightarrow> popFreeList c = Some (None, c)"
  by (simp add: popFreeList_def)


lemma fl_find_spec:
  assumes "linked c (ws @ [f])" and "freeList c = Some f" and "ws \<noteq> []" and "f \<notin> set (tl ws)"
  shows "fl_find p (hd ws) c = Some (p \<in> set ws)"
  using assms
proof (induction ws)
  case (Cons w vs)
  then show ?case
    by (cases vs) (simp_all add: fl_find.simps [of p w])
qed simp

lemma fl_list_remove_found:
  assumes "fl_list c (us @ p # vs)"
  shows "\<exists>c'. freeListRemove p c = Some c' \<and> fl_list c' (us @ vs) \<and> fl_frame c c'"
proof (cases "us @ vs = []")
  case True
  with assms show ?thesis by (auto simp: freeListRemove_def fl_list_def fl_frame_def Let_def)
next
  case False
  define f where "f = hd (us @ [p])"
  define q where "q = last (vs @ us)"
  define r where "r = hd (vs @ us)"
  from assms have c: "freeList c = Some f" "distinct (us @ p # vs)" "linked c (us @ p # vs @ [f])"
    by (cases us; simp add: fl_list_def f_def)+
  have pr: "n_next (nodes c p) = Some r" "n_prev (nodes c p) = Some q"
    using ring_neighbours [of c us p vs] c(3) False by (simp_all add: f_def q_def r_def)
  have "q \<in> set (us @ vs)" "r \<in> set (us @ vs)"
    using False last_in_set [of "vs @ us"] hd_in_set [of "vs @ us"] by (auto simp: q_def r_def)
  then have ne: "q \<noteq> p" "r \<noteq> p" using c(2) by auto
  have find: "fl_find p f c = Some True"
    using fl_find_spec [of c "us @ p # vs" f p] c by (cases us) (auto simp: f_def)
  have hd': "f = p \<longleftrightarrow> us = []" using c(2) by (cases us) (auto simp: f_def)
  let ?c0 = "if f = p then c\<lparr> freeList := Some r \<rparr> else c"
  let ?c = "set_prev p None (set_next p None (set_next q (Some r) (set_prev r (Some q) ?c0)))"
  have rm: "freeListRemove p c = Some ?c"
    using c pr ne find by (auto simp: freeListRemove_def Let_def fun_upd_def)
  have "linked ?c (us @ vs @ [hd (us @ vs)])"
    by (rule ring_cut [where c = c and p = p and q = q and r = r])
      (use c ne False in \<open>auto simp: f_def q_def r_def\<close>)
  moreover have "freeList ?c = Some (hd (us @ vs))"
    using c hd' by (cases us) (auto simp: f_def r_def)
  ultimately have "fl_list ?c (us @ vs)"
    by (intro fl_listI) (use c(2) False in auto)
  moreover have "fl_frame c ?c" by (simp add: fl_frame_def)
  ultimately show ?thesis using rm by blast
qed

lemma fl_list_remove:
  assumes "fl_list c xs"
  shows "\<exists>c'. freeListRemove p c = Some c' \<and> fl_list c' (remove1 p xs) \<and> fl_frame c c'"
proof (cases "p \<in> set xs")
  case True
  then obtain us vs where "xs = us @ p # vs" "p \<notin> set us" by (meson split_list_first)
  with assms fl_list_remove_found [of c us p vs] show ?thesis
    by (simp add: remove1_append)
next
  case False
  have "freeListRemove p c = Some c"
  proof (cases xs)
    case (Cons f ys)
    with assms False have "freeList c = Some f" "p \<noteq> f" "fl_find p f c = Some False"
      using fl_find_spec [of c xs f p] by (auto simp: fl_list_def)
    then show ?thesis by (simp add: freeListRemove_def)
  qed (use assms in \<open>simp add: freeListRemove_def\<close>)
  with False assms show ?thesis by (simp add: remove1_idem fl_frame_def)
qed


section \<open>The hash queue as a sequence of nodes\<close>

text \<open>
  The two shift counts of \<open>getHash\<close> add up to 22 modulo 64, so the low three bits are always
  clear: every inode hashes to queue 0.
\<close>

lemma getHash_zero [simp]: "getHash i d = 0"
proof -
  have "(unat (6 + i) + unat (16 - i)) mod 64 = unat ((6 + i) + (16 - i)) mod 64"
    by (simp only: unat_word_ariths(1)) (simp add: mod_mod_cancel)
  also have "\<dots> = 22" by simp
  finally have s: "(unat (6 + i) mod 64 + unat (16 - i) mod 64) mod 64 = 22"
    by (simp add: mod_add_eq)
  have "3 \<le> unat (6 + i) mod 64 + unat (16 - i) mod 64"
    by (rule ccontr) (use s in simp)
  then have "shl64 (shl64 (d + i) (6 + i)) (16 - i) = push_bit 3
      (push_bit (unat (6 + i) mod 64 + unat (16 - i) mod 64 - 3) (d + i))"
    by (simp add: shl64_def push_bit_push_bit add.commute)
  moreover have "push_bit 3 w mod 8 = (0 :: size_t)" for w
    using take_bit_push_bit [of 3 3 w] by (simp add: take_bit_eq_mod)
  ultimately show ?thesis by (simp add: getHash_def del: push_bit_push_bit)
qed

text \<open>
  \<open>hq_lseg c q h xs q' h'\<close>: from the pointer \<open>h\<close>, whose target points back to \<open>q\<close>, the nodes \<open>xs\<close> are
  met, the last one \<open>q'\<close>, and then \<open>h'\<close>.
\<close>

fun hq_lseg :: "icache \<Rightarrow> ptr \<Rightarrow> ptr \<Rightarrow> nat list \<Rightarrow> ptr \<Rightarrow> ptr \<Rightarrow> bool" where
  "hq_lseg c q h [] q' h' \<longleftrightarrow> q' = q \<and> h' = h"
| "hq_lseg c q h (x # xs) q' h' \<longleftrightarrow>
     h = Some x \<and> hash_prev (nodes c x) = q \<and> hq_lseg c (Some x) (hash_next (nodes c x)) xs q' h'"

definition hq_seg :: "icache \<Rightarrow> ptr \<Rightarrow> ptr \<Rightarrow> nat list \<Rightarrow> bool" where
  "hq_seg c q h xs \<longleftrightarrow> (\<exists>q'. hq_lseg c q h xs q' None)"

definition hq_list :: "icache \<Rightarrow> nat list \<Rightarrow> bool" where
  "hq_list c xs \<longleftrightarrow> length (hashQ c) = INODE_HASH_SIZE \<and> distinct xs \<and> hq_seg c None (hashQ c ! 0) xs \<and>
     (\<forall>p < INODE_BUFFER_SIZE. p \<notin> set xs \<longrightarrow> hash_prev (nodes c p) = None \<and> hash_next (nodes c p) = None)"

lemma hq_lseg_append:
  "hq_lseg c q h (xs @ ys) q' h' \<longleftrightarrow> (\<exists>m n. hq_lseg c q h xs m n \<and> hq_lseg c m n ys q' h')"
  by (induction xs arbitrary: q h) auto

lemma hq_lseg_end: "hq_lseg c q h xs q' h' \<Longrightarrow> q' = (if xs = [] then q else Some (last xs))"
  by (induction xs arbitrary: q h) auto

lemma hq_seg_simps [simp]:
  "hq_seg c q h [] \<longleftrightarrow> h = None"
  "hq_seg c q h (x # xs) \<longleftrightarrow>
     h = Some x \<and> hash_prev (nodes c x) = q \<and> hq_seg c (Some x) (hash_next (nodes c x)) xs"
  by (auto simp: hq_seg_def)

lemma hq_seg_append:
  "hq_seg c q h (xs @ ys) \<longleftrightarrow> (\<exists>m n. hq_lseg c q h xs m n \<and> hq_seg c m n ys)"
  by (auto simp: hq_seg_def hq_lseg_append)

lemma hq_lseg_redirect:
  assumes "hq_lseg c q h xs m n" and "distinct xs"
    and "\<And>x. x \<in> set xs \<Longrightarrow> hash_prev (nodes c' x) = hash_prev (nodes c x)"
    and "\<And>x. x \<in> set xs \<Longrightarrow> Some x \<noteq> m \<Longrightarrow> hash_next (nodes c' x) = hash_next (nodes c x)"
    and "\<And>x. x \<in> set xs \<Longrightarrow> Some x = m \<Longrightarrow> hash_next (nodes c' x) = n'"
  shows "hq_lseg c' q (if xs = [] then n' else h) xs m n'"
  using assms
proof (induction xs arbitrary: q h)
  case (Cons x xs)
  have "hq_lseg c' (Some x) (if xs = [] then n' else hash_next (nodes c x)) xs m n'"
    using Cons.prems by (intro Cons.IH) auto
  moreover have "Some x = m \<longleftrightarrow> xs = []"
    using Cons.prems hq_lseg_end [of c "Some x" "hash_next (nodes c x)" xs m n] by auto
  ultimately show ?case using Cons.prems by auto
qed simp

lemma hq_seg_frame:
  assumes "hq_seg c q h xs"
    and "\<And>x. x \<in> set xs \<Longrightarrow> hash_next (nodes c' x) = hash_next (nodes c x)"
    and "\<And>x. x \<in> set (tl xs) \<Longrightarrow> hash_prev (nodes c' x) = hash_prev (nodes c x)"
    and "xs \<noteq> [] \<Longrightarrow> hash_prev (nodes c' (hd xs)) = q'"
  shows "hq_seg c' q' h xs"
  using assms
proof (induction xs arbitrary: q q' h)
  case (Cons x xs)
  have "hq_seg c' (Some x) (hash_next (nodes c x)) xs"
    by (rule Cons.IH [where q = "Some x"]) (use Cons.prems in \<open>cases xs; auto\<close>)+
  with Cons.prems show ?case by auto
qed simp

lemma hq_seg_cong:
  assumes "\<And>x. x \<in> set xs \<Longrightarrow> hash_next (nodes c' x) = hash_next (nodes c x)"
    and "\<And>x. x \<in> set xs \<Longrightarrow> hash_prev (nodes c' x) = hash_prev (nodes c x)"
  shows "hq_seg c' q h xs = hq_seg c q h xs"
  using assms by (induction xs arbitrary: q h) auto

lemma hq_list_distinct: "hq_list c xs \<Longrightarrow> distinct xs"
  by (simp add: hq_list_def)

lemma removeFromHashQ_hash_prev:
  assumes "hash_next (nodes c p) \<noteq> Some p"
  shows "hash_prev (nodes (removeFromHashQ p c) x) =
    (if x = p then None else if hash_next (nodes c p) = Some x then hash_prev (nodes c p)
     else hash_prev (nodes c x))"
  using assms by (cases "hash_next (nodes c p)"; cases "hash_prev (nodes c p)")
    (simp_all add: removeFromHashQ_def Let_def)

lemma removeFromHashQ_hash_next:
  assumes "hash_next (nodes c p) \<noteq> Some p" and "hash_prev (nodes c p) \<noteq> Some p"
  shows "hash_next (nodes (removeFromHashQ p c) x) =
    (if x = p then None else if hash_prev (nodes c p) = Some x then hash_next (nodes c p)
     else hash_next (nodes c x))"
  using assms by (cases "hash_next (nodes c p)"; cases "hash_prev (nodes c p)")
    (simp_all add: removeFromHashQ_def Let_def)

lemma hashQ_case_upd [simp]:
  "hashQ (case x of None \<Rightarrow> c | Some r \<Rightarrow> upd_node r (f r) c) = hashQ c"
  by (cases x) simp_all

lemma removeFromHashQ_hashQ:
  "hashQ (removeFromHashQ p c) =
     (if hashQ c ! 0 = Some p then (hashQ c)[0 := hash_next (nodes c p)] else hashQ c)"
  by (simp add: removeFromHashQ_def Let_def)

lemma hq_frame_intros:
  "hq_frame a a"
  "hq_frame a b \<Longrightarrow> hq_frame a (b\<lparr> hashQ := v \<rparr>)"
  "hq_frame a b \<Longrightarrow> hq_frame a (set_hash_prev r w b)"
  "hq_frame a b \<Longrightarrow> hq_frame a (set_hash_next r w b)"
  "hq_frame a b \<Longrightarrow> hq_frame a (case x of None \<Rightarrow> b | Some r \<Rightarrow> set_hash_prev r (f r) b)"
  "hq_frame a b \<Longrightarrow> hq_frame a (case x of None \<Rightarrow> b | Some r \<Rightarrow> set_hash_next r (f r) b)"
  by (simp_all add: hq_frame_def split: option.splits)

lemma removeFromHashQ_frame: "hq_frame c (removeFromHashQ p c)"
  unfolding removeFromHashQ_def Let_def by (auto intro!: hq_frame_intros split: if_splits)

lemma hq_list_remove_found:
  assumes "hq_list c (us @ p # vs)" and "p < INODE_BUFFER_SIZE"
  shows "hq_list (removeFromHashQ p c) (us @ vs)"
proof -
  let ?h = "hashQ c ! 0" and ?q = "hash_prev (nodes c p)" and ?n = "hash_next (nodes c p)"
  let ?c = "removeFromHashQ p c"
  from assms have d: "distinct (us @ p # vs)" and len: "length (hashQ c) = 8"
    and l: "hq_lseg c None ?h us ?q (Some p)" "hq_seg c (Some p) ?n vs"
    by (auto simp: hq_list_def hq_seg_append)
  have q: "?q = Some x \<Longrightarrow> x \<in> set us" for x
    using hq_lseg_end [OF l(1)] by (auto split: if_splits)
  have n: "?n = (if vs = [] then None else Some (hd vs))" using l(2) by (cases vs) auto
  then have nv: "?n = Some x \<Longrightarrow> x \<in> set vs" for x by (cases vs) auto
  have ne: "?n \<noteq> Some p" "?q \<noteq> Some p" using q nv d by auto
  note rf = removeFromHashQ_hash_prev [OF ne(1)] removeFromHashQ_hash_next [OF ne]
  have hp: "?h = Some p \<longleftrightarrow> us = []" using l(1) d by (cases us) auto
  have "hq_lseg ?c None (if us = [] then ?n else ?h) us ?q ?n"
    by (rule hq_lseg_redirect [OF l(1)]) (use d nv in \<open>auto simp: rf\<close>)
  moreover have "hq_seg ?c ?q ?n vs"
  proof (rule hq_seg_frame [OF l(2)])
    show "hash_next (nodes ?c x) = hash_next (nodes c x)" if "x \<in> set vs" for x
      using that d q by (auto simp: rf)
    show "hash_prev (nodes ?c x) = hash_prev (nodes c x)" if "x \<in> set (tl vs)" for x
      using that d n by (cases vs) (auto simp: rf)
    show "hash_prev (nodes ?c (hd vs)) = ?q" if "vs \<noteq> []"
      using that d n by (cases vs) (auto simp: rf)
  qed
  moreover have "hashQ ?c ! 0 = (if us = [] then ?n else ?h)"
    using hp len by (simp add: removeFromHashQ_hashQ)
  ultimately have "hq_seg ?c None (hashQ ?c ! 0) (us @ vs)"
    unfolding hq_seg_append by metis
  moreover have "hash_prev (nodes ?c x) = None \<and> hash_next (nodes ?c x) = None"
    if "x < 32" "x \<notin> set (us @ vs)" for x
    using that assms q nv by (auto simp: rf hq_list_def)
  moreover have "length (hashQ ?c) = 8"
    using len by (simp add: removeFromHashQ_hashQ)
  ultimately show ?thesis using d by (simp add: hq_list_def)
qed

lemma removeFromHashQ_absent:
  assumes "hq_list c xs" and "p \<notin> set xs" and "p < INODE_BUFFER_SIZE"
  shows "hq_list (removeFromHashQ p c) xs"
proof -
  from assms have pn: "hash_prev (nodes c p) = None" "hash_next (nodes c p) = None"
    by (auto simp: hq_list_def)
  have "hashQ c ! 0 \<noteq> Some p" using assms by (cases xs) (auto simp: hq_list_def)
  then have "hashQ (removeFromHashQ p c) = hashQ c" by (simp add: removeFromHashQ_hashQ)
  moreover have "hash_prev (nodes (removeFromHashQ p c) x) = hash_prev (nodes c x)"
    "hash_next (nodes (removeFromHashQ p c) x) = hash_next (nodes c x)" for x
    using pn by (simp_all add: removeFromHashQ_hash_prev removeFromHashQ_hash_next)
  ultimately show ?thesis
    using assms(1) hq_seg_cong [of xs "removeFromHashQ p c" c] by (simp add: hq_list_def)
qed

lemma hq_list_remove:
  assumes "hq_list c xs" and "p < INODE_BUFFER_SIZE"
  shows "hq_list (removeFromHashQ p c) (remove1 p xs)"
proof (cases "p \<in> set xs")
  case True
  then obtain us vs where "xs = us @ p # vs" "p \<notin> set us" by (meson split_list_first)
  with assms hq_list_remove_found [of c us p vs] show ?thesis by (simp add: remove1_append)
next
  case False
  with assms show ?thesis by (simp add: remove1_idem removeFromHashQ_absent)
qed

lemma hq_list_insert:
  assumes "hq_list c xs" and "p \<notin> set xs"
  shows "hq_list (insertInHash p i d c) (p # xs)"
proof -
  let ?c = "insertInHash p i d c"
  have h: "hashQ c ! 0 = (if xs = [] then None else Some (hd xs))"
    and len: "length (hashQ c) = 8" and sg: "hq_seg c None (hashQ c ! 0) xs"
    using assms(1) by (auto simp: hq_list_def neq_Nil_conv)
  have np: "hash_next (nodes ?c x) = (if x = p then hashQ c ! 0 else hash_next (nodes c x))"
    "hash_prev (nodes ?c x) = (if x = p then None else if xs \<noteq> [] \<and> x = hd xs then Some p else hash_prev (nodes c x))"
    for x using assms(2) h by (auto simp: insertInHash_def Let_def neq_Nil_conv)
  have "hq_seg ?c (Some p) (hashQ c ! 0) xs"
  proof (rule hq_seg_frame [OF sg])
    show "hash_prev (nodes ?c x) = hash_prev (nodes c x)" if "x \<in> set (tl xs)" for x
      using that assms hq_list_distinct [OF assms(1)] by (cases xs) (auto simp: np)
  qed (use assms(2) in \<open>auto simp: np\<close>)
  moreover have "hashQ ?c = (hashQ c)[0 := Some p]"
    by (simp add: insertInHash_def Let_def split: option.splits)
  ultimately show ?thesis
    using assms len by (auto simp: hq_list_def np)
qed

lemma insertInHash_frame: "hq_frame c (insertInHash p i d c)"
  unfolding insertInHash_def Let_def by (intro hq_frame_intros)

lemma hq_frame_trans [trans]: "hq_frame a b \<Longrightarrow> hq_frame b c \<Longrightarrow> hq_frame a c"
  by (simp add: hq_frame_def)

lemma fl_frame_trans [trans]: "fl_frame a b \<Longrightarrow> fl_frame b c \<Longrightarrow> fl_frame a c"
  by (simp add: fl_frame_def)

lemma hq_list_update:
  assumes "hq_list c xs" and "p < INODE_BUFFER_SIZE"
  shows "hq_list (updateInHashQ p i d c) (p # remove1 p xs) \<and> hq_frame c (updateInHashQ p i d c)"
  unfolding updateInHashQ_def
  using hq_list_insert [OF hq_list_remove [OF assms]] hq_list_distinct [OF assms(1)]
    hq_frame_trans [OF removeFromHashQ_frame insertInHash_frame]
  by simp

lemma hash_walk_spec:
  "hq_seg c q h xs \<Longrightarrow> hash_walk i h c = Some (find (\<lambda>p. inode_number (inode (nodes c p)) = i) xs)"
  by (induction xs arbitrary: q h) (auto simp: hash_walk.simps)

lemma hashLookup_spec:
  "hq_list c xs \<Longrightarrow> hashLookup i d c = Some (find (\<lambda>p. inode_number (inode (nodes c p)) = i) xs)"
  by (auto simp: hashLookup_def hq_list_def hash_walk_spec)

text \<open>Each structure survives the operations on the other.\<close>

lemma fl_list_frame:
  assumes "fl_list c xs" and "hq_frame c c'"
  shows "fl_list c' xs"
  using assms linked_frame [of c "xs @ [hd xs]" c']
  by (cases xs) (auto simp: fl_list_def hq_frame_def)

lemma hq_list_frame:
  assumes "hq_list c xs" and "fl_frame c c'"
  shows "hq_list c' xs"
  using assms hq_seg_cong [of xs c' c] by (simp add: hq_list_def fl_frame_def)


section \<open>Interfaces of the two structures\<close>

text \<open>
  What the inode operations rely on.  The free list is a first-in first-out queue from which any
  member can be withdrawn; \<open>rep\<close> relates a state to the sequence of its members.
\<close>

primrec enq_many :: "(nat \<Rightarrow> 's \<Rightarrow> 's option) \<Rightarrow> nat list \<Rightarrow> 's \<Rightarrow> 's option" where
  "enq_many enq [] s = Some s"
| "enq_many enq (p # ps) s = do { s \<leftarrow> enq p s; enq_many enq ps s }"

primrec deq_many :: "('s \<Rightarrow> (ptr \<times> 's) option) \<Rightarrow> nat \<Rightarrow> 's \<Rightarrow> (ptr list \<times> 's) option" where
  "deq_many deq 0 s = Some ([], s)"
| "deq_many deq (Suc n) s =
     do { (p, s) \<leftarrow> deq s; (ps, s) \<leftarrow> deq_many deq n s; Some (p # ps, s) }"

locale node_queue =
  fixes rep :: "'s \<Rightarrow> nat list \<Rightarrow> bool"
    and enq :: "nat \<Rightarrow> 's \<Rightarrow> 's option"
    and deq :: "'s \<Rightarrow> (ptr \<times> 's) option"
    and rem :: "nat \<Rightarrow> 's \<Rightarrow> 's option"
  assumes enq_rep: "rep s xs \<Longrightarrow> p \<notin> set xs \<Longrightarrow> \<exists>s'. enq p s = Some s' \<and> rep s' (xs @ [p])"
    and deq_rep: "rep s (x # xs) \<Longrightarrow> \<exists>s'. deq s = Some (Some x, s') \<and> rep s' xs"
    and deq_empty: "rep s [] \<Longrightarrow> deq s = Some (None, s)"
    and rem_rep: "rep s xs \<Longrightarrow> \<exists>s'. rem p s = Some s' \<and> rep s' (remove1 p xs)"
begin

lemma enq_many_rep:
  "rep s xs \<Longrightarrow> distinct (xs @ ps) \<Longrightarrow> \<exists>s'. enq_many enq ps s = Some s' \<and> rep s' (xs @ ps)"
proof (induction ps arbitrary: s xs)
  case (Cons p ps)
  then obtain s' where "enq p s = Some s'" "rep s' (xs @ [p])" using enq_rep [of s xs p] by auto
  with Cons.IH [of s' "xs @ [p]"] Cons.prems(2) show ?case by auto
qed simp

lemma deq_many_rep:
  "rep s (xs @ ys) \<Longrightarrow> \<exists>s'. deq_many deq (length xs) s = Some (map Some xs, s') \<and> rep s' ys"
proof (induction xs arbitrary: s)
  case (Cons x xs)
  then obtain s' where "deq s = Some (Some x, s')" "rep s' (xs @ ys)" using deq_rep [of s x] by auto
  with Cons.IH [of s'] show ?case by auto
qed simp

lemma fifo:
  assumes "rep s []" and "distinct ps"
  shows "\<exists>s1 s2. enq_many enq ps s = Some s1 \<and>
    deq_many deq (length ps) s1 = Some (map Some ps, s2) \<and> deq s2 = Some (None, s2)"
proof -
  obtain s1 where s1: "enq_many enq ps s = Some s1" "rep s1 ps"
    using enq_many_rep [OF assms(1), of ps] assms(2) by auto
  then obtain s2 where "deq_many deq (length ps) s1 = Some (map Some ps, s2)" "rep s2 []"
    using deq_many_rep [of s1 ps "[]"] by auto
  with s1 show ?thesis using deq_empty by blast
qed

end

text \<open>
  A hash queue is an index: a node is found by its key until it is removed, and the operations
  on one node do not disturb the lookup of another.
\<close>

locale node_index =
  fixes rep :: "'s \<Rightarrow> nat list \<Rightarrow> bool"
    and key :: "'s \<Rightarrow> nat \<Rightarrow> 'k"
    and valid :: "nat \<Rightarrow> bool"
    and place :: "nat \<Rightarrow> 's \<Rightarrow> 's"
    and discard :: "nat \<Rightarrow> 's \<Rightarrow> 's"
    and lookup :: "'k \<Rightarrow> 's \<Rightarrow> ptr option"
  assumes rep_distinct: "rep s xs \<Longrightarrow> distinct xs"
    and place_rep: "rep s xs \<Longrightarrow> valid p \<Longrightarrow> rep (place p s) (p # remove1 p xs)"
    and discard_rep: "rep s xs \<Longrightarrow> valid p \<Longrightarrow> rep (discard p s) (remove1 p xs)"
    and place_key: "key (place p s) = key s"
    and discard_key: "key (discard p s) = key s"
    and lookup_rep: "rep s xs \<Longrightarrow> lookup k s = Some (find (\<lambda>p. key s p = k) xs)"
begin

lemma lookup_member:
  assumes "rep s xs" and "inj_on (key s) (set xs)" and "p \<in> set xs"
  shows "lookup (key s p) s = Some (Some p)"
proof -
  obtain y where "find (\<lambda>q. key s q = key s p) xs = Some y"
    using assms(3) by (cases "find (\<lambda>q. key s q = key s p) xs") (auto simp: find_None_iff)
  moreover then have "y \<in> set xs" "key s y = key s p" by (auto simp: find_Some_iff)
  ultimately show ?thesis using assms by (simp add: lookup_rep inj_onD)
qed

lemma lookup_absent:
  "rep s xs \<Longrightarrow> k \<notin> key s ` set xs \<Longrightarrow> lookup k s = Some None"
  by (auto simp: lookup_rep find_None_iff)

lemma lookup_SomeD:
  "rep s xs \<Longrightarrow> lookup k s = Some (Some p) \<Longrightarrow> p \<in> set xs \<and> key s p = k"
  by (auto simp: lookup_rep find_Some_iff)

lemma lookup_NoneD:
  "rep s xs \<Longrightarrow> lookup k s = Some None \<Longrightarrow> k \<notin> key s ` set xs"
  by (auto simp: lookup_rep find_None_iff)

lemma place_lookup:
  assumes "rep s xs" and "valid p"
  shows "lookup (key s p) (place p s) = Some (Some p)"
  using lookup_rep [OF place_rep [OF assms]] by (simp add: place_key)

lemma find_remove1: "\<not> P p \<Longrightarrow> find P (remove1 p xs) = find P xs"
  by (induction xs) auto

lemma place_lookup_other:
  assumes "rep s xs" and "valid p" and "k \<noteq> key s p"
  shows "lookup k (place p s) = lookup k s"
  using lookup_rep [OF place_rep [OF assms(1,2)]] lookup_rep [OF assms(1)] assms(3)
  by (simp add: place_key find_remove1)

lemma discard_lookup_other:
  assumes "rep s xs" and "valid p" and "k \<noteq> key s p"
  shows "lookup k (discard p s) = lookup k s"
  using lookup_rep [OF discard_rep [OF assms(1,2)]] lookup_rep [OF assms(1)] assms(3)
  by (simp add: discard_key find_remove1)

lemma discard_lookup:
  assumes "rep s xs" and "valid p" and "inj_on (key s) (set xs)" and "p \<in> set xs"
  shows "lookup (key s p) (discard p s) = Some None"
proof (rule lookup_absent [OF discard_rep [OF assms(1,2)]])
  have "set (remove1 p xs) = set xs - {p}" using rep_distinct [OF assms(1)] by simp
  then show "key s p \<notin> key (discard p s) ` set (remove1 p xs)"
    using assms(3,4) by (auto simp: discard_key inj_on_def)
qed

end

definition node_key :: "icache \<Rightarrow> nat \<Rightarrow> size_t" where
  "node_key c p = inode_number (inode (nodes c p))"

interpretation fl: node_queue fl_list freeListInsert popFreeList freeListRemove
  using fl_list_insert fl_list_pop fl_list_remove
  by unfold_locales (blast intro: popFreeList_empty)+

text \<open>The queue number computed from the arguments is always 0, so they do not matter here.\<close>

interpretation hq: node_index hq_list node_key "\<lambda>p. p < INODE_BUFFER_SIZE"
  "\<lambda>p c. updateInHashQ p i d c" removeFromHashQ "\<lambda>k c. hashLookup k d' c" for i d d'
proof unfold_locales
  show "hq_list (updateInHashQ p i d c) (p # remove1 p xs)" if "hq_list c xs" "p < 32" for c xs p
    using hq_list_update that by blast
  show "node_key (updateInHashQ p i d c) = node_key c" for p c
    using hq_frame_trans [OF removeFromHashQ_frame insertInHash_frame]
    by (auto simp: node_key_def updateInHashQ_def hq_frame_def)
  show "node_key (removeFromHashQ p c) = node_key c" for p c
    using removeFromHashQ_frame [of c p] by (auto simp: node_key_def hq_frame_def)
  show "hashLookup k d' c = Some (find (\<lambda>p. node_key c p = k) xs)" if "hq_list c xs" for c xs k
    using that by (simp add: hashLookup_spec node_key_def)
qed (auto intro: hq_list_distinct hq_list_remove)

section \<open>Initial states\<close>

lemma fl_list_upd:
  assumes "fl_list c xs" and "p \<notin> set xs"
  shows "fl_list (upd_node p f c) xs"
proof (cases xs)
  case (Cons x ys)
  have "linked (upd_node p f c) (xs @ [x])"
    by (rule linked_frame [of c]) (use assms Cons in \<open>auto simp: fl_list_def\<close>)
  with assms(1) Cons show ?thesis by (simp add: fl_list_def)
qed (use assms in simp)

definition blank_node :: "Node \<Rightarrow> bool" where
  "blank_node n \<longleftrightarrow> inode n = zero_inCore \<and> hash_prev n = None \<and> hash_next n = None"

lemma init_free_loop_ok:
  assumes "fl_list c xs" and "distinct (xs @ ps)" and "\<forall>p \<in> set xs. blank_node (nodes c p)"
  shows "\<exists>c'. init_free_loop ps c = Some c' \<and> fl_list c' (xs @ ps) \<and> hashQ c' = hashQ c \<and>
    (\<forall>p \<in> set (xs @ ps). blank_node (nodes c' p))"
  using assms
proof (induction ps arbitrary: c xs)
  case (Cons p ps)
  let ?c = "upd_node p (\<lambda>_. zero_Node) c"
  have p: "p \<notin> set xs" using Cons.prems(2) by simp
  then obtain c' where c': "freeListInsert p ?c = Some c'" "fl_list c' (xs @ [p])" "fl_frame ?c c'"
    using fl_list_insert [OF fl_list_upd [OF Cons.prems(1)]] by blast
  then have "\<forall>q \<in> set (xs @ [p]). blank_node (nodes c' q)"
    using Cons.prems(3) p by (auto simp: fl_frame_def blank_node_def zero_Node_def)
  with Cons.IH [OF c'(2)] Cons.prems(2) c' show ?case by (auto simp: fl_frame_def)
qed simp

lemma initFreeInCoreINodeList_ok:
  "\<exists>c'. initFreeInCoreINodeList c = Some c' \<and> fl_list c' [0..<INODE_BUFFER_SIZE] \<and>
     hashQ c' = hashQ c \<and> (\<forall>p < INODE_BUFFER_SIZE. blank_node (nodes c' p))"
  using init_free_loop_ok [of "c\<lparr> freeList := None \<rparr>" "[]" "[0..<INODE_BUFFER_SIZE]"]
  by (simp only: initFreeInCoreINodeList_def) (auto simp del: upt_conv_Cons upt_rec_numeral)

lemma initHashQueues_replicate:
  "hashQ c = replicate INODE_HASH_SIZE None \<Longrightarrow> initHashQueues k c = c"
proof -
  have "foldl (\<lambda>q k. q[k := None]) (replicate 8 None) ks = (replicate 8 None :: ptr list)" for ks
  proof (induction ks)
    case (Cons k ks)
    have e: "(replicate 8 None :: ptr list)[k := None] = replicate 8 None"
      by (cases "k < 8") (simp_all add: list_update_same_conv list_update_beyond)
    show ?case by (simp only: foldl_Cons e Cons)
  qed simp
  moreover assume "hashQ c = replicate INODE_HASH_SIZE None"
  ultimately show ?thesis by (simp add: initHashQueues_def)
qed

lemma hq_list_empty:
  assumes "hashQ c = replicate INODE_HASH_SIZE None" and "\<forall>p < INODE_BUFFER_SIZE. blank_node (nodes c p)"
  shows "hq_list c []"
  using assms by (auto simp: hq_list_def blank_node_def)

section \<open>Properties\<close>

text \<open>
  C34. The circular, doubly linked free list is a queue: nodes inserted into the empty list come out of
  \<open>popFreeList\<close> in the order of their insertion, after which the list is empty again and yields \<open>NULL\<close>.
\<close>

theorem free_nodes_fifo:
  assumes "freeList c = None" and "distinct ps"
  shows "\<exists>c1 c2. enq_many freeListInsert ps c = Some c1 \<and>
    deq_many popFreeList (length ps) c1 = Some (map Some ps, c2) \<and> popFreeList c2 = Some (None, c2)"
  by (rule fl.fifo) (use assms in simp_all)

theorem free_nodes_fifo_witness:
  "\<exists>c1 c2. enq_many freeListInsert [4, 2, 9] \<lparr> nodes = (\<lambda>_. zero_Node), freeList = None, hashQ = [] \<rparr> = Some c1 \<and>
     deq_many popFreeList 3 c1 = Some ([Some 4, Some 2, Some 9], c2) \<and> popFreeList c2 = Some (None, c2)"
  using free_nodes_fifo [of "\<lparr> nodes = (\<lambda>_. zero_Node), freeList = None, hashQ = [] \<rparr>" "[4, 2, 9]"] by (simp add: numeral_3_eq_3)

text \<open>
  \<open>freeListRemove\<close> takes a node out of any place of the free list, the only node of a one-element list
  included, keeps the order of the others, and does nothing for a node that is not in it.
\<close>

lemma free_nodes_remove:
  assumes "fl_list c xs"
  shows "\<exists>c'. freeListRemove p c = Some c' \<and> fl_list c' (remove1 p xs) \<and> hashQ c' = hashQ c \<and>
    (\<forall>q. inode (nodes c' q) = inode (nodes c q))"
  using fl_list_remove [OF assms, of p] by (auto simp: fl_frame_def)

text \<open>
  C35. The hash queue is an index of the cached nodes by inode number: after \<open>updateInHashQ\<close> a node is found
  under its number and every other number is found as before; after \<open>removeFromHashQ\<close> of a node with a unique
  number that number is not found any more.
\<close>

theorem hash_index:
  assumes "hq_list c xs" and "p < INODE_BUFFER_SIZE"
  shows "hashLookup (node_key c p) d (updateInHashQ p i e c) = Some (Some p) \<and>
    (\<forall>k. k \<noteq> node_key c p \<longrightarrow> hashLookup k d (updateInHashQ p i e c) = hashLookup k d c) \<and>
    (inj_on (node_key c) (set xs) \<longrightarrow> p \<in> set xs \<longrightarrow> hashLookup (node_key c p) d (removeFromHashQ p c) = Some None)"
  using hq.place_lookup [OF assms] hq.place_lookup_other [OF assms] hq.discard_lookup [OF assms] by blast

theorem hash_index_witness:
  "\<exists>c. hashLookup 0 0 (updateInHashQ 7 0 0 c) = Some (Some 7) \<and> hashLookup 3 0 (updateInHashQ 7 0 0 c) = Some None"
proof -
  let ?c = "\<lparr> nodes = (\<lambda>_. zero_Node), freeList = None, hashQ = replicate 8 None \<rparr>"
  have "hq_list ?c []" by (rule hq_list_empty) (auto simp: blank_node_def zero_Node_def)
  moreover have "node_key ?c 7 = 0" by (simp add: node_key_def zero_Node_def zero_inCore_def)
  moreover have "hashLookup 3 0 ?c = Some None" using hq.lookup_absent [OF \<open>hq_list ?c []\<close>, of 3 0] by simp
  ultimately show ?thesis using hash_index [of ?c "[]" 7 0 0 0] by auto
qed

text \<open>
  The hash of every inode is 0: \<open>+\<close> and \<open>-\<close> bind stronger than \<open><<\<close> in \<open>getHash\<close>, so that the sum is
  shifted left by \<open>6 + iNodeNumber\<close> and then by \<open>16 - iNodeNumber\<close>, and the low three bits of the result are zero.
  All nodes share one of the eight queues.
\<close>

lemma getHash_constant: "getHash iNodeNumber deviceNumber = 0"
  by simp

end
