(* ===== verification/IgetIput.thy ===== *)
theory IgetIput
  imports InodeCache FileTable
begin

text \<open>
  Taking and giving back references to in-core inodes: \<open>src/incoreInodeOps/iget.c\<close> and
  \<open>src/incoreInodeOps/iput.c\<close>, over the state of the whole file system (\<open>fs\<close>): the inode cache, the
  disk and the table of open files.

  The file system runs in one thread (\<open>-s\<close>), so locking a mutex that is held never returns: \<open>None\<close>.
\<close>

section \<open>State\<close>

record fs =
  cache :: icache
  disk :: dsk
  fileTable :: file_table

abbreviation core :: "fs \<Rightarrow> nat \<Rightarrow> inCoreiNode" where
  "core s p \<equiv> inode (nodes (cache s) p)"

text \<open>Assignments through an \<open>inCoreiNode *\<close>.\<close>

definition upd_core :: "nat \<Rightarrow> (inCoreiNode \<Rightarrow> inCoreiNode) \<Rightarrow> fs \<Rightarrow> fs" where
  "upd_core p f s = s\<lparr> cache := upd_node p (inode_update f) (cache s) \<rparr>"

definition lock :: "nat \<Rightarrow> fs \<Rightarrow> fs option" where
  "lock p s = (if iNodeMutex (core s p) then None else Some (upd_core p (iNodeMutex_update (\<lambda>_. True)) s))"

definition unlock :: "nat \<Rightarrow> fs \<Rightarrow> fs" where
  "unlock p s = upd_core p (iNodeMutex_update (\<lambda>_. False)) s"

text \<open>A function on the cache or on the disk, run on the whole state.\<close>

definition on_cache :: "(icache \<Rightarrow> icache option) \<Rightarrow> fs \<Rightarrow> fs option" where
  "on_cache f s = map_option (\<lambda>c. s\<lparr> cache := c \<rparr>) (f (cache s))"

definition on_disk :: "(dsk \<Rightarrow> dsk option) \<Rightarrow> fs \<Rightarrow> fs option" where
  "on_disk f s = map_option (\<lambda>d. s\<lparr> disk := d \<rparr>) (f (disk s))"

section \<open>iget.c\<close>

definition fetchInodeFromDisk :: "size_t \<Rightarrow> nat \<Rightarrow> fs \<Rightarrow> fs option" where
  "fetchInodeFromDisk iNodeNumber ip s =
     do {
       (_, disk_inode) \<leftarrow> getDiskInode iNodeNumber (disk s);
       i \<leftarrow> disk_inode;
       Some (upd_core ip (insertDiskInodeData i) s)
     }"

definition updateAndGetINode :: "nat \<Rightarrow> fs \<Rightarrow> ptr \<times> fs" where
  "updateAndGetINode coreNode s =
     (let s = upd_core coreNode (\<lambda>i. i\<lparr> reference_count := reference_count i + 1 \<rparr>) s
      in (Some coreNode, unlock coreNode s))"

definition iget :: "size_t \<Rightarrow> size_t \<Rightarrow> fs \<Rightarrow> (ptr \<times> fs) option" where
  "iget iNodeNumber deviceNumber s =
     do {
       node \<leftarrow> hashLookup iNodeNumber deviceNumber (cache s);
       case node of
         None \<Rightarrow> do {
           (node, c) \<leftarrow> popFreeList (cache s);
           let s = s\<lparr> cache := c \<rparr>;
           case node of
             None \<Rightarrow> Some (None, s)
           | Some node \<Rightarrow> do {
               s \<leftarrow> lock node s;
               let s = s\<lparr> cache := updateInHashQ node iNodeNumber deviceNumber (cache s) \<rparr>;
               s \<leftarrow> fetchInodeFromDisk iNodeNumber node s;
               Some (updateAndGetINode node s)
             }
         }
       | Some node \<Rightarrow> do {
           s \<leftarrow> lock node s;
           s \<leftarrow> (if reference_count (core s node) = 0 then on_cache (freeListRemove node) s else Some s);
           s \<leftarrow> (if linksCount (core s node) = 0 then fetchInodeFromDisk iNodeNumber node s else Some s);
           Some (updateAndGetINode node s)
         }
     }"

section \<open>iput.c\<close>

definition writeINodeToDisk :: "nat \<Rightarrow> fs \<Rightarrow> fs option" where
  "writeINodeToDisk ip s =
     do {
       (_, d) \<leftarrow> writeDiskInode (inode_number (core s ip)) (getDiskINodeData (core s ip)) (disk s);
       Some (s\<lparr> disk := d \<rparr>)
     }"

definition iput :: "nat \<Rightarrow> fs \<Rightarrow> (int \<times> fs) option" where
  "iput ip s =
     do {
       s \<leftarrow> lock ip s;
       if reference_count (core s ip) = 0 then Some (- 1, unlock ip s)
       else do {
         let s = upd_core ip (\<lambda>i. i\<lparr> reference_count := reference_count i - 1 \<rparr>) s;
         if reference_count (core s ip) = 0 then do {
           s \<leftarrow> (if inode_changed (core s ip) \<or> file_data_changed (core s ip) then do {
                    s \<leftarrow> writeINodeToDisk ip s;
                    Some (upd_core ip
                      (\<lambda>i. i\<lparr> inode_changed := False, file_data_changed := False \<rparr>) s)
                  }
                  else Some s);
           s \<leftarrow> (if linksCount (core s ip) = 0 \<and> inode_number (core s ip) \<noteq> 0 then do {
                    (i, d) \<leftarrow> inodeBlocksFree (core s ip) (disk s);
                    let s = upd_core ip (\<lambda>_. i) (s\<lparr> disk := d \<rparr>);
                    on_disk (freeINode (inode_number (core s ip))) s
                  }
                  else Some s);
           node \<leftarrow> hashLookup (inode_number (core s ip)) (device_number (core s ip)) (cache s);
           case node of
             None \<Rightarrow> Some (- 1, unlock ip s)
           | Some node \<Rightarrow> do {
               s \<leftarrow> on_cache (freeListInsert node) s;
               Some (0, unlock ip s)
             }
         }
         else Some (0, unlock ip s)
       }
     }"


section \<open>The state of the cache\<close>

text \<open>
  \<open>fl\<close> is the free list and \<open>hq\<close> the hash queue.  The nodes on the free list are those without
  references; a node that is not on the hash queue is free; the queue holds each inode at most
  once; and the clean inodes agree with the disk, unless they wait to be fetched again.
\<close>

abbreviation dirty :: "inCoreiNode \<Rightarrow> bool" where
  "dirty i \<equiv> inode_changed i \<or> file_data_changed i"

definition numbered :: "dsk \<Rightarrow> bool" where
  "numbered d \<longleftrightarrow> meta_ok d \<and> (\<forall>n < NUM_OF_INODES. di_inode_number (inode_at d n) = n)"

definition cache_inv :: "fs \<Rightarrow> nat list \<Rightarrow> nat list \<Rightarrow> bool" where
  "cache_inv s fl hq \<longleftrightarrow>
     fl_list (cache s) fl \<and> hq_list (cache s) hq \<and>
     set fl \<subseteq> {..<INODE_BUFFER_SIZE} \<and> set hq \<subseteq> {..<INODE_BUFFER_SIZE} \<and>
     (\<forall>p < INODE_BUFFER_SIZE. (p \<in> set fl \<longleftrightarrow> reference_count (core s p) = 0) \<and>
        (p \<notin> set hq \<longrightarrow> p \<in> set fl) \<and> \<not> iNodeMutex (core s p) \<and> wf_inCore (core s p)) \<and>
     inj_on (node_key (cache s)) (set hq) \<and>
     (\<forall>p \<in> set hq. node_key (cache s) p < NUM_OF_INODES) \<and> numbered (disk s)"

definition coherent :: "fs \<Rightarrow> nat list \<Rightarrow> bool" where
  "coherent s hq \<longleftrightarrow>
     (\<forall>p < INODE_BUFFER_SIZE. reference_count (core s p) = 0 \<longrightarrow> \<not> dirty (core s p)) \<and>
     (\<forall>p \<in> set hq. \<not> dirty (core s p) \<longrightarrow> 0 < reference_count (core s p) \<or> linksCount (core s p) \<noteq> 0 \<longrightarrow>
        getDiskINodeData (core s p) = inode_at (disk s) (inode_number (core s p)))"

text \<open>The current content of an inode: the changed copy in the cache, or what is on the disk.\<close>

definition inode_view :: "fs \<Rightarrow> size_t \<Rightarrow> iNode" where
  "inode_view s n =
     (case hashLookup n 0 (cache s) of
        Some (Some p) \<Rightarrow> if dirty (core s p) then getDiskINodeData (core s p) else inode_at (disk s) n
      | _ \<Rightarrow> inode_at (disk s) n)"

section \<open>Lemmas: elementary steps\<close>

lemma core_upd_core [simp]:
  "core (upd_core p f s) q = (if q = p then f (core s p) else core s q)"
  by (simp add: upd_core_def)

lemma upd_core_parts [simp]:
  "disk (upd_core p f s) = disk s" "fileTable (upd_core p f s) = fileTable s"
  "freeList (cache (upd_core p f s)) = freeList (cache s)" "hashQ (cache (upd_core p f s)) = hashQ (cache s)"
  by (simp_all add: upd_core_def)

lemma upd_core_comp: "upd_core p f (upd_core p g s) = upd_core p (f \<circ> g) s"
  by (simp add: upd_core_def upd_node_def)

lemma upd_core_const: "upd_core p f s = upd_core p (\<lambda>_. f (core s p)) s"
proof -
  have "upd_node p (inode_update f) c = upd_node p (inode_update (\<lambda>_. f (inode (nodes c p)))) c" for c
    by (cases "nodes c p") (simp add: upd_node_def)
  from this [of "cache s"] show ?thesis by (simp add: upd_core_def)
qed

lemma upd_core_same: "upd_core p (\<lambda>_. core s p) s = s"
  by (cases s, cases "cache s") (simp add: upd_core_def upd_node_def)

lemma disk_upd_core: "(upd_core p f s)\<lparr> disk := d \<rparr> = upd_core p f (s\<lparr> disk := d \<rparr>)"
  by (cases s) (simp add: upd_core_def)

lemma fileTable_upd_core: "(upd_core p f s)\<lparr> fileTable := t \<rparr> = upd_core p f (s\<lparr> fileTable := t \<rparr>)"
  by (cases s) (simp add: upd_core_def)

lemma unlock_fileTable: "unlock p (s\<lparr> fileTable := t \<rparr>) = (unlock p s)\<lparr> fileTable := t \<rparr>"
  by (simp add: unlock_def fileTable_upd_core)

text \<open>A section of the code between \<open>lock\<close> and \<open>unlock\<close>.\<close>

lemma unlock_marked:
  assumes "\<not> iNodeMutex (core s p)"
  shows "unlock p (upd_core p (iNodeMutex_update (\<lambda>_. True)) s) = s"
proof -
  have "(core s p)\<lparr> iNodeMutex := False \<rparr> = core s p" using assms by (cases "core s p") simp
  then show ?thesis unfolding unlock_def upd_core_comp by (subst upd_core_const) (simp add: upd_core_same)
qed

lemma locked_replace:
  "unlock p (upd_core p (\<lambda>_. i) ((upd_core p (iNodeMutex_update (\<lambda>_. True)) s)\<lparr> disk := d \<rparr>)) =
   upd_core p (\<lambda>_. i\<lparr> iNodeMutex := False \<rparr>) (s\<lparr> disk := d \<rparr>)"
  unfolding unlock_def disk_upd_core upd_core_comp by (subst upd_core_const) simp

lemma core_disk_update [simp]: "core (s\<lparr> disk := d \<rparr>) p = core s p"
  by simp

lemma node_key_core: "node_key (cache s) p = inode_number (core s p)"
  by (simp add: node_key_def)

lemma fl_list_upd_core [simp]: "fl_list (cache (upd_core p f s)) xs \<longleftrightarrow> fl_list (cache s) xs"
proof -
  have "linked (cache (upd_core p f s)) ys \<longleftrightarrow> linked (cache s) ys" for ys
    by (induction "cache s" ys rule: linked.induct) (auto simp: upd_core_def)
  then show ?thesis by (simp add: fl_list_def split: list.splits)
qed

lemma hq_list_upd_core [simp]: "hq_list (cache (upd_core p f s)) xs \<longleftrightarrow> hq_list (cache s) xs"
proof -
  have "hq_seg (cache (upd_core p f s)) q h xs \<longleftrightarrow> hq_seg (cache s) q h xs" for q h
    by (rule hq_seg_cong) (simp_all add: upd_core_def)
  moreover have "hash_prev (nodes (cache (upd_core p f s)) x) = hash_prev (nodes (cache s) x)"
    "hash_next (nodes (cache (upd_core p f s)) x) = hash_next (nodes (cache s) x)" for x
    by (simp_all add: upd_core_def)
  ultimately show ?thesis by (simp add: hq_list_def)
qed

lemma lock_free: "\<not> iNodeMutex (core s p) \<Longrightarrow> lock p s = Some (upd_core p (iNodeMutex_update (\<lambda>_. True)) s)"
  by (simp add: lock_def)

lemma lock_held: "iNodeMutex (core s p) \<Longrightarrow> lock p s = None"
  by (simp add: lock_def)

text \<open>What fetching the disk inode \<open>i\<close> and taking the reference leave in a node.\<close>

definition taken :: "inCoreiNode \<Rightarrow> inCoreiNode" where
  "taken i = i\<lparr> reference_count := reference_count i + 1 \<rparr>"

lemma fetchInodeFromDisk_ok:
  assumes "meta_ok (disk s)" and "n < NUM_OF_INODES"
  shows "fetchInodeFromDisk n p s = Some (upd_core p (insertDiskInodeData (inode_at (disk s) n)) s)"
  using assms by (simp add: fetchInodeFromDisk_def getDiskInode_def access_read)


lemma cache_invD:
  assumes "cache_inv s fl hq"
  shows "fl_list (cache s) fl" "hq_list (cache s) hq" "inj_on (node_key (cache s)) (set hq)"
    "numbered (disk s)" "meta_ok (disk s)" "distinct fl" "distinct hq"
    "p < 32 \<Longrightarrow> p \<in> set fl \<longleftrightarrow> reference_count (core s p) = 0"
    "p < 32 \<Longrightarrow> \<not> iNodeMutex (core s p)" "p < 32 \<Longrightarrow> wf_inCore (core s p)"
    "p < 32 \<Longrightarrow> p \<notin> set hq \<Longrightarrow> p \<in> set fl"
    "p \<in> set hq \<Longrightarrow> p < 32" "p \<in> set fl \<Longrightarrow> p < 32"
    "p \<in> set hq \<Longrightarrow> inode_number (core s p) < NUM_OF_INODES"
  using assms fl_list_distinct [of "cache s" fl] hq_list_distinct [of "cache s" hq]
  by (auto simp: cache_inv_def numbered_def node_key_core)

text \<open>The state after \<open>iget\<close> or \<open>iput\<close>, up to the links of the two structures.\<close>

definition cache_step :: "fs \<Rightarrow> fs \<Rightarrow> nat \<Rightarrow> inCoreiNode \<Rightarrow> nat list \<Rightarrow> nat list \<Rightarrow> bool" where
  "cache_step s s' p i fl hq \<longleftrightarrow> core s' = (core s)(p := i) \<and> fileTable s' = fileTable s \<and>
     fl_list (cache s') fl \<and> hq_list (cache s') hq"

lemma cache_stepD:
  assumes "cache_step s s' p i fl hq"
  shows "core s' q = (if q = p then i else core s q)" "fileTable s' = fileTable s"
    "fl_list (cache s') fl" "hq_list (cache s') hq"
  using assms by (simp_all add: cache_step_def fun_eq_iff)

lemma core_frame:
  "fl_frame c c' \<Longrightarrow> inode (nodes c' p) = inode (nodes c p)"
  "hq_frame c c' \<Longrightarrow> inode (nodes c' p) = inode (nodes c p)"
  by (simp_all add: fl_frame_def hq_frame_def)

definition refreshed :: "dsk \<Rightarrow> size_t \<Rightarrow> inCoreiNode \<Rightarrow> inCoreiNode" where
  "refreshed d n i = (if linksCount i = 0 then insertDiskInodeData (inode_at d n) i else i)"

lemma insertDiskInodeData_frame [simp]:
  "reference_count (insertDiskInodeData x i) = reference_count i"
  "iNodeMutex (insertDiskInodeData x i) = iNodeMutex i"
  "inode_changed (insertDiskInodeData x i) = inode_changed i"
  "file_data_changed (insertDiskInodeData x i) = file_data_changed i"
  "inode_number (insertDiskInodeData x i) = di_inode_number x"
  "linksCount (insertDiskInodeData x i) = di_linksCount x"
  by (simp_all add: insertDiskInodeData_def)

lemma insertDiskInodeData_mutex:
  "(insertDiskInodeData x (i\<lparr> iNodeMutex := b \<rparr>)) = (insertDiskInodeData x i)\<lparr> iNodeMutex := b \<rparr>"
  by (simp add: insertDiskInodeData_def)

lemma flags_frame [simp]:
  "inode_changed (refreshed d n i) = inode_changed i" "file_data_changed (refreshed d n i) = file_data_changed i"
  "inode_changed (taken i) = inode_changed i" "file_data_changed (taken i) = file_data_changed i"
  by (simp_all add: refreshed_def taken_def)

lemma iget_hit:
  assumes inv: "cache_inv s fl hq" and n: "n < NUM_OF_INODES"
    and look: "hashLookup n dev (cache s) = Some (Some p)"
  shows "\<exists>s'. iget n dev s = Some (Some p, s') \<and> disk s' = disk s \<and>
    cache_step s s' p (taken (refreshed (disk s) n (core s p))) (remove1 p fl) hq"
proof -
  note D = cache_invD [OF inv]
  have p: "p \<in> set hq" "p < 32"
    using hq.lookup_SomeD [OF D(2) look] D(12) by auto
  let ?s1 = "upd_core p (iNodeMutex_update (\<lambda>_. True)) s"
  have lk: "lock p s = Some ?s1" using D(9) [OF p(2)] by (rule lock_free)
  have "\<exists>s2. (if reference_count (core ?s1 p) = 0 then on_cache (freeListRemove p) ?s1 else Some ?s1) = Some s2 \<and>
      core s2 = core ?s1 \<and> disk s2 = disk s \<and> fileTable s2 = fileTable s \<and>
      fl_list (cache s2) (remove1 p fl) \<and> hq_list (cache s2) hq"
  proof (cases "reference_count (core s p) = 0")
    case True
    have "fl_list (cache ?s1) fl" "hq_list (cache ?s1) hq" using D(1,2) by simp_all
    then obtain c where "freeListRemove p (cache ?s1) = Some c" "fl_list c (remove1 p fl)" "fl_frame (cache ?s1) c"
      "hq_list c hq"
      using fl_list_remove hq_list_frame by metis
    with True show ?thesis by (auto simp: on_cache_def core_frame)
  next
    case False
    with D(1,2) D(8) [OF p(2)] show ?thesis by (simp add: remove1_idem)
  qed
  then obtain s2 where s2: "(if reference_count (core ?s1 p) = 0 then on_cache (freeListRemove p) ?s1 else Some ?s1) = Some s2"
    "core s2 = core ?s1" "disk s2 = disk s" "fileTable s2 = fileTable s"
    "fl_list (cache s2) (remove1 p fl)" "hq_list (cache s2) hq" by blast
  let ?s3 = "if linksCount (core s2 p) = 0 then upd_core p (insertDiskInodeData (inode_at (disk s) n)) s2 else s2"
  have s3: "(if linksCount (core s2 p) = 0 then fetchInodeFromDisk n p s2 else Some s2) = Some ?s3"
    using fetchInodeFromDisk_ok [of s2 n p] s2(3) D(5) n by simp
  have "iget n dev s = Some (updateAndGetINode p ?s3)"
    using look lk s2(1) s3 by (simp add: iget_def)
  moreover obtain s4 where "updateAndGetINode p ?s3 = (Some p, s4)" "disk s4 = disk s"
    "cache_step s s4 p (taken (refreshed (disk s) n (core s p))) (remove1 p fl) hq"
    using s2 D(9) [OF p(2)]
    by (auto simp: updateAndGetINode_def unlock_def cache_step_def taken_def refreshed_def fun_eq_iff
        insertDiskInodeData_mutex)
  ultimately show ?thesis by auto
qed


lemma iget_miss:
  assumes inv: "cache_inv s (p # fl) hq" and n: "n < NUM_OF_INODES"
    and look: "hashLookup n dev (cache s) = Some None"
  shows "\<exists>s'. iget n dev s = Some (Some p, s') \<and> disk s' = disk s \<and>
    cache_step s s' p (taken (insertDiskInodeData (inode_at (disk s) n) (core s p))) fl (p # remove1 p hq)"
proof -
  note D = cache_invD [OF inv]
  have p: "p < 32" by (rule D(13)) simp
  obtain c where c: "popFreeList (cache s) = Some (Some p, c)" "fl_list c fl" "fl_frame (cache s) c"
    using fl_list_pop [OF D(1)] by blast
  let ?s1 = "s\<lparr> cache := c \<rparr>"
  let ?s2 = "upd_core p (iNodeMutex_update (\<lambda>_. True)) ?s1"
  have lk: "lock p ?s1 = Some ?s2" using D(9) [OF p] c(3) by (intro lock_free) (simp add: core_frame)
  let ?s3 = "?s2\<lparr> cache := updateInHashQ p n dev (cache ?s2) \<rparr>"
  have h: "hq_list (cache ?s2) hq" using hq_list_frame [OF D(2) c(3)] by simp
  note up = hq_list_update [OF h p, of n dev]
  have s3: "hq_list (cache ?s3) (p # remove1 p hq)" "fl_list (cache ?s3) fl" "core ?s3 = core ?s2"
    using up fl_list_frame [of "cache ?s2" fl] c(2) by (auto simp: core_frame)
  have "iget n dev s = Some (updateAndGetINode p (upd_core p (insertDiskInodeData (inode_at (disk s) n)) ?s3))"
    using look c(1) lk fetchInodeFromDisk_ok [of ?s3 n p] D(5) n by (simp add: iget_def Let_def)
  moreover have "cache_step s (snd (updateAndGetINode p (upd_core p (insertDiskInodeData (inode_at (disk s) n)) ?s3)))
      p (taken (insertDiskInodeData (inode_at (disk s) n) (core s p))) fl (p # remove1 p hq)"
    using s3 c(3) D(9) [OF p]
    by (auto simp: updateAndGetINode_def unlock_def cache_step_def taken_def fun_eq_iff
        insertDiskInodeData_mutex core_frame)
  ultimately show ?thesis by (simp add: updateAndGetINode_def unlock_def)
qed

lemma iget_exhausted:
  assumes inv: "cache_inv s [] hq" and look: "hashLookup n dev (cache s) = Some None"
  shows "iget n dev s = Some (None, s)"
  using look popFreeList_empty [OF cache_invD(1) [OF inv]] by (simp add: iget_def)

section \<open>iget keeps the cache in order\<close>

lemma lookup_cases:
  assumes "cache_inv s fl hq"
  obtains (cached) p where "hashLookup n dev (cache s) = Some (Some p)" "p \<in> set hq" "p < 32"
      "inode_number (core s p) = n"
  | (uncached) "hashLookup n dev (cache s) = Some None" "\<forall>p \<in> set hq. inode_number (core s p) \<noteq> n"
proof -
  note D = cache_invD [OF assms]
  obtain r where r: "hashLookup n dev (cache s) = Some r" using hashLookup_spec [OF D(2)] by blast
  show ?thesis
  proof (cases r)
    case None
    then show ?thesis using uncached r hq.lookup_NoneD [OF D(2)] by (auto simp: node_key_core)
  next
    case (Some p)
    then show ?thesis using cached r hq.lookup_SomeD [OF D(2)] D(12) by (auto simp: node_key_core)
  qed
qed

lemma cache_inv_step:
  assumes inv: "cache_inv s fl hq" and st: "cache_step s s' p i fl' hq'" and p: "p < 32"
    and i: "\<not> iNodeMutex i" "wf_inCore i" "inode_number i < NUM_OF_INODES"
    and key: "\<forall>q \<in> set hq - {p}. inode_number (core s q) \<noteq> inode_number i"
    and hq': "set hq' = insert p (set hq)"
    and fl': "set fl' = (if reference_count i = 0 then insert p (set fl) else set fl - {p})"
    and d: "numbered (disk s')"
  shows "cache_inv s' fl' hq'"
proof -
  note D = cache_invD [OF inv]
  from st have c: "core s' = (core s)(p := i)" "fl_list (cache s') fl'" "hq_list (cache s') hq'"
    by (simp_all add: cache_step_def)
  have k: "node_key (cache s') q = (if q = p then inode_number i else inode_number (core s q))" for q
    using fun_cong [OF c(1), of q] by (simp add: node_key_core)
  have "inj_on (node_key (cache s')) (set hq')"
    using D(3) key unfolding inj_on_def k hq' by (auto simp: node_key_core split: if_splits)
  moreover have "set fl' \<subseteq> {..<32}" "set hq' \<subseteq> {..<32}" using p fl' hq' D(12,13) by (auto split: if_splits)
  moreover have "(q \<in> set fl' \<longleftrightarrow> reference_count (core s' q) = 0) \<and> (q \<notin> set hq' \<longrightarrow> q \<in> set fl') \<and>
      \<not> iNodeMutex (core s' q) \<and> wf_inCore (core s' q)" if "q < 32" for q
    using that D(8-11) [of q] i fl' hq' fun_cong [OF c(1), of q] by (auto split: if_splits)
  moreover have "node_key (cache s') q < NUM_OF_INODES" if "q \<in> set hq'" for q
    using that i(3) D(14) hq' by (auto simp: k)
  ultimately show ?thesis using c(2,3) d unfolding cache_inv_def by blast
qed

definition refs :: "fs \<Rightarrow> size_t \<Rightarrow> size_t" where
  "refs s n = (case hashLookup n 0 (cache s) of Some (Some p) \<Rightarrow> reference_count (core s p) | _ \<Rightarrow> 0)"

lemma hashLookup_member:
  assumes "cache_inv s fl hq" and "p \<in> set hq"
  shows "hashLookup (inode_number (core s p)) dev (cache s) = Some (Some p)"
  using hq.lookup_member [OF cache_invD(2,3) [OF assms(1)] assms(2)] by (simp add: node_key_core)

lemma refs_cached:
  "cache_inv s fl hq \<Longrightarrow> p \<in> set hq \<Longrightarrow> inode_number (core s p) = n \<Longrightarrow> refs s n = reference_count (core s p)"
  using hashLookup_member [of s fl hq p 0] by (auto simp: refs_def)

lemma refs_uncached:
  assumes "cache_inv s fl hq" and "\<forall>p \<in> set hq. inode_number (core s p) \<noteq> n"
  shows "refs s n = 0"
proof -
  have "hashLookup n 0 (cache s) = Some None"
    using hq.lookup_absent [OF cache_invD(2) [OF assms(1)], of n 0] assms(2) by (auto simp: node_key_core)
  then show ?thesis by (simp add: refs_def)
qed

text \<open>A step changes the references of the inode the node now holds, and of no other.\<close>

lemma refs_step:
  assumes inv: "cache_inv s fl hq" and inv': "cache_inv s' fl' hq'"
    and st: "cache_step s s' p i fl'' hq''" and hq': "set hq' = insert p (set hq)"
    and old: "p \<in> set hq \<and> inode_number (core s p) = inode_number i \<or> reference_count (core s p) = 0"
  shows "refs s' m = (if m = inode_number i then reference_count i else refs s m)"
proof -
  from st have c: "core s' q = (if q = p then i else core s q)" for q
    by (simp add: cache_step_def fun_eq_iff)
  have p: "p \<in> set hq'" using hq' by simp
  show ?thesis
  proof (cases "\<exists>q \<in> set hq'. inode_number (core s' q) = m")
    case True
    then obtain q where q: "q \<in> set hq'" "inode_number (core s' q) = m" by blast
    show ?thesis
    proof (cases "q = p")
      case True
      then have "core s' q = i" using c by simp
      then show ?thesis using q(2) refs_cached [OF inv' q] by simp
    next
      case False
      have "node_key (cache s') q \<noteq> node_key (cache s') p"
        using False q(1) p cache_invD(3) [OF inv'] by (meson inj_on_def)
      then have "m \<noteq> inode_number i" using q(2) c [of p] by (simp add: node_key_core)
      moreover have "q \<in> set hq" using False q hq' by simp
      moreover have "core s' q = core s q" using False c by simp
      moreover then have "inode_number (core s q) = m" using q(2) by simp
      ultimately show ?thesis
        using refs_cached [OF inv' q] refs_cached [OF inv, of q m] by metis
    qed
  next
    case False
    then have ne: "m \<noteq> inode_number i" using p c [of p] by auto
    have "refs s m = 0"
    proof (cases "\<exists>q \<in> set hq. inode_number (core s q) = m")
      case True
      then obtain q where q: "q \<in> set hq" "inode_number (core s q) = m" by blast
      have "q = p"
      proof (rule ccontr)
        assume "q \<noteq> p"
        then have "core s' q = core s q" using c by simp
        with q False hq' show False by auto
      qed
      then have "reference_count (core s q) = 0" using q old ne by auto
      then show ?thesis using refs_cached [OF inv q] by metis
    next
      case False
      then show ?thesis using refs_uncached [OF inv] by blast
    qed
    moreover have "refs s' m = 0" using False refs_uncached [OF inv'] by blast
    ultimately show ?thesis using ne by metis
  qed
qed

definition got :: "fs \<Rightarrow> size_t \<Rightarrow> nat list \<Rightarrow> nat \<Rightarrow> inCoreiNode \<Rightarrow> bool" where
  "got s n hq p i \<longleftrightarrow>
     p \<in> set hq \<and> inode_number (core s p) = n \<and> i = taken (refreshed (disk s) n (core s p)) \<or>
     (\<forall>q \<in> set hq. inode_number (core s q) \<noteq> n) \<and> p < 32 \<and> reference_count (core s p) = 0 \<and>
       i = taken (insertDiskInodeData (inode_at (disk s) n) (core s p))"

lemma iget_step:
  assumes inv: "cache_inv s fl hq" and n: "n < NUM_OF_INODES"
    and room: "fl \<noteq> [] \<or> (\<exists>p \<in> set hq. inode_number (core s p) = n)"
    and fit: "refs s n \<noteq> SIZE_MAX"
  shows "\<exists>p s' fl' hq' i. iget n 0 s = Some (Some p, s') \<and> cache_inv s' fl' hq' \<and> disk s' = disk s \<and>
    cache_step s s' p i fl' hq' \<and> set hq' = insert p (set hq) \<and> inode_number i = n \<and>
    reference_count i = refs s n + 1 \<and> got s n hq p i"
  using inv
proof (cases rule: lookup_cases [where n = n and dev = 0])
  case (cached p)
  note D = cache_invD [OF inv]
  let ?i = "taken (refreshed (disk s) n (core s p))"
  obtain s' where s': "iget n 0 s = Some (Some p, s')" "disk s' = disk s"
    "cache_step s s' p ?i (remove1 p fl) hq"
    using iget_hit [OF inv n cached(1)] by blast
  have r: "reference_count ?i = refs s n + 1"
    using refs_cached [OF inv cached(2,4)] by (simp add: taken_def refreshed_def)
  then have nz: "reference_count ?i \<noteq> 0" using fit by (simp add: eq_neg_iff_add_eq_0 [symmetric])
  have num: "inode_number ?i = n"
    using D(4) n cached(4) by (simp add: taken_def refreshed_def numbered_def)
  have "cache_inv s' (remove1 p fl) hq"
  proof (rule cache_inv_step [OF inv s'(3) cached(3)])
    show "\<forall>q \<in> set hq - {p}. inode_number (core s q) \<noteq> inode_number ?i"
      using D(3) cached num by (auto simp: inj_on_def node_key_core)
    show "set (remove1 p fl) = (if reference_count ?i = 0 then insert p (set fl) else set fl - {p})"
      using nz D(6) by simp
    show "\<not> iNodeMutex ?i" "wf_inCore ?i"
      using D(9,10) [OF cached(3)] by (auto simp: taken_def refreshed_def wf_inCore_def insertDiskInodeData_def)
  qed (use n num cached D(4) s'(2) in auto)
  moreover have "set hq = insert p (set hq)" using cached(2) by auto
  moreover have "got s n hq p ?i" using cached by (simp add: got_def)
  ultimately show ?thesis using s' num r by blast
next
  case uncached
  note D = cache_invD [OF inv]
  then obtain p fl' where fl: "fl = p # fl'" using room uncached by (cases fl) auto
  let ?i = "taken (insertDiskInodeData (inode_at (disk s) n) (core s p))"
  let ?hq = "p # remove1 p hq"
  obtain s' where s': "iget n 0 s = Some (Some p, s')" "disk s' = disk s" "cache_step s s' p ?i fl' ?hq"
    using iget_miss [OF inv [unfolded fl] n uncached(1)] by blast
  have p: "p < 32" "reference_count (core s p) = 0" using D(8) [of p] D(13) [of p] fl by auto
  have num: "inode_number ?i = n" using D(4) n by (simp add: taken_def numbered_def)
  have hq': "set ?hq = insert p (set hq)" using D(7) by auto
  have "cache_inv s' fl' ?hq"
  proof (rule cache_inv_step [OF inv s'(3) p(1) _ _ _ _ hq'])
    show "set fl' = (if reference_count ?i = 0 then insert p (set fl) else set fl - {p})"
      using p D(6) fl by (auto simp: taken_def)
    show "\<not> iNodeMutex ?i" "wf_inCore ?i"
      using D(9,10) [OF p(1)] by (auto simp: taken_def wf_inCore_def insertDiskInodeData_def)
  qed (use n num uncached D(4) s'(2) in auto)
  moreover have "reference_count ?i = refs s n + 1"
    using p refs_uncached [OF inv uncached(2)] by (simp add: taken_def)
  moreover have "got s n hq p ?i" using uncached p by (simp add: got_def)
  ultimately show ?thesis using s' num hq' by blast
qed

lemma iget_spec:
  assumes "cache_inv s fl hq" and "n < NUM_OF_INODES"
    and "fl \<noteq> [] \<or> (\<exists>p \<in> set hq. inode_number (core s p) = n)" and "refs s n \<noteq> SIZE_MAX"
  shows "\<exists>p s' fl' hq'. iget n 0 s = Some (Some p, s') \<and> cache_inv s' fl' hq' \<and> disk s' = disk s \<and>
    fileTable s' = fileTable s \<and> p \<in> set hq' \<and> inode_number (core s' p) = n \<and>
    (\<forall>m. refs s' m = (if m = n then refs s n + 1 else refs s m))"
proof -
  obtain p s' fl' hq' i where get: "iget n 0 s = Some (Some p, s')" "cache_inv s' fl' hq'" "disk s' = disk s"
    and st: "cache_step s s' p i fl' hq'" "set hq' = insert p (set hq)"
    and i: "inode_number i = n" "reference_count i = refs s n + 1" "got s n hq p i"
    using iget_step [OF assms] by blast
  have "refs s' m = (if m = n then refs s n + 1 else refs s m)" for m
    using refs_step [OF assms(1) get(2) st, of m] i by (auto simp: got_def)
  moreover have "inode_number (core s' p) = n" "p \<in> set hq'" "fileTable s' = fileTable s"
    using cache_stepD [OF st(1)] i(1) st(2) by auto
  ultimately show ?thesis using get by blast
qed

section \<open>iput\<close>

lemma iput_unreferenced:
  assumes "cache_inv s fl hq" and "p < 32" and "reference_count (core s p) = 0"
  shows "\<exists>s'. iput p s = Some (- 1, s') \<and> cache_step s s' p (core s p) fl hq \<and> disk s' = disk s"
  using assms(3) cache_invD(1,2) [OF assms(1)] cache_invD(9) [OF assms(1), of p] assms(2)
  by (auto simp: iput_def lock_def unlock_def cache_step_def fun_eq_iff)

lemma word_minus_one_zero: "(x :: size_t) - 1 = 0 \<longleftrightarrow> x = 1"
  by simp

lemma iput_shared:
  assumes "cache_inv s fl hq" and "p < 32" and "reference_count (core s p) \<noteq> 0" "reference_count (core s p) \<noteq> 1"
  shows "\<exists>s'. iput p s = Some (0, s') \<and> disk s' = disk s \<and>
    cache_step s s' p ((core s p)\<lparr> reference_count := reference_count (core s p) - 1 \<rparr>) fl hq"
  using assms(3,4) cache_invD(1,2) [OF assms(1)] cache_invD(9) [OF assms(1), of p] assms(2)
  by (auto simp: iput_def lock_def unlock_def cache_step_def fun_eq_iff Let_def)

lemma writeINodeToDisk_ok:
  assumes "meta_ok (disk s)" and "inode_number (core s p) < NUM_OF_INODES"
  shows "writeINodeToDisk p s =
    Some (s\<lparr> disk := put_inode (inode_number (core s p)) (getDiskINodeData (core s p)) (disk s) \<rparr>)"
  using assms by (simp add: writeINodeToDisk_def writeDiskInode_def access_write)

lemma getDiskINodeData_frame [simp]:
  "getDiskINodeData (i\<lparr> iNodeMutex := b \<rparr>) = getDiskINodeData i"
  "getDiskINodeData (i\<lparr> reference_count := r \<rparr>) = getDiskINodeData i"
  "getDiskINodeData (i\<lparr> inode_changed := b \<rparr>) = getDiskINodeData i"
  "getDiskINodeData (i\<lparr> file_data_changed := b \<rparr>) = getDiskINodeData i"
  by (simp_all add: getDiskINodeData_def)

text \<open>Giving back the last reference: the inode as the cache keeps it, and the disk.\<close>

definition released :: "inCoreiNode \<Rightarrow> inCoreiNode" where
  "released i = i\<lparr> reference_count := 0, inode_changed := False, file_data_changed := False \<rparr>"

definition written_back :: "inCoreiNode \<Rightarrow> dsk \<Rightarrow> dsk" where
  "written_back i d = (if dirty i then put_inode (inode_number i) (getDiskINodeData i) d else d)"

text \<open>What the last \<open>iput\<close> does behind the write-back: an inode without links gives up its blocks and its number.\<close>

definition final_step :: "inCoreiNode \<Rightarrow> dsk \<Rightarrow> (inCoreiNode \<times> dsk) option" where
  "final_step i d =
     (if linksCount i = 0 \<and> inode_number i \<noteq> 0 then do {
        (i, d) \<leftarrow> inodeBlocksFree i d;
        d \<leftarrow> freeINode (inode_number i) d;
        Some (i, d)
      }
      else Some (i, d))"

lemma iput_write_back:
  assumes inv: "cache_inv s fl hq" and p: "p \<in> set hq" and r: "reference_count (core s p) = 1"
  defines "b \<equiv> upd_core p (\<lambda>i. i\<lparr> reference_count := reference_count i - 1 \<rparr>) (upd_core p (iNodeMutex_update (\<lambda>_. True)) s)"
  shows "\<exists>s2. (if dirty (core b p) then do {
        s \<leftarrow> writeINodeToDisk p b;
        Some (upd_core p (\<lambda>i. i\<lparr> inode_changed := False, file_data_changed := False \<rparr>) s)
      } else Some b) = Some s2 \<and>
    (\<forall>q. core s2 q = (if q = p then (released (core s p))\<lparr> iNodeMutex := True \<rparr> else core s q)) \<and>
    disk s2 = written_back (core s p) (disk s) \<and> fileTable s2 = fileTable s \<and>
    fl_list (cache s2) fl \<and> hq_list (cache s2) hq"
proof (cases "dirty (core s p)")
  case True
  then show ?thesis
    using cache_invD(1,2,5) [OF inv] cache_invD(14) [OF inv p] r writeINodeToDisk_ok [of b p]
    by (auto simp: released_def written_back_def b_def)
next
  case False
  then show ?thesis using cache_invD(1,2) [OF inv] r by (simp add: released_def written_back_def b_def)
qed

text \<open>The rest of \<open>iput\<close>, from the state behind the write-back on.\<close>

definition iput_rest :: "nat \<Rightarrow> fs \<Rightarrow> (int \<times> fs) option" where
  "iput_rest ip s =
     do {
       s \<leftarrow> (if linksCount (core s ip) = 0 \<and> inode_number (core s ip) \<noteq> 0 then do {
                (i, d) \<leftarrow> inodeBlocksFree (core s ip) (disk s);
                let s = upd_core ip (\<lambda>_. i) (s\<lparr> disk := d \<rparr>);
                on_disk (freeINode (inode_number (core s ip))) s
              }
              else Some s);
       node \<leftarrow> hashLookup (inode_number (core s ip)) (device_number (core s ip)) (cache s);
       case node of
         None \<Rightarrow> Some (- 1, unlock ip s)
       | Some node \<Rightarrow> do {
           s \<leftarrow> on_cache (freeListInsert node) s;
           Some (0, unlock ip s)
         }
     }"

lemma iput_rest_ok:
  assumes fin: "final_step (core s2 p) (disk s2) = Some (j, d')" and j: "inode_number j = inode_number (core s2 p)"
    and c: "fl_list (cache s2) fl" "hq_list (cache s2) hq" and p: "p \<in> set hq" "p \<notin> set fl"
    and key: "inj_on (node_key (cache s2)) (set hq)"
  shows "\<exists>s'. iput_rest p s2 = Some (0, s') \<and> disk s' = d' \<and> cache_step s2 s' p (j\<lparr> iNodeMutex := False \<rparr>) (fl @ [p]) hq"
proof -
  let ?del = "linksCount (core s2 p) = 0 \<and> inode_number (core s2 p) \<noteq> 0"
  define s3 where "s3 = (if ?del then upd_core p (\<lambda>_. j) (s2\<lparr> disk := d' \<rparr>) else s2)"
  have del: "\<not> ?del \<Longrightarrow> j = core s2 p \<and> d' = disk s2" using fin by (auto simp: final_step_def)
  then have s3: "core s3 q = (if q = p then j else core s2 q)" "disk s3 = d'" "fileTable s3 = fileTable s2" for q
    by (auto simp: s3_def)
  have c3: "fl_list (cache s3) fl" "hq_list (cache s3) hq" using c by (simp_all add: s3_def)
  have "node_key (cache s3) = node_key (cache s2)" by (rule ext) (simp add: node_key_core s3 j)
  then have look: "hashLookup (inode_number j) dev (cache s3) = Some (Some p)" for dev
    using hq.lookup_member [OF c3(2) _ p(1), of dev] key j by (simp add: node_key_core s3)
  obtain c where c': "freeListInsert p (cache s3) = Some c" "fl_list c (fl @ [p])" "fl_frame (cache s3) c"
    using fl_list_insert [OF c3(1) p(2)] by blast
  have "(if ?del then do {
      (i, d) \<leftarrow> inodeBlocksFree (core s2 p) (disk s2);
      let s = upd_core p (\<lambda>_. i) (s2\<lparr> disk := d \<rparr>);
      on_disk (freeINode (inode_number (core s p))) s } else Some s2) = Some s3"
  proof (cases ?del)
    case True
    then obtain d1 where "inodeBlocksFree (core s2 p) (disk s2) = Some (j, d1)" "freeINode (inode_number j) d1 = Some d'"
      using fin by (auto simp: final_step_def split: Option.bind_splits)
    then show ?thesis using True by (simp add: s3_def on_disk_def) (simp add: upd_core_def)
  qed (auto simp: s3_def)
  then have "iput_rest p s2 = Some (0, unlock p (s3\<lparr> cache := c \<rparr>))"
    unfolding iput_rest_def using look c'(1) by (simp add: on_cache_def s3)
  moreover have "cache_step s2 (unlock p (s3\<lparr> cache := c \<rparr>)) p (j\<lparr> iNodeMutex := False \<rparr>) (fl @ [p]) hq"
    using s3 c' hq_list_frame [OF c3(2) c'(3)] by (simp add: cache_step_def unlock_def fun_eq_iff core_frame)
  ultimately show ?thesis using s3(2) by (auto simp: unlock_def)
qed

lemma iput_end:
  assumes inv: "cache_inv s fl hq" and p: "p \<in> set hq" and r: "reference_count (core s p) = 1"
    and fin: "final_step ((released (core s p))\<lparr> iNodeMutex := True \<rparr>) (written_back (core s p) (disk s)) = Some (j, d')"
    and j: "inode_number j = inode_number (core s p)"
  shows "\<exists>s'. iput p s = Some (0, s') \<and> disk s' = d' \<and> cache_step s s' p (j\<lparr> iNodeMutex := False \<rparr>) (fl @ [p]) hq"
proof -
  note D = cache_invD [OF inv]
  have p32: "p < 32" using D(12) p .
  obtain s2 where wb: "(if dirty (core (upd_core p (\<lambda>i. i\<lparr> reference_count := reference_count i - 1 \<rparr>)
          (upd_core p (iNodeMutex_update (\<lambda>_. True)) s)) p) then do {
        s \<leftarrow> writeINodeToDisk p (upd_core p (\<lambda>i. i\<lparr> reference_count := reference_count i - 1 \<rparr>)
          (upd_core p (iNodeMutex_update (\<lambda>_. True)) s));
        Some (upd_core p (\<lambda>i. i\<lparr> inode_changed := False, file_data_changed := False \<rparr>) s)
      } else Some (upd_core p (\<lambda>i. i\<lparr> reference_count := reference_count i - 1 \<rparr>)
          (upd_core p (iNodeMutex_update (\<lambda>_. True)) s))) = Some s2"
    and s2: "\<forall>q. core s2 q = (if q = p then (released (core s p))\<lparr> iNodeMutex := True \<rparr> else core s q)"
    "disk s2 = written_back (core s p) (disk s)" "fileTable s2 = fileTable s"
    "fl_list (cache s2) fl" "hq_list (cache s2) hq"
    using iput_write_back [OF inv p r] by blast
  have "iput p s = iput_rest p s2"
    unfolding iput_def iput_rest_def lock_free [OF D(9) [OF p32]] using wb r by (simp add: Let_def del: upd_core_parts)
  moreover have "p \<notin> set fl" using D(8) [OF p32] r by simp
  moreover have "node_key (cache s2) = node_key (cache s)" by (rule ext) (simp add: node_key_core s2(1) released_def)
  ultimately obtain s' where s': "iput p s = Some (0, s')" "disk s' = d'"
      "cache_step s2 s' p (j\<lparr> iNodeMutex := False \<rparr>) (fl @ [p]) hq"
    using iput_rest_ok [of s2 p j d' fl hq] fin j s2 p D(3) by (auto simp: released_def)
  then show ?thesis using s2(1,3) by (auto simp: cache_step_def fun_eq_iff)
qed

lemma iput_last:
  assumes inv: "cache_inv s fl hq" and p: "p \<in> set hq" and r: "reference_count (core s p) = 1"
    and keep: "linksCount (core s p) \<noteq> 0 \<or> inode_number (core s p) = 0"
  shows "\<exists>s'. iput p s = Some (0, s') \<and> disk s' = written_back (core s p) (disk s) \<and>
    cache_step s s' p (released (core s p)) (fl @ [p]) hq"
proof -
  let ?j = "(released (core s p))\<lparr> iNodeMutex := True \<rparr>"
  have "\<not> iNodeMutex (core s p)" using cache_invD(9) [OF inv cache_invD(12) [OF inv p]] .
  then have "?j\<lparr> iNodeMutex := False \<rparr> = released (core s p)"
    by (cases "core s p") (simp add: released_def)
  moreover have "final_step ?j (written_back (core s p) (disk s)) = Some (?j, written_back (core s p) (disk s))"
    using keep by (auto simp: final_step_def released_def)
  ultimately show ?thesis using iput_end [OF inv p r, of ?j "written_back (core s p) (disk s)"] by (simp add: released_def)
qed


lemma numbered_put_inode:
  assumes "numbered d" and "n < NUM_OF_INODES" and "wf_iNode i" and "di_inode_number i = n"
  shows "numbered (put_inode n i d)"
  using assms by (auto simp: numbered_def inode_at_put_inode meta_ok_put_inode)

lemma numbered_written_back:
  assumes "numbered d" and "inode_number i < NUM_OF_INODES"
  shows "numbered (written_back i d)"
  using assms numbered_put_inode [OF assms(1), of "inode_number i" "getDiskINodeData i"]
  by (simp add: written_back_def getDiskINodeData_def [of i, THEN arg_cong [where f = di_inode_number]])

text \<open>
  \<open>iput\<close> of a referenced inode that keeps its links: one reference less, everything in order, and
  the disk holds the inode if that was the last one and it had changed.
\<close>

lemma iput_spec:
  assumes inv: "cache_inv s fl hq" and p: "p \<in> set hq" and r: "0 < reference_count (core s p)"
    and keep: "linksCount (core s p) \<noteq> 0 \<or> inode_number (core s p) = 0"
  defines "n \<equiv> inode_number (core s p)"
  shows "\<exists>s' fl'. iput p s = Some (0, s') \<and> cache_inv s' fl' hq \<and> fileTable s' = fileTable s \<and>
    disk s' = (if refs s n = 1 then written_back (core s p) (disk s) else disk s) \<and>
    (\<forall>m. refs s' m = (if m = n then refs s n - 1 else refs s m)) \<and>
    (\<forall>q. getDiskINodeData (core s' q) = getDiskINodeData (core s q))"
proof -
  note D = cache_invD [OF inv]
  have p32: "p < 32" using D(12) p .
  have rn: "refs s n = reference_count (core s p)" using refs_cached [OF inv p] by (simp add: n_def)
  have hqp: "set hq = insert p (set hq)" using p by auto
  have key: "\<forall>q \<in> set hq - {p}. inode_number (core s q) \<noteq> n"
    using D(3) p by (auto simp: inj_on_def node_key_core n_def)
  show ?thesis
  proof (cases "reference_count (core s p) = 1")
    case True
    obtain s' where s': "iput p s = Some (0, s')" "disk s' = written_back (core s p) (disk s)"
      "cache_step s s' p (released (core s p)) (fl @ [p]) hq"
      using iput_last [OF inv p True keep] by blast
    have inv': "cache_inv s' (fl @ [p]) hq"
      by (rule cache_inv_step [OF inv s'(3) p32])
        (use D(4) D(9,10) [OF p32] D(14) [OF p] hqp key s'(2) in
          \<open>auto simp: released_def wf_inCore_def n_def numbered_written_back\<close>)
    have "refs s' m = (if m = n then refs s n - 1 else refs s m)" for m
      using refs_step [OF inv inv' s'(3) hqp, of m] p True rn by (simp add: released_def n_def)
    moreover have "getDiskINodeData (core s' q) = getDiskINodeData (core s q)" for q
      using cache_stepD(1) [OF s'(3), of q] by (simp add: released_def)
    ultimately show ?thesis
      using s' inv' True rn cache_stepD(2) [OF s'(3)] by (intro exI [of _ s'] exI [of _ "fl @ [p]"]) simp
  next
    case False
    let ?i = "(core s p)\<lparr> reference_count := reference_count (core s p) - 1 \<rparr>"
    have nz: "reference_count (core s p) \<noteq> 0" using r by auto
    obtain s' where s': "iput p s = Some (0, s')" "disk s' = disk s" "cache_step s s' p ?i fl hq"
      using iput_shared [OF inv p32 nz False] by blast
    have inv': "cache_inv s' fl hq"
      by (rule cache_inv_step [OF inv s'(3) p32])
        (use D(4) D(8,9,10) [OF p32] D(14) [OF p] hqp key s'(2) nz False in
          \<open>auto simp: wf_inCore_def n_def\<close>)
    have "refs s' m = (if m = n then refs s n - 1 else refs s m)" for m
      using refs_step [OF inv inv' s'(3) hqp, of m] p rn by (simp add: n_def)
    moreover have "getDiskINodeData (core s' q) = getDiskINodeData (core s q)" for q
      using cache_stepD(1) [OF s'(3), of q] by simp
    ultimately show ?thesis
      using s' inv' False rn cache_stepD(2) [OF s'(3)] by (intro exI [of _ s'] exI [of _ fl]) simp
  qed
qed


section \<open>The cache is transparent\<close>

lemma view_cached:
  assumes "cache_inv s fl hq" and "p \<in> set hq" and "inode_number (core s p) = n"
  shows "inode_view s n = (if dirty (core s p) then getDiskINodeData (core s p) else inode_at (disk s) n)"
  using hashLookup_member [OF assms(1,2), of 0] assms(3) by (auto simp: inode_view_def)

lemma view_uncached:
  assumes "cache_inv s fl hq" and "\<forall>p \<in> set hq. inode_number (core s p) \<noteq> n"
  shows "inode_view s n = inode_at (disk s) n"
proof -
  have "hashLookup n 0 (cache s) = Some None"
    using hq.lookup_absent [OF cache_invD(2) [OF assms(1)], of n 0] assms(2) by (auto simp: node_key_core)
  then show ?thesis by (simp add: inode_view_def)
qed

text \<open>
  A step that leaves every other node alone and the disk equal outside the inode of the node keeps
  the view of every other inode.
\<close>

lemma view_step_other:
  assumes inv: "cache_inv s fl hq" and inv': "cache_inv s' fl' hq'" and st: "cache_step s s' p i fl'' hq''"
    and hq': "set hq' = insert p (set hq)" and m: "m \<noteq> inode_number i"
    and d: "inode_at (disk s') m = inode_at (disk s) m"
    and old: "p \<in> set hq \<and> inode_number (core s p) = inode_number i \<or> \<not> dirty (core s p)"
  shows "inode_view s' m = inode_view s m"
proof (cases "\<exists>q \<in> set hq. q \<noteq> p \<and> inode_number (core s q) = m")
  case True
  then obtain q where q: "q \<in> set hq" "q \<noteq> p" "inode_number (core s q) = m" by blast
  then have "core s' q = core s q" using cache_stepD(1) [OF st, of q] by simp
  moreover then have "inode_view s' m =
      (if dirty (core s' q) then getDiskINodeData (core s' q) else inode_at (disk s') m)"
    using q hq' by (intro view_cached [OF inv']) auto
  ultimately show ?thesis using view_cached [OF inv q(1,3)] d by simp
next
  case False
  have "inode_number (core s' q) \<noteq> m" if "q \<in> set hq'" for q
    using that False hq' m cache_stepD(1) [OF st, of q] by (cases "q = p") auto
  then have "inode_view s' m = inode_at (disk s') m" using view_uncached [OF inv'] by blast
  moreover have "inode_view s m = inode_at (disk s) m"
  proof (cases "p \<in> set hq \<and> inode_number (core s p) = m")
    case True
    then show ?thesis using view_cached [OF inv] old m by metis
  next
    case F: False
    then have "\<forall>q \<in> set hq. inode_number (core s q) \<noteq> m" using False by metis
    then show ?thesis by (rule view_uncached [OF inv])
  qed
  ultimately show ?thesis using d by simp
qed

lemma coherent_step:
  assumes inv: "cache_inv s fl hq" and co: "coherent s hq" and st: "cache_step s s' p i fl'' hq''"
    and hq': "set hq' = insert p (set hq)" and key: "\<forall>q \<in> set hq - {p}. inode_number (core s q) \<noteq> inode_number i"
    and d: "\<And>m. m < NUM_OF_INODES \<Longrightarrow> m \<noteq> inode_number i \<Longrightarrow> inode_at (disk s') m = inode_at (disk s) m"
    and i0: "reference_count i = 0 \<Longrightarrow> \<not> dirty i"
    and i1: "\<not> dirty i \<Longrightarrow> 0 < reference_count i \<or> linksCount i \<noteq> 0 \<Longrightarrow>
      getDiskINodeData i = inode_at (disk s') (inode_number i)"
  shows "coherent s' hq'"
proof -
  note c = cache_stepD(1) [OF st]
  have "\<not> dirty (core s' q)" if "q < 32" "reference_count (core s' q) = 0" for q
    using that co i0 c [of q] by (cases "q = p") (auto simp: coherent_def)
  moreover have "getDiskINodeData (core s' q) = inode_at (disk s') (inode_number (core s' q))"
    if q: "q \<in> set hq'" "\<not> dirty (core s' q)" "0 < reference_count (core s' q) \<or> linksCount (core s' q) \<noteq> 0" for q
  proof (cases "q = p")
    case True
    then show ?thesis using q i1 c [of q] by simp
  next
    case False
    then have "core s' q = core s q" "q \<in> set hq" using c hq' q by auto
    then show ?thesis
      using q co key False d [of "inode_number (core s q)"] cache_invD(14) [OF inv, of q]
      by (auto simp: coherent_def)
  qed
  ultimately show ?thesis unfolding coherent_def by blast
qed


text \<open>
  \<open>iget\<close> hands out the current content of the inode and changes no content.  The exception is a
  cached inode without links that has unwritten changes: it is fetched again, and they are lost.
\<close>

lemma iget_transparent:
  assumes inv: "cache_inv s fl hq" and co: "coherent s hq" and n: "n < NUM_OF_INODES"
    and room: "fl \<noteq> [] \<or> (\<exists>p \<in> set hq. inode_number (core s p) = n)"
    and fit: "refs s n \<noteq> SIZE_MAX"
    and linked: "\<forall>p \<in> set hq. inode_number (core s p) = n \<longrightarrow> dirty (core s p) \<longrightarrow> linksCount (core s p) \<noteq> 0"
  shows "\<exists>p s' fl' hq'. iget n 0 s = Some (Some p, s') \<and> cache_inv s' fl' hq' \<and> coherent s' hq' \<and>
    p \<in> set hq' \<and> getDiskINodeData (core s' p) = inode_view s n \<and>
    (\<forall>m < NUM_OF_INODES. inode_view s' m = inode_view s m)"
proof -
  obtain p s' fl' hq' i where get: "iget n 0 s = Some (Some p, s')" "cache_inv s' fl' hq'" "disk s' = disk s"
    and st: "cache_step s s' p i fl' hq'" "set hq' = insert p (set hq)"
    and i: "inode_number i = n" "reference_count i = refs s n + 1" "got s n hq p i"
    using iget_step [OF inv n room fit] by blast
  have nz: "reference_count i \<noteq> 0" using i(2) fit by (simp add: eq_neg_iff_add_eq_0 [symmetric])
  have p: "p \<in> set hq'" "core s' p = i" using st cache_stepD(1) [OF st(1), of p] by auto
  have dt: "dirty i \<longleftrightarrow> dirty (core s p)" and old: "p \<in> set hq \<and> inode_number (core s p) = n \<or> \<not> dirty (core s p)"
    using i(3) co by (auto simp: got_def coherent_def)
  have clean: "getDiskINodeData i = inode_at (disk s) n" if "\<not> dirty i"
  proof (cases "p \<in> set hq \<and> inode_number (core s p) = n \<and> linksCount (core s p) \<noteq> 0")
    case True
    then have "i = taken (core s p)" using i(3) by (auto simp: got_def refreshed_def)
    then show ?thesis using True that co dt by (auto simp: coherent_def taken_def)
  next
    case False
    then have "i = taken (insertDiskInodeData (inode_at (disk s) n) (core s p))"
      using i(3) by (auto simp: got_def refreshed_def)
    then show ?thesis by (simp add: taken_def insert_get_disk_data)
  qed
  have data: "getDiskINodeData i = inode_view s n"
  proof (cases "dirty i")
    case True
    then have "p \<in> set hq" "inode_number (core s p) = n" "dirty (core s p)" using old dt by auto
    moreover then have "i = taken (core s p)" using i(3) linked by (auto simp: got_def refreshed_def)
    ultimately show ?thesis using view_cached [OF inv] by (simp add: taken_def)
  next
    case False
    have "inode_view s n = inode_at (disk s) n"
    proof (cases "p \<in> set hq \<and> inode_number (core s p) = n")
      case True
      then show ?thesis using view_cached [OF inv] False dt by metis
    next
      case F: False
      then have "\<forall>q \<in> set hq. inode_number (core s q) \<noteq> n" using i(3) by (auto simp: got_def)
      then show ?thesis by (rule view_uncached [OF inv])
    qed
    with clean [OF False] show ?thesis by simp
  qed
  have "\<forall>q \<in> set hq - {p}. inode_number (core s q) \<noteq> inode_number i"
    using i(1,3) cache_invD(3) [OF inv] by (auto simp: got_def inj_on_def node_key_core)
  then have "coherent s' hq'"
    by (rule coherent_step [OF inv co st]) (use nz clean get(3) i(1) in auto)
  moreover have "inode_view s' m = inode_view s m" for m
  proof (cases "m = n")
    case True
    then show ?thesis
      using view_cached [OF get(2) p(1), of n] p(2) i(1) data clean get(3) by auto
  next
    case False
    then show ?thesis using view_step_other [OF inv get(2) st] i(1) get(3) old by simp
  qed
  ultimately show ?thesis using get p data by blast
qed

text \<open>\<open>iput\<close> changes no content either: what was only in the cache is on the disk afterwards.\<close>

lemma iput_transparent:
  assumes inv: "cache_inv s fl hq" and co: "coherent s hq" and p: "p \<in> set hq"
    and r: "0 < reference_count (core s p)"
    and keep: "linksCount (core s p) \<noteq> 0 \<or> inode_number (core s p) = 0"
  shows "\<exists>s' fl'. iput p s = Some (0, s') \<and> cache_inv s' fl' hq \<and> coherent s' hq \<and>
    (\<forall>m < NUM_OF_INODES. inode_view s' m = inode_view s m)"
proof -
  note D = cache_invD [OF inv]
  let ?n = "inode_number (core s p)"
  have p32: "p < 32" using D(12) p .
  have hqp: "set hq = insert p (set hq)" using p by auto
  have n: "?n < NUM_OF_INODES" using D(14) p .
  have key: "\<forall>q \<in> set hq - {p}. inode_number (core s q) \<noteq> ?n"
    using D(3) p by (auto simp: inj_on_def node_key_core)
  obtain s' fl' i where put: "iput p s = Some (0, s')" and inv': "cache_inv s' fl' hq"
    and st: "cache_step s s' p i fl' hq" and i: "inode_number i = ?n"
    and d: "\<And>m. m < NUM_OF_INODES \<Longrightarrow> m \<noteq> ?n \<Longrightarrow> inode_at (disk s') m = inode_at (disk s) m"
    and i0: "reference_count i = 0 \<Longrightarrow> \<not> dirty i"
    and i1: "\<not> dirty i \<Longrightarrow> 0 < reference_count i \<or> linksCount i \<noteq> 0 \<Longrightarrow>
      getDiskINodeData i = inode_at (disk s') ?n"
    and vn: "(if dirty i then getDiskINodeData i else inode_at (disk s') ?n) = inode_view s ?n"
  proof (cases "reference_count (core s p) = 1")
    case True
    let ?d = "written_back (core s p) (disk s)"
    obtain s' where s': "iput p s = Some (0, s')" "disk s' = ?d"
      "cache_step s s' p (released (core s p)) (fl @ [p]) hq"
      using iput_last [OF inv p True keep] by blast
    have inv': "cache_inv s' (fl @ [p]) hq"
      by (rule cache_inv_step [OF inv s'(3) p32])
        (use D(4) D(9,10) [OF p32] n hqp key s'(2) in \<open>auto simp: released_def wf_inCore_def numbered_written_back\<close>)
    have wb: "inode_at ?d m = (if m = ?n \<and> dirty (core s p) then getDiskINodeData (core s p) else inode_at (disk s) m)"
      if "m < NUM_OF_INODES" for m
      using that n D(5) by (auto simp: written_back_def inode_at_put_inode)
    have "inode_at ?d ?n = inode_view s ?n"
      using wb [OF n] view_cached [OF inv p] by simp
    moreover have "getDiskINodeData (core s p) = inode_at ?d ?n"
      using wb [OF n] co p r by (auto simp: coherent_def)
    moreover have "\<not> dirty (released (core s p))" "inode_number (released (core s p)) = ?n"
      "getDiskINodeData (released (core s p)) = getDiskINodeData (core s p)"
      by (simp_all add: released_def)
    ultimately show ?thesis
      by (intro that [OF s'(1) inv' s'(3)]) (simp_all only: s'(2) wb, simp_all)
  next
    case False
    let ?i = "(core s p)\<lparr> reference_count := reference_count (core s p) - 1 \<rparr>"
    have nz: "reference_count (core s p) \<noteq> 0" using r by auto
    obtain s' where s': "iput p s = Some (0, s')" "disk s' = disk s" "cache_step s s' p ?i fl hq"
      using iput_shared [OF inv p32 nz False] by blast
    have inv': "cache_inv s' fl hq"
      by (rule cache_inv_step [OF inv s'(3) p32])
        (use D(4) D(8,9,10) [OF p32] n hqp key s'(2) nz False in \<open>auto simp: wf_inCore_def\<close>)
    have "getDiskINodeData (core s p) = inode_at (disk s) ?n" if "\<not> dirty (core s p)"
      using co p r that by (auto simp: coherent_def)
    moreover have "reference_count ?i \<noteq> 0" using False by simp
    ultimately show ?thesis
      using view_cached [OF inv p] by (intro that [OF s'(1) inv' s'(3)]) (simp_all add: s'(2))
  qed
  have "coherent s' hq"
    by (rule coherent_step [OF inv co st hqp]) (use key i d i0 i1 in auto)
  moreover have "inode_view s' m = inode_view s m" if "m < NUM_OF_INODES" for m
  proof (cases "m = ?n")
    case True
    have "core s' p = i" using cache_stepD(1) [OF st, of p] by simp
    then have "inode_view s' ?n = (if dirty i then getDiskINodeData i else inode_at (disk s') ?n)"
      using view_cached [OF inv' p, of ?n] i by simp
    then show ?thesis using vn True by metis
  next
    case False
    then show ?thesis using view_step_other [OF inv inv' st hqp] i d that p by auto
  qed
  ultimately show ?thesis using put inv' by blast
qed

end
