(* ===== verification/FileBlocks.thy ===== *)
theory FileBlocks
  imports BlockAlloc
begin

text \<open>
  From file offsets to disk blocks: \<open>src/incoreInodeOps/iNodeManager.c\<close> (the tree of direct, single,
  double and triple indirect blocks of an inode) and \<open>src/incoreInodeOps/bmap.c\<close>.  The functions
  work on one in-core inode, passed and returned by value, and the disk.
\<close>

section \<open>Data\<close>

abbreviation (input) DIRECT_BLOCK_LIMIT :: "'a::numeral" where "DIRECT_BLOCK_LIMIT \<equiv> 9"
abbreviation (input) SINGLE_INDIRECT_LIMIT :: "'a::numeral" where "SINGLE_INDIRECT_LIMIT \<equiv> 137"
abbreviation (input) DOUBLE_INDIRECT_LIMIT :: "'a::numeral" where "DOUBLE_INDIRECT_LIMIT \<equiv> 16521"
abbreviation (input) TRIPLE_INDIRECT_LIMIT :: "'a::numeral" where "TRIPLE_INDIRECT_LIMIT \<equiv> 2113673"

datatype indirectionLevel = DIRECT | SINGLE_INDIRECT | DOUBLE_INDIRECT | TRIPLE_INDIRECT

text \<open>The value of the enumeration constant.\<close>

primrec level_num :: "indirectionLevel \<Rightarrow> nat" where
  "level_num DIRECT = 0"
| "level_num SINGLE_INDIRECT = 1"
| "level_num DOUBLE_INDIRECT = 2"
| "level_num TRIPLE_INDIRECT = 3"

record blkTreeOffset =
  offsets :: "int list"
  offsetIndirection :: indirectionLevel

datatype bmapMode = READ_MODE | APPEND_MODE

text \<open>\<open>readAheadBlockNum\<close> is never written and never read.\<close>

record bmapResponse =
  blockNumber :: size_t
  byteOffsetInBlock :: size_t
  bytesLeftInBlock :: size_t

text \<open>A \<open>size_t\<close> passed as an \<open>int\<close>; accesses to an array, undefined outside of it.\<close>

definition c_int :: "size_t \<Rightarrow> int" where
  "c_int x = sint (to_c_int x)"

definition arr_get :: "'a list \<Rightarrow> int \<Rightarrow> 'a option" where
  "arr_get xs i = (if 0 \<le> i \<and> i < int (length xs) then Some (xs ! nat i) else None)"

definition arr_set :: "'a list \<Rightarrow> int \<Rightarrow> 'a \<Rightarrow> 'a list option" where
  "arr_set xs i v = (if 0 \<le> i \<and> i < int (length xs) then Some (xs[nat i := v]) else None)"

section \<open>iNodeManager.c\<close>

definition blkTreeOffsetConstructor ::
    "int \<Rightarrow> int \<Rightarrow> int \<Rightarrow> int \<Rightarrow> indirectionLevel \<Rightarrow> blkTreeOffset" where
  "blkTreeOffsetConstructor directOffset firstOffset secondOffset thirdOffset indirection =
     \<lparr> offsets = [directOffset, firstOffset, secondOffset, thirdOffset],
       offsetIndirection = indirection \<rparr>"

text \<open>Beyond the triple indirect blocks nothing is written to the result.\<close>

definition calculateOffset :: "size_t \<Rightarrow> blkTreeOffset option" where
  "calculateOffset off =
     (let blkIndex = off div BLOCK_SIZE in
      if blkIndex \<le> DIRECT_BLOCK_LIMIT then
        Some (blkTreeOffsetConstructor (c_int blkIndex) (- 1) (- 1) (- 1) DIRECT)
      else if blkIndex \<le> SINGLE_INDIRECT_LIMIT then
        let firstOffset = blkIndex - DIRECT_BLOCK_LIMIT - 1
        in Some (blkTreeOffsetConstructor (- 1) (c_int firstOffset) (- 1) (- 1) SINGLE_INDIRECT)
      else if blkIndex \<le> DOUBLE_INDIRECT_LIMIT then
        let firstOffset = (blkIndex - SINGLE_INDIRECT_LIMIT - 1) div 128;
            secondOffset = (blkIndex - firstOffset * 128) - SINGLE_INDIRECT_LIMIT - 1
        in Some (blkTreeOffsetConstructor (- 1) (c_int firstOffset) (c_int secondOffset) (- 1) DOUBLE_INDIRECT)
      else if blkIndex \<le> TRIPLE_INDIRECT_LIMIT then
        let firstOffset = (blkIndex - DOUBLE_INDIRECT_LIMIT - 1) div (128 * 128);
            secondOffset = (blkIndex - firstOffset * (128 * 128) - DOUBLE_INDIRECT_LIMIT - 1) div 128;
            thirdOffset = blkIndex - secondOffset * 128 - firstOffset * (128 * 128) - DOUBLE_INDIRECT_LIMIT - 1
        in Some (blkTreeOffsetConstructor (- 1) (c_int firstOffset) (c_int secondOffset) (c_int thirdOffset)
                   TRIPLE_INDIRECT)
      else None)"

definition allocateIfNeeded :: "int list \<Rightarrow> dsk \<Rightarrow> (size_t \<times> dsk) option" where
  "allocateIfNeeded indirOffsets d =
     (let shouldAdd = list_all (\<lambda>off. off = 0) indirOffsets
      in if shouldAdd then blockAlloc d else Some (0, d))"

text \<open>
  The loop of \<open>allocateAllNeededBlocks\<close> from its second round on, where \<open>curBlock\<close> points at entry
  \<open>cur\<close> of \<open>workingData\<close>, and the assignment behind the loop.
\<close>

primrec allocate_walk ::
    "int list \<Rightarrow> int \<Rightarrow> size_t \<Rightarrow> disk_block \<Rightarrow> freeDiskListBlock \<Rightarrow> size_t \<Rightarrow> dsk \<Rightarrow> dsk option" where
  "allocate_walk [] cur parentBlock dataBlock workingData blockNumToAdd d =
     do {
       workingData \<leftarrow> arr_set workingData cur blockNumToAdd;
       Some (put_block parentBlock (writeFreeDiskListBlock workingData dataBlock) d)
     }"
| "allocate_walk (off # offs) cur parentBlock dataBlock workingData blockNumToAdd d =
     do {
       (newAllocBlock, d) \<leftarrow> allocateIfNeeded (off # offs) d;
       (workingData, dataBlock, d) \<leftarrow>
         (if newAllocBlock \<noteq> 0 then do {
            workingData \<leftarrow> arr_set workingData cur newAllocBlock;
            let dataBlock = writeFreeDiskListBlock workingData dataBlock;
            Some (workingData, dataBlock, put_block parentBlock dataBlock d)
          }
          else Some (workingData, dataBlock, d));
       tmp \<leftarrow> arr_get workingData cur;
       dataBlock \<leftarrow> snd (getDiskBlock tmp (Some dataBlock) d);
       allocate_walk offs off tmp dataBlock (makeFreeDiskListBlock dataBlock) blockNumToAdd d
     }"

text \<open>\<open>curBlock\<close> is the value of the inode's entry; the result starts with its new value.\<close>

definition allocateAllNeededBlocks ::
    "size_t \<Rightarrow> size_t \<Rightarrow> int list \<Rightarrow> dsk \<Rightarrow> (size_t \<times> dsk) option" where
  "allocateAllNeededBlocks curBlock blockNumToAdd indirOffsets d =
     (case indirOffsets of
        [] \<Rightarrow> None
      | off # offs \<Rightarrow> do {
          (newAllocBlock, d) \<leftarrow> allocateIfNeeded indirOffsets d;
          let curBlock = (if newAllocBlock \<noteq> 0 then newAllocBlock else curBlock);
          dataBlock \<leftarrow> read_block curBlock d;
          d \<leftarrow> allocate_walk offs off curBlock dataBlock (makeFreeDiskListBlock dataBlock) blockNumToAdd d;
          Some (curBlock, d)
        })"

definition updateINodeMetadata :: "inCoreiNode \<Rightarrow> 32 word \<Rightarrow> size_t \<Rightarrow> dsk \<Rightarrow> inCoreiNode" where
  "updateINodeMetadata iNode sizeDifference linkCount d =
     (let iNode = iNode\<lparr> isize := isize iNode + of_c_int sizeDifference, linksCount := linkCount \<rparr>;
          iNode = (if sizeDifference \<noteq> 0
                   then iNode\<lparr> modification := clock d, file_data_changed := True \<rparr> else iNode)
      in iNode\<lparr> inode_changed := True \<rparr>)"

definition updateIndex ::
    "inCoreiNode \<Rightarrow> size_t \<Rightarrow> blkTreeOffset \<Rightarrow> dsk \<Rightarrow> (inCoreiNode \<times> dsk) option" where
  "updateIndex iNode blockNumToAdd blkOffset d =
     (if offsetIndirection blkOffset = DIRECT then do {
        nums \<leftarrow> arr_set (dataBlockNums iNode) (offsets blkOffset ! 0) blockNumToAdd;
        Some (iNode\<lparr> dataBlockNums := nums \<rparr>, d)
      }
      else do {
        let indirection = level_num (offsetIndirection blkOffset);
        let index = DIRECT_BLOCK_LIMIT + indirection;
        (cur, d) \<leftarrow> allocateAllNeededBlocks (dataBlockNums iNode ! index) blockNumToAdd
                      (take indirection (drop 1 (offsets blkOffset))) d;
        let iNode = iNode\<lparr> dataBlockNums := (dataBlockNums iNode)[index := cur] \<rparr>;
        Some (updateINodeMetadata iNode 0 (linksCount iNode) d, d)
      })"

definition insertDataBlockInINode ::
    "inCoreiNode \<Rightarrow> size_t \<Rightarrow> dsk \<Rightarrow> (inCoreiNode \<times> dsk) option" where
  "insertDataBlockInINode iNode blockNumToAdd d =
     (let sz = isize iNode in
      if sz mod BLOCK_SIZE \<noteq> 0 then Some (iNode, d)
      else do {
        blkOffset \<leftarrow> calculateOffset sz;
        updateIndex iNode blockNumToAdd blkOffset d
      })"

definition freeNeeded :: "int list \<Rightarrow> bool" where
  "freeNeeded indirOffsets = list_all (\<lambda>off. off = 0) indirOffsets"

text \<open>
  The first loop of \<open>freeNeededBlocks\<close>: the list \<open>blocksToBeFreed\<close>.  \<open>block\<close> is \<open>*blockIndex\<close>.
\<close>

primrec free_walk :: "int list \<Rightarrow> size_t \<Rightarrow> disk_block option \<Rightarrow> dsk \<Rightarrow> size_t list option" where
  "free_walk [] block dataBlock d = Some []"
| "free_walk (off # offs) block dataBlock d =
     do {
       dataBlock \<leftarrow> snd (getDiskBlock block dataBlock d);
       blocksToBeFreed \<leftarrow>
         (if offs = [] then Some []
          else do {
            next \<leftarrow> arr_get (makeFreeDiskListBlock dataBlock) off;
            free_walk offs next (Some dataBlock) d
          });
       Some (if freeNeeded (off # offs) then block # blocksToBeFreed else blocksToBeFreed)
     }"

primrec free_blocks :: "size_t list \<Rightarrow> dsk \<Rightarrow> dsk option" where
  "free_blocks [] d = Some d"
| "free_blocks (n # ns) d = do { d \<leftarrow> blockFree n d; free_blocks ns d }"

definition freeNeededBlocks :: "inCoreiNode \<Rightarrow> size_t \<Rightarrow> blkTreeOffset \<Rightarrow> dsk \<Rightarrow> dsk option" where
  "freeNeededBlocks iNode blockNumToRemove blkOffset d =
     do {
       d \<leftarrow> blockFree blockNumToRemove d;
       if offsetIndirection blkOffset = DIRECT then Some d
       else do {
         let indirection = level_num (offsetIndirection blkOffset);
         blocksToBeFreed \<leftarrow> free_walk (take indirection (drop 1 (offsets blkOffset)))
           (dataBlockNums iNode ! (DIRECT_BLOCK_LIMIT + indirection)) None d;
         free_blocks blocksToBeFreed d
       }
     }"

definition freeDataBlockInINode :: "inCoreiNode \<Rightarrow> size_t \<Rightarrow> dsk \<Rightarrow> dsk option" where
  "freeDataBlockInINode iNode blockNumToRemove d =
     do {
       blkOffset \<leftarrow> calculateOffset (isize iNode);
       freeNeededBlocks iNode blockNumToRemove blkOffset d
     }"

section \<open>bmap.c\<close>

text \<open>The loop runs over the offsets behind the first; the buffer survives a failed read.\<close>

primrec indirect_walk :: "int list \<Rightarrow> size_t \<Rightarrow> disk_block option \<Rightarrow> dsk \<Rightarrow> size_t option" where
  "indirect_walk [] indirectBlockIndex dataBlock d = Some indirectBlockIndex"
| "indirect_walk (off # offs) indirectBlockIndex dataBlock d =
     do {
       dataBlock \<leftarrow> snd (getDiskBlock indirectBlockIndex dataBlock d);
       next \<leftarrow> arr_get (makeFreeDiskListBlock dataBlock) off;
       indirect_walk offs next (Some dataBlock) d
     }"

definition processAndGetDiskBlock :: "blkTreeOffset \<Rightarrow> size_t \<Rightarrow> dsk \<Rightarrow> size_t option" where
  "processAndGetDiskBlock indirectionOffsets startBlockNum d =
     indirect_walk (take (level_num (offsetIndirection indirectionOffsets)) (drop 1 (offsets indirectionOffsets)))
       startBlockNum None d"

definition createBMapResponse :: "size_t \<Rightarrow> size_t \<Rightarrow> bmapResponse" where
  "createBMapResponse blockNum off =
     \<lparr> blockNumber = blockNum, byteOffsetInBlock = off, bytesLeftInBlock = BLOCK_SIZE - off \<rparr>"

text \<open>On failure the caller's response keeps what it had (\<open>None\<close>: never written).\<close>

definition bmap ::
    "inCoreiNode \<Rightarrow> size_t \<Rightarrow> bmapResponse option \<Rightarrow> bmapMode \<Rightarrow> dsk \<Rightarrow>
     (int \<times> bmapResponse option \<times> inCoreiNode \<times> dsk) option" where
  "bmap iNode off response mode d =
     (let fileSize = isize iNode in
      if fileSize \<le> off \<and> (mode = READ_MODE \<or> fileSize < off) then Some (- 1, response, iNode, d)
      else if off = fileSize \<and> off mod BLOCK_SIZE = 0 \<and> mode = APPEND_MODE then do {
        (newBlock, d) \<leftarrow> blockAlloc d;
        (iNode, d) \<leftarrow> insertDataBlockInINode iNode newBlock d;
        Some (0, Some (createBMapResponse newBlock 0), iNode, d)
      }
      else do {
        indirectionOffsets \<leftarrow> calculateOffset off;
        dataBlockNum \<leftarrow>
          (if offsetIndirection indirectionOffsets = DIRECT
           then arr_get (dataBlockNums iNode) (offsets indirectionOffsets ! 0)
           else processAndGetDiskBlock indirectionOffsets
             (dataBlockNums iNode ! (DIRECT_BLOCK_LIMIT + level_num (offsetIndirection indirectionOffsets))) d);
        Some (0, Some (createBMapResponse dataBlockNum (off mod BLOCK_SIZE)), iNode, d)
      })"


section \<open>Lemmas: block indices and tree positions\<close>

text \<open>The position of block \<open>k\<close> of a file, without machine arithmetic.\<close>

definition offset_of :: "nat \<Rightarrow> blkTreeOffset option" where
  "offset_of k =
     (if k \<le> DIRECT_BLOCK_LIMIT then
        Some \<lparr> offsets = [int k, - 1, - 1, - 1], offsetIndirection = DIRECT \<rparr>
      else if k \<le> SINGLE_INDIRECT_LIMIT then
        Some \<lparr> offsets = [- 1, int (k - 10), - 1, - 1], offsetIndirection = SINGLE_INDIRECT \<rparr>
      else if k \<le> DOUBLE_INDIRECT_LIMIT then
        Some \<lparr> offsets = [- 1, int ((k - 138) div 128), int ((k - 138) mod 128), - 1],
               offsetIndirection = DOUBLE_INDIRECT \<rparr>
      else if k \<le> TRIPLE_INDIRECT_LIMIT then
        Some \<lparr> offsets = [- 1, int ((k - 16522) div 16384), int ((k - 16522) mod 16384 div 128),
                          int ((k - 16522) mod 128)], offsetIndirection = TRIPLE_INDIRECT \<rparr>
      else None)"

lemma c_int_bits: "c_int x = signed_take_bit 31 (uint x)"
  unfolding c_int_def to_c_int_def by transfer (simp add: signed_take_bit_take_bit)

lemma signed_take_bit_small: "0 \<le> y \<Longrightarrow> y < 2147483648 \<Longrightarrow> signed_take_bit 31 (y :: int) = y"
  by (rule signed_take_bit_int_eq_self) simp_all

lemma c_int_small:
  assumes "unat x < 2 ^ 31"
  shows "c_int x = int (unat x)"
proof -
  have u: "uint x = int (unat x)" by simp
  have "unat x < 2147483648" using assms by simp
  then have "uint x < 2147483648" using u by linarith
  then show ?thesis using u by (simp only: c_int_bits signed_take_bit_small uint_ge_0)
qed

lemma c_int_eq: "unat x = m \<Longrightarrow> m < 2147483648 \<Longrightarrow> c_int x = int m"
  using c_int_small [of x] by simp

lemma unat_minus_of_nat:
  assumes "m \<le> unat x"
  shows "unat (x - of_nat m) = unat (x :: size_t) - m"
proof -
  have "m < 2 ^ 64" using assms unat_bound [of x] by simp
  then have "unat (of_nat m :: size_t) = m" by (simp add: unat_of_nat take_bit_eq_mod)
  with assms show ?thesis by (simp add: unat_sub word_le_nat_alt)
qed

lemma unat_mult_small:
  "unat x * unat y < 2 ^ 64 \<Longrightarrow> unat (x * y) = unat x * unat (y :: size_t)"
  by (simp add: unat_word_ariths)

lemma unat_minus_div: "unat (x - x div m * m) = unat x mod unat m" for x m :: size_t
  by (simp add: minus_div_mult_eq_mod unat_mod)

lemma calculateOffset_offset_of: "calculateOffset off = offset_of (unat off div BLOCK_SIZE)"
proof -
  define b :: size_t where "b = off div 1024"
  define k where "k = unat b"
  have k: "k = unat off div 1024" by (simp add: k_def b_def unat_div)
  have le: "b \<le> of_nat m \<longleftrightarrow> k \<le> m" if "m < 2 ^ 64" for m
    using that by (simp add: word_le_nat_alt k_def unat_of_nat take_bit_eq_mod)
  have lim: "b \<le> 9 \<longleftrightarrow> k \<le> 9" "b \<le> 137 \<longleftrightarrow> k \<le> 137" "b \<le> 16521 \<longleftrightarrow> k \<le> 16521" "b \<le> 2113673 \<longleftrightarrow> k \<le> 2113673"
    using le [of 9] le [of 137] le [of 16521] le [of 2113673] by simp_all
  have direct: "c_int b = int k" if "k \<le> 9" using that by (simp add: c_int_small k_def)
  have single: "c_int (b - 10) = int k - 10" if "9 < k" "k \<le> 137"
    using that unat_minus_of_nat [of 10 b] c_int_eq [of "b - 10" "k - 10"] by (simp add: k_def)
  define r where "r = b - 138"
  have r: "unat r = k - 138" if "137 < k" using that unat_minus_of_nat [of 138 b] by (simp add: k_def r_def)
  define f where "f = r div 128"
  have f: "unat f = (k - 138) div 128" if "137 < k" using that r by (simp add: f_def unat_div)
  have g: "unat (r - f * 128) = (k - 138) mod 128" if "137 < k" using r [OF that] by (simp add: f_def unat_minus_div)
  define t where "t = b - 16522"
  have t: "unat t = k - 16522" if "16521 < k" using that unat_minus_of_nat [of 16522 b] by (simp add: k_def t_def)
  define t1 where "t1 = t div 16384"
  have t1: "unat t1 = (k - 16522) div 16384" if "16521 < k" using that t by (simp add: t1_def unat_div)
  have t1m: "unat (t - t1 * 16384) = (k - 16522) mod 16384" if "16521 < k" using t [OF that] by (simp add: t1_def unat_minus_div)
  define t2 where "t2 = (t - t1 * 16384) div 128"
  have t2: "unat t2 = (k - 16522) mod 16384 div 128" if "16521 < k" using t1m [OF that] by (simp add: t2_def unat_div)
  have t3: "unat (t - t1 * 16384 - t2 * 128) = (k - 16522) mod 128" if "16521 < k"
    using t1m [OF that] by (simp add: t2_def unat_minus_div mod_mod_cancel)
  have e2: "b - 137 - 1 = r" "b - f * 128 - 137 - 1 = r - f * 128" by (simp_all add: r_def)
  have e3: "b - 16521 - 1 = t" "b - t1 * 16384 - 16521 - 1 = t - t1 * 16384"
    "b - t2 * 128 - t1 * 16384 - 16521 - 1 = t - t1 * 16384 - t2 * 128" by (simp_all add: t_def)
  have double: "c_int f = int ((k - 138) div 128)" "c_int (r - f * 128) = int ((k - 138) mod 128)"
    if "137 < k" "k \<le> 16521"
    using that f g by (simp_all add: c_int_small)
  have triple: "c_int t1 = int ((k - 16522) div 16384)" "c_int t2 = int ((k - 16522) mod 16384 div 128)"
    "c_int (t - t1 * 16384 - t2 * 128) = int ((k - 16522) mod 128)" if "16521 < k" "k \<le> 2113673"
  proof -
    have "(k - 16522) mod 16384 div 128 < 128" "(k - 16522) div 16384 < 128" "(k - 16522) mod 128 < 128"
      using that by (auto intro: less_mult_imp_div_less)
    then show "c_int t1 = int ((k - 16522) div 16384)" "c_int t2 = int ((k - 16522) mod 16384 div 128)"
      "c_int (t - t1 * 16384 - t2 * 128) = int ((k - 16522) mod 128)"
      by (intro c_int_eq t1 t2 t3 that(1), simp)+
  qed
  have mm: "128 * 128 = (16384 :: size_t)" by simp
  consider "k \<le> 9" | "9 < k" "k \<le> 137" | "137 < k" "k \<le> 16521" | "16521 < k" "k \<le> 2113673" | "2113673 < k"
    by linarith
  then show ?thesis
    unfolding k [symmetric] calculateOffset_def b_def [symmetric] Let_def mm e2 f_def [symmetric] e3 t1_def [symmetric]
      t2_def [symmetric]
    by cases (simp_all add: lim offset_of_def blkTreeOffsetConstructor_def direct single double triple)
qed


text \<open>Positions are inside the arrays they index, and different blocks have different positions.\<close>

definition tree_path :: "blkTreeOffset \<Rightarrow> int list" where
  "tree_path b = take (level_num (offsetIndirection b)) (drop 1 (offsets b))"

definition tree_index :: "blkTreeOffset \<Rightarrow> int" where
  "tree_index b =
     (case offsetIndirection b of
        DIRECT \<Rightarrow> offsets b ! 0
      | SINGLE_INDIRECT \<Rightarrow> 10 + offsets b ! 1
      | DOUBLE_INDIRECT \<Rightarrow> 138 + 128 * (offsets b ! 1) + offsets b ! 2
      | TRIPLE_INDIRECT \<Rightarrow> 16522 + 16384 * (offsets b ! 1) + 128 * (offsets b ! 2) + offsets b ! 3)"

lemma tree_index_offset_of:
  assumes "offset_of k = Some b"
  shows "tree_index b = int k"
proof -
  have "16384 * (n div 16384) + 128 * (n mod 16384 div 128) + n mod 128 = n" for n :: nat
  proof -
    have "n mod 128 = n mod 16384 mod 128" by (simp add: mod_mod_cancel)
    then show ?thesis using mult_div_mod_eq [of 128 "n mod 16384"] mult_div_mod_eq [of 16384 n] by linarith
  qed
  from this [of "k - 16522"]
  have "16522 + 16384 * int ((k - 16522) div 16384) + 128 * int ((k - 16522) mod 16384 div 128) +
      int ((k - 16522) mod 128) = int k" if "\<not> k \<le> 16521"
    using that by linarith
  moreover have "138 + 128 * int ((k - 138) div 128) + int ((k - 138) mod 128) = int k" if "\<not> k \<le> 137"
    using that mult_div_mod_eq [of 128 "k - 138"] by linarith
  ultimately show ?thesis
    using assms by (auto simp: offset_of_def tree_index_def split: if_splits)
qed

lemma tree_path_range:
  assumes "offset_of k = Some b" and "x \<in> set (tree_path b)"
  shows "0 \<le> x \<and> x < 128"
proof -
  have "(k - 16522) mod 16384 div 128 < 128" by (rule less_mult_imp_div_less) simp
  moreover have "(k - 16522) div 16384 < 128" if "k \<le> 2113673"
    by (rule less_mult_imp_div_less) (use that in simp)
  moreover have "(k - 138) div 128 < 128" if "k \<le> 16521"
    by (rule less_mult_imp_div_less) (use that in simp)
  ultimately show ?thesis
    using assms by (auto simp: offset_of_def tree_path_def split: if_splits)
qed

section \<open>Lemmas: growing the tree\<close>

text \<open>The disks agree on all blocks outside \<open>W\<close>.\<close>

definition same_except :: "dsk \<Rightarrow> dsk \<Rightarrow> size_t set \<Rightarrow> bool" where
  "same_except d d' W \<longleftrightarrow> (\<forall>m. blk_valid d' m = blk_valid d m) \<and>
     (\<forall>m. blk_valid d m \<longrightarrow> m \<notin> W \<longrightarrow> read_block m d' = read_block m d)"

lemma same_except_put:
  "disk_ok d \<Longrightarrow> length b = BLOCK_SIZE \<Longrightarrow> n \<in> W \<Longrightarrow> same_except d (put_block n b d) W"
  unfolding same_except_def using blk.valid_put blk.get_put_other by metis

lemma same_except_trans:
  "same_except d d1 W \<Longrightarrow> same_except d1 d2 W' \<Longrightarrow> W \<subseteq> V \<Longrightarrow> W' \<subseteq> V \<Longrightarrow> same_except d d2 V"
  unfolding same_except_def by (metis subsetD)

text \<open>The blocks on the way to a position that exist before the position is filled.\<close>

primrec old_path :: "int list \<Rightarrow> size_t \<Rightarrow> dsk \<Rightarrow> size_t list" where
  "old_path [] x d = []"
| "old_path (off # offs) x d =
     (if list_all (\<lambda>off. off = 0) (off # offs) then []
      else x # (case read_block x d of
                  None \<Rightarrow> []
                | Some b \<Rightarrow> old_path offs (makeFreeDiskListBlock b ! nat off) d))"

lemma old_path_zero: "list_all (\<lambda>off. off = 0) offs \<Longrightarrow> old_path offs x d = []"
  by (cases offs) simp_all

lemma indirect_walk_buf:
  "indirect_walk offs x None d = Some r \<Longrightarrow> indirect_walk offs x buf d = Some r"
  by (cases offs; cases buf) (auto simp: bind_Some_iff getDiskBlock_read_block simp flip: read_block_def)

lemma indirect_walk_step:
  assumes "read_block x d = Some b" and "0 \<le> off" and "off < 128"
    and "indirect_walk offs (makeFreeDiskListBlock b ! nat off) None d = Some r"
  shows "indirect_walk (off # offs) x None d = Some r"
proof -
  have "snd (getDiskBlock x None d) = Some b" using assms(1) by (simp add: read_block_def)
  moreover have "indirect_walk offs (makeFreeDiskListBlock b ! nat off) (Some b) d = Some r"
    using assms(4) by (rule indirect_walk_buf)
  ultimately show ?thesis using assms(2,3) by (simp add: arr_get_def)
qed

definition owned :: "dsk \<Rightarrow> size_t list \<Rightarrow> size_t \<Rightarrow> bool" where
  "owned d fs x \<longleftrightarrow> 16388 \<le> x \<and> blk_valid d x \<and> x \<notin> set fs"

text \<open>The last index block gets the new address.\<close>

lemma allocate_walk_last:
  assumes fl: "free_list d fs" and own: "owned d fs parent" and b: "read_block parent d = Some b" and cur: "0 \<le> cur" "cur < 128"
  shows "\<exists>d'. allocate_walk [] cur parent b (makeFreeDiskListBlock b) add d = Some d' \<and> free_list d' fs \<and>
    indirect_walk [cur] parent None d' = Some add \<and> same_except d d' {FREE_LIST_BLOCK, parent}"
proof -
  let ?nb = "writeFreeDiskListBlock ((makeFreeDiskListBlock b)[nat cur := add]) b"
  have ok: "disk_ok d" "length b = BLOCK_SIZE" using fl own b blk.get_length by (auto elim: free_listE simp: owned_def)
  have "free_list (put_block parent ?nb d) fs" using fl own ok by (intro free_list_put) (auto simp: owned_def)
  moreover have "indirect_walk [cur] parent None (put_block parent ?nb d) = Some add"
    by (rule indirect_walk_step) (use own cur ok in \<open>auto simp: owned_def disk_simps codec_simps nat_less_iff\<close>)
  moreover have "same_except d (put_block parent ?nb d) {FREE_LIST_BLOCK, parent}" using ok by (intro same_except_put) auto
  ultimately show ?thesis using cur by (simp add: arr_set_def)
qed

text \<open>A new index block is taken from the free list and entered into its parent.\<close>

lemma index_block_added:
  assumes fl: "free_list d (x # fs)" and own: "owned d (x # fs) parent" and b: "read_block parent d = Some b"
  defines "nb cur \<equiv> writeFreeDiskListBlock ((makeFreeDiskListBlock b)[nat cur := x]) b"
  obtains d1 bx where "blockAlloc d = Some (x, d1)" and "free_list (put_block parent (nb cur) d1) fs"
    and "owned (put_block parent (nb cur) d1) fs x" and "read_block x (put_block parent (nb cur) d1) = Some bx"
    and "same_except d (put_block parent (nb cur) d1) {FREE_LIST_BLOCK, parent}"
    and "read_block parent (put_block parent (nb cur) d1) = Some (nb cur)"
    and "16388 \<le> x" and "x \<noteq> parent" and "blk_valid (put_block parent (nb cur) d1) parent"
proof -
  have ok: "disk_ok d" "length b = BLOCK_SIZE" and dist: "distinct (x # fs)" and fs: "\<forall>y \<in> set (x # fs). 16388 \<le> y \<and> blk_valid d y"
    using fl own b blk.get_length by (auto elim!: free_listE simp: owned_def)
  obtain d1 where d1: "blockAlloc d = Some (x, d1)" "free_list d1 fs" using blockAlloc_Cons fl by blast
  obtain b2 where b2: "length b2 = BLOCK_SIZE" "d1 = put_block FREE_LIST_BLOCK b2 d" using blockAlloc_put [OF fl d1(1)] by blast
  let ?d2 = "put_block parent (nb cur) d1"
  have d2: "free_list ?d2 fs" using own ok unfolding nb_def by (intro free_list_put [OF d1(2)]) (auto simp: owned_def)
  have x: "16388 \<le> x" "blk_valid d x" "x \<noteq> parent" "x \<notin> set fs" using fs dist own by (auto simp: owned_def)
  have ok2: "disk_ok ?d2" "blk_valid ?d2 m = blk_valid d m" for m using ok b2 by (simp_all add: disk_simps nb_def)
  obtain bx where bx: "read_block x ?d2 = Some bx" using blk.get_valid [OF ok2(1)] ok2(2) x(2) by blast
  have sx: "same_except d ?d2 {FREE_LIST_BLOCK, parent}"
  proof (rule same_except_trans)
    show "same_except d d1 {FREE_LIST_BLOCK, parent}" using ok b2 by (auto intro: same_except_put)
    show "same_except d1 ?d2 {FREE_LIST_BLOCK, parent}" using ok b2 by (intro same_except_put) (simp_all add: disk_simps nb_def)
  qed auto
  have ox: "owned ?d2 fs x" using x ok2 by (simp add: owned_def)
  have rp: "read_block parent ?d2 = Some (nb cur)" using own ok b2 by (simp add: disk_simps owned_def nb_def)
  have vp: "blk_valid ?d2 parent" using own ok2(2) by (simp add: owned_def)
  show thesis by (rule that [OF d1(1) d2 ox bx sx rp x(1,3) vp])
qed

lemma allocate_walk_ok:
  assumes "free_list d fs" and "owned d fs parent" and "read_block parent d = Some b"
    and "0 \<le> cur" and "cur < 128" and "\<forall>off \<in> set offs. 0 \<le> off \<and> off < 128"
    and "old_path offs (makeFreeDiskListBlock b ! nat cur) d = P"
    and "distinct (parent # P)" and "\<forall>x \<in> set P. owned d fs x" and "length offs \<le> length P + length fs"
  shows "\<exists>d'. allocate_walk offs cur parent b (makeFreeDiskListBlock b) add d = Some d' \<and>
    free_list d' (drop (length offs - length P) fs) \<and>
    indirect_walk (cur # offs) parent None d' = Some add \<and>
    same_except d d' ({FREE_LIST_BLOCK, parent} \<union> set P \<union> set (take (length offs - length P) fs))"
  using assms
proof (induction offs arbitrary: d fs parent b cur P)
  case Nil
  then show ?case using allocate_walk_last [OF Nil.prems(1-5), of add] by simp
next
  case (Cons off offs)
  let ?w = "makeFreeDiskListBlock b"
  have ok: "disk_ok d" "length b = BLOCK_SIZE" using Cons.prems(1-3) blk.get_length by (auto elim!: free_listE simp: owned_def)
  have cur: "nat cur < 128" using Cons.prems(5) by linarith
  show ?case
  proof (cases "list_all (\<lambda>off. off = 0) (off # offs)")
    case True
    then have P: "P = []" using Cons.prems(7) by simp
    then obtain x fs' where x: "fs = x # fs'" using Cons.prems(10) by (cases fs) auto
    let ?nb = "writeFreeDiskListBlock (?w[nat cur := x]) b"
    obtain d1 bx where d1: "blockAlloc d = Some (x, d1)" and d2: "free_list (put_block parent ?nb d1) fs'" "owned (put_block parent ?nb d1) fs' x"
      and bx: "read_block x (put_block parent ?nb d1) = Some bx" and sx: "same_except d (put_block parent ?nb d1) {FREE_LIST_BLOCK, parent}"
      and rp: "read_block parent (put_block parent ?nb d1) = Some ?nb" and x': "16388 \<le> x" "x \<noteq> parent"
      and vp: "blk_valid (put_block parent ?nb d1) parent"
      using index_block_added [of d x fs' parent b cur] Cons.prems(1-3) x by metis
    let ?d2 = "put_block parent ?nb d1"
    have z: "old_path offs (makeFreeDiskListBlock bx ! nat off) ?d2 = []"
      using True by (intro old_path_zero) simp
    from Cons.IH [OF d2 bx _ _ _ z] Cons.prems(6,10) x P
    obtain d' where d': "allocate_walk offs off x bx (makeFreeDiskListBlock bx) add ?d2 = Some d'"
      "free_list d' (drop (length offs) fs')" "indirect_walk (off # offs) x None d' = Some add"
      "same_except ?d2 d' ({FREE_LIST_BLOCK, x} \<union> set (take (length offs) fs'))" by auto
    have rd: "allocate_walk (off # offs) cur parent b ?w add d = Some d'"
      using d1 d'(1) True x'(1) bx cur Cons.prems(4) getDiskBlock_read_block [OF bx]
      by (auto simp: allocateIfNeeded_def arr_set_def arr_get_def codec_simps Let_def)
    have "read_block parent d' = Some ?nb"
      using d'(4) Cons.prems(2) x' x rp vp by (auto simp: same_except_def owned_def dest: in_set_takeD)
    moreover have "makeFreeDiskListBlock ?nb ! nat cur = x" using cur ok by (simp add: codec_simps)
    ultimately have "indirect_walk (cur # off # offs) parent None d' = Some add"
      using d'(3) indirect_walk_step [OF _ Cons.prems(4,5), of parent d' ?nb "off # offs"] by metis
    moreover have "same_except d d' ({FREE_LIST_BLOCK, parent} \<union> set P \<union> set (take (length (off # offs) - length P) fs))"
      by (rule same_except_trans [OF sx d'(4)]) (auto simp: x P)
    ultimately show ?thesis using rd d'(2) x P by simp
  next
    case False
    let ?x = "?w ! nat cur"
    from False Cons.prems(7) have P: "P = ?x # (case read_block ?x d of None \<Rightarrow> []
        | Some bx \<Rightarrow> old_path offs (makeFreeDiskListBlock bx ! nat off) d)" by auto
    then have own: "owned d fs ?x" using Cons.prems(9) by simp
    then obtain bx where bx: "read_block ?x d = Some bx" using blk.get_valid ok(1) by (auto simp: owned_def)
    define P' where "P' = old_path offs (makeFreeDiskListBlock bx ! nat off) d"
    have PP: "P = ?x # P'" using P bx by (simp add: P'_def)
    have "\<exists>d'. allocate_walk offs off ?x bx (makeFreeDiskListBlock bx) add d = Some d' \<and>
      free_list d' (drop (length offs - length P') fs) \<and> indirect_walk (off # offs) ?x None d' = Some add \<and>
      same_except d d' ({FREE_LIST_BLOCK, ?x} \<union> set P' \<union> set (take (length offs - length P') fs))"
      by (rule Cons.IH [OF Cons.prems(1) own bx])
        (use Cons.prems(6,8,9,10) PP in \<open>auto simp: P'_def\<close>)
    then obtain d' where d': "allocate_walk offs off ?x bx (makeFreeDiskListBlock bx) add d = Some d'"
      "free_list d' (drop (length offs - length P') fs)" "indirect_walk (off # offs) ?x None d' = Some add"
      "same_except d d' ({FREE_LIST_BLOCK, ?x} \<union> set P' \<union> set (take (length offs - length P') fs))" by blast
    have rd: "allocate_walk (off # offs) cur parent b ?w add d = Some d'"
      using d'(1) False cur Cons.prems(4) getDiskBlock_read_block [OF bx]
      by (auto simp: allocateIfNeeded_def arr_get_def)
    have "read_block parent d' = Some b"
      using d'(4) Cons.prems(2,3,8) PP by (auto simp: same_except_def owned_def dest: in_set_takeD)
    then have "indirect_walk (cur # off # offs) parent None d' = Some add"
      using d'(3) indirect_walk_step [OF _ Cons.prems(4,5)] by blast
    moreover have "same_except d d' ({FREE_LIST_BLOCK, parent} \<union> set P \<union> set (take (length (off # offs) - length P) fs))"
      using d'(4) PP by (auto simp: same_except_def)
    ultimately show ?thesis using rd d'(2) PP by simp
  qed
qed


lemma allocateAllNeededBlocks_ok:
  assumes fl: "free_list d fs" and offs: "offs \<noteq> []" "\<forall>off \<in> set offs. 0 \<le> off \<and> off < 128"
    and P: "old_path offs cur d = P" and "distinct P" and own: "\<forall>x \<in> set P. owned d fs x"
    and room: "length offs \<le> length P + length fs"
  shows "\<exists>cur' d'. allocateAllNeededBlocks cur add offs d = Some (cur', d') \<and>
    free_list d' (drop (length offs - length P) fs) \<and> indirect_walk offs cur' None d' = Some add \<and>
    same_except d d' ({FREE_LIST_BLOCK} \<union> set P \<union> set (take (length offs - length P) fs)) \<and>
    (P \<noteq> [] \<longrightarrow> cur' = cur)"
proof -
  obtain off rest where o: "offs = off # rest" using offs(1) by (cases offs) auto
  have ok: "disk_ok d" "meta_ok d" and dist: "distinct fs" and fs: "\<forall>x \<in> set fs. 16388 \<le> x \<and> blk_valid d x"
    using fl by (auto elim!: free_listE)
  show ?thesis
  proof (cases "list_all (\<lambda>off. off = 0) offs")
    case True
    then have P0: "P = []" using P old_path_zero by blast
    then obtain x fs' where x: "fs = x # fs'" using room o by (cases fs) auto
    obtain d1 where d1: "blockAlloc d = Some (x, d1)" "free_list d1 fs'"
      using blockAlloc_Cons fl x by blast
    obtain b2 where b2: "length b2 = BLOCK_SIZE" "d1 = put_block FREE_LIST_BLOCK b2 d"
      using blockAlloc_put [OF fl d1(1)] by blast
    have v: "disk_ok d1" "blk_valid d1 m = blk_valid d m" for m using ok b2 by (simp_all add: disk_simps)
    obtain bx where bx: "read_block x d1 = Some bx" using blk.get_valid [OF v(1), of x] v(2) fs x by auto
    have z: "old_path rest (makeFreeDiskListBlock bx ! nat off) d1 = []"
      using True o by (intro old_path_zero) simp
    have own': "owned d1 fs' x" using fs dist x v by (simp add: owned_def)
    from allocate_walk_ok [OF d1(2) own' bx _ _ _ z, of add] offs o room x P0
    obtain d' where d': "allocate_walk rest off x bx (makeFreeDiskListBlock bx) add d1 = Some d'"
      "free_list d' (drop (length rest) fs')" "indirect_walk offs x None d' = Some add"
      "same_except d1 d' ({FREE_LIST_BLOCK, x} \<union> set (take (length rest) fs'))" by auto
    have "x \<noteq> 0" using fs x by auto
    then have "allocateAllNeededBlocks cur add offs d = Some (x, d')"
      using True o d1(1) bx d'(1) by (simp add: allocateAllNeededBlocks_def allocateIfNeeded_def)
    moreover have "same_except d d1 {FREE_LIST_BLOCK}" using ok b2 by (simp add: same_except_put)
    then have "same_except d d' ({FREE_LIST_BLOCK} \<union> set P \<union> set (take (length offs - length P) fs))"
      by (rule same_except_trans [OF _ d'(4)]) (auto simp: o x P0)
    ultimately show ?thesis using d' x P0 o by simp
  next
    case False
    with P o have P1: "P = cur # (case read_block cur d of None \<Rightarrow> []
        | Some bx \<Rightarrow> old_path rest (makeFreeDiskListBlock bx ! nat off) d)" by auto
    then have own0: "owned d fs cur" using own by simp
    then obtain b where b: "read_block cur d = Some b" using blk.get_valid ok(1) by (auto simp: owned_def)
    define P' where "P' = old_path rest (makeFreeDiskListBlock b ! nat off) d"
    have PP: "P = cur # P'" using P1 b by (simp add: P'_def)
    have "\<exists>d'. allocate_walk rest off cur b (makeFreeDiskListBlock b) add d = Some d' \<and>
      free_list d' (drop (length rest - length P') fs) \<and> indirect_walk (off # rest) cur None d' = Some add \<and>
      same_except d d' ({FREE_LIST_BLOCK, cur} \<union> set P' \<union> set (take (length rest - length P') fs))"
      by (rule allocate_walk_ok [OF fl own0 b])
        (use offs o own room \<open>distinct P\<close> PP in \<open>auto simp: P'_def\<close>)
    then obtain d' where d': "allocate_walk rest off cur b (makeFreeDiskListBlock b) add d = Some d'"
      "free_list d' (drop (length rest - length P') fs)" "indirect_walk offs cur None d' = Some add"
      "same_except d d' ({FREE_LIST_BLOCK, cur} \<union> set P' \<union> set (take (length rest - length P') fs))"
      using o by blast
    have "allocateAllNeededBlocks cur add offs d = Some (cur, d')"
      using False o b d'(1) by (auto simp: allocateAllNeededBlocks_def allocateIfNeeded_def)
    moreover have "same_except d d' ({FREE_LIST_BLOCK} \<union> set P \<union> set (take (length offs - length P) fs))"
      using d'(4) PP o by (auto simp: same_except_def)
    ultimately show ?thesis using d' PP o by simp
  qed
qed

lemma old_path_frame:
  assumes "same_except d d' W" and "\<forall>y \<in> set (old_path offs x d). blk_valid d y \<and> y \<notin> W"
  shows "old_path offs x d' = old_path offs x d"
  using assms(2)
proof (induction offs arbitrary: x)
  case (Cons off offs)
  show ?case
  proof (cases "list_all (\<lambda>off. off = 0) (off # offs)")
    case False
    then have "read_block x d' = read_block x d"
      using assms(1) Cons.prems by (auto simp: same_except_def)
    moreover have "old_path offs (makeFreeDiskListBlock b ! nat off) d' = old_path offs (makeFreeDiskListBlock b ! nat off) d"
      if "read_block x d = Some b" for b
      using Cons.prems False that by (intro Cons.IH) auto
    ultimately show ?thesis using False by (auto split: option.split)
  qed simp
qed simp

section \<open>The block map of a file\<close>

text \<open>The disk block of block \<open>k\<close> of a file.\<close>

definition file_block :: "inCoreiNode \<Rightarrow> dsk \<Rightarrow> nat \<Rightarrow> size_t option" where
  "file_block i d k =
     do {
       b \<leftarrow> offset_of k;
       if offsetIndirection b = DIRECT then arr_get (dataBlockNums i) (offsets b ! 0)
       else indirect_walk (tree_path b) (dataBlockNums i ! (DIRECT_BLOCK_LIMIT + level_num (offsetIndirection b))) None d
     }"

lemma bmap_existing:
  assumes "off < isize i"
  shows "bmap i off resp mode d =
    do { n \<leftarrow> file_block i d (unat off div BLOCK_SIZE);
         Some (0, Some (createBMapResponse n (off mod BLOCK_SIZE)), i, d) }"
  using assms
  by (auto simp: bmap_def file_block_def calculateOffset_offset_of processAndGetDiskBlock_def tree_path_def Let_def
      intro!: arg_cong2 [where f = Option.bind] ext)

lemma bmap_partial:
  assumes "isize i mod BLOCK_SIZE \<noteq> 0"
  shows "bmap i (isize i) resp APPEND_MODE d =
    do { n \<leftarrow> file_block i d (unat (isize i) div BLOCK_SIZE);
         Some (0, Some (createBMapResponse n (isize i mod BLOCK_SIZE)), i, d) }"
  using assms
  by (auto simp: bmap_def file_block_def calculateOffset_offset_of processAndGetDiskBlock_def tree_path_def Let_def
      intro!: arg_cong2 [where f = Option.bind] ext)

lemma file_block_direct:
  "wf_inCore i \<Longrightarrow> k < 10 \<Longrightarrow> file_block i d k = Some (dataBlockNums i ! k)"
  by (simp add: file_block_def offset_of_def arr_get_def wf_inCore_def)

lemma bmap_beyond:
  assumes "isize i < off \<or> isize i \<le> off \<and> mode = READ_MODE"
  shows "bmap i off resp mode d = Some (- 1, resp, i, d)"
  using assms by (auto simp: bmap_def Let_def)

text \<open>
  Appending a block: \<open>bmap\<close> in append mode at the end of a file that fills its last block.  The
  free blocks \<open>fs\<close> give the data block and the indirect blocks that are still missing; the indirect
  blocks that are there belong to no free list and to one position each.
\<close>

definition grow_ok :: "inCoreiNode \<Rightarrow> dsk \<Rightarrow> size_t list \<Rightarrow> nat \<Rightarrow> bool" where
  "grow_ok i d fs k \<longleftrightarrow>
     (case offset_of k of
        None \<Rightarrow> False
      | Some b \<Rightarrow>
          let P = old_path (tree_path b) (dataBlockNums i ! (DIRECT_BLOCK_LIMIT + level_num (offsetIndirection b))) d
          in distinct P \<and> (\<forall>x \<in> set P. owned d fs x) \<and> length (tree_path b) < length P + length fs)"

lemma length_tree_path: "offset_of k = Some b \<Longrightarrow> length (tree_path b) = level_num (offsetIndirection b)"
  by (auto simp: offset_of_def tree_path_def split: if_splits)

lemma updateINodeMetadata_fields [simp]:
  "dataBlockNums (updateINodeMetadata i n l d) = dataBlockNums i"
  "isize (updateINodeMetadata i n l d) = isize i + of_c_int n"
  "linksCount (updateINodeMetadata i n l d) = l"
  "reference_count (updateINodeMetadata i n l d) = reference_count i"
  "inode_number (updateINodeMetadata i n l d) = inode_number i"
  by (simp_all add: updateINodeMetadata_def Let_def)

lemma of_c_int_0 [simp]: "of_c_int 0 = 0"
  by (simp add: of_c_int_def)

lemma insertDataBlockInINode_ok:
  assumes wf: "wf_inCore i" and size: "isize i mod BLOCK_SIZE = 0" and k: "unat (isize i) div BLOCK_SIZE = k"
    and fl: "free_list d fs" and b: "offset_of k = Some b"
    and P: "old_path (tree_path b) (dataBlockNums i ! (DIRECT_BLOCK_LIMIT + level_num (offsetIndirection b))) d = P"
      "distinct P" "\<forall>x \<in> set P. owned d fs x" "length (tree_path b) \<le> length P + length fs"
  shows "\<exists>i' d'. insertDataBlockInINode i new d = Some (i', d') \<and>
    free_list d' (drop (length (tree_path b) - length P) fs) \<and> file_block i' d' k = Some new \<and>
    isize i' = isize i \<and> wf_inCore i' \<and>
    (\<forall>j < 13. j \<noteq> (if k \<le> 9 then k else 9 + level_num (offsetIndirection b)) \<longrightarrow> dataBlockNums i' ! j = dataBlockNums i ! j) \<and>
    same_except d d' ({FREE_LIST_BLOCK} \<union> set P \<union> set (take (length (tree_path b) - length P) fs))"
proof (cases "offsetIndirection b = DIRECT")
  case True
  then have k9: "k \<le> 9" and o: "offsets b ! 0 = int k" "tree_path b = []"
    using b by (auto simp: offset_of_def tree_path_def split: if_splits)
  have "insertDataBlockInINode i new d = Some (i\<lparr> dataBlockNums := (dataBlockNums i)[k := new] \<rparr>, d)"
    using wf size b True k9 o
    by (simp add: insertDataBlockInINode_def calculateOffset_offset_of k Let_def updateIndex_def arr_set_def wf_inCore_def)
  moreover have "file_block (i\<lparr> dataBlockNums := (dataBlockNums i)[k := new] \<rparr>) d k = Some new"
    using wf b True o k9 by (simp add: file_block_def arr_get_def wf_inCore_def)
  ultimately show ?thesis
    using fl wf o k9 P(1) by (simp add: wf_inCore_def same_except_def)
next
  case False
  let ?l = "9 + level_num (offsetIndirection b)"
  have k9: "\<not> k \<le> 9" and l: "?l < 13" "level_num (offsetIndirection b) \<noteq> 0"
    using b False by (auto simp: offset_of_def split: if_splits)
  have ne: "tree_path b \<noteq> []" using length_tree_path [OF b] l by auto
  have rng: "\<forall>off \<in> set (tree_path b). 0 \<le> off \<and> off < 128" using tree_path_range [OF b] by blast
  obtain c d' where c: "allocateAllNeededBlocks (dataBlockNums i ! ?l) new (tree_path b) d = Some (c, d')"
    "free_list d' (drop (length (tree_path b) - length P) fs)" "indirect_walk (tree_path b) c None d' = Some new"
    "same_except d d' ({FREE_LIST_BLOCK} \<union> set P \<union> set (take (length (tree_path b) - length P) fs))"
    using allocateAllNeededBlocks_ok [OF fl ne rng P] by blast
  let ?i = "updateINodeMetadata (i\<lparr> dataBlockNums := (dataBlockNums i)[?l := c] \<rparr>) 0 (linksCount i) d'"
  have "insertDataBlockInINode i new d = Some (?i, d')"
    using size b False c(1)
    by (simp add: insertDataBlockInINode_def calculateOffset_offset_of k Let_def updateIndex_def tree_path_def)
  moreover have "file_block ?i d' k = Some new"
    using wf b False c(3) l by (simp add: file_block_def wf_inCore_def)
  ultimately show ?thesis
    using c wf k9 by (simp add: wf_inCore_def)
qed


lemma bmap_append:
  assumes wf: "wf_inCore i" and size: "isize i mod BLOCK_SIZE = 0" and k: "unat (isize i) div BLOCK_SIZE = k"
    and fl: "free_list d (new # fs)" and grow: "grow_ok i d (new # fs) k"
  shows "\<exists>i' d' fs'. bmap i (isize i) resp APPEND_MODE d = Some (0, Some (createBMapResponse new 0), i', d') \<and>
    free_list d' fs' \<and> set fs' \<subseteq> set fs \<and> file_block i' d' k = Some new \<and> isize i' = isize i \<and> wf_inCore i' \<and>
    (\<forall>j < 10. j \<noteq> k \<longrightarrow> file_block i' d' j = file_block i d j)"
proof -
  from grow obtain b where b: "offset_of k = Some b" by (auto simp: grow_ok_def split: option.splits)
  let ?slot = "dataBlockNums i ! (DIRECT_BLOCK_LIMIT + level_num (offsetIndirection b))"
  define P where "P = old_path (tree_path b) ?slot d"
  have P: "distinct P" "\<forall>x \<in> set P. owned d (new # fs) x" "length (tree_path b) \<le> length P + length fs"
    using grow b by (auto simp: grow_ok_def P_def Let_def)
  obtain d1 where d1: "blockAlloc d = Some (new, d1)" "free_list d1 fs" using blockAlloc_Cons fl by blast
  obtain b2 where b2: "length b2 = BLOCK_SIZE" "d1 = put_block FREE_LIST_BLOCK b2 d"
    using blockAlloc_put [OF fl d1(1)] by blast
  have ok: "disk_ok d" using fl by (auto elim!: free_listE)
  have sx: "same_except d d1 {FREE_LIST_BLOCK}" using ok b2 by (simp add: same_except_put)
  have P1: "old_path (tree_path b) ?slot d1 = P"
    unfolding P_def by (rule old_path_frame [OF sx]) (use P in \<open>auto simp: P_def [symmetric] owned_def\<close>)
  have own1: "\<forall>x \<in> set P. owned d1 fs x" using P(2) sx by (auto simp: owned_def same_except_def)
  from insertDataBlockInINode_ok [OF wf size k d1(2) b P1 P(1) own1 P(3), of new]
  obtain i' d' where i': "insertDataBlockInINode i new d1 = Some (i', d')"
    "free_list d' (drop (length (tree_path b) - length P) fs)" "file_block i' d' k = Some new"
    "isize i' = isize i" "wf_inCore i'"
    and nums: "\<forall>j < 13. j \<noteq> (if k \<le> 9 then k else 9 + level_num (offsetIndirection b)) \<longrightarrow>
      dataBlockNums i' ! j = dataBlockNums i ! j"
    by blast
  have "file_block i' d' j = file_block i d j" if "j < 10" "j \<noteq> k" for j
  proof -
    have "level_num (offsetIndirection b) \<noteq> 0" if "\<not> k \<le> 9" using that b by (auto simp: offset_of_def split: if_splits)
    then have "dataBlockNums i' ! j = dataBlockNums i ! j" using nums that by (cases "k \<le> 9") auto
    then show ?thesis using that wf i'(5) by (simp add: file_block_def offset_of_def arr_get_def wf_inCore_def)
  qed
  moreover have "bmap i (isize i) resp APPEND_MODE d = Some (0, Some (createBMapResponse new 0), i', d')"
    using size d1(1) i'(1) by (simp add: bmap_def Let_def)
  ultimately show ?thesis using i' set_drop_subset by fast
qed

section \<open>Properties\<close>

text \<open>
  C24. The arithmetic of \<open>calculateOffset\<close> on \<open>size_t\<close> and \<open>int\<close> agrees for every byte offset with the tree of ten
  direct, 128 single, 128 * 128 double and 128 * 128 * 128 triple indirect blocks: the level is the one block \<open>k\<close> of
  the file belongs to, the position it computes denotes block \<open>k\<close>, a direct index is below ten, each index into an
  indirect block is below 128, and an offset beyond the tree, and only such an offset, gets no position.
\<close>

theorem calculateOffset_correct:
  "case calculateOffset off of
     None \<Rightarrow> 10 + 128 + 128 * 128 + 128 * 128 * 128 \<le> unat off div BLOCK_SIZE
   | Some b \<Rightarrow> unat off div BLOCK_SIZE < 10 + 128 + 128 * 128 + 128 * 128 * 128 \<and>
       offsetIndirection b =
         (if unat off div BLOCK_SIZE < 10 then DIRECT
          else if unat off div BLOCK_SIZE < 10 + 128 then SINGLE_INDIRECT
          else if unat off div BLOCK_SIZE < 10 + 128 + 128 * 128 then DOUBLE_INDIRECT else TRIPLE_INDIRECT) \<and>
       tree_index b = int (unat off div BLOCK_SIZE) \<and>
       (if offsetIndirection b = DIRECT then offsets b ! 0 \<in> {0..<10} else offsets b ! 0 = - 1) \<and>
       set (tree_path b) \<subseteq> {0..<128} \<and> length (tree_path b) = level_num (offsetIndirection b)"
proof (cases "calculateOffset off")
  case None
  then show ?thesis by (simp add: calculateOffset_offset_of offset_of_def split: if_splits)
next
  case (Some b)
  then have b: "offset_of (unat off div BLOCK_SIZE) = Some b" by (simp add: calculateOffset_offset_of)
  have "set (tree_path b) \<subseteq> {0..<128}" using tree_path_range [OF b] by auto
  moreover have "length (tree_path b) = level_num (offsetIndirection b)" by (rule length_tree_path [OF b])
  moreover have "if offsetIndirection b = DIRECT then offsets b ! 0 \<in> {0..<10} else offsets b ! 0 = - 1"
    using b by (auto simp: offset_of_def split: if_splits)
  moreover have "unat off div BLOCK_SIZE < 10 + 128 + 128 * 128 + 128 * 128 * 128" and "offsetIndirection b =
      (if unat off div BLOCK_SIZE < 10 then DIRECT
       else if unat off div BLOCK_SIZE < 10 + 128 then SINGLE_INDIRECT
       else if unat off div BLOCK_SIZE < 10 + 128 + 128 * 128 then DOUBLE_INDIRECT else TRIPLE_INDIRECT)"
    using b by (auto simp: offset_of_def split: if_splits)
  ultimately show ?thesis unfolding Some option.case using tree_index_offset_of [OF b] by blast
qed

text \<open>
  C23. \<open>bmap\<close> in append mode at the end of a file that fills its last block takes the first free block, links it into
  the tree, with new indirect blocks where they are needed, and returns it: afterwards block \<open>k\<close> of the file
  is that block, the free list has lost it and at most the indirect blocks, the size is unchanged and the
  other direct blocks are where they were.
\<close>

theorem bmap_extends:
  assumes "wf_inCore i" and "isize i mod BLOCK_SIZE = 0" and "unat (isize i) div BLOCK_SIZE = k"
    and "free_list d (new # fs)" and "grow_ok i d (new # fs) k"
  shows "\<exists>i' d' fs'. bmap i (isize i) resp APPEND_MODE d = Some (0, Some (createBMapResponse new 0), i', d') \<and>
    free_list d' fs' \<and> set fs' \<subseteq> set fs \<and> file_block i' d' k = Some new \<and> isize i' = isize i \<and> wf_inCore i' \<and>
    (\<forall>j < 10. j \<noteq> k \<longrightarrow> file_block i' d' j = file_block i d j)"
  by (rule bmap_append [OF assms])

theorem bmap_extends_witness:
  "\<exists>i d i' d'. isize i = 10240 \<and> free_list d [16390, 16391, 16392] \<and>
     bmap i 10240 None APPEND_MODE d = Some (0, Some (createBMapResponse 16390 0), i', d') \<and>
     file_block i' d' 10 = Some 16390"
proof -
  let ?i = "inCoreiNode.make False 1 0 0 0 0 0 1 1 0 0 0 (replicate 13 0) False False 10240"
  obtain d where d: "free_list d [16390, 16391, 16392]" using free_list_exists [of "[16390, 16391, 16392]"] by auto
  have "wf_inCore ?i" "isize ?i = 10240" by (simp_all add: wf_inCore_def inCoreiNode.defs)
  moreover have "grow_ok ?i d [16390, 16391, 16392] 10"
    by (simp add: grow_ok_def offset_of_def tree_path_def old_path_zero)
  ultimately show ?thesis using bmap_extends [of ?i 10 d 16390 "[16391, 16392]" None] d by fastforce
qed

text \<open>
  C25. Inside a file \<open>bmap\<close> finds the disk block of the byte and the position in it, in both modes and without any
  change of the inode or the disk; the bytes left reach to the end of the block.
\<close>

theorem bmap_locates:
  assumes "off < isize i" and "file_block i d (unat off div BLOCK_SIZE) = Some n"
  shows "\<exists>r. bmap i off resp mode d = Some (0, Some r, i, d) \<and> blockNumber r = n \<and>
    unat (byteOffsetInBlock r) = unat off mod BLOCK_SIZE \<and>
    unat (byteOffsetInBlock r) + unat (bytesLeftInBlock r) = BLOCK_SIZE"
proof -
  have "off mod 1024 \<le> (1024 :: size_t)" by (rule less_imp_le [OF word_mod_less_divisor]) simp
  then have "unat (1024 - off mod 1024) = 1024 - unat (off mod 1024)" by (simp add: unat_sub)
  moreover have "unat (off mod 1024) < 1024" by (simp add: unat_mod_distrib)
  ultimately show ?thesis
    using assms by (simp add: bmap_existing createBMapResponse_def unat_mod_distrib)
qed

theorem bmap_locates_witness:
  "\<exists>i r. bmap i 3000 None READ_MODE blank_disk = Some (0, Some r, i, blank_disk) \<and> blockNumber r = 16402"
proof -
  let ?i = "inCoreiNode.make False 1 0 0 0 0 0 1 1 0 0 0 ([16400, 16401, 16402] @ replicate 10 0) False False 5000"
  have "wf_inCore ?i" by (simp add: wf_inCore_def inCoreiNode.defs)
  from file_block_direct [OF this, of 2] have "file_block ?i blank_disk 2 = Some 16402"
    by (simp add: inCoreiNode.defs)
  moreover have "isize ?i = 5000" by (simp add: inCoreiNode.defs)
  ultimately show ?thesis using bmap_locates [of 3000 ?i blank_disk 16402 None READ_MODE] by auto
qed

text \<open>
  Reading at or behind the end of a file and appending anywhere behind the end is refused with \<open>-1\<close>; the
  response, the inode and the disk stay as they are.
\<close>

lemma bmap_refuses:
  assumes "isize i < off \<or> isize i \<le> off \<and> mode = READ_MODE"
  shows "bmap i off resp mode d = Some (- 1, resp, i, d)"
  by (rule bmap_beyond [OF assms])

end
