(* ===== verification/FileBytes.thy ===== *)
theory FileBytes
  imports FileBlocks
begin

text \<open>
  The contents of a file as a sequence of bytes, and how it grows: \<open>file_bytes\<close> reads them through the tree of
  blocks, \<open>direct_file\<close> says that a file lies in its direct blocks, apart from the free list.  Regular files and
  directories both grow by \<open>append_piece\<close>.
\<close>

section \<open>A file as a sequence of bytes\<close>

text \<open>Block \<open>k\<close> of a file, read from the disk, and the bytes of the whole file.\<close>

definition file_blk :: "inCoreiNode \<Rightarrow> dsk \<Rightarrow> nat \<Rightarrow> disk_block" where
  "file_blk i d k = the (do { n \<leftarrow> file_block i d k; read_block n d })"

definition file_bytes :: "inCoreiNode \<Rightarrow> dsk \<Rightarrow> byte list" where
  "file_bytes i d = map (\<lambda>x. file_blk i d (x div BLOCK_SIZE) ! (x mod BLOCK_SIZE)) [0..<unat (isize i)]"

text \<open>Every block up to the size is in place, at any level of indirection.\<close>

definition file_ok :: "inCoreiNode \<Rightarrow> dsk \<Rightarrow> bool" where
  "file_ok i d \<longleftrightarrow> unat (isize i) < 2 ^ 63 \<and>
     (\<forall>k. BLOCK_SIZE * k < unat (isize i) \<longrightarrow>
       (\<exists>n b. file_block i d k = Some n \<and> read_block n d = Some b \<and> length b = BLOCK_SIZE))"

lemma length_file_bytes [simp]: "length (file_bytes i d) = unat (isize i)"
  by (simp add: file_bytes_def)

lemma file_block_cong: "dataBlockNums i = dataBlockNums j \<Longrightarrow> file_block i d k = file_block j d k"
  by (auto simp: file_block_def intro!: arg_cong2 [where f = Option.bind] ext)

lemma file_bytes_cong:
  assumes "dataBlockNums i = dataBlockNums j" and "isize i = isize j"
  shows "file_bytes i d = file_bytes j d"
  using file_block_cong [OF assms(1), of d] assms(2) by (simp add: file_bytes_def file_blk_def)

text \<open>A stretch of a file that lies in one block.\<close>

lemma same_block:
  fixes m j :: nat
  assumes "m mod BLOCK_SIZE + j < BLOCK_SIZE"
  shows "(m + j) div BLOCK_SIZE = m div BLOCK_SIZE \<and> (m + j) mod BLOCK_SIZE = m mod BLOCK_SIZE + j"
proof -
  have *: "(1024 * q + r) div 1024 = q \<and> (1024 * q + r) mod 1024 = r" if "r < 1024" for q r :: nat
    using that by simp
  have "m + j = 1024 * (m div 1024) + (m mod 1024 + j)" by simp
  with * [OF assms, of "m div 1024"] show ?thesis by metis
qed

lemma file_bytes_chunk:
  assumes "m + c \<le> unat (isize i)" and "m mod BLOCK_SIZE + c \<le> BLOCK_SIZE" and "length (file_blk i d (m div BLOCK_SIZE)) = BLOCK_SIZE"
  shows "take (m + c) (file_bytes i d) =
    take m (file_bytes i d) @ bytes_at (m mod BLOCK_SIZE) c (file_blk i d (m div BLOCK_SIZE))"
proof (rule nth_equalityI)
  show "length (take (m + c) (file_bytes i d)) =
      length (take m (file_bytes i d) @ bytes_at (m mod BLOCK_SIZE) c (file_blk i d (m div BLOCK_SIZE)))"
    using assms by simp
  fix x assume x: "x < length (take (m + c) (file_bytes i d))"
  show "take (m + c) (file_bytes i d) ! x =
      (take m (file_bytes i d) @ bytes_at (m mod BLOCK_SIZE) c (file_blk i d (m div BLOCK_SIZE))) ! x"
  proof (cases "x < m")
    case True
    then show ?thesis using assms(1) by (simp add: nth_append)
  next
    case False
    then obtain j where j: "x = m + j" "j < c" using x by (auto simp: not_less dest: le_Suc_ex)
    have "m mod 1024 + j < 1024" using j assms(2) by linarith
    then have "(m + j) div 1024 = m div 1024" "(m + j) mod 1024 = m mod 1024 + j" using same_block by blast+
    then show ?thesis using j assms by (simp add: nth_append file_bytes_def)
  qed
qed

text \<open>The size of the piece one iteration of reading or writing handles, from \<open>m\<close> up to \<open>L\<close>.\<close>

lemma unat_mod_block: "m < 2 ^ 64 \<Longrightarrow> unat (of_nat m mod BLOCK_SIZE :: size_t) = m mod BLOCK_SIZE"
  by (simp add: unat_mod_distrib unat_of_nat_small)

lemma unat_left_in_block:
  assumes "m < 2 ^ 64"
  shows "unat (BLOCK_SIZE - of_nat m mod BLOCK_SIZE :: size_t) = BLOCK_SIZE - m mod BLOCK_SIZE"
proof -
  have "m mod 1024 < 1024" by simp
  then show ?thesis using unat_mod_block [OF assms] by (subst unat_sub) (auto simp: word_le_nat_alt)
qed

lemma unat_of_nat_diff:
  assumes "m \<le> L" and "L < 2 ^ 64"
  shows "unat (of_nat L - of_nat m :: size_t) = L - m"
  using assms by (subst unat_sub) (auto simp: word_le_nat_alt unat_of_nat_small)

lemma unat_min: "unat (min a b) = min (unat a) (unat b)"
  by (simp add: min_def word_le_nat_alt)

section \<open>Reading\<close>

section \<open>Appending\<close>

text \<open>
  A file in its direct blocks, of which the first \<open>K\<close> are in place, on a disk whose free list is \<open>fs\<close>; the
  blocks are data blocks that are not free, each used once.
\<close>

definition direct_file :: "inCoreiNode \<Rightarrow> dsk \<Rightarrow> size_t list \<Rightarrow> nat \<Rightarrow> bool" where
  "direct_file i d fs K \<longleftrightarrow> wf_inCore i \<and> free_list d fs \<and> K \<le> 10 \<and> unat (isize i) \<le> BLOCK_SIZE * K \<and>
     distinct (take K (dataBlockNums i)) \<and> (\<forall>k < K. owned d fs (dataBlockNums i ! k))"

lemma direct_blk:
  assumes "direct_file i d fs K" and "k < K"
  shows "file_block i d k = Some (dataBlockNums i ! k)" "file_blk i d k = the (read_block (dataBlockNums i ! k) d)"
    "read_block (dataBlockNums i ! k) d = Some (file_blk i d k)" "length (file_blk i d k) = BLOCK_SIZE"
proof -
  have wf: "wf_inCore i" "k < 10" and own: "owned d fs (dataBlockNums i ! k)" and fl: "free_list d fs"
    using assms by (auto simp: direct_file_def)
  have "disk_ok d" using fl by (rule free_listE)
  then obtain b where b: "read_block (dataBlockNums i ! k) d = Some b" "length b = BLOCK_SIZE"
    using own blk.get_valid unfolding owned_def by blast
  show "file_block i d k = Some (dataBlockNums i ! k)" by (rule file_block_direct [OF wf])
  then show "file_blk i d k = the (read_block (dataBlockNums i ! k) d)"
    "read_block (dataBlockNums i ! k) d = Some (file_blk i d k)" "length (file_blk i d k) = BLOCK_SIZE"
    using b by (simp_all add: file_blk_def)
qed

lemma direct_file_ok:
  assumes "direct_file i d fs K"
  shows "file_ok i d"
proof -
  have "unat (isize i) \<le> 1024 * K" "K \<le> 10" using assms by (auto simp: direct_file_def)
  then show ?thesis using direct_blk [OF assms] by (auto simp: file_ok_def)
qed

lemma direct_file_put:
  assumes rep: "direct_file i d fs K" and k: "k < K" and len: "length b = BLOCK_SIZE"
    and i': "dataBlockNums i' = dataBlockNums i" "unat (isize i') \<le> BLOCK_SIZE * K"
  defines "d' \<equiv> put_block (dataBlockNums i ! k) b d"
  shows "direct_file i' d' fs K" and "\<And>j. j < K \<Longrightarrow> file_blk i' d' j = (if j = k then b else file_blk i d j)"
proof -
  have fl: "free_list d fs" and own: "\<forall>k < K. owned d fs (dataBlockNums i ! k)" and K: "K \<le> 10"
    and dist: "distinct (take K (dataBlockNums i))" and wf: "wf_inCore i" using rep by (auto simp: direct_file_def)
  have ok: "disk_ok d" using fl by (rule free_listE)
  have n: "dataBlockNums i ! k \<notin> set fs" "dataBlockNums i ! k \<noteq> 2" "blk_valid d (dataBlockNums i ! k)"
    using own k by (auto simp: owned_def)
  show rep': "direct_file i' d' fs K"
    using rep i' free_list_put [OF fl len n(1,2)] ok len
    by (auto simp: direct_file_def d'_def owned_def disk_simps wf_inCore_def)
  fix j assume j: "j < K"
  have "dataBlockNums i ! j = dataBlockNums i ! k \<longleftrightarrow> j = k"
    using nth_eq_iff_index_eq [OF dist, of j k] j k K wf by (simp add: wf_inCore_def)
  moreover have "blk_valid d (dataBlockNums i ! j)" using own j by (simp add: owned_def)
  ultimately show "file_blk i' d' j = (if j = k then b else file_blk i d j)"
    using direct_blk(2) [OF rep' j] direct_blk(2) [OF rep j] i'(1) n ok len by (simp add: d'_def disk_simps)
qed


text \<open>Writing a piece behind the end of the file, inside a block that is in place.\<close>

lemma append_chunk:
  assumes rep: "direct_file i d fs K" and m: "m = unat (isize i)" "m div BLOCK_SIZE < K"
    and c: "m mod BLOCK_SIZE + length c \<le> BLOCK_SIZE"
    and i': "dataBlockNums i' = dataBlockNums i" "isize i' = isize i + of_nat (length c)"
    and d': "d' = put_block (dataBlockNums i ! (m div BLOCK_SIZE))
      (memcpy_at (m mod BLOCK_SIZE) c (file_blk i d (m div BLOCK_SIZE))) d"
  shows "direct_file i' d' fs K" and "file_bytes i' d' = file_bytes i d @ c"
proof -
  let ?k = "m div 1024" and ?o = "m mod 1024"
  let ?b = "memcpy_at ?o c (file_blk i d ?k)"
  note blk = direct_blk [OF rep m(2)]
  have len: "length ?b = 1024" using c blk(4) by simp
  have mK: "m + length c \<le> 1024 * K"
  proof -
    have "m + length c \<le> 1024 * ?k + 1024" using c mult_div_mod_eq [of 1024 m] by linarith
    also have "\<dots> \<le> 1024 * K" using m(2) by simp
    finally show ?thesis .
  qed
  moreover have "K \<le> 10" using rep by (simp add: direct_file_def)
  ultimately have "m + length c < 2 ^ 64" by simp
  then have sz: "unat (isize i') = m + length c"
    using i'(2) m(1) by (simp add: unat_word_ariths unat_of_nat)
  then show "direct_file i' d' fs K"
    using direct_file_put(1) [OF rep m(2) len i'(1)] mK by (simp add: d')
  have bs: "\<And>j. j < K \<Longrightarrow> file_blk i' d' j = (if j = ?k then ?b else file_blk i d j)"
    using direct_file_put(2) [OF rep m(2) len i'(1)] mK sz by (simp add: d')
  show "file_bytes i' d' = file_bytes i d @ c"
  proof (rule nth_equalityI)
    show "length (file_bytes i' d') = length (file_bytes i d @ c)" using sz m(1) by simp
    fix x assume "x < length (file_bytes i' d')"
    then have x: "x < m + length c" using sz by simp
    have byte: "file_bytes i' d' ! x = file_blk i' d' (x div 1024) ! (x mod 1024)"
      using x sz by (simp add: file_bytes_def)
    show "file_bytes i' d' ! x = (file_bytes i d @ c) ! x"
    proof (cases "x < m")
      case True
      have kk: "x div 1024 \<le> ?k" using True by (simp add: div_le_mono)
      have "x mod 1024 < ?o" if "x div 1024 = ?k"
        using True that mult_div_mod_eq [of 1024 x] mult_div_mod_eq [of 1024 m] by linarith
      then have "file_blk i' d' (x div 1024) ! (x mod 1024) = file_blk i d (x div 1024) ! (x mod 1024)"
        using bs [of "x div 1024"] kk m(2) c blk(4) by (auto simp: nth_memcpy_at)
      then show ?thesis using byte True m(1) by (simp add: nth_append file_bytes_def)
    next
      case False
      then obtain j where j: "x = m + j" "j < length c" using x by (auto simp: not_less dest: le_Suc_ex)
      have "x div 1024 = ?k" "x mod 1024 = ?o + j" using same_block [of m j] j c by auto
      then show ?thesis using byte bs [of ?k] m j c blk(4) by (simp add: nth_append nth_memcpy_at)
    qed
  qed
qed

text \<open>Taking a new block for a file that fills its blocks.\<close>

lemma append_block:
  assumes rep: "direct_file i d (new # fs) K" and m: "unat (isize i) = BLOCK_SIZE * K" and K: "K < 10"
  defines "i' \<equiv> i\<lparr> dataBlockNums := (dataBlockNums i)[K := new] \<rparr>"
  shows "\<exists>d'. bmap i (isize i) resp APPEND_MODE d = Some (0, Some (createBMapResponse new 0), i', d') \<and>
    direct_file i' d' fs (Suc K) \<and> file_bytes i' d' = file_bytes i d \<and> same_except d d' {FREE_LIST_BLOCK}"
proof -
  have wf: "wf_inCore i" and fl: "free_list d (new # fs)" and own: "\<forall>k < K. owned d (new # fs) (dataBlockNums i ! k)"
    and dist: "distinct (take K (dataBlockNums i))" using rep by (auto simp: direct_file_def)
  obtain d1 where d1: "blockAlloc d = Some (new, d1)" "free_list d1 fs" using blockAlloc_Cons [OF fl] by blast
  obtain b where b: "length b = BLOCK_SIZE" "d1 = put_block FREE_LIST_BLOCK b d" using blockAlloc_put [OF fl d1(1)] by blast
  have ok: "disk_ok d" and nf: "distinct (new # fs)" "16388 \<le> new" "blk_valid d new" using fl by (auto elim!: free_listE)
  have size: "isize i mod 1024 = 0" using m by (simp add: word_unat_eq_iff unat_mod_distrib)
  have off: "calculateOffset (isize i) = Some \<lparr> offsets = [int K, - 1, - 1, - 1], offsetIndirection = DIRECT \<rparr>"
    using K m by (simp add: calculateOffset_offset_of offset_of_def)
  have "bmap i (isize i) resp APPEND_MODE d = Some (0, Some (createBMapResponse new 0), i', d1)"
    using size d1(1) off K wf
    by (simp add: bmap_def Let_def insertDataBlockInINode_def updateIndex_def arr_set_def wf_inCore_def i'_def)
  moreover have tk: "take (Suc K) (dataBlockNums i') = take K (dataBlockNums i) @ [new]"
    using wf K by (simp add: take_Suc_conv_app_nth wf_inCore_def i'_def)
  have new: "new \<notin> set (take K (dataBlockNums i))"
    using own wf K by (auto simp: owned_def in_set_conv_nth wf_inCore_def)
  have own1: "owned d1 fs (dataBlockNums i' ! k)" if "k < Suc K" for k
    using that own nf ok b K wf by (cases "k = K") (auto simp: owned_def disk_simps wf_inCore_def i'_def)
  have rep1: "direct_file i' d1 fs (Suc K)"
    using wf d1(2) K m tk new dist own1 by (auto simp: direct_file_def wf_inCore_def i'_def)
  moreover have "file_blk i' d1 k = file_blk i d k" if "k < K" for k
  proof -
    have "dataBlockNums i ! k \<noteq> 2" "blk_valid d (dataBlockNums i ! k)" using own that by (auto simp: owned_def)
    then show ?thesis using direct_blk(2) [OF rep that] direct_blk(2) [OF rep1, of k] that ok b
      by (simp add: disk_simps i'_def)
  qed
  then have "file_bytes i' d1 = file_bytes i d"
    using m by (auto simp: file_bytes_def div_less_iff_less_mult mult.commute i'_def)
  moreover have "same_except d d1 {FREE_LIST_BLOCK}" using ok b by (auto intro: same_except_put)
  ultimately show ?thesis by blast
qed

lemma sint_of_nat32:
  assumes "w < 2 ^ 31"
  shows "sint (of_nat w :: 32 word) = int w"
proof -
  have "uint (of_nat w :: 32 word) = int w" using assms by (simp add: uint_nat unat_of_nat)
  then show ?thesis using assms by (simp add: sint_uint signed_take_bit_small)
qed

lemma of_c_int_of_nat: "w < 2 ^ 31 \<Longrightarrow> of_c_int (of_nat w) = of_nat w"
  by (simp add: of_c_int_def scast_eq sint_of_nat32)

lemma to_c_int_of_nat: "w < 2 ^ 31 \<Longrightarrow> to_c_int (of_nat w) = of_nat w"
  by (simp add: to_c_int_def ucast_eq uint_nat unat_of_nat)

text \<open>The number of blocks that \<open>m\<close> bytes need.\<close>

definition blocks_for :: "nat \<Rightarrow> nat" where
  "blocks_for m = (m + 1023) div BLOCK_SIZE"

lemma blocks_for_eq:
  assumes "r < BLOCK_SIZE"
  shows "blocks_for (BLOCK_SIZE * q + r) = (if r = 0 then q else Suc q)"
proof (cases r)
  case (Suc r')
  then have "1024 * q + r + 1023 = 1024 * Suc q + r'" by simp
  then have "blocks_for (1024 * q + r) = (1024 * Suc q + r') div 1024" unfolding blocks_for_def by (rule arg_cong)
  with Suc assms show ?thesis by simp
qed (simp add: blocks_for_def)

lemma blocks_for_mod:
  "blocks_for m = (if m mod BLOCK_SIZE = 0 then m div BLOCK_SIZE else Suc (m div BLOCK_SIZE))"
  using blocks_for_eq [of "m mod 1024" "m div 1024"] by simp

lemma blocks_for_mono: "m \<le> n \<Longrightarrow> blocks_for m \<le> blocks_for n"
  by (simp add: blocks_for_def div_le_mono)

lemma blocks_for_step:
  assumes "0 < c" and "m mod BLOCK_SIZE + c \<le> BLOCK_SIZE"
  shows "blocks_for (m + c) = Suc (m div BLOCK_SIZE)"
proof (cases "m mod 1024 + c = 1024")
  case True
  have "m + c = 1024 * (m div 1024) + (m mod 1024 + c)" by simp
  then have "m + c = 1024 * Suc (m div 1024) + 0" using True by simp
  then show ?thesis using blocks_for_eq [of 0 "Suc (m div 1024)"] by simp
next
  case False
  then have "m mod 1024 + c < 1024" using assms by simp
  from blocks_for_eq [OF this, of "m div 1024"] assms show ?thesis by simp
qed

lemma block_below:
  assumes "x < m"
  shows "x div BLOCK_SIZE < blocks_for m"
proof -
  have "x + 1024 \<le> m + 1023" using assms by simp
  from div_le_mono [OF this, of 1024] show ?thesis by (simp add: blocks_for_def)
qed

lemma blocks_for_gt:
  assumes "m mod BLOCK_SIZE = 0" and "0 < c"
  shows "blocks_for m < blocks_for (m + c)"
proof -
  have "m + 1024 \<le> m + c + 1023" using assms(2) by simp
  from div_le_mono [OF this, of 1024] have "m div 1024 < blocks_for (m + c)" by (simp add: blocks_for_def)
  then show ?thesis using assms(1) by (simp add: blocks_for_mod [of m])
qed

text \<open>The position at the end of the file, in a new block if the last one is full.\<close>

lemma append_bmap:
  assumes rep: "direct_file i d fs (blocks_for m)" and m: "m = unat (isize i)" "m < 10240"
    and room: "m mod BLOCK_SIZE = 0 \<Longrightarrow> fs \<noteq> []"
  defines "i' \<equiv> (if m mod BLOCK_SIZE = 0 then i\<lparr> dataBlockNums := (dataBlockNums i)[m div BLOCK_SIZE := hd fs] \<rparr> else i)"
    and "fs' \<equiv> (if m mod BLOCK_SIZE = 0 then tl fs else fs)"
  shows "\<exists>d'. bmap i (isize i) resp APPEND_MODE d =
      Some (0, Some (createBMapResponse (dataBlockNums i' ! (m div BLOCK_SIZE)) (isize i mod BLOCK_SIZE)), i', d') \<and>
    direct_file i' d' fs' (Suc (m div BLOCK_SIZE)) \<and> file_bytes i' d' = file_bytes i d \<and> same_except d d' {FREE_LIST_BLOCK}"
proof (cases "m mod BLOCK_SIZE = 0")
  case True
  then have K: "blocks_for m = m div 1024" "m = 1024 * (m div 1024)" by (auto simp: blocks_for_mod)
  obtain new gs where fs: "fs = new # gs" using room [OF True] by (cases fs) auto
  have "isize i mod 1024 = 0" using True m(1) by (simp add: word_unat_eq_iff unat_mod_distrib)
  moreover have "unat (isize i) = 1024 * (m div 1024)" "m div 1024 < 10" using K(2) m(1,2) by simp_all
  then obtain d' where "bmap i (isize i) resp APPEND_MODE d = Some (0, Some (createBMapResponse new 0), i', d')"
    "direct_file i' d' gs (Suc (m div 1024))" "file_bytes i' d' = file_bytes i d" "same_except d d' {FREE_LIST_BLOCK}"
    using append_block [OF rep [unfolded fs K(1)], of resp] True fs by (auto simp: i'_def)
  moreover have "dataBlockNums i' ! (m div 1024) = new"
    using True fs rep m(2) by (auto simp: i'_def direct_file_def wf_inCore_def)
  ultimately show ?thesis using True fs by (intro exI [of _ d']) (simp add: fs'_def)
next
  case False
  then have K: "blocks_for m = Suc (m div 1024)" by (simp add: blocks_for_mod)
  have "isize i mod 1024 \<noteq> 0" using False m(1) by (simp add: word_unat_eq_iff unat_mod_distrib)
  then have "bmap i (isize i) resp APPEND_MODE d =
      Some (0, Some (createBMapResponse (dataBlockNums i ! (m div 1024)) (isize i mod 1024)), i, d)"
    using bmap_partial direct_blk(1) [OF rep, of "m div 1024"] K m(1) by simp
  then show ?thesis using False K rep by (intro exI [of _ d]) (simp add: i'_def fs'_def same_except_def)
qed

lemma updateINodeMetadata_append:
  assumes "c < 2 ^ 31"
  shows "isize (updateINodeMetadata i (to_c_int (of_nat c)) l d) = isize i + of_nat c"
  using assms by (simp add: to_c_int_of_nat of_c_int_of_nat)

lemma direct_file_cong:
  assumes "dataBlockNums i = dataBlockNums j" and "isize i = isize j"
  shows "direct_file i d fs K = direct_file j d fs K"
  using assms by (simp add: direct_file_def wf_inCore_def)

lemma file_ok_cong:
  assumes "dataBlockNums i = dataBlockNums j" and "isize i = isize j"
  shows "file_ok i d = file_ok j d"
  using file_block_cong [OF assms(1), of d] assms(2) by (simp add: file_ok_def)

section \<open>The effect of appending\<close>

text \<open>
  \<open>resized\<close>: only blocks, size, time of modification and the flags of an inode change.  \<open>appended\<close>: the bytes \<open>c\<close>
  were added to a file in direct blocks; the blocks this needs came off the front of the free list, and nothing
  outside the list and the blocks of the file was written.
\<close>

definition resized :: "inCoreiNode \<Rightarrow> inCoreiNode \<Rightarrow> bool" where
  "resized i i' \<longleftrightarrow> i' = i\<lparr> dataBlockNums := dataBlockNums i', isize := isize i', modification := modification i',
     inode_changed := inode_changed i', file_data_changed := file_data_changed i' \<rparr>"

definition file_blocks :: "inCoreiNode \<Rightarrow> size_t set" where
  "file_blocks i = set (take (blocks_for (unat (isize i))) (dataBlockNums i))"

definition direct :: "inCoreiNode \<Rightarrow> dsk \<Rightarrow> size_t list \<Rightarrow> bool" where
  "direct i d fs \<longleftrightarrow> direct_file i d fs (blocks_for (unat (isize i)))"

definition appended ::
    "inCoreiNode \<Rightarrow> dsk \<Rightarrow> size_t list \<Rightarrow> byte list \<Rightarrow> inCoreiNode \<Rightarrow> dsk \<Rightarrow> size_t list \<Rightarrow> bool" where
  "appended i d fs c i' d' fs' \<longleftrightarrow> direct i' d' fs' \<and> file_bytes i' d' = file_bytes i d @ c \<and> resized i i' \<and>
     (\<exists>new. fs = new @ fs' \<and> file_blocks i' = file_blocks i \<union> set new) \<and>
     length fs' + blocks_for (unat (isize i')) = length fs + blocks_for (unat (isize i)) \<and>
     same_except d d' (insert FREE_LIST_BLOCK (file_blocks i'))"

definition append_fits :: "inCoreiNode \<Rightarrow> size_t list \<Rightarrow> nat \<Rightarrow> bool" where
  "append_fits i fs n \<longleftrightarrow> unat (isize i) + n \<le> 10240 \<and>
     blocks_for (unat (isize i) + n) \<le> blocks_for (unat (isize i)) + length fs"

lemma resizedD:
  assumes "resized i i'"
  shows "iNodeMutex i' = iNodeMutex i" "reference_count i' = reference_count i" "inode_number i' = inode_number i"
    "linksCount i' = linksCount i" "itype i' = itype i" "file_mode i' = file_mode i" "owner_uid i' = owner_uid i"
    "group_uid i' = group_uid i"
  by (subst assms [unfolded resized_def], simp)+

lemma resized_refl [simp]: "resized i i"
  by (simp add: resized_def)

lemma resized_trans: "resized i j \<Longrightarrow> resized j k \<Longrightarrow> resized i k"
  unfolding resized_def by (cases i, cases j, cases k) simp

lemma resized_meta [simp]: "resized i (updateINodeMetadata j n (linksCount j) d) = resized i j"
  unfolding resized_def updateINodeMetadata_def by (cases i, cases j) (auto simp: Let_def)

lemma appended_Nil: "direct i d fs \<Longrightarrow> appended i d fs [] i d fs"
  by (simp add: appended_def same_except_def)

lemma appended_size:
  assumes "appended i d fs c i' d' fs'"
  shows "unat (isize i') = unat (isize i) + length c"
  using assms length_file_bytes [of i' d'] by (simp add: appended_def)

lemma append_fits_le:
  assumes "append_fits i fs n" and "m \<le> n"
  shows "append_fits i fs m"
proof -
  have "blocks_for (unat (isize i) + m) \<le> blocks_for (unat (isize i) + n)" using assms(2) by (intro blocks_for_mono) simp
  with assms show ?thesis by (simp add: append_fits_def)
qed

lemma append_fits_rest:
  assumes "appended i d fs c i' d' fs'" and "append_fits i fs (length c + n)"
  shows "append_fits i' fs' n"
proof -
  have "length fs' + blocks_for (unat (isize i')) = length fs + blocks_for (unat (isize i))"
    using assms(1) by (simp add: appended_def)
  then show ?thesis using assms(2) appended_size [OF assms(1)] by (simp add: append_fits_def add.assoc)
qed

lemma appended_trans:
  assumes "appended i d fs c i1 d1 fs1" and "appended i1 d1 fs1 c' i2 d2 fs2"
  shows "appended i d fs (c @ c') i2 d2 fs2"
proof -
  from assms obtain new new' where n: "fs = new @ fs1" "fs1 = new' @ fs2"
    "file_blocks i1 = file_blocks i \<union> set new" "file_blocks i2 = file_blocks i1 \<union> set new'"
    by (auto simp: appended_def)
  then have "same_except d d2 (insert FREE_LIST_BLOCK (file_blocks i2))"
    using assms by (auto simp: appended_def intro: same_except_trans)
  moreover have "\<exists>new. fs = new @ fs2 \<and> file_blocks i2 = file_blocks i \<union> set new"
    using n by (intro exI [of _ "new @ new'"]) auto
  ultimately show ?thesis using assms unfolding appended_def by (auto intro: resized_trans)
qed

text \<open>The lock of the inode plays no part in it.\<close>

lemma direct_mutex [simp]: "direct (i\<lparr> iNodeMutex := b \<rparr>) d fs = direct i d fs"
  unfolding direct_def using direct_file_cong [of "i\<lparr> iNodeMutex := b \<rparr>" i] by simp

lemma file_bytes_mutex [simp]: "file_bytes (i\<lparr> iNodeMutex := b \<rparr>) d = file_bytes i d"
  by (rule file_bytes_cong) simp_all

lemma append_fits_mutex [simp]: "append_fits (i\<lparr> iNodeMutex := b \<rparr>) fs n = append_fits i fs n"
  by (simp add: append_fits_def)

lemma appended_mutex:
  assumes "appended (i\<lparr> iNodeMutex := b \<rparr>) d fs c i' d' fs'"
  shows "appended i d fs c (i'\<lparr> iNodeMutex := iNodeMutex i \<rparr>) d' fs'"
proof -
  have "resized (i\<lparr> iNodeMutex := b \<rparr>) i'" using assms by (simp add: appended_def)
  then have "resized i (i'\<lparr> iNodeMutex := iNodeMutex i \<rparr>)" unfolding resized_def by (cases i, cases i') simp
  then show ?thesis using assms by (simp add: appended_def file_blocks_def)
qed

text \<open>Appending at most the rest of a block: what \<open>bmap\<close> returns, and the file once the piece is written there.\<close>

lemma append_piece:
  assumes rep: "direct i d fs" and m: "m = unat (isize i)" and fits: "append_fits i fs (length c)"
    and c: "0 < length c" "m mod BLOCK_SIZE + length c \<le> BLOCK_SIZE"
  obtains i1 d1 n b fs' where
    "bmap i (isize i) resp APPEND_MODE d = Some (0, Some (createBMapResponse n (isize i mod BLOCK_SIZE)), i1, d1)"
    and "resized i i1" and "isize i1 = isize i" and "read_block n d1 = Some b" and "length b = BLOCK_SIZE"
    and "disk_ok d1" and "blk_valid d1 n"
    and "\<And>i2 d2. resized i1 i2 \<Longrightarrow> dataBlockNums i2 = dataBlockNums i1 \<Longrightarrow> isize i2 = isize i + of_nat (length c) \<Longrightarrow>
      d2 = put_block n (memcpy_at (m mod BLOCK_SIZE) c b) d1 \<Longrightarrow> appended i d fs c i2 d2 fs'"
proof -
  let ?k = "m div 1024"
  let ?i = "if m mod 1024 = 0 then i\<lparr> dataBlockNums := (dataBlockNums i)[?k := hd fs] \<rparr> else i"
  let ?fs = "if m mod 1024 = 0 then tl fs else fs"
  note rep' = rep [unfolded direct_def, folded m]
  have m10: "m < 10240" using fits c(1) m by (cases c) (simp_all add: append_fits_def)
  have room: "m mod 1024 = 0 \<Longrightarrow> fs \<noteq> []"
    using fits c(1) blocks_for_gt [of m "length c"] m by (auto simp: append_fits_def)
  have K: "blocks_for (m + length c) = Suc ?k" by (rule blocks_for_step [OF c])
  obtain d1 where d1: "bmap i (isize i) resp APPEND_MODE d =
      Some (0, Some (createBMapResponse (dataBlockNums ?i ! ?k) (isize i mod 1024)), ?i, d1)"
    and rep1: "direct_file ?i d1 ?fs (Suc ?k)" and by1: "file_bytes ?i d1 = file_bytes i d"
    and se1: "same_except d d1 {FREE_LIST_BLOCK}"
    using append_bmap [OF rep' m m10 room, of resp] by blast
  have sz: "isize ?i = isize i" by simp
  have wf: "length (dataBlockNums i) = 13" "length (dataBlockNums ?i) = 13" and k10: "?k < 10"
    using rep' m10 by (auto simp: direct_file_def wf_inCore_def)
  have blk: "read_block (dataBlockNums ?i ! ?k) d1 = Some (file_blk ?i d1 ?k)" "length (file_blk ?i d1 ?k) = 1024"
    using direct_blk(3,4) [OF rep1] by auto
  have ok1: "disk_ok d1" "blk_valid d1 (dataBlockNums ?i ! ?k)"
    using rep1 by (auto simp: direct_file_def owned_def elim: free_listE)
  have fb: "\<exists>new. fs = new @ ?fs \<and> set (take (Suc ?k) (dataBlockNums ?i)) = file_blocks i \<union> set new"
  proof (cases "m mod 1024 = 0")
    case True
    then have "take (Suc ?k) (dataBlockNums ?i) = take ?k (dataBlockNums i) @ [hd fs]"
      using wf k10 by (simp add: take_Suc_conv_app_nth)
    then show ?thesis using True room [OF True] m
      by (intro exI [of _ "[hd fs]"]) (auto simp: file_blocks_def blocks_for_mod)
  qed (use m in \<open>simp add: file_blocks_def blocks_for_mod\<close>)
  have main: "appended i d fs c i2 d2 ?fs"
    if i2: "resized ?i i2" "dataBlockNums i2 = dataBlockNums ?i" "isize i2 = isize i + of_nat (length c)"
      and d2: "d2 = put_block (dataBlockNums ?i ! ?k) (memcpy_at (m mod 1024) c (file_blk ?i d1 ?k)) d1" for i2 d2
  proof -
    have "m = unat (isize ?i)" "isize i2 = isize ?i + of_nat (length c)" using m i2(3) sz by simp_all
    note ch = append_chunk [OF rep1 this(1) _ c(2) i2(2) this(2) d2]
    have by2: "file_bytes i2 d2 = file_bytes i d @ c" using ch(2) by1 by simp
    then have sz2: "unat (isize i2) = m + length c" using length_file_bytes [of i2 d2] m by simp
    have fb2: "file_blocks i2 = set (take (Suc ?k) (dataBlockNums ?i))" by (simp add: file_blocks_def sz2 K i2(2))
    have "dataBlockNums ?i ! ?k \<in> set (take (Suc ?k) (dataBlockNums ?i))" using wf k10 by (auto simp: in_set_conv_nth)
    moreover have "same_except d1 d2 {dataBlockNums ?i ! ?k}" using d2 c(2) blk(2) ok1 by (auto intro!: same_except_put)
    ultimately have "same_except d d2 (insert FREE_LIST_BLOCK (file_blocks i2))"
      using same_except_trans [OF se1] fb2 by (metis insert_is_Un insert_subset subset_insertI empty_subsetI insertCI)
    moreover have "resized i i2" using i2(1) by (rule resized_trans [rotated]) (simp add: resized_def)
    moreover have "length ?fs + Suc ?k = length fs + blocks_for m" using room by (simp add: blocks_for_mod)
    ultimately show ?thesis
      using ch(1) by2 fb fb2 K m sz2 unfolding appended_def direct_def by simp
  qed
  show thesis by (rule that [OF d1 _ sz blk ok1 main]) (simp add: resized_def)
qed

section \<open>Metadata and data\<close>

text \<open>
  A write of metadata outside the free list leaves files and free list alone; a write of data blocks and free
  list leaves the inodes alone.
\<close>

definition meta_step :: "dsk \<Rightarrow> dsk \<Rightarrow> bool" where
  "meta_step d d' \<longleftrightarrow> disk_ok d' \<and> same_except d d' {m. m < 16388 \<and> m \<noteq> FREE_LIST_BLOCK}"

definition data_step :: "dsk \<Rightarrow> dsk \<Rightarrow> bool" where
  "data_step d d' \<longleftrightarrow> disk_ok d' \<and> same_except d d' (insert FREE_LIST_BLOCK {m. 16388 \<le> m})"

lemma meta_step_trans: "meta_step d d1 \<Longrightarrow> meta_step d1 d2 \<Longrightarrow> meta_step d d2"
  unfolding meta_step_def by (auto intro: same_except_trans)

lemma meta_step_refl: "disk_ok d \<Longrightarrow> meta_step d d"
  by (simp add: meta_step_def same_except_def)

lemma meta_step_put:
  "disk_ok d \<Longrightarrow> length b = BLOCK_SIZE \<Longrightarrow> n < 16388 \<Longrightarrow> n \<noteq> FREE_LIST_BLOCK \<Longrightarrow> meta_step d (put_block n b d)"
  by (auto simp: meta_step_def disk_simps intro: same_except_put)

lemma meta_step_put_inode:
  assumes "meta_ok d" and "n < NUM_OF_INODES" and "wf_iNode i"
  shows "meta_step d (put_inode n i d)"
proof -
  obtain b where b: "read_block (iblk n) d = Some b" "length b = BLOCK_SIZE" using inode_block [OF assms(1,2)] .
  have "iblk n < 16388" "iblk n \<noteq> 2" using iblk_range [OF assms(2)] by auto
  moreover have "ioff n + 256 \<le> 1024" by (rule ioff_bound)
  ultimately show ?thesis unfolding put_inode_def b(1)
    using assms b(2) meta_okD(1) [OF assms(1)] by (intro meta_step_put) auto
qed

lemma free_chain_same:
  assumes "free_chain d nos xs" and "\<forall>x \<in> set xs. read_block x d' = read_block x d"
  shows "free_chain d' nos xs"
  using assms
proof (induction rule: free_chain.induct)
  case (last nos i ys j)
  then show ?case by (blast intro: free_chain.last)
next
  case (link nos i ys x b zs)
  then show ?case by (intro free_chain.link [of nos i ys x]) auto
qed

lemma meta_step_reads:
  assumes "meta_step d d'" and "blk_valid d m" and "16388 \<le> m \<or> m = FREE_LIST_BLOCK"
  shows "read_block m d' = read_block m d"
  using assms by (auto simp: meta_step_def same_except_def)

lemma meta_step_free_list:
  assumes st: "meta_step d d'" and fl: "free_list d fs"
  shows "free_list d' fs"
proof -
  from fl obtain b where b: "read_block FREE_LIST_BLOCK d = Some b" "free_chain d (makeFreeDiskListBlock b) fs"
    and ok: "meta_ok d" "distinct fs" and v: "\<forall>x \<in> set fs. 16388 \<le> x \<and> blk_valid d x"
    by (rule free_listE)
  have val: "blk_valid d' m = blk_valid d m" for m using st by (simp add: meta_step_def same_except_def)
  have "meta_ok d'" using ok(1) st val by (simp add: meta_ok_def meta_step_def)
  moreover have "free_chain d' (makeFreeDiskListBlock b) fs"
    by (rule free_chain_same [OF b(2)]) (use meta_step_reads [OF st] v in auto)
  moreover have "read_block FREE_LIST_BLOCK d' = Some b"
    using meta_step_reads [OF st, of FREE_LIST_BLOCK] meta_okD(4) [OF ok(1)] b(1) by simp
  ultimately show ?thesis using ok v val by (auto simp: free_list_def)
qed

lemma meta_step_direct:
  assumes st: "meta_step d d'" and rep: "direct i d fs"
  shows "direct i d' fs" and "file_bytes i d' = file_bytes i d"
proof -
  let ?K = "blocks_for (unat (isize i))"
  note rep = rep [unfolded direct_def]
  have val: "blk_valid d' m = blk_valid d m" for m using st by (simp add: meta_step_def same_except_def)
  have rep': "direct_file i d' fs ?K"
    using rep meta_step_free_list [OF st] val by (simp add: direct_file_def owned_def)
  then show "direct i d' fs" by (simp add: direct_def)
  have "file_blk i d' k = file_blk i d k" if "k < ?K" for k
    using direct_blk(2) [OF rep that] direct_blk(2) [OF rep' that] meta_step_reads [OF st, of "dataBlockNums i ! k"] rep that
    by (simp add: direct_file_def owned_def)
  moreover have "x div 1024 < ?K" if "x < unat (isize i)" for x
    by (rule block_below [OF that])
  ultimately show "file_bytes i d' = file_bytes i d" by (simp add: file_bytes_def)
qed

lemma data_step_inode:
  assumes "data_step d d'" and "meta_ok d" and "n < NUM_OF_INODES"
  shows "inode_at d' n = inode_at d n"
proof -
  have "iblk n < 16388" "iblk n \<noteq> 2" using iblk_range [OF assms(3)] by auto
  then have "read_block (iblk n) d' = read_block (iblk n) d"
    using assms(1) meta_okD(4) [OF assms(2)] by (simp add: data_step_def same_except_def not_le)
  then show ?thesis by (simp add: inode_at_def)
qed

lemma data_step_stack:
  assumes "data_step d d'" and "meta_ok d" and "inode_stack d xs"
  shows "inode_stack d' xs"
proof -
  have "read_block INODE_LIST_BLOCK d' = read_block INODE_LIST_BLOCK d"
    using assms(1) meta_okD(4) [OF assms(2)] by (auto simp: data_step_def same_except_def)
  then show ?thesis using assms(3) by (simp add: inode_stack_def)
qed

lemma appended_data_step:
  assumes "appended i d fs c i' d' fs'"
  shows "data_step d d'" and "meta_ok d'"
proof -
  have rep: "direct_file i' d' fs' (blocks_for (unat (isize i')))" and fl: "free_list d' fs'"
    and se: "same_except d d' (insert FREE_LIST_BLOCK (file_blocks i'))"
    using assms by (simp_all add: appended_def direct_def direct_file_def)
  show "meta_ok d'" using fl by (rule free_listE)
  have "file_blocks i' \<subseteq> {m. 16388 \<le> m}"
    using rep by (auto simp: file_blocks_def direct_file_def owned_def in_set_conv_nth wf_inCore_def)
  then show "data_step d d'" using se meta_okD(1) [OF \<open>meta_ok d'\<close>]
    by (auto simp: data_step_def same_except_def)
qed

lemma file_blocks_nth:
  assumes "direct i d fs"
  shows "x \<in> file_blocks i \<longleftrightarrow> (\<exists>k < blocks_for (unat (isize i)). x = dataBlockNums i ! k)"
  using assms by (auto simp: direct_def direct_file_def file_blocks_def in_set_conv_nth wf_inCore_def)

lemma direct_frame:
  assumes rep: "direct i d fs" and se: "same_except d d' W" and fl: "free_list d' fs'"
    and W: "file_blocks i \<inter> (W \<union> set fs') = {}"
  shows "direct i d' fs'" and "file_bytes i d' = file_bytes i d"
proof -
  let ?K = "blocks_for (unat (isize i))"
  note rep0 = rep [unfolded direct_def]
  have own: "owned d fs (dataBlockNums i ! k)" "dataBlockNums i ! k \<notin> W \<union> set fs'" if "k < ?K" for k
    using rep0 that W file_blocks_nth [OF rep] by (auto simp: direct_file_def)
  have rep': "direct_file i d' fs' ?K"
    using rep0 fl own se by (auto simp: direct_file_def owned_def same_except_def)
  then show "direct i d' fs'" by (simp add: direct_def)
  have "file_blk i d' k = file_blk i d k" if "k < ?K" for k
    using direct_blk(2) [OF rep0 that] direct_blk(2) [OF rep' that] own [OF that] se by (auto simp: same_except_def owned_def)
  then show "file_bytes i d' = file_bytes i d" using block_below by (simp add: file_bytes_def)
qed

text \<open>Appending to one file leaves a file with other blocks alone.\<close>

lemma appended_other:
  assumes app: "appended j d fs c j' d' fs'" and rep: "direct i d fs" and dj: "file_blocks i \<inter> file_blocks j = {}"
  shows "direct i d' fs'" and "file_bytes i d' = file_bytes i d"
proof -
  obtain new where new: "fs = new @ fs'" "file_blocks j' = file_blocks j \<union> set new" using app by (auto simp: appended_def)
  have i: "x \<notin> set fs" "x \<noteq> FREE_LIST_BLOCK" if "x \<in> file_blocks i" for x
    using that rep file_blocks_nth [OF rep] by (auto simp: direct_def direct_file_def owned_def)
  have fl: "free_list d' fs'" and se: "same_except d d' (insert FREE_LIST_BLOCK (file_blocks j'))"
    using app by (auto simp: appended_def direct_def direct_file_def)
  note fr = direct_frame [OF rep se fl]
  have "file_blocks i \<inter> (insert FREE_LIST_BLOCK (file_blocks j') \<union> set fs') = {}" using i new dj by auto
  then show "direct i d' fs'" "file_bytes i d' = file_bytes i d" using fr by auto
qed

text \<open>
  \<open>frames\<close>: a step that turns the disk \<open>d\<close> with free blocks \<open>fs\<close> into \<open>d'\<close> with free blocks \<open>fs'\<close> leaves every file
  alone that has none of the blocks \<open>W\<close>.
\<close>

definition frames :: "dsk \<Rightarrow> size_t list \<Rightarrow> size_t set \<Rightarrow> dsk \<Rightarrow> size_t list \<Rightarrow> bool" where
  "frames d fs W d' fs' \<longleftrightarrow> (\<forall>j. direct j d fs \<longrightarrow> file_blocks j \<inter> W = {} \<longrightarrow>
     direct j d' fs' \<and> file_bytes j d' = file_bytes j d)"

lemma framesD:
  assumes "frames d fs W d' fs'" and "direct j d fs" and "file_blocks j \<inter> W = {}"
  shows "direct j d' fs'" and "file_bytes j d' = file_bytes j d"
  using assms by (auto simp: frames_def)

lemma frames_refl: "frames d fs W d fs"
  by (simp add: frames_def)

lemma frames_trans:
  assumes "frames d fs W d1 fs1" and "frames d1 fs1 W' d2 fs2" and "W \<union> W' \<subseteq> V"
  shows "frames d fs V d2 fs2"
  unfolding frames_def
proof (intro allI impI)
  fix j assume j: "direct j d fs" "file_blocks j \<inter> V = {}"
  then have "file_blocks j \<inter> W = {}" "file_blocks j \<inter> W' = {}" using assms(3) by auto
  then show "direct j d2 fs2 \<and> file_bytes j d2 = file_bytes j d"
    using framesD [OF assms(1) j(1)] framesD [OF assms(2), of j] by simp
qed

lemma frames_meta: "meta_step d d' \<Longrightarrow> frames d fs W d' fs"
  using meta_step_direct by (auto simp: frames_def)

lemma frames_appended: "appended i d fs c i' d' fs' \<Longrightarrow> frames d fs (file_blocks i) d' fs'"
  using appended_other by (auto simp: frames_def)

lemma direct_not_free:
  assumes "direct i d fs" and "x \<in> file_blocks i"
  shows "x \<notin> set fs" and "16388 \<le> x" and "blk_valid d x"
  using assms(1) file_blocks_nth [OF assms(1), of x] assms(2) by (auto simp: direct_def direct_file_def owned_def)

text \<open>Which steps frame what.\<close>

lemma frames_same:
  assumes "same_except d d' (insert FREE_LIST_BLOCK W)" and "free_list d' fs'" and "set fs' \<subseteq> W \<union> set fs"
  shows "frames d fs W d' fs'"
  unfolding frames_def
proof (intro allI impI)
  fix j assume j: "direct j d fs" "file_blocks j \<inter> W = {}"
  have "x \<notin> set fs" "x \<noteq> FREE_LIST_BLOCK" if "x \<in> file_blocks j" for x using direct_not_free [OF j(1) that] by auto
  then have "file_blocks j \<inter> (insert FREE_LIST_BLOCK W \<union> set fs') = {}" using assms(3) j(2) by auto
  then show "direct j d' fs' \<and> file_bytes j d' = file_bytes j d" using direct_frame [OF j(1) assms(1,2)] by auto
qed

lemma meta_step_linked:
  assumes "meta_step d d'" and "meta_ok d"
  shows "free_list_linked d' = free_list_linked d"
  using meta_step_reads [OF assms(1), of FREE_LIST_BLOCK] meta_okD(4) [OF assms(2)] by (simp add: free_list_linked_def)

end
