(* ===== verification/Directory.thy ===== *)
theory Directory
  imports Mkfs IgetIput FileBytes
begin

text \<open>
  Directories and path names: \<open>src/trav/directory.c\<close>, \<open>src/trav/namei.c\<close> and \<open>src/utils/utils.c\<close>.

  A C string is the list of its bytes in front of the terminating zero.  Two things the code reads
  without having written them are parameters, collected in \<open>mem_env\<close>: the content \<open>malloc\<close> returns
  for a \<open>directoryEntry\<close>, and the bytes that follow a string in memory, of which
  \<open>addDirectoryEntry\<close> copies enough to fill the name field.
\<close>

section \<open>utils.c\<close>

type_synonym cstring = "byte list"

abbreviation (input) SLASH :: byte where "SLASH \<equiv> 47"

text \<open>The two parts of a path around its last \<open>/\<close>; without one \<open>strrchr\<close> returns \<open>NULL\<close>.\<close>

definition getParentDirectory :: "cstring \<Rightarrow> cstring option" where
  "getParentDirectory path =
     (if SLASH \<in> set path then Some (rev (dropWhile (\<lambda>b. b \<noteq> SLASH) (rev path))) else None)"

definition getFilenameFromPath :: "cstring \<Rightarrow> cstring option" where
  "getFilenameFromPath path =
     (if SLASH \<in> set path then Some (rev (takeWhile (\<lambda>b. b \<noteq> SLASH) (rev path))) else None)"

text \<open>\<open>strtok\<close>: the next token and the text after the delimiter that ends it.\<close>

definition strtok :: "byte list \<Rightarrow> cstring \<Rightarrow> (cstring \<times> cstring) option" where
  "strtok delimiter s =
     (case dropWhile (\<lambda>b. b \<in> set delimiter) s of
        [] \<Rightarrow> None
      | t \<Rightarrow> Some (takeWhile (\<lambda>b. b \<notin> set delimiter) t, drop 1 (dropWhile (\<lambda>b. b \<notin> set delimiter) t)))"

lemma strtok_shorter:
  "strtok delimiter s = Some (t, rest) \<Longrightarrow> length rest < length s"
  using length_dropWhile_le [of "\<lambda>b. b \<in> set delimiter" s]
  by (auto simp: strtok_def split: list.splits)
     (metis Suc_le_length_iff diff_le_self dual_order.trans le_imp_less_Suc length_dropWhile_le not_less_eq_eq order_less_le_trans)

function split_tokens :: "byte list \<Rightarrow> cstring \<Rightarrow> cstring list" where
  "split_tokens delimiter s =
     (case strtok delimiter s of None \<Rightarrow> [] | Some (token, rest) \<Rightarrow> token # split_tokens delimiter rest)"
  by pat_completeness auto
termination
  by (relation "measure (\<lambda>(_, s). length s)") (auto dest: strtok_shorter)

declare split_tokens.simps [simp del]

text \<open>Without a token the code passes \<open>NULL\<close> to \<open>strdup\<close>.\<close>

definition string_split :: "cstring \<Rightarrow> byte list \<Rightarrow> (int \<times> cstring list) option" where
  "string_split path delimiter =
     (case strtok delimiter path of
        None \<Rightarrow> None
      | Some (token, rest) \<Rightarrow>
          let tokens = token # split_tokens delimiter rest in Some (int (length tokens), tokens))"


section \<open>Directory entries\<close>

abbreviation (input) FILENAME_SIZE :: nat where "FILENAME_SIZE \<equiv> 62"
abbreviation (input) DIRECTORY_ENTRY_SIZE :: "'a::numeral" where "DIRECTORY_ENTRY_SIZE \<equiv> 64"
abbreviation (input) DIRECTORY_ENTRIES_IN_BLOCK :: "'a::numeral" where "DIRECTORY_ENTRIES_IN_BLOCK \<equiv> 16"

record directoryEntry =
  name :: "byte list"
  iNodeNum :: size_t

type_synonym directoryTable = "directoryEntry list"

record mem_env =
  fresh_entry :: directoryEntry
  after_string :: "cstring \<Rightarrow> nat \<Rightarrow> byte"

definition zero_entry :: directoryEntry where
  "zero_entry = \<lparr> name = replicate FILENAME_SIZE 0, iNodeNum = 0 \<rparr>"

text \<open>
  The two \<open>memcpy\<close> calls that fill an entry from the block: the name, and the low two bytes of the
  inode number.
\<close>

definition load_entry :: "nat \<Rightarrow> disk_block \<Rightarrow> directoryEntry \<Rightarrow> directoryEntry" where
  "load_entry ptr b e =
     e\<lparr> name := bytes_at ptr FILENAME_SIZE b,
        iNodeNum := memcpy_low (bytes_at (ptr + FILENAME_SIZE) INODE_ADDRESS_SIZE b) (iNodeNum e) \<rparr>"

text \<open>\<open>FILENAME_SIZE\<close> bytes from the start of a string on, its terminator and what follows included.\<close>

definition name_field :: "mem_env \<Rightarrow> cstring \<Rightarrow> byte list" where
  "name_field m s =
     map (\<lambda>k. if k < length s then s ! k else if k = length s then 0 else after_string m s (k - length s - 1))
       [0..<FILENAME_SIZE]"

text \<open>\<open>strcmp(mem, s) == 0\<close>; running off the end of the block is undefined.\<close>

fun strcmp_eq :: "byte list \<Rightarrow> cstring \<Rightarrow> bool option" where
  "strcmp_eq [] s = None"
| "strcmp_eq (b # bs) [] = Some (b = 0)"
| "strcmp_eq (b # bs) (c # cs) = (if b = c \<and> b \<noteq> 0 then strcmp_eq bs cs else Some (b = c \<and> b = 0))"

text \<open>The string in a name field; without a zero byte in it the reads go on behind the field.\<close>

definition field_string :: "byte list \<Rightarrow> cstring option" where
  "field_string f = (if 0 \<in> set f then Some (takeWhile (\<lambda>b. b \<noteq> 0) f) else None)"

section \<open>directory.c\<close>

primrec table_loop :: "nat \<Rightarrow> nat \<Rightarrow> disk_block \<Rightarrow> directoryEntry list \<Rightarrow> directoryEntry list" where
  "table_loop 0 counter b entries = entries"
| "table_loop (Suc n) counter b entries =
     table_loop n (counter + 1) b
       (entries[counter := load_entry (counter * DIRECTORY_ENTRY_SIZE) b (entries ! counter)])"

definition makeDirectoryTable :: "disk_block \<Rightarrow> directoryTable \<Rightarrow> directoryTable" where
  "makeDirectoryTable blockPtr theBlock = table_loop DIRECTORY_ENTRIES_IN_BLOCK 0 blockPtr theBlock"

text \<open>
  \<open>S_IXUSR != S_IXUSR\<close> is evaluated before \<open>&\<close>.
\<close>

definition validateSearch :: "inCoreiNode \<Rightarrow> int" where
  "validateSearch iNodePtr =
     (if file_mode iNodePtr AND 0xF000 \<noteq> S_IFDIR \<or>
         file_mode iNodePtr AND (if (0x40 :: mode_t) \<noteq> 0x40 then 1 else 0) \<noteq> 0
      then - 1 else 0)"

text \<open>
  The loop from \<open>counter\<close> on, with \<open>n\<close> rounds left.  \<open>lastEntry\<close> is \<open>None\<close> for \<open>NULL\<close>.  Result: \<open>counter\<close>,
  \<open>found\<close>, the entry buffer and the block.
\<close>

primrec search_block ::
    "nat \<Rightarrow> nat \<Rightarrow> nat \<Rightarrow> disk_block \<Rightarrow> cstring option \<Rightarrow> directoryEntry list \<Rightarrow> directoryEntry option \<Rightarrow>
     (nat \<times> nat \<times> directoryEntry list \<times> disk_block) option" where
  "search_block 0 counter ptr b entryName entryBuffer lastEntry = Some (counter, 0, entryBuffer, b)"
| "search_block (Suc n) counter ptr b entryName entryBuffer lastEntry =
     (case entryName of
        Some s \<Rightarrow> do {
          eq \<leftarrow> strcmp_eq (drop ptr b) s;
          if eq then
            if length b < ptr + DIRECTORY_ENTRY_SIZE then None
            else do {
              e \<leftarrow> arr_get entryBuffer 0;
              entryBuffer \<leftarrow> arr_set entryBuffer 0 (load_entry ptr b e);
              let b = (case lastEntry of
                         None \<Rightarrow> b
                       | Some le \<Rightarrow>
                           if iNodeNum le \<noteq> - 1
                           then memcpy_at (ptr + FILENAME_SIZE) (le_bytes INODE_ADDRESS_SIZE (iNodeNum le))
                                  (memcpy_at ptr (name le) b)
                           else b);
              Some (counter, 1, entryBuffer, b)
            }
          else search_block n (counter + 1) (ptr + DIRECTORY_ENTRY_SIZE) b entryName entryBuffer lastEntry
        }
      | None \<Rightarrow>
          if length b < ptr + DIRECTORY_ENTRY_SIZE then None
          else do {
            e \<leftarrow> arr_get entryBuffer (int counter);
            entryBuffer \<leftarrow> arr_set entryBuffer (int counter) (load_entry ptr b e);
            search_block n (counter + 1) (ptr + DIRECTORY_ENTRY_SIZE) b entryName entryBuffer lastEntry
          })"

definition searchBlockDirectoryEntries ::
    "disk_block \<Rightarrow> cstring option \<Rightarrow> nat \<Rightarrow> directoryEntry list \<Rightarrow> nat \<Rightarrow> directoryEntry option \<Rightarrow>
     (nat \<times> directoryEntry list \<times> disk_block) option" where
  "searchBlockDirectoryEntries blockPtr entryName off entryBuffer numOfEntries lastEntry =
     do {
       (counter, found, entryBuffer, b) \<leftarrow> search_block numOfEntries 0 off blockPtr entryName entryBuffer lastEntry;
       Some (if entryName = None then counter else found, entryBuffer, b)
     }"

definition checkInBlock ::
    "size_t \<Rightarrow> bmapResponse \<Rightarrow> cstring option \<Rightarrow> directoryEntry list \<Rightarrow> directoryEntry option \<Rightarrow> dsk \<Rightarrow>
     (nat \<times> directoryEntry list \<times> dsk) option" where
  "checkInBlock tillEndOfFile bmapResp entryName entryBuffer lastEntry d =
     do {
       blockPtr \<leftarrow> read_block (blockNumber bmapResp) d;
       let entriesInBlock =
         (if tillEndOfFile < bytesLeftInBlock bmapResp then tillEndOfFile div DIRECTORY_ENTRY_SIZE
          else bytesLeftInBlock bmapResp div DIRECTORY_ENTRY_SIZE);
       (retValue, entryBuffer, blockPtr) \<leftarrow> searchBlockDirectoryEntries blockPtr entryName
          (unat (byteOffsetInBlock bmapResp)) entryBuffer (unat entriesInBlock) lastEntry;
       let d = (case lastEntry of
                  None \<Rightarrow> d
                | Some le \<Rightarrow>
                    if iNodeNum le \<noteq> - 1 \<and> retValue = 1
                    then put_block (blockNumber bmapResp) blockPtr d else d);
       Some (retValue, entryBuffer, d)
     }"

text \<open>The early case does not return: the two \<open>memcpy\<close> calls at the end run in every case.\<close>

definition getLastEntry :: "inCoreiNode \<Rightarrow> directoryEntry \<Rightarrow> dsk \<Rightarrow> directoryEntry option" where
  "getLastEntry iNodePtr entry d =
     do {
       let entry = (if isize iNodePtr \<le> 2 * DIRECTORY_ENTRY_SIZE
                    then zero_entry\<lparr> iNodeNum := - 1 \<rparr> else entry);
       (_, bmapResp, _, _) \<leftarrow> bmap iNodePtr (isize iNodePtr - DIRECTORY_ENTRY_SIZE) None READ_MODE d;
       r \<leftarrow> bmapResp;
       data_block \<leftarrow> read_block (blockNumber r) d;
       if BLOCK_SIZE < unat (byteOffsetInBlock r) + DIRECTORY_ENTRY_SIZE then None
       else Some (load_entry (unat (byteOffsetInBlock r)) data_block entry)
     }"

text \<open>
  The loop: a directory of wrapped size could be walked for ever.  \<open>entryBuffer\<close> is the whole buffer;
  the block search gets the part from \<open>entriesReadTillNow\<close> on.
\<close>

partial_function (option) search_entries ::
    "inCoreiNode \<Rightarrow> cstring option \<Rightarrow> size_t \<Rightarrow> bmapResponse option \<Rightarrow> size_t \<Rightarrow> nat \<Rightarrow> directoryEntry list \<Rightarrow>
     directoryEntry option \<Rightarrow> dsk \<Rightarrow> (nat \<times> directoryEntry list \<times> dsk) option" where
  "search_entries iNodePtr entryName numOfEntries bmapResp directoryOffset entriesReadTillNow entryBuffer lastEntry d =
     (if entryName \<noteq> None \<or> entriesReadTillNow < unat numOfEntries then
        Option.bind (bmap iNodePtr directoryOffset bmapResp READ_MODE d)
          (\<lambda>(retValue, bmapResp, _, _).
             if retValue = - 1 then Some (entriesReadTillNow, entryBuffer, d)
             else Option.bind bmapResp (\<lambda>r.
               Option.bind (checkInBlock (isize iNodePtr - directoryOffset) r entryName
                              (drop entriesReadTillNow entryBuffer) lastEntry d)
                 (\<lambda>(entriesRead, part, d).
                    let entryBuffer = take entriesReadTillNow entryBuffer @ part in
                    if entryName \<noteq> None \<and> entriesRead = 1
                    then Some (entriesReadTillNow + entriesRead, entryBuffer, d)
                    else search_entries iNodePtr entryName numOfEntries bmapResp
                           (directoryOffset + DIRECTORY_ENTRIES_IN_BLOCK * DIRECTORY_ENTRY_SIZE)
                           (entriesReadTillNow + entriesRead) entryBuffer lastEntry d)))
      else Some (entriesReadTillNow, entryBuffer, d))"

definition searchINodeDirectoryEntries ::
    "mem_env \<Rightarrow> inCoreiNode \<Rightarrow> cstring option \<Rightarrow> size_t \<Rightarrow> directoryEntry list \<Rightarrow> size_t \<Rightarrow> bool \<Rightarrow> dsk \<Rightarrow>
     (int \<times> directoryEntry list \<times> dsk) option" where
  "searchINodeDirectoryEntries m iNodePtr entryName off entryBuffer numOfEntries forUnlink d =
     (if validateSearch iNodePtr = - 1 then Some (- 1, entryBuffer, d)
      else do {
        lastEntry \<leftarrow> (if forUnlink then map_option Some (getLastEntry iNodePtr (fresh_entry m) d) else Some None);
        (entriesRead, entryBuffer, d) \<leftarrow> search_entries iNodePtr entryName numOfEntries None
           (off * DIRECTORY_ENTRY_SIZE) 0 entryBuffer lastEntry d;
        Some (int entriesRead, entryBuffer, d)
      })"

definition addDirectoryEntry :: "mem_env \<Rightarrow> size_t \<Rightarrow> size_t \<Rightarrow> cstring \<Rightarrow> size_t \<Rightarrow> dsk \<Rightarrow> dsk option" where
  "addDirectoryEntry m blockNum blockOffset filename num d =
     do {
       blockPtr \<leftarrow> read_block blockNum d;
       if BLOCK_SIZE < unat blockOffset + DIRECTORY_ENTRY_SIZE then None
       else do {
         let b = memcpy_at (unat blockOffset) (name_field m filename) blockPtr;
         let b = memcpy_at (unat blockOffset + FILENAME_SIZE) (le_bytes INODE_ADDRESS_SIZE num) b;
         Some (put_block blockNum b d)
       }
     }"

text \<open>
  \<open>bmap\<close> on the inode at an address.  The last two functions end without a \<open>return\<close>; their callers
  do not use the value, which is \<open>None\<close> then.
\<close>

definition bmap_at ::
    "nat \<Rightarrow> size_t \<Rightarrow> bmapResponse option \<Rightarrow> bmapMode \<Rightarrow> fs \<Rightarrow> (int \<times> bmapResponse option \<times> fs) option" where
  "bmap_at p off response mode s =
     do {
       (r, response, i, d) \<leftarrow> bmap (core s p) off response mode (disk s);
       Some (r, response, upd_core p (\<lambda>_. i) (s\<lparr> disk := d \<rparr>))
     }"

definition updateINodeMetadata_at :: "nat \<Rightarrow> 32 word \<Rightarrow> size_t \<Rightarrow> fs \<Rightarrow> fs" where
  "updateINodeMetadata_at p sizeDifference linkCount s =
     upd_core p (\<lambda>i. updateINodeMetadata i sizeDifference linkCount (disk s)) s"

definition getAndUpdateDirectoryTable ::
    "mem_env \<Rightarrow> nat \<Rightarrow> size_t \<Rightarrow> cstring \<Rightarrow> fs \<Rightarrow> (int option \<times> fs) option" where
  "getAndUpdateDirectoryTable m parentINode newInodeNumber filename s =
     (if validateSearch (core s parentINode) = - 1 then Some (Some (- 1), s)
      else do {
        (retValue, bmapResp, s) \<leftarrow> bmap_at parentINode (isize (core s parentINode)) None APPEND_MODE s;
        if retValue = - 1 then Some (Some (- 1), s)
        else do {
          r \<leftarrow> bmapResp;
          s \<leftarrow> on_disk (addDirectoryEntry m (blockNumber r) (byteOffsetInBlock r) filename newInodeNumber) s;
          Some (None, updateINodeMetadata_at parentINode DIRECTORY_ENTRY_SIZE (linksCount (core s parentINode)) s)
        }
      })"

abbreviation (input) dot :: cstring where "dot \<equiv> [46]"
abbreviation (input) dotdot :: cstring where "dotdot \<equiv> [46, 46]"

definition updateNewDirMetaData :: "mem_env \<Rightarrow> nat \<Rightarrow> size_t \<Rightarrow> fs \<Rightarrow> (int option \<times> fs) option" where
  "updateNewDirMetaData m iNode parentINodeNumber s =
     do {
       (retValue, bmapResp, s) \<leftarrow> bmap_at iNode (isize (core s iNode)) None APPEND_MODE s;
       if retValue = - 1 then Some (Some (- 1), s)
       else do {
         r \<leftarrow> bmapResp;
         s \<leftarrow> on_disk (addDirectoryEntry m (blockNumber r) (byteOffsetInBlock r) dot
                (inode_number (core s iNode))) s;
         s \<leftarrow> on_disk (addDirectoryEntry m (blockNumber r) (byteOffsetInBlock r + DIRECTORY_ENTRY_SIZE) dotdot
                parentINodeNumber) s;
         Some (None, updateINodeMetadata_at iNode (2 * DIRECTORY_ENTRY_SIZE) 2 s)
       }
     }"

section \<open>namei.c\<close>

text \<open>
  Every character but the terminator is copied, whatever the tests say; \<open>isalnum\<close> is the C locale's.
  \<open>path\<close> is the string with its terminator and at least \<open>bufLen\<close> bytes.
\<close>

primrec check_loop :: "nat \<Rightarrow> nat \<Rightarrow> byte list \<Rightarrow> byte list \<Rightarrow> nat \<times> byte list" where
  "check_loop 0 counter path pathBuf = (counter, pathBuf)"
| "check_loop (Suc n) counter path pathBuf =
     (let pathBuf = pathBuf[counter := path ! counter];
          c = path ! counter
      in if (48 \<le> c \<and> c \<le> 57) \<or> (65 \<le> c \<and> c \<le> 90) \<or> (97 \<le> c \<and> c \<le> 122)
         then check_loop n (counter + 1) path pathBuf
         else if c = 95 \<or> c = 45 \<or> c = SLASH then check_loop n (counter + 1) path pathBuf
         else if c = 0 then (counter, pathBuf)
         else check_loop n (counter + 1) path pathBuf)"

definition checkAndGetLen :: "byte list \<Rightarrow> nat \<Rightarrow> byte list \<Rightarrow> nat \<times> byte list" where
  "checkAndGetLen path bufLen pathBuf =
     (let (counter, pathBuf) = check_loop bufLen 0 path pathBuf in (counter, pathBuf[counter := 0]))"

text \<open>\<open>retValue\<close> is a \<open>size_t\<close>: the test \<open>retValue <= 0\<close> holds only for 0.\<close>

definition operate :: "mem_env \<Rightarrow> cstring \<Rightarrow> nat \<Rightarrow> ptr \<Rightarrow> fs \<Rightarrow> (ptr \<times> fs) option" where
  "operate m path bufLen workingINode s =
     (if bufLen = 0 then Some (workingINode, s)
      else do {
        w \<leftarrow> workingINode;
        let workingBuffer = take bufLen path;
        (ret, entryBuffer, d) \<leftarrow>
          searchINodeDirectoryEntries m (core s w) (Some workingBuffer) 0 [zero_entry] 0 False (disk s);
        let s = s\<lparr> disk := d \<rparr>;
        let retValue = (word_of_int ret :: size_t);
        let num = iNodeNum (entryBuffer ! 0);
        (_, s) \<leftarrow> iput w s;
        if retValue \<le> 0 then Some (None, s) else iget num 0 s
      })"

definition processNextLevel :: "mem_env \<Rightarrow> cstring \<Rightarrow> ptr \<Rightarrow> fs \<Rightarrow> (int \<times> ptr \<times> fs) option" where
  "processNextLevel m path workingINode s =
     do {
       let endAt = length (takeWhile (\<lambda>c. c \<noteq> SLASH) path);
       (workingINode, s) \<leftarrow> operate m path endAt workingINode s;
       if workingINode = None then Some (- 1, workingINode, s)
       else if endAt = length path then Some (int endAt - 1, workingINode, s)
       else Some (int endAt, workingINode, s)
     }"

text \<open>The loop over the rest of the path, \<open>path + counter\<close>.\<close>

function walk_path :: "mem_env \<Rightarrow> cstring \<Rightarrow> ptr \<Rightarrow> fs \<Rightarrow> (ptr \<times> fs) option" where
  "walk_path m path workingINode s =
     (if path = [] then Some (workingINode, s)
      else do {
        (retValue, workingINode, s) \<leftarrow> processNextLevel m path workingINode s;
        if retValue = - 1 then Some (None, s)
        else walk_path m (drop (nat retValue + 1) path) workingINode s
      })"
  by pat_completeness auto
termination
  by (relation "measure (\<lambda>(_, path, _). length path)") auto

declare walk_path.simps [simp del]

text \<open>
  The copy made by \<open>checkAndGetLen\<close> is only printed.  The loop starts behind the first character,
  which for the empty path is behind the terminator.
\<close>

definition getFileINode :: "mem_env \<Rightarrow> cstring \<Rightarrow> fs \<Rightarrow> (ptr \<times> fs) option" where
  "getFileINode m path s =
     do {
       let (pathLen, pathBuffer) = checkAndGetLen (path @ [0]) (length path) (replicate (length path + 1) 0);
       (workingINode, s) \<leftarrow> iget 0 0 s;
       if path = [] then None else walk_path m (drop 1 path) workingINode s
     }"


section \<open>Lemmas: path names\<close>

lemma path_parts:
  assumes "SLASH \<in> set path"
  obtains dir fname where "getParentDirectory path = Some dir" and "getFilenameFromPath path = Some fname"
    and "path = dir @ fname" and "SLASH \<notin> set fname" and "dir \<noteq> []" and "last dir = SLASH"
proof -
  let ?P = "\<lambda>b. b \<noteq> SLASH"
  have ne: "dropWhile ?P (rev path) \<noteq> []" using assms by (auto simp: dropWhile_eq_Nil_conv)
  have "rev path = takeWhile ?P (rev path) @ dropWhile ?P (rev path)" by simp
  then have "path = rev (dropWhile ?P (rev path)) @ rev (takeWhile ?P (rev path))"
    by (metis rev_append rev_rev_ident)
  moreover have "SLASH \<notin> set (takeWhile ?P (rev path))" by (auto dest: set_takeWhileD)
  moreover have "last (rev (dropWhile ?P (rev path))) = SLASH"
    using hd_dropWhile [OF ne] ne by (simp add: last_rev)
  ultimately show ?thesis
    using that [of "rev (dropWhile ?P (rev path))" "rev (takeWhile ?P (rev path))"] assms ne
    by (simp add: getParentDirectory_def getFilenameFromPath_def)
qed

lemma check_loop_copy:
  assumes "0 \<notin> set path" and "n \<le> length path" and "length rest = Suc n"
  shows "check_loop n (length path - n) (path @ [0]) (take (length path - n) path @ rest) =
    (length path, path @ drop n rest)"
  using assms(2,3)
proof (induction n arbitrary: rest)
  case (Suc n)
  let ?c = "length path - Suc n"
  have c: "?c < length path" "length path - n = Suc ?c" using Suc.prems by auto
  have nz: "path ! ?c \<noteq> 0" using c(1) assms(1) by (metis nth_mem)
  obtain r rs where r: "rest = r # rs" "length rs = Suc n" using Suc.prems by (cases rest) auto
  have upd: "(take ?c path @ rest)[?c := path ! ?c] = take (Suc ?c) path @ rs"
    using c r by (simp add: list_update_append take_Suc_conv_app_nth)
  have "check_loop n (Suc ?c) (path @ [0]) (take (Suc ?c) path @ rs) = (length path, path @ drop n rs)"
    using Suc.IH [of rs] Suc.prems r c(2) by simp
  moreover have "(path @ [0]) ! ?c = path ! ?c" using c by (simp add: nth_append)
  ultimately show ?case using upd nz r by (simp add: Let_def)
qed simp

lemma checkAndGetLen_copies:
  assumes "0 \<notin> set path" and "length buf = Suc (length path)"
  shows "checkAndGetLen (path @ [0]) (length path) buf = (length path, path @ [0])"
  using check_loop_copy [OF assms(1) order_refl assms(2)] assms(2)
  by (cases "drop (length path) buf") (auto simp: checkAndGetLen_def list_update_append dest: arg_cong [where f = length])

text \<open>Resolving a path is looking up its components one after the other.\<close>

primrec resolve :: "mem_env \<Rightarrow> cstring list \<Rightarrow> ptr \<Rightarrow> fs \<Rightarrow> (ptr \<times> fs) option" where
  "resolve m [] w s = Some (w, s)"
| "resolve m (c # cs) w s =
     do {
       (w, s) \<leftarrow> operate m c (length c) w s;
       if w = None then Some (None, s) else resolve m cs w s
     }"

lemma operate_prefix: "operate m (c @ r) (length c) w s = operate m c (length c) w s"
  by (simp add: operate_def)

lemma split_tokens_Nil [simp]: "split_tokens dl [] = []"
  by (simp add: split_tokens.simps [of dl "[]"] strtok_def)

lemma split_tokens_delim: "split_tokens [x] (x # xs) = split_tokens [x] xs"
  by (subst (1 2) split_tokens.simps) (simp add: strtok_def)

lemma takeWhile_word:
  assumes "x \<notin> set c"
  shows "takeWhile (\<lambda>b. b \<noteq> x) (c @ x # xs) = c" "dropWhile (\<lambda>b. b \<noteq> x) (c @ x # xs) = x # xs"
    "takeWhile (\<lambda>b. b \<noteq> x) c = c" "dropWhile (\<lambda>b. b \<noteq> x) c = []"
  using assms by (induction c) auto

lemma split_tokens_word:
  assumes "c \<noteq> []" and "x \<notin> set c"
  shows "split_tokens [x] (c @ x # xs) = c # split_tokens [x] xs" "split_tokens [x] c = [c]"
proof -
  note tw = takeWhile_word [OF assms(2)]
  obtain y ys where c: "c = y # ys" "y \<noteq> x" using assms by (cases c) auto
  then have "strtok [x] (c @ x # xs) = Some (c, xs)" "strtok [x] c = Some (c, [])"
    using tw(1) [of xs] tw(2) [of xs] tw(3,4) by (simp_all add: strtok_def del: takeWhile_eq_all_conv dropWhile_eq_Nil_conv)
  then show "split_tokens [x] (c @ x # xs) = c # split_tokens [x] xs" "split_tokens [x] c = [c]"
    by (simp_all add: split_tokens.simps [of "[x]" "c @ x # xs"] split_tokens.simps [of "[x]" c])
qed

lemma walk_path_slash: "walk_path m (SLASH # r) (Some p) s = walk_path m r (Some p) s"
  by (simp add: walk_path.simps [of m "SLASH # r"] processNextLevel_def operate_def)

lemma walk_path_word:
  assumes "c \<noteq> []" and "SLASH \<notin> set c"
  shows "walk_path m (c @ SLASH # r) w s =
      do { (w, s) \<leftarrow> operate m c (length c) w s; if w = None then Some (None, s) else walk_path m r w s }"
    and "walk_path m c w s = do { (w, s) \<leftarrow> operate m c (length c) w s; Some (w, s) }"
proof -
  note tw = takeWhile_word [OF assms(2)]
  have "processNextLevel m (c @ SLASH # r) w s = do {
      (w, s) \<leftarrow> operate m c (length c) w s;
      Some (if w = None then - 1 else int (length c), w, s) }"
    using operate_prefix [of m c "SLASH # r" w s] tw(1) [of r]
    by (auto simp: processNextLevel_def Let_def intro!: arg_cong2 [where f = Option.bind] ext)
  then show "walk_path m (c @ SLASH # r) w s =
      do { (w, s) \<leftarrow> operate m c (length c) w s; if w = None then Some (None, s) else walk_path m r w s }"
    by (cases "operate m c (length c) w s")
      (auto simp: walk_path.simps [of m "c @ SLASH # r" w s] nat_add_distrib split: prod.splits)
  have "processNextLevel m c w s = do {
      (w, s) \<leftarrow> operate m c (length c) w s;
      Some (if w = None then - 1 else int (length c) - 1, w, s) }"
    unfolding processNextLevel_def tw(3) Let_def by (auto intro!: arg_cong2 [where f = Option.bind] ext)
  then show "walk_path m c w s = do { (w, s) \<leftarrow> operate m c (length c) w s; Some (w, s) }"
    using assms(1) by (cases "operate m c (length c) w s")
      (auto simp: walk_path.simps [of m c w s] walk_path.simps [of m "[]"] nat_diff_distrib split: prod.splits)
qed

lemma walk_path_resolve:
  "walk_path m path (Some p) s = resolve m (split_tokens [SLASH] path) (Some p) s"
proof (induction "length path" arbitrary: path p s rule: less_induct)
  case less
  show ?case
  proof (cases "SLASH \<in> set path")
    case False
    show ?thesis
    proof (cases "path = []")
      case True
      then show ?thesis by (simp add: walk_path.simps [of m "[]"])
    next
      case ne: False
      show ?thesis unfolding split_tokens_word(2) [OF ne False] walk_path_word(2) [OF ne False] resolve.simps
        by (cases "operate m path (length path) (Some p) s") auto
    qed
  next
    case True
    then obtain c r where c: "path = c @ SLASH # r" "SLASH \<notin> set c" by (meson split_list_first)
    then have IH: "walk_path m r (Some q) t = resolve m (split_tokens [SLASH] r) (Some q) t" for q t
      using less by simp
    show ?thesis
    proof (cases "c = []")
      case True
      then show ?thesis using c IH by (simp add: walk_path_slash split_tokens_delim)
    next
      case False
      show ?thesis
        unfolding c(1) split_tokens_word(1) [OF False c(2)] walk_path_word(1) [OF False c(2)] resolve.simps
        by (auto simp: IH intro!: arg_cong2 [where f = Option.bind] ext)
    qed
  qed
qed


lemma getFileINode_resolve:
  assumes "iget 0 0 s = Some (Some p, s1)"
  shows "getFileINode m (c # path) s = resolve m (split_tokens [SLASH] path) (Some p) s1"
  using assms by (simp add: getFileINode_def walk_path_resolve)

text \<open>
  The result \<open>-1\<close> of searching something that is no directory passes for a hit: the name resolves
  to inode 0, the root.
\<close>

lemma operate_not_directory:
  assumes "validateSearch (core s w) = - 1" and "n \<noteq> 0"
  shows "operate m path n (Some w) s = do { (_, s) \<leftarrow> iput w s; iget 0 0 s }"
  using assms by (simp add: operate_def searchINodeDirectoryEntries_def zero_entry_def Let_def)

lemma validateSearch_iff: "validateSearch i = - 1 \<longleftrightarrow> file_mode i AND 0xF000 \<noteq> S_IFDIR"
  by (simp add: validateSearch_def)

section \<open>Lemmas: entries of a directory block\<close>

text \<open>The name of the entry at a position, if its field holds a terminated string.\<close>

definition entry_name :: "disk_block \<Rightarrow> nat \<Rightarrow> cstring option" where
  "entry_name b ptr = field_string (bytes_at ptr FILENAME_SIZE b)"

definition entry_num :: "disk_block \<Rightarrow> nat \<Rightarrow> size_t" where
  "entry_num b ptr = le_word (bytes_at (ptr + FILENAME_SIZE) INODE_ADDRESS_SIZE b)"

lemma strcmp_eq_field:
  assumes "0 \<in> set f" and "0 \<notin> set s"
  shows "strcmp_eq (f @ rest) s = Some (takeWhile (\<lambda>b. b \<noteq> 0) f = s)"
  using assms
proof (induction f arbitrary: s)
  case (Cons b f)
  then show ?case by (cases s) auto
qed simp

lemma strcmp_eq_entry:
  assumes "entry_name b ptr = Some t" and "0 \<notin> set s"
  shows "strcmp_eq (drop ptr b) s = Some (t = s)"
proof -
  have "drop ptr b = bytes_at ptr 62 b @ drop 62 (drop ptr b)" by (simp only: bytes_at_def append_take_drop_id)
  then obtain rest where r: "drop ptr b = bytes_at ptr 62 b @ rest" by blast
  have "0 \<in> set (bytes_at ptr 62 b)" "takeWhile (\<lambda>b. b \<noteq> 0) (bytes_at ptr 62 b) = t"
    using assms(1) by (auto simp: entry_name_def field_string_def split: if_splits)
  then show ?thesis using strcmp_eq_field [of "bytes_at ptr 62 b" s rest] assms(2) r by simp
qed

text \<open>Searching a block finds the first entry with the name, and only such an entry.\<close>

lemma find_map: "find P (map f xs) = map_option f (find (\<lambda>x. P (f x)) xs)"
  by (induction xs) auto

lemma find_append: "find P (xs @ ys) = (case find P xs of None \<Rightarrow> find P ys | Some x \<Rightarrow> Some x)"
  by (induction xs) auto

text \<open>What a search for unlinking does to the block: the last entry of the directory takes the place of the one found.\<close>

definition with_last :: "directoryEntry option \<Rightarrow> nat \<Rightarrow> disk_block \<Rightarrow> disk_block" where
  "with_last lastEntry ptr b =
     (case lastEntry of
        None \<Rightarrow> b
      | Some le \<Rightarrow>
          if iNodeNum le \<noteq> - 1
          then memcpy_at (ptr + FILENAME_SIZE) (le_bytes INODE_ADDRESS_SIZE (iNodeNum le)) (memcpy_at ptr (name le) b)
          else b)"

definition save_last :: "directoryEntry option \<Rightarrow> size_t \<Rightarrow> disk_block \<Rightarrow> dsk \<Rightarrow> dsk" where
  "save_last lastEntry n b d =
     (case lastEntry of None \<Rightarrow> d | Some le \<Rightarrow> if iNodeNum le \<noteq> - 1 then put_block n b d else d)"

lemma with_last_None [simp]: "with_last None ptr b = b" and save_last_None [simp]: "save_last None n b d = d"
  by (simp_all add: with_last_def save_last_def)

lemma search_block_find:
  assumes names: "\<forall>i < n. \<exists>t. entry_name b (ptr + 64 * i) = Some t" and "0 \<notin> set s"
    and len: "ptr + 64 * n \<le> length b"
  shows "search_block n c ptr b (Some s) [e] le =
    (case find (\<lambda>i. entry_name b (ptr + 64 * i) = Some s) [0..<n] of
       None \<Rightarrow> Some (c + n, 0, [e], b)
     | Some i \<Rightarrow> Some (c + i, 1, [load_entry (ptr + 64 * i) b e], with_last le (ptr + 64 * i) b))"
  using names len
proof (induction n arbitrary: c ptr)
  case (Suc n)
  obtain t where t: "entry_name b ptr = Some t" using Suc.prems(1) by force
  have cmp: "strcmp_eq (drop ptr b) s = Some (t = s)" using strcmp_eq_entry [OF t assms(2)] .
  have up: "[0..<Suc n] = 0 # map Suc [0..<n]" by (simp add: map_Suc_upt upt_conv_Cons del: upt_Suc)
  show ?case
  proof (cases "t = s")
    case True
    then show ?thesis using cmp t Suc.prems(2) unfolding up by (simp add: arr_get_def arr_set_def with_last_def)
  next
    case False
    have "search_block n (c + 1) (ptr + 64) b (Some s) [e] le =
      (case find (\<lambda>i. entry_name b (ptr + 64 + 64 * i) = Some s) [0..<n] of
         None \<Rightarrow> Some (c + 1 + n, 0, [e], b)
       | Some i \<Rightarrow> Some (c + 1 + i, 1, [load_entry (ptr + 64 + 64 * i) b e], with_last le (ptr + 64 + 64 * i) b))"
    proof (rule Suc.IH)
      show "\<forall>i < n. \<exists>t. entry_name b (ptr + 64 + 64 * i) = Some t"
        using Suc.prems(1) by (metis Suc_less_eq add.assoc mult_Suc_right)
    qed (use Suc.prems in simp)
    moreover have "find (\<lambda>i. entry_name b (ptr + 64 * i) = Some s) [0..<Suc n] =
        map_option Suc (find (\<lambda>i. entry_name b (ptr + 64 + 64 * i) = Some s) [0..<n])"
      using False t unfolding up by (simp add: find_map add.assoc)
    ultimately show ?thesis using False cmp by (auto split: option.splits simp: add.assoc)
  qed
qed simp


section \<open>Lemmas: searching a directory\<close>

definition dir_block :: "inCoreiNode \<Rightarrow> dsk \<Rightarrow> nat \<Rightarrow> disk_block option" where
  "dir_block i d k = do { n \<leftarrow> file_block i d k; read_block n d }"

definition dir_name :: "inCoreiNode \<Rightarrow> dsk \<Rightarrow> nat \<Rightarrow> cstring option" where
  "dir_name i d g = do { b \<leftarrow> dir_block i d (g div 16); entry_name b (64 * (g mod 16)) }"

text \<open>A directory with \<open>n\<close> entries: its blocks are there and every entry has a terminated name.\<close>

definition dir_ok :: "inCoreiNode \<Rightarrow> dsk \<Rightarrow> nat \<Rightarrow> bool" where
  "dir_ok i d n \<longleftrightarrow> unat (isize i) = 64 * n \<and> 64 * n + 1024 < 2 ^ 64 \<and> validateSearch i \<noteq> - 1 \<and>
     (\<forall>k. 16 * k < n \<longrightarrow> (\<exists>b. dir_block i d k = Some b \<and> length b = BLOCK_SIZE)) \<and>
     (\<forall>g < n. \<exists>t. dir_name i d g = Some t)"

lemma checkInBlock_search:
  assumes "read_block (blockNumber r) d = Some b" and "length b = BLOCK_SIZE"
    and "byteOffsetInBlock r = 0" and "bytesLeftInBlock r = 1024"
    and "unat till = 64 * left" and "0 < left" and "0 \<notin> set s"
    and "\<forall>j < min 16 left. \<exists>t. entry_name b (64 * j) = Some t"
  shows "checkInBlock till r (Some s) [e] le d =
    (case find (\<lambda>j. entry_name b (64 * j) = Some s) [0..<min 16 left] of
       None \<Rightarrow> Some (0, [e], d)
     | Some j \<Rightarrow> Some (1, [load_entry (64 * j) b e], save_last le (blockNumber r) (with_last le (64 * j) b) d))"
proof -
  have n: "unat (if till < 1024 then till div 64 else (1024 :: size_t) div 64) = min 16 left"
    using assms(5) by (auto simp: unat_div word_less_nat_alt)
  have "search_block (min 16 left) 0 0 b (Some s) [e] le =
    (case find (\<lambda>j. entry_name b (0 + 64 * j) = Some s) [0..<min 16 left] of
       None \<Rightarrow> Some (0 + min 16 left, 0, [e], b)
     | Some j \<Rightarrow> Some (0 + j, 1, [load_entry (0 + 64 * j) b e], with_last le (0 + 64 * j) b))"
    by (rule search_block_find) (use assms in auto)
  then show ?thesis
    using assms(1-4) n by (auto simp: checkInBlock_def searchBlockDirectoryEntries_def Let_def save_last_def split: option.splits)
qed

lemma upt_shift: "[a..<a + n] = map ((+) a) [0..<n]"
  by (induction n) auto

text \<open>The blocks of a directory as the loop meets them.\<close>

lemma dir_block_step:
  assumes dir: "dir_ok i d n" and k: "16 * k < n"
  obtains b blk where "dir_block i d k = Some b" and "length b = BLOCK_SIZE" and "file_block i d k = Some blk" and "read_block blk d = Some b"
    and "\<And>resp. bmap i (of_nat (1024 * k)) resp READ_MODE d = Some (0, Some (createBMapResponse blk 0), i, d)"
    and "unat (isize i - of_nat (1024 * k)) = 64 * (n - 16 * k)"
    and "\<And>j. j < min 16 (n - 16 * k) \<Longrightarrow> entry_name b (64 * j) = dir_name i d (16 * k + j)"
proof -
  let ?off = "of_nat (1024 * k) :: size_t"
  have size: "unat (isize i) = 64 * n" "64 * n + 1024 < 2 ^ 64" using dir by (auto simp: dir_ok_def)
  have off: "unat ?off = 1024 * k" using size k by (intro unat_of_nat_small) linarith
  obtain b where b: "dir_block i d k = Some b" "length b = BLOCK_SIZE" using dir k by (auto simp: dir_ok_def)
  then obtain blk where blk: "file_block i d k = Some blk" "read_block blk d = Some b"
    by (auto simp: dir_block_def bind_Some_iff)
  have lt: "?off < isize i" using k off size by (simp add: word_less_nat_alt)
  have mod0: "?off mod 1024 = 0" using off by (simp add: word_unat_eq_iff unat_mod_distrib)
  have bm: "bmap i ?off resp READ_MODE d = Some (0, Some (createBMapResponse blk 0), i, d)" for resp
    using bmap_existing [OF lt] off blk(1) mod0 by simp
  have till: "unat (isize i - ?off) = 64 * (n - 16 * k)"
    using k off size lt by (simp add: unat_sub order.strict_implies_order diff_mult_distrib2)
  have nm: "entry_name b (64 * j) = dir_name i d (16 * k + j)" if "j < min 16 (n - 16 * k)" for j
    using that b(1) by (simp add: dir_name_def)
  show thesis by (rule that [OF b blk bm till nm])
qed

lemma search_entries_find:
  assumes dir: "dir_ok i d n" and s: "0 \<notin> set s" and k: "16 * k < n + 16"
  shows "search_entries i (Some s) m0 resp (of_nat (1024 * k)) 0 [e] le d =
    (case find (\<lambda>g. dir_name i d g = Some s) [16 * k..<n] of
       None \<Rightarrow> Some (0, [e], d)
     | Some g \<Rightarrow> Some (1, [load_entry (64 * (g mod 16)) (the (dir_block i d (g div 16))) e],
         save_last le (the (file_block i d (g div 16)))
           (with_last le (64 * (g mod 16)) (the (dir_block i d (g div 16)))) d))"
  using k
proof (induction "n - 16 * k" arbitrary: k resp rule: less_induct)
  case less
  have size: "unat (isize i) = 64 * n" "64 * n + 1024 < 2 ^ 64" using dir by (auto simp: dir_ok_def)
  have off: "unat (of_nat (1024 * k) :: size_t) = 1024 * k"
    using size less.prems by (intro unat_of_nat_small) linarith
  show ?case
  proof (cases "16 * k < n")
    case False
    then have "isize i \<le> of_nat (1024 * k)" using off size by (simp add: word_le_nat_alt)
    then show ?thesis
      using False by (simp add: search_entries.simps [of i "Some s"] bmap_beyond)
  next
    case True
    let ?off = "of_nat (1024 * k) :: size_t" and ?l = "n - 16 * k"
    obtain b blk where b: "dir_block i d k = Some b" "length b = BLOCK_SIZE" and blk: "file_block i d k = Some blk" "read_block blk d = Some b"
      and bmr: "\<And>resp. bmap i ?off resp READ_MODE d = Some (0, Some (createBMapResponse blk 0), i, d)"
      and till: "unat (isize i - ?off) = 64 * ?l" and nm: "\<And>j. j < min 16 ?l \<Longrightarrow> entry_name b (64 * j) = dir_name i d (16 * k + j)"
      using dir_block_step [OF dir True] by metis
    let ?r = "createBMapResponse blk 0"
    note bm = bmr [of resp]
    have names: "\<forall>j < min 16 ?l. \<exists>t. entry_name b (64 * j) = Some t"
      using nm dir by (auto simp: dir_ok_def)
    have ch: "checkInBlock (isize i - ?off) ?r (Some s) [e] le d =
      (case find (\<lambda>j. entry_name b (64 * j) = Some s) [0..<min 16 ?l] of
         None \<Rightarrow> Some (0, [e], d)
       | Some j \<Rightarrow> Some (1, [load_entry (64 * j) b e], save_last le (blockNumber ?r) (with_last le (64 * j) b) d))"
      by (rule checkInBlock_search) (use blk b till True s names in \<open>auto simp: createBMapResponse_def\<close>)
    have same: "find (\<lambda>g. dir_name i d g = Some s) [16 * k..<16 * k + min 16 ?l] =
        map_option ((+) (16 * k)) (find (\<lambda>j. entry_name b (64 * j) = Some s) [0..<min 16 ?l])"
    proof -
      have "[16 * k..<16 * k + min 16 ?l] = map ((+) (16 * k)) [0..<min 16 ?l]"
        by (rule upt_shift)
      moreover have "find (\<lambda>j. dir_name i d (16 * k + j) = Some s) [0..<min 16 ?l] =
          find (\<lambda>j. entry_name b (64 * j) = Some s) [0..<min 16 ?l]"
        by (rule find_cong) (use nm in auto)
      ultimately show ?thesis by (simp add: find_map)
    qed
    have up: "[16 * k..<n] = [16 * k..<16 * k + min 16 ?l] @ [16 * Suc k..<n]"
    proof (cases "16 \<le> ?l")
      case T: True
      then have "n = 16 * k + 16 + (n - 16 * k - 16)" by simp
      then show ?thesis using T upt_add_eq_append [of "16 * k" "16 * k + 16" "n - 16 * k - 16"]
        by (simp add: min_def add.commute)
    qed (use True in \<open>simp add: min_def\<close>)
    have fnd: "find (\<lambda>g. dir_name i d g = Some s) [16 * k..<n] =
      (case find (\<lambda>j. entry_name b (64 * j) = Some s) [0..<min 16 ?l] of
         None \<Rightarrow> find (\<lambda>g. dir_name i d g = Some s) [16 * Suc k..<n]
       | Some j \<Rightarrow> Some (16 * k + j))"
      unfolding up find_append same by (simp split: option.split)
    show ?thesis
    proof (cases "find (\<lambda>j. entry_name b (64 * j) = Some s) [0..<min 16 ?l]")
      case None
      have "of_nat (1024 * k) + 1024 = (of_nat (1024 * Suc k) :: size_t)" by simp
      then show ?thesis
        using None less.hyps [of "Suc k" "Some ?r"] True fnd ch bm
        by (subst search_entries.simps) (simp add: ac_simps)
    next
      case (Some j)
      then have "j < min 16 ?l" by (auto simp: find_Some_iff)
      then show ?thesis
        using Some fnd ch bm b(1) blk(1) by (subst search_entries.simps) (simp add: createBMapResponse_def)
    qed
  qed
qed


lemma search_directory:
  assumes "dir_ok i d n" and "0 \<notin> set s"
  shows "searchINodeDirectoryEntries m i (Some s) 0 [e] 0 False d =
    (case find (\<lambda>g. dir_name i d g = Some s) [0..<n] of
       None \<Rightarrow> Some (0, [e], d)
     | Some g \<Rightarrow> Some (1, [load_entry (64 * (g mod 16)) (the (dir_block i d (g div 16))) e], d))"
  using assms search_entries_find [OF assms, of 0 0 None e None]
  by (auto simp: searchINodeDirectoryEntries_def dir_ok_def split: option.splits)

lemma search_for_unlink:
  assumes "dir_ok i d n" and "0 \<notin> set s" and "getLastEntry i (fresh_entry m) d = Some le"
  shows "searchINodeDirectoryEntries m i (Some s) 0 [e] 0 True d =
    (case find (\<lambda>g. dir_name i d g = Some s) [0..<n] of
       None \<Rightarrow> Some (0, [e], d)
     | Some g \<Rightarrow> Some (1, [load_entry (64 * (g mod 16)) (the (dir_block i d (g div 16))) e],
         save_last (Some le) (the (file_block i d (g div 16)))
           (with_last (Some le) (64 * (g mod 16)) (the (dir_block i d (g div 16)))) d))"
  using assms search_entries_find [OF assms(1,2), of 0 0 None e "Some le"]
  by (auto simp: searchINodeDirectoryEntries_def dir_ok_def split: option.splits)

text \<open>The inode number of entry \<open>g\<close>, as a search delivers it into a zeroed entry.\<close>

definition dir_num :: "inCoreiNode \<Rightarrow> dsk \<Rightarrow> nat \<Rightarrow> size_t" where
  "dir_num i d g = iNodeNum (load_entry (64 * (g mod 16)) (the (dir_block i d (g div 16))) zero_entry)"

section \<open>Lemmas: adding an entry\<close>

definition put_entry :: "mem_env \<Rightarrow> nat \<Rightarrow> cstring \<Rightarrow> size_t \<Rightarrow> disk_block \<Rightarrow> disk_block" where
  "put_entry m off s num b =
     memcpy_at (off + FILENAME_SIZE) (le_bytes INODE_ADDRESS_SIZE num) (memcpy_at off (name_field m s) b)"

lemma length_name_field [simp]: "length (name_field m s) = FILENAME_SIZE"
  by (simp add: name_field_def)

lemma field_string_name_field:
  assumes "length s < FILENAME_SIZE" and "0 \<notin> set s"
  shows "field_string (name_field m s) = Some s"
proof -
  let ?f = "name_field m s"
  have z: "?f ! length s = 0" using assms(1) by (simp add: name_field_def)
  have "take (length s) ?f = s"
    by (rule nth_equalityI) (use assms(1) in \<open>auto simp: name_field_def\<close>)
  then have e: "?f = s @ 0 # drop (Suc (length s)) ?f"
    using id_take_nth_drop [of "length s" ?f] assms(1) z by simp
  have "takeWhile (\<lambda>b. b \<noteq> 0) ?f = s"
    by (subst e) (use takeWhile_word(1) [OF assms(2)] in simp)
  moreover have "0 \<in> set ?f" by (subst e) simp
  ultimately show ?thesis by (simp add: field_string_def)
qed

lemma length_put_entry [simp]: "off + 64 \<le> length b \<Longrightarrow> length (put_entry m off s num b) = length b"
  by (simp add: put_entry_def)

lemma put_entry_same:
  assumes "off + 64 \<le> length b" and "length s < FILENAME_SIZE" and "0 \<notin> set s"
  shows "entry_name (put_entry m off s num b) off = Some s"
    and "bytes_at (off + 62) 2 (put_entry m off s num b) = le_bytes 2 num"
  using assms field_string_name_field [OF assms(2,3)]
  by (simp_all add: entry_name_def put_entry_def bytes_at_memcpy_other)

lemma of_c_int_64: "of_c_int 64 = 64"
  by (simp add: of_c_int_def)

text \<open>A directory with one entry, \<open>a\<close>, to evaluate the operations on.\<close>

definition sample_env :: mem_env where
  "sample_env = \<lparr> fresh_entry = zero_entry, after_string = (\<lambda>_ _. 0) \<rparr>"

definition sample_dir :: inCoreiNode where
  "sample_dir = zero_inCore\<lparr> file_mode := S_IFDIR, dataBlockNums := (replicate 13 0)[0 := 16390], isize := 64 \<rparr>"

definition sample_disk :: dsk where
  "sample_disk = put_block 16390 (put_entry sample_env 0 [97] 5 (replicate BLOCK_SIZE 0)) blank_disk"

definition sample_fs :: fs where
  "sample_fs = \<lparr> cache = \<lparr> nodes = (\<lambda>_. zero_Node\<lparr> inode := sample_dir \<rparr>), freeList = None, hashQ = [] \<rparr>,
     disk = sample_disk, fileTable = [] \<rparr>"

lemma sample_dir_ok:
  "dir_ok sample_dir sample_disk 1" "dir_name sample_dir sample_disk 0 = Some [97]"
  "dir_num sample_dir sample_disk 0 = 5"
  "core sample_fs p = sample_dir" "disk sample_fs = sample_disk"
proof -
  let ?b = "put_entry sample_env 0 [97] 5 (replicate BLOCK_SIZE 0)"
  have wf: "wf_inCore sample_dir" by (simp add: wf_inCore_def sample_dir_def)
  have "file_block sample_dir sample_disk 0 = Some 16390"
    using file_block_direct [OF wf, of 0] by (simp add: sample_dir_def)
  then have b: "dir_block sample_dir sample_disk 0 = Some ?b"
    by (simp add: dir_block_def sample_disk_def disk_simps disk_ok_blank blk_valid_blank)
  have e: "entry_name ?b 0 = Some [97]" "bytes_at 62 2 ?b = le_bytes 2 (5 :: size_t)"
    using put_entry_same [of 0 "replicate BLOCK_SIZE 0" "[97]" sample_env 5] by simp_all
  show nm: "dir_name sample_dir sample_disk 0 = Some [97]" using b e by (simp add: dir_name_def)
  show "dir_num sample_dir sample_disk 0 = 5"
    using b e by (simp add: dir_num_def load_entry_def zero_entry_def memcpy_low_clean le_word_low2)
  have "validateSearch sample_dir \<noteq> - 1" by (simp add: validateSearch_iff sample_dir_def)
  then show "dir_ok sample_dir sample_disk 1" using b nm by (auto simp: dir_ok_def sample_dir_def)
  show "core sample_fs p = sample_dir" "disk sample_fs = sample_disk" by (simp_all add: sample_fs_def)
qed

section \<open>Properties\<close>

text \<open>
  A path with a slash is cut behind its last slash into the directory and the file name: the two parts are the
  path again, the name has no slash and the directory ends in one.
\<close>

lemma path_split:
  assumes "SLASH \<in> set path"
  shows "\<exists>dir fname. getParentDirectory path = Some dir \<and> getFilenameFromPath path = Some fname \<and>
    path = dir @ fname \<and> SLASH \<notin> set fname \<and> last dir = SLASH"
  using path_parts [OF assms] by metis

text \<open>
  C26. Searching a directory with \<open>n\<close> entries for a name, block after block, finds the first entry with that name and
  returns its inode number; without such an entry it returns 0 and leaves the caller's entry alone.  Nothing is
  written.
\<close>

theorem directory_search:
  assumes "dir_ok i d n" and "0 \<notin> set s"
  shows "searchINodeDirectoryEntries m i (Some s) 0 [e] 0 False d =
    (case find (\<lambda>g. dir_name i d g = Some s) [0..<n] of
       None \<Rightarrow> Some (0, [e], d)
     | Some g \<Rightarrow> Some (1, [load_entry (64 * (g mod 16)) (the (dir_block i d (g div 16))) e], d))"
  by (rule search_directory [OF assms])

theorem directory_search_witness:
  "searchINodeDirectoryEntries sample_env sample_dir (Some [98]) 0 [zero_entry] 0 False sample_disk = Some (0, [zero_entry], sample_disk) \<and>
   (\<exists>e. searchINodeDirectoryEntries sample_env sample_dir (Some [97]) 0 [zero_entry] 0 False sample_disk = Some (1, [e], sample_disk))"
  using directory_search [OF sample_dir_ok(1), of "[98]" sample_env zero_entry]
    directory_search [OF sample_dir_ok(1), of "[97]" sample_env zero_entry] sample_dir_ok(2)
  by auto

text \<open>
  C36. The loop of \<open>getFileINode\<close> over the characters of a path visits its components: it ends for every path and has the
  effect of resolving, one after the other, the non-empty names between slashes.
\<close>

theorem path_loop:
  "walk_path m path (Some p) s = resolve m (split_tokens [SLASH] path) (Some p) s"
  by (rule walk_path_resolve)

text \<open>
  A path component looked up in something that is not a directory resolves to the root: the search returns
  \<open>-1\<close>, which stored in a \<open>size_t\<close> passes the test \<open>retValue <= 0\<close>, and the number in the zeroed entry is 0.
\<close>

lemma file_as_directory:
  assumes "file_mode (core s w) AND 0xF000 \<noteq> S_IFDIR" and "c \<noteq> []"
  shows "operate m c (length c) (Some w) s = do { (_, s) \<leftarrow> iput w s; iget 0 0 s }"
  by (rule operate_not_directory) (use assms in \<open>simp_all add: validateSearch_iff\<close>)

end
