(* ===== verification/Namei.thy ===== *)
theory Namei
  imports Directory
begin

text \<open>
  What path resolution (\<open>getFileINode\<close> of \<open>src/trav/namei.c\<close>) promises, over the cache of
  \<open>iget\<close>/\<open>iput\<close> and the directories on the disk.

  \<open>idle s0 s\<close> says that \<open>s\<close> holds the files of \<open>s0\<close> with the same reference counts, \<open>held s0 s p n\<close> that in
  addition node \<open>p\<close> is one more reference to inode \<open>n\<close>.  The locale \<open>inode_handles\<close> is the contract between
  \<open>iget\<close>/\<open>iput\<close> and their clients in these terms; it is interpreted on the two functions.
  \<open>lookup_path\<close> is the specification of path resolution: a walk over the directory contents that the
  disk and the cache together hold.  The main lemma shows that \<open>getFileINode\<close> computes it and leaves
  every file and every other reference as it was.
\<close>

section \<open>States between operations\<close>

text \<open>
  A dirty node whose inode has no links would be overwritten by the next \<open>iget\<close> of it; \<open>settled\<close>
  excludes this.  \<open>spare\<close>: a node of the cache is free.
\<close>

definition settled :: "fs \<Rightarrow> bool" where
  "settled s \<longleftrightarrow> (\<forall>p < INODE_BUFFER_SIZE. dirty (core s p) \<longrightarrow> linksCount (core s p) \<noteq> 0)"

definition spare :: "fs \<Rightarrow> bool" where
  "spare s \<longleftrightarrow> (\<exists>p < INODE_BUFFER_SIZE. reference_count (core s p) = 0)"

definition same_files :: "fs \<Rightarrow> fs \<Rightarrow> bool" where
  "same_files s0 s \<longleftrightarrow> disk s = disk s0 \<and> fileTable s = fileTable s0 \<and>
     (\<forall>n < NUM_OF_INODES. inode_view s n = inode_view s0 n)"

text \<open>
  Node \<open>p\<close> is the referenced copy of inode \<open>n\<close>.  \<open>pinned\<close>: referenced nodes keep their inodes, so that pointers
  into the cache stay good.
\<close>

definition holds :: "fs \<Rightarrow> nat \<Rightarrow> size_t \<Rightarrow> bool" where
  "holds s p n \<longleftrightarrow> hashLookup n 0 (cache s) = Some (Some p) \<and> reference_count (core s p) \<noteq> 0"

definition pinned :: "fs \<Rightarrow> fs \<Rightarrow> bool" where
  "pinned s0 s \<longleftrightarrow> (\<forall>p n. holds s0 p n \<longrightarrow> holds s p n)"

definition idle :: "fs \<Rightarrow> fs \<Rightarrow> bool" where
  "idle s0 s \<longleftrightarrow> (\<exists>fl hq. cache_inv s fl hq \<and> coherent s hq) \<and> settled s \<and> spare s \<and>
     same_files s0 s \<and> pinned s0 s \<and> (\<forall>n. refs s n = refs s0 n \<and> refs s0 n \<noteq> SIZE_MAX)"

definition held :: "fs \<Rightarrow> fs \<Rightarrow> nat \<Rightarrow> size_t \<Rightarrow> bool" where
  "held s0 s p n \<longleftrightarrow> (\<exists>fl hq. cache_inv s fl hq \<and> coherent s hq \<and> p \<in> set hq) \<and> settled s \<and>
     same_files s0 s \<and> pinned s0 s \<and> n < NUM_OF_INODES \<and> getDiskINodeData (core s p) = inode_view s0 n \<and> inode_number (core s p) = n \<and>
     (\<forall>m. refs s m = (if m = n then refs s0 n + 1 else refs s0 m) \<and> refs s0 m \<noteq> SIZE_MAX) \<and>
     (if refs s0 n = 0 then \<not> dirty (core s p) else spare s)"

lemma lookup_node:
  assumes "cache_inv s fl hq"
  shows "hashLookup n 0 (cache s) = Some (Some p) \<longleftrightarrow> p \<in> set hq \<and> inode_number (core s p) = n"
proof
  assume "hashLookup n 0 (cache s) = Some (Some p)"
  then show "p \<in> set hq \<and> inode_number (core s p) = n"
    using hq.lookup_SomeD [OF cache_invD(2) [OF assms]] by (auto simp: node_key_core)
next
  assume "p \<in> set hq \<and> inode_number (core s p) = n"
  then show "hashLookup n 0 (cache s) = Some (Some p)" using hashLookup_member [OF assms] by auto
qed

lemma pinned_refl [simp]: "pinned s s"
  by (simp add: pinned_def)

lemma pinned_trans: "pinned s s1 \<Longrightarrow> pinned s1 s2 \<Longrightarrow> pinned s s2"
  by (simp add: pinned_def)

lemma holds_refs: "holds s p n \<Longrightarrow> refs s n = reference_count (core s p)"
  by (simp add: holds_def refs_def)

lemma holds_refs_nonzero: "holds s p n \<Longrightarrow> refs s n \<noteq> 0"
  using holds_refs [of s p n] by (simp add: holds_def)

lemma holds_unique: "holds s p n \<Longrightarrow> holds s q n \<Longrightarrow> p = q"
  by (simp add: holds_def)

lemma holds_step:
  assumes inv: "cache_inv s fl hq" and inv': "cache_inv s' fl' hq'" and st: "cache_step s s' p i fl'' hq''"
    and hq': "set hq' = insert p (set hq)" and h: "holds s q m"
    and same: "q = p \<Longrightarrow> inode_number i = m \<and> reference_count i \<noteq> 0"
  shows "holds s' q m"
proof -
  have q: "q \<in> set hq" "inode_number (core s q) = m" "reference_count (core s q) \<noteq> 0"
    using h lookup_node [OF inv] by (auto simp: holds_def)
  then have "q \<in> set hq'" "inode_number (core s' q) = m" "reference_count (core s' q) \<noteq> 0"
    using hq' same cache_stepD(1) [OF st, of q] by auto
  then show ?thesis using lookup_node [OF inv'] by (simp add: holds_def)
qed

lemma spare_room:
  assumes "cache_inv s fl hq" and "spare s"
  shows "fl \<noteq> []"
  using assms by (auto simp: cache_inv_def spare_def)

lemma iget_held:
  assumes idle: "idle s0 s" and n: "n < NUM_OF_INODES"
  shows "\<exists>p s'. iget n 0 s = Some (Some p, s') \<and> held s0 s' p n"
proof -
  obtain fl hq where inv: "cache_inv s fl hq" and co: "coherent s hq" and set: "settled s" and sp: "spare s"
    and same: "same_files s0 s" and refs: "\<And>m. refs s m = refs s0 m" "\<And>m. refs s0 m \<noteq> SIZE_MAX" and pin: "pinned s0 s"
    using idle by (auto simp: idle_def)
  have room: "fl \<noteq> [] \<or> (\<exists>p \<in> set hq. inode_number (core s p) = n)" using spare_room [OF inv sp] by simp
  have fit: "refs s n \<noteq> SIZE_MAX" using refs by metis
  have hq: "set hq \<subseteq> {..<32}" using inv by (simp add: cache_inv_def)
  then have "\<forall>p \<in> set hq. inode_number (core s p) = n \<longrightarrow> dirty (core s p) \<longrightarrow> linksCount (core s p) \<noteq> 0"
    using set by (auto simp: settled_def)
  then obtain p s' fl' hq' where s': "iget n 0 s = Some (Some p, s')" "cache_inv s' fl' hq'" "coherent s' hq'"
      "p \<in> set hq'" "getDiskINodeData (core s' p) = inode_view s n"
      "\<forall>m < NUM_OF_INODES. inode_view s' m = inode_view s m"
    using iget_transparent [OF inv co n room fit] by blast
  obtain i fl'' hq'' where i: "disk s' = disk s" "cache_step s s' p i fl'' hq''" "inode_number i = n"
      "reference_count i = refs s n + 1" "got s n hq p i" and i2: "cache_inv s' fl'' hq''" "set hq'' = insert p (set hq)"
    using iget_step [OF inv n room fit] s'(1) by auto
  note core = cache_stepD(1) [OF i(2)]
  have r: "refs s' m = (if m = n then refs s n + 1 else refs s m)" for m
    using iget_spec [OF inv n room fit] s'(1) by auto
  have clean: "\<not> dirty (core s q)" if "q < 32" "reference_count (core s q) = 0" for q
    using co that by (auto simp: coherent_def)
  have p: "p < 32" using i(5) hq by (auto simp: got_def)
  have i': "dirty i = dirty (core s p)" using i(5) by (auto simp: got_def taken_def)
  have links: "dirty i \<longrightarrow> linksCount i \<noteq> 0"
    using i(5) i' clean set p by (auto simp: got_def settled_def refreshed_def taken_def split: if_splits)
  have free: "reference_count (core s p) = refs s n"
    using i(5) refs_cached [OF inv] refs_uncached [OF inv] by (auto simp: got_def)
  have "refs s n + 1 \<noteq> 0" using fit by (metis add_eq_0_iff add.commute)
  then have "holds s' q m" if "holds s q m" for q m
    by (intro holds_step [OF inv i2(1) i(2) i2(2) that])
      (use that i(3-5) lookup_node [OF inv] in \<open>auto simp: holds_def got_def\<close>)
  then have "pinned s0 s'" using pin by (simp add: pinned_def)
  moreover have "settled s'" using set links by (auto simp: settled_def core)
  moreover have "spare s'" if "refs s0 n \<noteq> 0"
  proof -
    obtain q where q: "q < 32" "reference_count (core s q) = 0" using sp by (auto simp: spare_def)
    then have "q \<noteq> p" using that free refs by auto
    with q core show ?thesis by (auto simp: spare_def intro!: exI [of _ q])
  qed
  moreover have "\<not> dirty (core s' p)" if "refs s0 n = 0"
    using that free clean [OF p] i' core refs(1) by simp
  moreover have "same_files s0 s'"
    using same s'(6) i(1) cache_stepD(2) [OF i(2)] by (simp add: same_files_def)
  ultimately have "held s0 s' p n"
    using s'(2-5) same n i(3) r refs core unfolding held_def by (auto simp: same_files_def)
  with s'(1) show ?thesis by blast
qed

definition given_back :: "inCoreiNode \<Rightarrow> inCoreiNode" where
  "given_back i = (if reference_count i = 1 then released i else i\<lparr> reference_count := reference_count i - 1 \<rparr>)"

lemma iput_core:
  assumes inv: "cache_inv s fl hq" and p: "p \<in> set hq" and r: "0 < reference_count (core s p)"
    and keep: "linksCount (core s p) \<noteq> 0 \<or> inode_number (core s p) = 0"
    and out: "iput p s = Some (0, s')"
  shows "core s' q = (if q = p then given_back (core s p) else core s q)"
proof -
  have p32: "p < 32" using inv p by (auto simp: cache_inv_def)
  obtain s2 fl2 hq2 where "iput p s = Some (0, s2)" "cache_step s s2 p (given_back (core s p)) fl2 hq2"
  proof (cases "reference_count (core s p) = 1")
    case True
    with iput_last [OF inv p True keep] that show ?thesis by (auto simp: given_back_def)
  next
    case False
    have "reference_count (core s p) \<noteq> 0" using r by auto
    with iput_shared [OF inv p32 this False] that False show ?thesis by (auto simp: given_back_def)
  qed
  then show ?thesis using cache_stepD(1) out by auto
qed

lemma same_links: "getDiskINodeData i = x \<Longrightarrow> linksCount i = di_linksCount x"
  by (auto simp: getDiskINodeData_def)

lemma heldE:
  assumes "held s0 s p n"
  obtains fl hq where "cache_inv s fl hq" and "coherent s hq" and "p \<in> set hq" and "settled s"
    and "same_files s0 s" and "inode_number (core s p) = n" and "p < 32"
    and "reference_count (core s p) = refs s0 n + 1" and "0 < reference_count (core s p)" and "pinned s0 s"
proof -
  obtain fl hq where inv: "cache_inv s fl hq" and "coherent s hq" and p: "p \<in> set hq" and "settled s" and "pinned s0 s"
    and "same_files s0 s" and n: "inode_number (core s p) = n"
    and refs: "refs s n = refs s0 n + 1" "refs s0 n \<noteq> SIZE_MAX"
    using assms by (auto simp: held_def)
  moreover have "p < 32" using inv p by (auto simp: cache_inv_def)
  moreover have rp: "reference_count (core s p) = refs s0 n + 1" using refs_cached [OF inv p n] refs by simp
  moreover have "refs s0 n + 1 \<noteq> 0" using refs(2) by (metis add_eq_0_iff add.commute)
  ultimately show ?thesis using that by (simp add: word_neq_0_conv)
qed

text \<open>Giving a node back leaves a spare node, if only the node itself.\<close>

lemma spare_given_back:
  assumes held: "held s0 s p n" and i: "reference_count i = reference_count (core s p)"
    and core: "\<And>q. core s' q = (if q = p then given_back i else core s q)"
  shows "spare s'"
proof -
  obtain fl hq where p: "p < 32" "reference_count (core s p) = refs s0 n + 1" "0 < reference_count (core s p)"
    using held by (rule heldE)
  show ?thesis
  proof (cases "refs s0 n = 0")
    case True
    then show ?thesis using p i by (auto simp: spare_def core given_back_def released_def intro!: exI [of _ p])
  next
    case False
    then obtain q where q: "q < 32" "reference_count (core s q) = 0" using held by (auto simp: held_def spare_def)
    then have "q \<noteq> p" using p(3) by auto
    with q core show ?thesis by (auto simp: spare_def intro!: exI [of _ q])
  qed
qed

text \<open>A node given back is still held by those who held it before.\<close>

lemma pinned_given_back:
  assumes held: "held s0 s p n" and i: "reference_count i = reference_count (core s p)" "inode_number i = n"
    and core: "\<And>q. core s' q = (if q = p then given_back i else core s q)"
    and inv: "cache_inv s fl hq" and inv': "cache_inv s' fl' hq" and p: "p \<in> set hq"
  shows "pinned s0 s'"
  unfolding pinned_def
proof (intro allI impI)
  fix q m assume h0: "holds s0 q m"
  obtain fl1 hq1 where pin: "pinned s0 s" and r: "reference_count (core s p) = refs s0 n + 1" and pn: "inode_number (core s p) = n"
    using held by (rule heldE)
  have h: "holds s q m" using h0 pin by (simp add: pinned_def)
  then have q: "q \<in> set hq" "inode_number (core s q) = m" "reference_count (core s q) \<noteq> 0"
    using lookup_node [OF inv] by (auto simp: holds_def)
  have "refs s0 m \<noteq> 0" using h0 holds_refs [OF h0] by (simp add: holds_def)
  then have "inode_number (core s' q) = m" "reference_count (core s' q) \<noteq> 0"
    using q r pn i by (auto simp: core given_back_def)
  then show "holds s' q m" using q(1) lookup_node [OF inv'] by (simp add: holds_def)
qed

lemma iput_idle:
  assumes held: "held s0 s p n" and keep: "di_linksCount (inode_view s0 n) \<noteq> 0 \<or> n = 0"
  shows "\<exists>s'. iput p s = Some (0, s') \<and> idle s0 s'"
proof -
  obtain fl hq where inv: "cache_inv s fl hq" and co: "coherent s hq" and p: "p \<in> set hq" "p < 32"
    and set: "settled s" and same: "same_files s0 s" and n: "inode_number (core s p) = n"
    and r: "0 < reference_count (core s p)"
    using held by (rule heldE)
  have data: "getDiskINodeData (core s p) = inode_view s0 n"
    and refs: "\<And>m. refs s m = (if m = n then refs s0 n + 1 else refs s0 m)" "\<And>m. refs s0 m \<noteq> SIZE_MAX"
    and last: "refs s0 n = 0 \<longrightarrow> \<not> dirty (core s p)"
    using held by (auto simp: held_def split: if_splits)
  have k: "linksCount (core s p) \<noteq> 0 \<or> inode_number (core s p) = 0"
    using keep same_links [OF data] n by auto
  obtain s' fl' where s': "iput p s = Some (0, s')" "cache_inv s' fl' hq" "coherent s' hq"
      "\<forall>m < NUM_OF_INODES. inode_view s' m = inode_view s m"
    using iput_transparent [OF inv co p(1) r k] by blast
  have sp: "fileTable s' = fileTable s"
      "disk s' = (if refs s n = 1 then written_back (core s p) (disk s) else disk s)"
      "\<forall>m. refs s' m = (if m = n then refs s n - 1 else refs s m)"
    using iput_spec [OF inv p(1) r k] s'(1) n by auto
  have disk: "disk s' = disk s" using sp(2) last refs(1) [of n] by (auto simp: written_back_def)
  have core: "core s' q = (if q = p then given_back (core s p) else core s q)" for q
    by (rule iput_core [OF inv p(1) r k s'(1)])
  have "settled s'" using set p(2) by (auto simp: settled_def core given_back_def released_def)
  moreover have "pinned s0 s'" by (rule pinned_given_back [OF held refl n core inv s'(2) p(1)])
  moreover have "spare s'" by (rule spare_given_back [OF held refl core])
  ultimately show ?thesis using s' sp refs same disk by (auto simp: idle_def same_files_def)
qed

text \<open>
  A node that is held and then changed and marked dirty: the change shows in the view of its inode, and it
  survives \<open>iput\<close>, whether that writes it back or leaves it to other holders.
\<close>

definition changed_files :: "fs \<Rightarrow> size_t \<Rightarrow> iNode \<Rightarrow> fs \<Rightarrow> bool" where
  "changed_files s0 n x s \<longleftrightarrow> (\<exists>fl hq. cache_inv s fl hq \<and> coherent s hq) \<and> settled s \<and> spare s \<and>
     (\<forall>m < NUM_OF_INODES. inode_view s m = (if m = n then x else inode_view s0 m)) \<and>
     (\<forall>m. refs s m = refs s0 m) \<and> fileTable s = fileTable s0 \<and> pinned s0 s \<and>
     (disk s = disk s0 \<or> disk s = put_inode n x (disk s0))"

lemma modify_inv:
  assumes inv: "cache_inv s fl hq" and p: "p \<in> set hq"
    and i: "inode_number i = inode_number (core s p)" "reference_count i = reference_count (core s p)"
      "iNodeMutex i = iNodeMutex (core s p)" "wf_inCore i"
  shows "cache_step s (upd_core p (\<lambda>_. i) s) p i fl hq" and "cache_inv (upd_core p (\<lambda>_. i) s) fl hq"
proof -
  have p32: "p < 32" using inv p by (auto simp: cache_inv_def)
  show st: "cache_step s (upd_core p (\<lambda>_. i) s) p i fl hq"
    using inv by (auto simp: cache_step_def cache_inv_def fun_eq_iff)
  have "\<forall>q \<in> set hq - {p}. inode_number (core s q) \<noteq> inode_number i"
    using inv p i(1) by (auto simp: cache_inv_def inj_on_def node_key_core)
  moreover have "p \<in> set fl \<longleftrightarrow> reference_count i = 0" "inode_number i < NUM_OF_INODES" "\<not> iNodeMutex i"
      "numbered (disk s)"
    using inv p p32 i by (auto simp: cache_inv_def node_key_core)
  ultimately show "cache_inv (upd_core p (\<lambda>_. i) s) fl hq"
    by (intro cache_inv_step [OF inv st p32]) (use i(4) p in \<open>auto\<close>)
qed

lemma iput_changed:
  assumes held: "held s0 s p n"
    and i: "inode_number i = n" "reference_count i = reference_count (core s p)"
      "iNodeMutex i = iNodeMutex (core s p)" "wf_inCore i" "dirty i" "linksCount i \<noteq> 0 \<or> n = 0 \<and> refs s0 n = 0"
  shows "\<exists>s'. iput p (upd_core p (\<lambda>_. i) s) = Some (0, s') \<and> changed_files s0 n (getDiskINodeData i) s'"
proof -
  let ?s = "upd_core p (\<lambda>_. i) s"
  obtain fl hq where inv: "cache_inv s fl hq" and co: "coherent s hq" and p: "p \<in> set hq" and p32: "p < 32"
    and set: "settled s" and same: "same_files s0 s" and n: "inode_number (core s p) = n"
    and rp: "reference_count (core s p) = refs s0 n + 1" "0 < reference_count (core s p)"
    using held by (rule heldE)
  have n': "n < NUM_OF_INODES" and refs: "\<And>m. refs s m = (if m = n then refs s0 n + 1 else refs s0 m)"
    using held by (auto simp: held_def)
  have r: "0 < reference_count (core ?s p)" using rp i(2) by simp
  note st = modify_inv(1) [OF inv p i(1) [folded n] i(2-4)] and inv1 = modify_inv(2) [OF inv p i(1) [folded n] i(2-4)]
  have key: "\<forall>q \<in> set hq - {p}. inode_number (core s q) \<noteq> inode_number i"
    using inv p i(1) n by (auto simp: cache_inv_def inj_on_def node_key_core)
  have co1: "coherent ?s hq"
    by (rule coherent_step [OF inv co st _ key]) (use p i(2,5) rp in auto)
  have k: "linksCount (core ?s p) \<noteq> 0 \<or> inode_number (core ?s p) = 0" using i(1,6) by auto
  obtain s' fl' where s': "iput p ?s = Some (0, s')" "cache_inv s' fl' hq" "coherent s' hq"
      "\<forall>m < NUM_OF_INODES. inode_view s' m = inode_view ?s m"
    using iput_transparent [OF inv1 co1 p r k] by blast
  have refs1: "refs ?s m = refs s m" for m
    using refs_step [OF inv inv1 st] insert_absorb [OF p] p i(1,2) n refs_cached [OF inv p n] by auto
  have sp: "fileTable s' = fileTable s"
      "disk s' = (if refs s n = 1 then written_back i (disk s) else disk s)"
      "\<forall>m. refs s' m = (if m = n then refs s n - 1 else refs s m)"
    using iput_spec [OF inv1 p r k] s'(1) i(1) refs1 by auto
  have core: "core s' q = (if q = p then given_back i else core s q)" for q
    using iput_core [OF inv1 p r k s'(1)] by simp
  have "inode_view ?s m = (if m = n then getDiskINodeData i else inode_view s0 m)" if "m < NUM_OF_INODES" for m
  proof (cases "m = n")
    case True
    then show ?thesis using view_cached [OF inv1 p] i(1,5) by simp
  next
    case False
    then show ?thesis using view_step_other [OF inv inv1 st] insert_absorb [OF p] p i(1) n same that
      by (auto simp: same_files_def)
  qed
  then have view: "\<forall>m < NUM_OF_INODES. inode_view s' m = (if m = n then getDiskINodeData i else inode_view s0 m)"
    using s'(4) by auto
  have "settled s'" using set i(6) p32 rp i(2) by (auto simp: settled_def core given_back_def released_def)
  moreover have "pinned s0 s'" by (rule pinned_given_back [OF held i(2,1) core inv s'(2) p])
  moreover have "spare s'" by (rule spare_given_back [OF held i(2) core])
  moreover have "disk s' = disk s0 \<or> disk s' = put_inode n (getDiskINodeData i) (disk s0)"
    using sp(2) same i(1,5) by (simp add: written_back_def same_files_def)
  ultimately have "changed_files s0 n (getDiskINodeData i) s'"
    using s'(2,3) view sp(1,3) refs same unfolding changed_files_def by (auto simp: same_files_def)
  with s'(1) show ?thesis by blast
qed

section \<open>The contract of the inode cache\<close>

locale inode_handles =
  fixes get :: "size_t \<Rightarrow> size_t \<Rightarrow> fs \<Rightarrow> (ptr \<times> fs) option"
    and put :: "nat \<Rightarrow> fs \<Rightarrow> (int \<times> fs) option"
    and rest :: "fs \<Rightarrow> fs \<Rightarrow> bool"
    and has :: "fs \<Rightarrow> fs \<Rightarrow> nat \<Rightarrow> size_t \<Rightarrow> bool"
    and keeps :: "fs \<Rightarrow> size_t \<Rightarrow> bool"
  assumes get_has: "rest s0 s \<Longrightarrow> n < NUM_OF_INODES \<Longrightarrow> \<exists>p s'. get n 0 s = Some (Some p, s') \<and> has s0 s' p n"
    and put_rest: "has s0 s p n \<Longrightarrow> keeps s0 n \<Longrightarrow> \<exists>s'. put p s = Some (0, s') \<and> rest s0 s'"
begin

text \<open>Taking an inode and giving it back, and changing one handle for another.\<close>

lemma borrow:
  assumes "rest s0 s" and "n < NUM_OF_INODES" and "keeps s0 n"
  obtains p s1 s2 where "get n 0 s = Some (Some p, s1)" and "has s0 s1 p n"
    and "put p s1 = Some (0, s2)" and "rest s0 s2"
  using assms get_has put_rest by meson

lemma exchange:
  assumes "has s0 s p n" and "keeps s0 n" and "k < NUM_OF_INODES"
  obtains s1 q s2 where "put p s = Some (0, s1)" and "get k 0 s1 = Some (Some q, s2)" and "has s0 s2 q k"
  using assms get_has put_rest by meson

end

text \<open>Giving back the last reference to inode \<open>n\<close> does not delete it.\<close>

definition keeps :: "fs \<Rightarrow> size_t \<Rightarrow> bool" where
  "keeps s n \<longleftrightarrow> di_linksCount (inode_view s n) \<noteq> 0 \<or> n = 0"

interpretation ih: inode_handles iget iput idle held keeps
  by unfold_locales (auto simp: keeps_def intro: iget_held iput_idle)

section \<open>Specification of path resolution\<close>

text \<open>The inode \<open>n\<close> as an in-core inode, and the number its directory gives a name.\<close>

definition dir_view :: "fs \<Rightarrow> size_t \<Rightarrow> inCoreiNode" where
  "dir_view s n = insertDiskInodeData (inode_view s n) zero_inCore"

definition lookup_name :: "fs \<Rightarrow> size_t \<Rightarrow> cstring \<Rightarrow> size_t option" where
  "lookup_name s n c =
     (let i = dir_view s n
      in map_option (dir_num i (disk s))
           (find (\<lambda>g. dir_name i (disk s) g = Some c) [0..<unat (isize i) div 64]))"

primrec lookup_path :: "fs \<Rightarrow> cstring list \<Rightarrow> size_t \<Rightarrow> size_t option" where
  "lookup_path s [] n = Some n"
| "lookup_path s (c # cs) n = (case lookup_name s n c of None \<Rightarrow> None | Some k \<Rightarrow> lookup_path s cs k)"

text \<open>The inodes a path leads through are directories.\<close>

definition is_dir :: "fs \<Rightarrow> size_t \<Rightarrow> bool" where
  "is_dir s n \<longleftrightarrow> keeps s n \<and> dir_ok (dir_view s n) (disk s) (unat (di_size (inode_view s n)) div 64)"

primrec dirs_on :: "fs \<Rightarrow> cstring list \<Rightarrow> size_t \<Rightarrow> bool" where
  "dirs_on s [] n = True"
| "dirs_on s (c # cs) n \<longleftrightarrow> is_dir s n \<and> (case lookup_name s n c of None \<Rightarrow> True | Some k \<Rightarrow> dirs_on s cs k)"

section \<open>Refinement\<close>

lemma dir_cong:
  assumes "dataBlockNums i = dataBlockNums j" and "isize i = isize j" and "file_mode i = file_mode j"
  shows "dir_block i d = dir_block j d" "dir_name i d = dir_name j d" "dir_num i d = dir_num j d"
    "dir_ok i d n = dir_ok j d n"
proof -
  have "file_block i d k = file_block j d k" for k
    using assms by (auto simp: file_block_def intro!: arg_cong2 [where f = Option.bind] ext)
  then show b: "dir_block i d = dir_block j d" by (simp add: dir_block_def fun_eq_iff)
  then show n: "dir_name i d = dir_name j d" "dir_num i d = dir_num j d"
    by (simp_all add: dir_name_def dir_num_def fun_eq_iff)
  show "dir_ok i d n = dir_ok j d n" using assms b n by (simp add: dir_ok_def validateSearch_iff)
qed

lemma held_dir:
  assumes "held s0 s p n"
  shows "dir_block (core s p) d = dir_block (dir_view s0 n) d" "dir_name (core s p) d = dir_name (dir_view s0 n) d"
    "dir_num (core s p) d = dir_num (dir_view s0 n) d" "dir_ok (core s p) d k = dir_ok (dir_view s0 n) d k"
proof -
  have wf: "wf_inCore (core s p)" and data: "getDiskINodeData (core s p) = inode_view s0 n"
    using assms by (auto simp: held_def cache_inv_def)
  have "dataBlockNums (dir_view s0 n) = dataBlockNums (core s p)"
    using wf unfolding dir_view_def data [symmetric]
    by (simp add: insertDiskInodeData_def getDiskINodeData_def wf_inCore_def list_eq_iff_nth_eq)
  moreover have "isize (dir_view s0 n) = isize (core s p)" "file_mode (dir_view s0 n) = file_mode (core s p)"
    unfolding dir_view_def data [symmetric] by (simp_all add: insertDiskInodeData_def getDiskINodeData_def)
  ultimately show "dir_block (core s p) d = dir_block (dir_view s0 n) d" "dir_name (core s p) d = dir_name (dir_view s0 n) d"
    "dir_num (core s p) d = dir_num (dir_view s0 n) d" "dir_ok (core s p) d k = dir_ok (dir_view s0 n) d k"
    using dir_cong [of "core s p" "dir_view s0 n"] by simp_all
qed

lemma dir_num_bound:
  assumes "dir_ok i d n" and "g < n"
  shows "dir_num i d g < NUM_OF_INODES"
proof -
  have "16 * (g div 16) < n" using assms(2) by (metis div_times_less_eq_dividend le_less_trans mult.commute)
  then obtain b where b: "dir_block i d (g div 16) = Some b" "length b = BLOCK_SIZE"
    using assms(1) by (auto simp: dir_ok_def)
  have "64 * (g mod 16) + 64 \<le> (1024 :: nat)" using mod_less_divisor [of 16 g] by linarith
  then have len: "length (bytes_at (64 * (g mod 16) + 62) 2 b) = 2" using b(2) by simp
  have "dir_num i d g = le_word (bytes_at (64 * (g mod 16) + 62) 2 b)"
    using b(1) len by (simp add: dir_num_def load_entry_def zero_entry_def memcpy_low_clean)
  then show ?thesis using unat_le_word_2 [OF len] by (simp add: word_less_nat_alt)
qed

lemma size_dir_view [simp]: "isize (dir_view s n) = di_size (inode_view s n)"
  by (simp add: dir_view_def insertDiskInodeData_def)

lemma operate_lookup:
  assumes held: "held s0 s w n" and dir: "is_dir s0 n" and c: "c \<noteq> []" "0 \<notin> set c"
  shows "case lookup_name s0 n c of
      None \<Rightarrow> \<exists>s'. operate m c (length c) (Some w) s = Some (None, s') \<and> idle s0 s'
    | Some k \<Rightarrow> \<exists>q s'. operate m c (length c) (Some w) s = Some (Some q, s') \<and> held s0 s' q k"
proof -
  let ?i = "dir_view s0 n" and ?d = "disk s0" and ?k = "unat (di_size (inode_view s0 n)) div 64"
  let ?f = "find (\<lambda>g. dir_name ?i ?d g = Some c) [0..<?k]"
  have disk: "disk s = ?d" and keep: "keeps s0 n" and ok: "dir_ok ?i ?d ?k"
    using held dir by (auto simp: held_def same_files_def is_dir_def)
  have search: "searchINodeDirectoryEntries m (core s w) (Some c) 0 [zero_entry] 0 False (disk s) =
     (case ?f of None \<Rightarrow> Some (0, [zero_entry], ?d)
      | Some g \<Rightarrow> Some (1, [load_entry (64 * (g mod 16)) (the (dir_block ?i ?d (g div 16))) zero_entry], ?d))"
    using search_directory [of "core s w" ?d ?k c m zero_entry] ok c disk
    by (simp only: held_dir [OF held] simp_thms)
  have same: "s\<lparr> disk := ?d \<rparr> = s" using disk by simp
  show ?thesis
  proof (cases ?f)
    case None
    obtain s1 where "iput w s = Some (0, s1)" "idle s0 s1" using ih.put_rest [OF held keep] by blast
    with None search same c show ?thesis
      by (auto simp: operate_def lookup_name_def Let_def)
  next
    case (Some g)
    then have "g < ?k" by (auto simp: find_Some_iff)
    then have "dir_num ?i ?d g < NUM_OF_INODES" by (rule dir_num_bound [OF ok])
    then obtain s1 q s2 where "iput w s = Some (0, s1)" "iget (dir_num ?i ?d g) 0 s1 = Some (Some q, s2)"
        "held s0 s2 q (dir_num ?i ?d g)"
      using ih.exchange [OF held keep] by blast
    with Some search same c show ?thesis
      by (auto simp: operate_def lookup_name_def Let_def dir_num_def)
  qed
qed

lemma resolve_lookup:
  assumes "held s0 s w n" and "dirs_on s0 cs n" and "\<forall>c \<in> set cs. c \<noteq> [] \<and> 0 \<notin> set c"
  shows "case lookup_path s0 cs n of
      None \<Rightarrow> \<exists>s'. resolve m cs (Some w) s = Some (None, s') \<and> idle s0 s'
    | Some k \<Rightarrow> \<exists>q s'. resolve m cs (Some w) s = Some (Some q, s') \<and> held s0 s' q k"
  using assms
proof (induction cs arbitrary: s w n)
  case (Cons c cs)
  show ?case
  proof (cases "lookup_name s0 n c")
    case None
    then show ?thesis using operate_lookup [OF Cons.prems(1), of c m] Cons.prems(2,3) by auto
  next
    case (Some k)
    then obtain q s' where "operate m c (length c) (Some w) s = Some (Some q, s')" "held s0 s' q k"
      using operate_lookup [OF Cons.prems(1), of c m] Cons.prems(2,3) by auto
    moreover from this have "resolve m (c # cs) (Some w) s = resolve m cs (Some q) s'" by simp
    ultimately show ?thesis using Cons.IH [of s' q k] Some Cons.prems by (auto split: option.splits)
  qed
qed auto

lemma split_tokens_parts:
  assumes "c \<in> set (split_tokens dl path)"
  shows "c \<noteq> [] \<and> set c \<subseteq> set path"
  using assms
proof (induction dl path rule: split_tokens.induct)
  case (1 dl path)
  show ?case
  proof (cases "strtok dl path")
    case None
    with "1.prems" show ?thesis by (simp add: split_tokens.simps [of dl path])
  next
    case (Some r)
    then obtain t rest where r: "strtok dl path = Some (t, rest)" by (cases r) auto
    let ?t = "dropWhile (\<lambda>b. b \<in> set dl) path"
    have ne: "?t \<noteq> []" and t: "t = takeWhile (\<lambda>b. b \<notin> set dl) ?t" "rest = drop 1 (dropWhile (\<lambda>b. b \<notin> set dl) ?t)"
      using r by (auto simp: strtok_def simp del: dropWhile_eq_Nil_conv split: list.splits)
    have "t \<noteq> []" using hd_dropWhile [OF ne] ne t(1) by (cases ?t) auto
    moreover have "set t \<subseteq> set path" "set rest \<subseteq> set path"
      unfolding t by (auto dest!: set_takeWhileD set_dropWhileD in_set_dropD)
    ultimately have "t \<noteq> [] \<and> set t \<subseteq> set path \<and> set rest \<subseteq> set path" by simp
    with "1.IH" [OF r refl] "1.prems" r show ?thesis
      by (auto simp: split_tokens.simps [of dl path])
  qed
qed

lemma getFileINode_lookup:
  assumes "idle s s" and "dirs_on s (split_tokens [SLASH] path) 0" and "0 \<notin> set path"
  shows "case lookup_path s (split_tokens [SLASH] path) 0 of
      None \<Rightarrow> \<exists>s'. getFileINode m (SLASH # path) s = Some (None, s') \<and> idle s s'
    | Some n \<Rightarrow> \<exists>p s'. getFileINode m (SLASH # path) s = Some (Some p, s') \<and> held s s' p n"
proof -
  obtain p s1 where s1: "iget 0 0 s = Some (Some p, s1)" "held s s1 p 0" using ih.get_has [OF assms(1)] by force
  have "\<forall>c \<in> set (split_tokens [SLASH] path). c \<noteq> [] \<and> 0 \<notin> set c"
    using split_tokens_parts assms(3) by blast
  then show ?thesis
    unfolding getFileINode_resolve [OF s1(1)] by (rule resolve_lookup [OF s1(2) assms(2)])
qed

end
