(* ===== verification/Interface.thy ===== *)
theory Interface
  imports Namei
begin

text \<open>
  The operations FUSE calls (\<open>src/interface/*.c\<close>), their callbacks and the start of the program
  (\<open>src/main.c\<close>).  Each operation takes the state of the file system and returns its result code
  with the new state; what it writes through its pointer arguments is part of the result.
\<close>

section \<open>Data\<close>

abbreviation (input) ENOENT :: int where "ENOENT \<equiv> 2"
abbreviation (input) EACCES :: int where "EACCES \<equiv> 13"
abbreviation (input) ENOTDIR :: int where "ENOTDIR \<equiv> 20"
abbreviation (input) EISDIR :: int where "EISDIR \<equiv> 21"
abbreviation (input) ENOTEMPTY :: int where "ENOTEMPTY \<equiv> 39"

text \<open>What the code uses of \<open>struct fuse_context\<close>, \<open>struct fuse_file_info\<close> and \<open>struct stat\<close>.\<close>

record fuse_context =
  ctx_uid :: uid_t
  ctx_gid :: gid_t
  ctx_pid :: pid_t

record fuse_file_info =
  fi_flags :: "32 word"
  fi_fh :: size_t

record stat =
  st_atime :: time_t
  st_mtime :: time_t
  st_ctime :: time_t
  st_mode :: mode_t
  st_size :: size_t
  st_uid :: uid_t
  st_gid :: gid_t

section \<open>create.c\<close>

definition getParentINode :: "mem_env \<Rightarrow> cstring \<Rightarrow> fs \<Rightarrow> (ptr \<times> fs) option" where
  "getParentINode m path s =
     do {
       parentDirPath \<leftarrow> getParentDirectory path;
       getFileINode m parentDirPath s
     }"

definition doesFileExistIn :: "mem_env \<Rightarrow> cstring \<Rightarrow> nat \<Rightarrow> fs \<Rightarrow> (bool \<times> fs) option" where
  "doesFileExistIn m filename parentINode s =
     do {
       (retValue, _, d) \<leftarrow>
         searchINodeDirectoryEntries m (core s parentINode) (Some filename) 0 [fresh_entry m] 0 False (disk s);
       Some (0 < retValue, s\<lparr> disk := d \<rparr>)
     }"

text \<open>The second component is \<open>filename\<close>, empty where the code has not set it.\<close>

definition validateThenGetParentINode ::
    "mem_env \<Rightarrow> iNodeType \<Rightarrow> cstring \<Rightarrow> fs \<Rightarrow> (ptr \<times> cstring \<times> fs) option" where
  "validateThenGetParentINode m fileType path s =
     (if fileType \<noteq> T_DIRECTORY \<and> fileType \<noteq> T_REGULAR then Some (None, [], s)
      else do {
        (parentINode, s) \<leftarrow> getParentINode m path s;
        case parentINode of
          None \<Rightarrow> Some (None, [], s)
        | Some p \<Rightarrow> do {
            filename \<leftarrow> getFilenameFromPath path;
            (found, s) \<leftarrow> doesFileExistIn m filename p s;
            if found then Some (None, filename, s) else Some (Some p, filename, s)
          }
      })"

definition createFile ::
    "mem_env \<Rightarrow> cstring \<Rightarrow> iNodeType \<Rightarrow> mode_t \<Rightarrow> fuse_context \<Rightarrow> fs \<Rightarrow> (int \<times> fs) option" where
  "createFile m path fileType mode fuse_context s =
     do {
       (parentINode, filename, s) \<leftarrow> validateThenGetParentINode m fileType path s;
       case parentINode of
         None \<Rightarrow> Some (- 1, s)
       | Some p \<Rightarrow> do {
           let mode = (if fileType = T_DIRECTORY then S_IFDIR OR mode else mode);
           (num, d) \<leftarrow> getNewINode fileType mode (ctx_uid fuse_context) (ctx_gid fuse_context) (disk s);
           (_, s) \<leftarrow> getAndUpdateDirectoryTable m p num filename (s\<lparr> disk := d \<rparr>);
           (newINode, s) \<leftarrow> iget num 0 s;
           n \<leftarrow> newINode;
           let s = (if fileType = T_REGULAR then updateINodeMetadata_at n 0 1 s else s);
           s \<leftarrow> (if fileType = T_DIRECTORY
                  then map_option snd (updateNewDirMetaData m n (inode_number (core s p)) s) else Some s);
           (_, s) \<leftarrow> iput p s;
           (_, s) \<leftarrow> iput n s;
           Some (0, s)
         }
     }"

section \<open>open.c\<close>

text \<open>\<open>flags && O_APPEND\<close> holds for every non-zero \<open>flags\<close>.\<close>

definition calculateFileOffset :: "inCoreiNode \<Rightarrow> 32 word \<Rightarrow> size_t" where
  "calculateFileOffset iNode flags = (if flags \<noteq> 0 \<and> (0x400 :: 32 word) \<noteq> 0 then isize iNode else 0)"

definition openFile ::
    "mem_env \<Rightarrow> cstring \<Rightarrow> fuse_file_info \<Rightarrow> fuse_context \<Rightarrow> fs \<Rightarrow> (int \<times> fuse_file_info \<times> fs) option" where
  "openFile m path fi fuse_context s =
     do {
       (fileINode, s) \<leftarrow> getFileINode m path s;
       case fileINode of
         None \<Rightarrow> Some (- ENOENT, fi, s)
       | Some p \<Rightarrow> do {
           s \<leftarrow> lock p s;
           let off = calculateFileOffset (core s p) (fi_flags fi);
           let (fd, tab) = createAndGetFileDescriptor (ctx_pid fuse_context) p (fi_flags fi) off (fileTable s);
           let s = s\<lparr> fileTable := tab \<rparr>;
           Some (0, fi\<lparr> fi_fh := word_of_int fd \<rparr>, unlock p s)
         }
     }"

section \<open>read.c\<close>

text \<open>\<open>names\<close> collects what is handed to \<open>filler\<close>; a directory that stops yielding entries loops.\<close>

partial_function (option) fill_loop ::
    "mem_env \<Rightarrow> inCoreiNode \<Rightarrow> size_t \<Rightarrow> size_t \<Rightarrow> cstring list \<Rightarrow> dsk \<Rightarrow> (cstring list \<times> dsk) option" where
  "fill_loop m iNodePtr entriesInDirectory entriesOffset names d =
     (if entriesOffset < entriesInDirectory then
        Option.bind (searchINodeDirectoryEntries m iNodePtr None entriesOffset
                       (replicate DIRECTORY_ENTRIES_IN_BLOCK zero_entry) DIRECTORY_ENTRIES_IN_BLOCK False d)
          (\<lambda>(entriesRead, entryBuffer, d).
             if entriesRead < 0 then None
             else Option.bind (those (map (\<lambda>e. field_string (name e)) (take (nat entriesRead) entryBuffer)))
               (\<lambda>ns. fill_loop m iNodePtr entriesInDirectory (entriesOffset + of_int entriesRead) (names @ ns) d))
      else Some (names, d))"

definition fillDirectoryEntries :: "mem_env \<Rightarrow> inCoreiNode \<Rightarrow> dsk \<Rightarrow> (cstring list \<times> dsk) option" where
  "fillDirectoryEntries m iNodePtr d = fill_loop m iNodePtr (isize iNodePtr div DIRECTORY_ENTRY_SIZE) 0 [] d"

definition readDirectory :: "mem_env \<Rightarrow> cstring \<Rightarrow> fs \<Rightarrow> (int \<times> cstring list \<times> fs) option" where
  "readDirectory m path s =
     do {
       (iNodeOfPath, s) \<leftarrow> getFileINode m path s;
       case iNodeOfPath of
         None \<Rightarrow> Some (- 1, [], s)
       | Some p \<Rightarrow> do {
           (names, d) \<leftarrow> fillDirectoryEntries m (core s p) (disk s);
           (_, s) \<leftarrow> iput p (s\<lparr> disk := d \<rparr>);
           Some (0, names, s)
         }
     }"

text \<open>\<open>file->flags && O_RDONLY\<close>: \<open>O_RDONLY\<close> is 0.\<close>

definition validateFile :: "fileTableEntry \<Rightarrow> fs \<Rightarrow> int" where
  "validateFile file s =
     (if itype (core s (f_inode file)) = T_DIRECTORY then - EISDIR
      else if f_flags file \<noteq> 0 \<and> (0 :: 32 word) \<noteq> 0 then 0
      else - EBADF)"

definition readInBlock :: "bmapResponse \<Rightarrow> size_t \<Rightarrow> dsk \<Rightarrow> byte list option" where
  "readInBlock bmapResp sz d =
     do {
       blockPtr \<leftarrow> read_block (blockNumber bmapResp) d;
       if BLOCK_SIZE < unat (byteOffsetInBlock bmapResp) + unat sz then None
       else Some (bytes_at (unat (byteOffsetInBlock bmapResp)) (unat sz) blockPtr)
     }"

text \<open>
  \<open>out\<close> is what was stored in the caller's buffer of \<open>size\<close> bytes, so \<open>bytesRead\<close> is its length;
  storing behind the buffer is undefined.  \<open>k\<close> adds up what goes to \<open>file->offset\<close>.
\<close>

partial_function (option) read_loop ::
    "inCoreiNode \<Rightarrow> size_t \<Rightarrow> size_t \<Rightarrow> int \<Rightarrow> size_t \<Rightarrow> bmapResponse option \<Rightarrow> byte list \<Rightarrow> dsk \<Rightarrow>
     byte list option" where
  "read_loop fileINode sz lastByte bytesLeft off bmapResp out d =
     (if 0 < bytesLeft then
        Option.bind (bmap fileINode off bmapResp READ_MODE d)
          (\<lambda>(retValue, bmapResp, _, _).
             if retValue = - 1 then Some out
             else Option.bind bmapResp (\<lambda>r.
               let bytesToReadFromBlock = min (bytesLeftInBlock r) (lastByte - of_nat (length out)) in
               if unat sz < length out + unat bytesToReadFromBlock then None
               else Option.bind (readInBlock r bytesToReadFromBlock d) (\<lambda>bs.
                 read_loop fileINode sz lastByte (bytesLeft - uint bytesToReadFromBlock)
                   (off + bytesToReadFromBlock) bmapResp (out @ bs) d)))
      else Some out)"

definition readBytes :: "nat \<Rightarrow> size_t \<Rightarrow> size_t \<Rightarrow> fs \<Rightarrow> (byte list \<times> fs) option" where
  "readBytes file sz off s =
     do {
       let fileINode = core s (f_inode (fileTable s ! file));
       let bytesLeft = min (sint sz) (sint (isize fileINode) - sint off);
       let lastByte = min (isize fileINode) (sz + off);
       out \<leftarrow> read_loop fileINode sz lastByte bytesLeft off None [] (disk s);
       Some (out, s\<lparr> fileTable := (fileTable s)[file :=
         (fileTable s ! file)\<lparr> f_offset := f_offset (fileTable s ! file) + of_nat (length out) \<rparr>] \<rparr>)
     }"

definition readFile ::
    "size_t \<Rightarrow> size_t \<Rightarrow> fuse_file_info \<Rightarrow> fuse_context \<Rightarrow> fs \<Rightarrow> (int \<times> byte list \<times> fs) option" where
  "readFile sz off fi fuse_context s =
     do {
       (retVal, file) \<leftarrow> getFileDescriptor (ctx_pid fuse_context) (c_int (fi_fh fi)) (fileTable s);
       if retVal \<noteq> 0 then Some (retVal, [], s)
       else do {
         file \<leftarrow> file;
         let fileINode = f_inode (fileTable s ! file);
         s \<leftarrow> lock fileINode s;
         let retVal = validateFile (fileTable s ! file) s;
         (out, s) \<leftarrow> readBytes file sz off s;
         Some (c_int (of_nat (length out)), out, unlock fileINode s)
       }
     }"

section \<open>write.c\<close>

definition writeToBlock :: "bmapResponse \<Rightarrow> byte list \<Rightarrow> dsk \<Rightarrow> dsk option" where
  "writeToBlock bmapResp buf d =
     do {
       blockPtr \<leftarrow> read_block (blockNumber bmapResp) d;
       if BLOCK_SIZE < unat (byteOffsetInBlock bmapResp) + length buf then None
       else Some (put_block (blockNumber bmapResp)
                    (memcpy_at (unat (byteOffsetInBlock bmapResp)) buf blockPtr) d)
     }"

text \<open>
  The loop of \<open>writeToFile\<close>.  \<open>bytesWritten\<close> is an \<open>int\<close> that meets \<open>size_t\<close> operands; \<open>i\<close> is the inode,
  \<open>k\<close> what has been added to the offset of the table entry.
\<close>

partial_function (option) write_loop ::
    "byte list \<Rightarrow> size_t \<Rightarrow> 32 word \<Rightarrow> size_t \<Rightarrow> bmapResponse option \<Rightarrow> size_t \<Rightarrow> inCoreiNode \<Rightarrow> dsk \<Rightarrow>
     (32 word \<times> size_t \<times> inCoreiNode \<times> dsk) option" where
  "write_loop buf sz bytesWritten off bmapResp k i d =
     (if of_c_int bytesWritten < sz then
        Option.bind (bmap i off bmapResp APPEND_MODE d)
          (\<lambda>(retValue, bmapResp, i, d).
             if retValue < 0 then Some (bytesWritten, k, i, d)
             else Option.bind bmapResp (\<lambda>r.
               let bytesToWrite = min (bytesLeftInBlock r) (sz - of_c_int bytesWritten) in
               Option.bind (writeToBlock r (bytes_at (unat (of_c_int bytesWritten)) (unat bytesToWrite) buf) d)
                 (\<lambda>d.
                    let i = (if off = isize i then updateINodeMetadata i (to_c_int bytesToWrite) (linksCount i) d
                             else if isize i - of_c_int bytesWritten < sz - of_c_int bytesWritten
                             then updateINodeMetadata i (to_c_int (bytesToWrite - isize i)) (linksCount i) d
                             else i)
                    in write_loop buf sz (to_c_int (of_c_int bytesWritten + bytesToWrite)) (off + bytesToWrite)
                         bmapResp (k + bytesToWrite) i d)))
      else Some (bytesWritten, k, i, d))"

text \<open>\<open>fi->fh < 0\<close> is false: \<open>fh\<close> is unsigned.\<close>

definition writeToFile ::
    "byte list \<Rightarrow> size_t \<Rightarrow> fuse_file_info \<Rightarrow> fuse_context \<Rightarrow> fs \<Rightarrow> (int \<times> fs) option" where
  "writeToFile buf off fi fuse_context s =
     do {
       (error, file) \<leftarrow> getFileDescriptor (ctx_pid fuse_context) (c_int (fi_fh fi)) (fileTable s);
       case file of
         None \<Rightarrow> Some (- 1, s)
       | Some file \<Rightarrow> do {
           let p = f_inode (fileTable s ! file);
           s \<leftarrow> lock p s;
           if isize (core s p) < off then Some (- 1, unlock p s)
           else do {
             (bytesWritten, k, i, d) \<leftarrow> write_loop buf (of_nat (length buf)) 0 off None 0 (core s p) (disk s);
             let s = upd_core p (\<lambda>_. i) (s\<lparr> disk := d \<rparr>);
             let s = s\<lparr> fileTable := (fileTable s)[file :=
                (fileTable s ! file)\<lparr> f_offset := f_offset (fileTable s ! file) + k \<rparr>] \<rparr>;
             Some (sint bytesWritten, unlock p s)
           }
         }
     }"

section \<open>truncate.c\<close>

definition writeNullBytes :: "size_t \<Rightarrow> size_t \<Rightarrow> size_t \<Rightarrow> dsk \<Rightarrow> dsk option" where
  "writeNullBytes blockNum off bytesToWrite d =
     do {
       blockPtr \<leftarrow> read_block blockNum d;
       if BLOCK_SIZE < unat off + unat bytesToWrite then None
       else Some (put_block blockNum (memset_at (unat off) 0 (unat bytesToWrite) blockPtr) d)
     }"

text \<open>The result of \<open>bmap\<close> is not looked at: after a failure the loop works on the old response.\<close>

partial_function (option) increase_loop ::
    "size_t \<Rightarrow> size_t \<Rightarrow> size_t \<Rightarrow> bmapResponse option \<Rightarrow> inCoreiNode \<Rightarrow> dsk \<Rightarrow> (inCoreiNode \<times> dsk) option" where
  "increase_loop sz bytesWritten off bmapResp i d =
     (if bytesWritten < sz then
        Option.bind (bmap i off bmapResp APPEND_MODE d)
          (\<lambda>(retValue, bmapResp, i, d).
             Option.bind bmapResp (\<lambda>r.
               let bytesToWrite = min (bytesLeftInBlock r) (sz - bytesWritten) in
               Option.bind (writeNullBytes (blockNumber r) (byteOffsetInBlock r) bytesToWrite d) (\<lambda>d.
                 increase_loop sz (bytesWritten + bytesToWrite) (off + bytesToWrite) bmapResp
                   (updateINodeMetadata i (to_c_int bytesToWrite) (linksCount i) d) d)))
      else Some (i, d))"

definition increaseFileSizeBy :: "inCoreiNode \<Rightarrow> size_t \<Rightarrow> dsk \<Rightarrow> (inCoreiNode \<times> dsk) option" where
  "increaseFileSizeBy iNode sz d = increase_loop sz 0 (isize iNode) None iNode d"

partial_function (option) decrease_loop ::
    "size_t \<Rightarrow> size_t \<Rightarrow> size_t \<Rightarrow> bmapResponse option \<Rightarrow> inCoreiNode \<Rightarrow> dsk \<Rightarrow> (inCoreiNode \<times> dsk) option" where
  "decrease_loop sz bytesReduced off bmapResp i d =
     (if bytesReduced < sz then
        Option.bind (bmap i off bmapResp READ_MODE d)
          (\<lambda>(retValue, bmapResp, i, d).
             Option.bind bmapResp (\<lambda>r.
               if sz - bytesReduced < byteOffsetInBlock r + 1
               then Some (updateINodeMetadata i (to_c_int (- (sz - bytesReduced))) (linksCount i) d, d)
               else Option.bind (freeDataBlockInINode i (blockNumber r) d) (\<lambda>d.
                 decrease_loop sz (bytesReduced + (byteOffsetInBlock r + 1)) (off - (byteOffsetInBlock r + 1)) bmapResp
                   (updateINodeMetadata i (to_c_int (- (byteOffsetInBlock r + 1))) (linksCount i) d) d)))
      else Some (i, d))"

definition decreaseFileSizeBy :: "inCoreiNode \<Rightarrow> size_t \<Rightarrow> dsk \<Rightarrow> (inCoreiNode \<times> dsk) option" where
  "decreaseFileSizeBy iNode sz d = decrease_loop sz 0 (isize iNode - 1) None iNode d"

definition truncateINode :: "inCoreiNode \<Rightarrow> size_t \<Rightarrow> dsk \<Rightarrow> (inCoreiNode \<times> dsk) option" where
  "truncateINode iNode sz d =
     (if isize iNode = sz then Some (iNode, d)
      else if sz < isize iNode then decreaseFileSizeBy iNode (isize iNode - sz) d
      else increaseFileSizeBy iNode (sz - isize iNode) d)"

definition truncateINode_at :: "nat \<Rightarrow> size_t \<Rightarrow> fs \<Rightarrow> fs option" where
  "truncateINode_at p sz s =
     do {
       (i, d) \<leftarrow> truncateINode (core s p) sz (disk s);
       Some (upd_core p (\<lambda>_. i) (s\<lparr> disk := d \<rparr>))
     }"

definition truncateFile :: "mem_env \<Rightarrow> cstring \<Rightarrow> size_t \<Rightarrow> fs \<Rightarrow> (int \<times> fs) option" where
  "truncateFile m path sz s =
     do {
       (fileINode, s) \<leftarrow> getFileINode m path s;
       case fileINode of
         None \<Rightarrow> Some (- ENOENT, s)
       | Some p \<Rightarrow> do {
           s \<leftarrow> lock p s;
           if itype (core s p) = T_DIRECTORY then Some (- EISDIR, s)
           else do {
             s \<leftarrow> truncateINode_at p sz s;
             (_, s) \<leftarrow> iput p (unlock p s);
             Some (0, s)
           }
         }
     }"


section \<open>unlink.c\<close>

definition unlinkFileFromINode :: "mem_env \<Rightarrow> nat \<Rightarrow> cstring \<Rightarrow> fs \<Rightarrow> (int \<times> fs) option" where
  "unlinkFileFromINode m parentINode filename s =
     do {
       (retVal, entry, d) \<leftarrow>
         searchINodeDirectoryEntries m (core s parentINode) (Some filename) 0 [fresh_entry m] 0 True (disk s);
       let s = s\<lparr> disk := d \<rparr>;
       if retVal \<noteq> 1 then Some (- 1, s)
       else do {
         (deletedFile, s) \<leftarrow> iget (iNodeNum (entry ! 0)) 0 s;
         f \<leftarrow> deletedFile;
         s \<leftarrow> lock f s;
         let s = upd_core f (\<lambda>i. i\<lparr> linksCount := linksCount i - 1 \<rparr>) s;
         let s = updateINodeMetadata_at f 0 (linksCount (core s f)) s;
         (_, s) \<leftarrow> iput f (unlock f s);
         s \<leftarrow> truncateINode_at parentINode (isize (core s parentINode) - DIRECTORY_ENTRY_SIZE) s;
         Some (0, s)
       }
     }"

definition unlinkFile :: "mem_env \<Rightarrow> cstring \<Rightarrow> fs \<Rightarrow> (int \<times> fs) option" where
  "unlinkFile m path s =
     do {
       (parentINode, s) \<leftarrow> getParentINode m path s;
       case parentINode of
         None \<Rightarrow> Some (- ENOENT, s)
       | Some p \<Rightarrow> do {
           s \<leftarrow> lock p s;
           filename \<leftarrow> getFilenameFromPath path;
           (retVal, s) \<leftarrow> unlinkFileFromINode m p filename s;
           if retVal = - 1 then do {
             (_, s) \<leftarrow> iput p (unlock p s);
             Some (- 1, s)
           }
           else do {
             (_, s) \<leftarrow> iput p (unlock p s);
             Some (0, s)
           }
         }
     }"

text \<open>
  The tests of \<open>validateAndEmptyDirectoryIfNeeded\<close>: the value it returns at once, or \<open>None\<close> where it
  goes on to \<open>emptyDir\<close>.
\<close>

definition validate_dir :: "inCoreiNode \<Rightarrow> bool \<Rightarrow> int option" where
  "validate_dir fileINode force =
     (if inode_number fileINode = 0 then Some (- EACCES)
      else if 2 * DIRECTORY_ENTRY_SIZE < isize fileINode \<and> \<not> force then Some (- ENOTEMPTY)
      else if itype fileINode \<noteq> T_DIRECTORY then Some (- ENOTDIR)
      else if force \<and> 2 * DIRECTORY_ENTRY_SIZE < isize fileINode then None
      else Some 0)"

text \<open>
  \<open>emptyDir\<close> and \<open>validateAndEmptyDirectoryIfNeeded\<close> call each other; the loop of \<open>emptyDir\<close> is the
  recursive function.  Its bound counts entries while its counter counts bytes.
\<close>

partial_function (option) empty_loop ::
    "mem_env \<Rightarrow> size_t \<Rightarrow> size_t \<Rightarrow> nat \<Rightarrow> fs \<Rightarrow> (int \<times> fs) option" where
  "empty_loop m entriesInDirectory entriesOffset fileINode s =
     (if entriesOffset < entriesInDirectory then
        Option.bind (getLastEntry (core s fileINode) zero_entry (disk s)) (\<lambda>entry.
        Option.bind (iget (iNodeNum entry) 0 s) (\<lambda>(fileEntry, s).
        Option.bind fileEntry (\<lambda>f.
        Option.bind (lock f s) (\<lambda>s.
        Option.bind
          (if itype (core s f) = T_DIRECTORY then
             (case validate_dir (core s f) True of
                Some r \<Rightarrow> Some (r, s)
              | None \<Rightarrow> empty_loop m (isize (core s f) div DIRECTORY_ENTRY_SIZE) (2 * DIRECTORY_ENTRY_SIZE) f s)
           else Some (0, s))
          (\<lambda>(retVal, s).
             Option.bind (iput f (unlock f s)) (\<lambda>(_, s).
               if retVal < 0 then Some (retVal, s)
               else
                 Option.bind (field_string (name entry)) (\<lambda>filename.
                 Option.bind (unlinkFileFromINode m fileINode filename s) (\<lambda>(_, s).
                   empty_loop m entriesInDirectory (entriesOffset + DIRECTORY_ENTRY_SIZE) fileINode s))))))))
      else Some (0, s))"

definition emptyDir :: "mem_env \<Rightarrow> nat \<Rightarrow> fs \<Rightarrow> (int \<times> fs) option" where
  "emptyDir m fileINode s =
     empty_loop m (isize (core s fileINode) div DIRECTORY_ENTRY_SIZE) (2 * DIRECTORY_ENTRY_SIZE) fileINode s"

definition validateAndEmptyDirectoryIfNeeded :: "mem_env \<Rightarrow> nat \<Rightarrow> bool \<Rightarrow> fs \<Rightarrow> (int \<times> fs) option" where
  "validateAndEmptyDirectoryIfNeeded m fileINode force s =
     (case validate_dir (core s fileINode) force of
        Some r \<Rightarrow> Some (r, s)
      | None \<Rightarrow> emptyDir m fileINode s)"

definition unlinkDir :: "mem_env \<Rightarrow> cstring \<Rightarrow> bool \<Rightarrow> fs \<Rightarrow> (int \<times> fs) option" where
  "unlinkDir m path force s =
     do {
       (fileINode, s) \<leftarrow> getFileINode m path s;
       p \<leftarrow> fileINode;
       s \<leftarrow> lock p s;
       (retVal, s) \<leftarrow> validateAndEmptyDirectoryIfNeeded m p force s;
       (_, s) \<leftarrow> iput p (unlock p s);
       if retVal < 0 then Some (retVal, s) else unlinkFile m path s
     }"

section \<open>rename.c\<close>

definition removeDestinationIfExists :: "mem_env \<Rightarrow> nat \<Rightarrow> cstring \<Rightarrow> fs \<Rightarrow> (int \<times> fs) option" where
  "removeDestinationIfExists m parentINode filename s =
     do {
       (retVal, entry, d) \<leftarrow>
         searchINodeDirectoryEntries m (core s parentINode) (Some filename) 0 [fresh_entry m] 0 False (disk s);
       let s = s\<lparr> disk := d \<rparr>;
       if retVal = 1 then do {
         (destination, s) \<leftarrow> iget (iNodeNum (entry ! 0)) 0 s;
         f \<leftarrow> destination;
         s \<leftarrow> lock f s;
         (retVal, s) \<leftarrow>
           (if itype (core s f) = T_DIRECTORY then validateAndEmptyDirectoryIfNeeded m f True s
            else Some (retVal, s));
         (_, s) \<leftarrow> iput f (unlock f s);
         if retVal < 0 then Some (retVal, s)
         else do {
           filename \<leftarrow> field_string (name (entry ! 0));
           (retVal, s) \<leftarrow> unlinkFileFromINode m parentINode filename s;
           if retVal < 0 then Some (retVal, s) else Some (0, s)
         }
       }
       else Some (0, s)
     }"

definition renameFile :: "mem_env \<Rightarrow> cstring \<Rightarrow> cstring \<Rightarrow> fs \<Rightarrow> (int \<times> fs) option" where
  "renameFile m from to s =
     do {
       (fileINode, s) \<leftarrow> getFileINode m from s;
       case fileINode of
         None \<Rightarrow> Some (- ENOENT, s)
       | Some f \<Rightarrow> do {
           (toParentINode, s) \<leftarrow> getParentINode m to s;
           case toParentINode of
             None \<Rightarrow> Some (- ENOENT, s)
           | Some p \<Rightarrow> do {
               s \<leftarrow> lock p s;
               newFilename \<leftarrow> getFilenameFromPath to;
               (retVal, s) \<leftarrow> removeDestinationIfExists m p newFilename s;
               if retVal < 0 then do {
                 (_, s) \<leftarrow> iput f s;
                 (_, s) \<leftarrow> iput p (unlock p s);
                 Some (retVal, s)
               }
               else do {
                 s \<leftarrow> lock f s;
                 (_, s) \<leftarrow> getAndUpdateDirectoryTable m p (inode_number (core s f)) newFilename s;
                 let s = updateINodeMetadata_at f 0 (linksCount (core s f) + 1) s;
                 (_, s) \<leftarrow> iput p (unlock p s);
                 (_, s) \<leftarrow> iput f (unlock f s);
                 (retVal, s) \<leftarrow> unlinkFile m from s;
                 if retVal \<noteq> 0 then Some (- 1, s) else Some (0, s)
               }
             }
         }
     }"

section \<open>getAttr.c, close.c and link.c\<close>

definition attrPopulate :: "mem_env \<Rightarrow> cstring \<Rightarrow> stat \<Rightarrow> fs \<Rightarrow> (int \<times> stat \<times> fs) option" where
  "attrPopulate m path stbuf s =
     do {
       (inode, s) \<leftarrow> getFileINode m path s;
       case inode of
         None \<Rightarrow> Some (- ENOENT, stbuf, s)
       | Some p \<Rightarrow> do {
           let i = core s p;
           let stbuf = stbuf\<lparr> st_atime := access i, st_mtime := modification i, st_ctime := status_change i,
             st_mode := file_mode i, st_size := isize i, st_uid := owner_uid i, st_gid := group_uid i \<rparr>;
           (_, s) \<leftarrow> iput p s;
           Some (0, stbuf, s)
         }
     }"

definition changeMode :: "mem_env \<Rightarrow> cstring \<Rightarrow> mode_t \<Rightarrow> fs \<Rightarrow> (int \<times> fs) option" where
  "changeMode m path mode s =
     do {
       (inode, s) \<leftarrow> getFileINode m path s;
       case inode of
         None \<Rightarrow> Some (- ENOENT, s)
       | Some p \<Rightarrow> do {
           s \<leftarrow> lock p s;
           let mode = (if itype (core s p) = T_DIRECTORY then S_IFDIR OR mode else mode);
           let s = upd_core p (\<lambda>i. i\<lparr> file_mode := mode, inode_changed := True \<rparr>) s;
           (_, s) \<leftarrow> iput p (unlock p s);
           Some (0, s)
         }
     }"

definition changeOwner :: "mem_env \<Rightarrow> cstring \<Rightarrow> uid_t \<Rightarrow> gid_t \<Rightarrow> fs \<Rightarrow> (int \<times> fs) option" where
  "changeOwner m path uid gid s =
     do {
       (inode, s) \<leftarrow> getFileINode m path s;
       case inode of
         None \<Rightarrow> Some (- ENOENT, s)
       | Some p \<Rightarrow> do {
           s \<leftarrow> lock p s;
           let s =
             (if uid \<noteq> - 1 then
                let s = upd_core p (owner_uid_update (\<lambda>_. uid)) s;
                    s = (if gid \<noteq> - 1 then upd_core p (group_uid_update (\<lambda>_. gid)) s else s)
                in upd_core p (inode_changed_update (\<lambda>_. True)) s
              else if gid \<noteq> - 1 then
                upd_core p (inode_changed_update (\<lambda>_. True)) (upd_core p (group_uid_update (\<lambda>_. gid)) s)
              else s);
           (_, s) \<leftarrow> iput p (unlock p s);
           Some (0, s)
         }
     }"

definition closeFile :: "fuse_file_info \<Rightarrow> fuse_context \<Rightarrow> fs \<Rightarrow> (int \<times> fs) option" where
  "closeFile fi fuse_context s =
     do {
       (retVal, file) \<leftarrow> getFileDescriptor (ctx_pid fuse_context) (c_int (fi_fh fi)) (fileTable s);
       if retVal \<noteq> 0 then Some (0, s)
       else do {
         file \<leftarrow> file;
         let s = s\<lparr> fileTable := (fileTable s)[file := (fileTable s ! file)\<lparr> validEntry := False \<rparr>] \<rparr>;
         iput (f_inode (fileTable s ! file)) s
       }
     }"

definition linkFiles :: "cstring \<Rightarrow> cstring \<Rightarrow> fs \<Rightarrow> int \<times> fs" where
  "linkFiles source target s = (0, s)"

section \<open>main.c\<close>

text \<open>
  The entries of \<open>OPERATIONS\<close>, and the three callbacks that are defined but not registered.  The
  context is what \<open>fuse_get_context\<close> returns.
\<close>

definition write_callback :: "cstring \<Rightarrow> byte list \<Rightarrow> size_t \<Rightarrow> fuse_file_info \<Rightarrow> fuse_context \<Rightarrow> fs \<Rightarrow> (int \<times> fs) option" where
  "write_callback path buf off fi ctx s = writeToFile buf off fi ctx s"

definition access_callback :: "cstring \<Rightarrow> int \<Rightarrow> fs \<Rightarrow> int \<times> fs" where
  "access_callback path mode s = (0, s)"

definition zero_stat :: stat where
  "zero_stat = \<lparr> st_atime = 0, st_mtime = 0, st_ctime = 0, st_mode = 0, st_size = 0, st_uid = 0, st_gid = 0 \<rparr>"

definition getattr_callback :: "mem_env \<Rightarrow> cstring \<Rightarrow> fs \<Rightarrow> (int \<times> stat \<times> fs) option" where
  "getattr_callback m path s = attrPopulate m path zero_stat s"

definition mkdir_callback :: "mem_env \<Rightarrow> cstring \<Rightarrow> mode_t \<Rightarrow> fuse_context \<Rightarrow> fs \<Rightarrow> (int \<times> fs) option" where
  "mkdir_callback m path mode ctx s = createFile m path T_DIRECTORY mode ctx s"

definition readdir_callback :: "mem_env \<Rightarrow> cstring \<Rightarrow> fs \<Rightarrow> (int \<times> cstring list \<times> fs) option" where
  "readdir_callback m path s = readDirectory m path s"

definition create_callback ::
    "mem_env \<Rightarrow> cstring \<Rightarrow> mode_t \<Rightarrow> fuse_file_info \<Rightarrow> fuse_context \<Rightarrow> fs \<Rightarrow> (int \<times> fuse_file_info \<times> fs) option" where
  "create_callback m path mode fi ctx s =
     do {
       (retVal, s) \<leftarrow> createFile m path T_REGULAR mode ctx s;
       if retVal \<noteq> 0 then Some (retVal, fi, s) else openFile m path fi ctx s
     }"

definition open_callback ::
    "mem_env \<Rightarrow> cstring \<Rightarrow> fuse_file_info \<Rightarrow> fuse_context \<Rightarrow> fs \<Rightarrow> (int \<times> fuse_file_info \<times> fs) option" where
  "open_callback m path fi ctx s = openFile m path fi ctx s"

definition read_callback ::
    "size_t \<Rightarrow> size_t \<Rightarrow> fuse_file_info \<Rightarrow> fuse_context \<Rightarrow> fs \<Rightarrow> (int \<times> byte list \<times> fs) option" where
  "read_callback sz off fi ctx s = readFile sz off fi ctx s"

definition release_callback :: "fuse_file_info \<Rightarrow> fuse_context \<Rightarrow> fs \<Rightarrow> (int \<times> fs) option" where
  "release_callback fi ctx s = do { (_, s) \<leftarrow> closeFile fi ctx s; Some (0, s) }"

definition truncate_callback :: "mem_env \<Rightarrow> cstring \<Rightarrow> size_t \<Rightarrow> fs \<Rightarrow> (int \<times> fs) option" where
  "truncate_callback m path sz s = truncateFile m path sz s"

definition utimens_callback :: "cstring \<Rightarrow> fs \<Rightarrow> int \<times> fs" where
  "utimens_callback path s = (0, s)"

definition chown_callback :: "mem_env \<Rightarrow> cstring \<Rightarrow> uid_t \<Rightarrow> gid_t \<Rightarrow> fs \<Rightarrow> (int \<times> fs) option" where
  "chown_callback m path uid gid s = do { (_, s) \<leftarrow> changeOwner m path uid gid s; Some (0, s) }"

definition chmod_callback :: "mem_env \<Rightarrow> cstring \<Rightarrow> mode_t \<Rightarrow> fs \<Rightarrow> (int \<times> fs) option" where
  "chmod_callback m path mode s = do { (_, s) \<leftarrow> changeMode m path mode s; Some (0, s) }"

definition link_callback :: "cstring \<Rightarrow> cstring \<Rightarrow> fs \<Rightarrow> int \<times> fs" where
  "link_callback source target s = linkFiles source target s"

definition unlink_callback :: "mem_env \<Rightarrow> cstring \<Rightarrow> fs \<Rightarrow> (int \<times> fs) option" where
  "unlink_callback m path s = unlinkFile m path s"

definition unlink_dir_callback :: "mem_env \<Rightarrow> cstring \<Rightarrow> fs \<Rightarrow> (int \<times> fs) option" where
  "unlink_dir_callback m path s = unlinkDir m path False s"

definition rename_callback :: "mem_env \<Rightarrow> cstring \<Rightarrow> cstring \<Rightarrow> fs \<Rightarrow> (int \<times> fs) option" where
  "rename_callback m from to s = renameFile m from to s"

text \<open>
  \<open>strstr(argv[i], "fsname") == argv[i]\<close>: the argument starts with \<open>fsname\<close>.  The text from the
  eighth character on goes to a buffer of 20 bytes; an argument that is just \<open>fsname\<close> makes the
  copy start behind its terminator.
\<close>

primrec parseCmdArg :: "string list \<Rightarrow> (int \<times> string) option" where
  "parseCmdArg [] = Some (0, [])"
| "parseCmdArg (arg # argv) =
     (if take 6 arg = ''fsname'' then
        if length arg < 7 \<or> 20 \<le> length (drop 7 arg) then None else Some (1, drop 7 arg)
      else parseCmdArg argv)"

definition checkDevMode :: "disk_block \<Rightarrow> string list \<Rightarrow> fs \<Rightarrow> (int \<times> fs) option" where
  "checkDevMode junk argv s =
     do {
       (found, devName) \<leftarrow> parseCmdArg argv;
       if found = 1 then
         let (r, d) = setupDisk devName (disk s)
         in Some (if r = - 1 then - 1 else 0, s\<lparr> disk := d \<rparr>)
       else do {
         d \<leftarrow> makeFileSystem junk (disk s);
         Some (0, s\<lparr> disk := d \<rparr>)
       }
     }"

text \<open>
  \<open>main\<close> up to \<open>fuse_main\<close>; the result tells whether it gets there.  \<open>counter\<close> is the indeterminate
  initial value in \<open>initHashQueues\<close>.
\<close>

definition main_init :: "disk_block \<Rightarrow> nat \<Rightarrow> string list \<Rightarrow> fs \<Rightarrow> (bool \<times> fs) option" where
  "main_init junk counter argv s =
     do {
       (r, s) \<leftarrow> checkDevMode junk argv s;
       if r = - 1 then Some (False, s)
       else do {
         let s = s\<lparr> disk := initializeINodeParams (disk s) \<rparr>;
         s \<leftarrow> on_cache initFreeInCoreINodeList s;
         let s = s\<lparr> cache := initHashQueues counter (cache s) \<rparr>;
         Some (True, s\<lparr> fileTable := initGlobalFileTable (fileTable s) \<rparr>)
       }
     }"

end
