(* ===== verification/FileData.thy ===== *)
theory FileData
  imports Interface
begin

text \<open>
  What \<open>src/interface/read.c\<close> and \<open>write.c\<close> do to the contents of a file, seen as a sequence of bytes: the loop
  of \<open>readBytes\<close> on files of any shape, the loop of \<open>writeToFile\<close> on files that grow in their direct blocks.
\<close>

section \<open>Reading\<close>

lemma read_loop_ok:
  assumes ok: "file_ok i d" and L: "L \<le> unat (isize i)" "L \<le> unat sz" and m: "m \<le> L"
  shows "read_loop i sz (of_nat L) (int (L - m)) (of_nat m) resp (take m (file_bytes i d)) d =
    Some (take L (file_bytes i d))"
  using m
proof (induction "L - m" arbitrary: m resp rule: less_induct)
  case less
  show ?case
  proof (cases "m = L")
    case True
    then show ?thesis by (subst read_loop.simps) simp
  next
    case False
    with less.prems have mL: "m < L" by simp
    let ?off = "of_nat m :: size_t" and ?k = "m div 1024"
    have sz: "L < 2 ^ 64" "m < 2 ^ 64" using ok L(1) mL by (auto simp: file_ok_def)
    have lt: "?off < isize i" using sz L(1) mL by (simp add: word_less_nat_alt unat_of_nat_small)
    have "1024 * ?k < unat (isize i)" using L(1) mL by (meson le_less_trans less_le_trans times_div_less_eq_dividend)
    then obtain n b where b: "file_block i d ?k = Some n" "read_block n d = Some b" "length b = 1024"
      using ok by (auto simp: file_ok_def)
    then have blk: "file_blk i d ?k = b" by (simp add: file_blk_def)
    let ?r = "createBMapResponse n (?off mod 1024)"
    have bm: "bmap i ?off resp READ_MODE d = Some (0, Some ?r, i, d)"
      using bmap_existing [OF lt, of resp READ_MODE d] b(1) sz by (simp add: unat_of_nat_small)
    define c where "c = min (1024 - m mod 1024) (L - m)"
    let ?c = "min (bytesLeftInBlock ?r) (of_nat L - of_nat (length (take m (file_bytes i d))))"
    have len: "length (take m (file_bytes i d)) = m" using L(1) mL by simp
    have c: "unat ?c = c"
      unfolding len using sz mL
      by (simp add: unat_min c_def createBMapResponse_def unat_left_in_block unat_of_nat_diff)
    have c0: "0 < c" "c \<le> L - m" "m mod 1024 + c \<le> 1024" "\<not> unat sz < m + c" using mL L(2) by (auto simp: c_def)
    have rd: "readInBlock ?r ?c d = Some (bytes_at (m mod 1024) c b)"
      using b c c0 sz by (simp add: readInBlock_def createBMapResponse_def unat_mod_block)
    have chunk: "take m (file_bytes i d) @ bytes_at (m mod 1024) c b = take (m + c) (file_bytes i d)"
      using file_bytes_chunk [of m c i d] c0 L(1) b(3) blk by simp
    have "int (L - m) - uint ?c = int (L - (m + c))" using c c0 by (simp add: uint_nat)
    moreover have "?off + ?c = of_nat (m + c)" by (simp flip: c)
    ultimately have "read_loop i sz (of_nat L) (int (L - m)) ?off resp (take m (file_bytes i d)) d =
        read_loop i sz (of_nat L) (int (L - (m + c))) (of_nat (m + c)) (Some ?r) (take (m + c) (file_bytes i d)) d"
      using bm rd chunk mL c c0 len by (subst read_loop.simps) (simp add: Let_def diff_diff_eq)
    then show ?thesis using less.hyps [of "m + c"] c0 mL by simp
  qed
qed

section \<open>Appending\<close>

lemma dirty_meta [simp]: "dirty (updateINodeMetadata i c l d)"
  by (simp add: updateINodeMetadata_def Let_def)

text \<open>One iteration at the end of the file: the rest of the last block, or a new block, takes the piece \<open>c\<close>.\<close>

lemma write_loop_step:
  assumes rep: "direct i d fs" and m: "m = unat (isize i)" and w: "w < length buf" "length buf \<le> 10240"
    and fits: "append_fits i fs (length buf - w)"
  obtains c i' d' fs' resp' where "0 < c" and "c \<le> length buf - w" and "appended i d fs (bytes_at w c buf) i' d' fs'"
    and "dirty i'" and "write_loop buf (of_nat (length buf)) (of_nat w) (isize i) resp k i d =
      write_loop buf (of_nat (length buf)) (of_nat (w + c)) (isize i') resp' (k + of_nat c) i' d'"
proof -
  let ?len = "length buf"
  have w31: "w < 2 ^ 31" using w by simp
  note wc = of_c_int_of_nat [OF w31]
  have lt: "of_c_int (of_nat w) < (of_nat ?len :: size_t)"
    using w unfolding wc by (simp add: word_less_nat_alt unat_of_nat_small)
  have m10: "m < 10240" using fits w(1) unfolding append_fits_def m by linarith
  define c where "c = min (1024 - m mod 1024) (?len - w)"
  let ?c = "bytes_at w c buf"
  have c0: "0 < c" "c \<le> ?len - w" "m mod 1024 + c \<le> 1024" "c \<le> 1024" using w by (auto simp: c_def)
  have len: "length ?c = c" using c0 w by simp
  have fits': "append_fits i fs (length ?c)" unfolding len
    using append_fits_le [OF fits c0(2)] .
  obtain i1 d1 n b fs' where
    b: "bmap i (isize i) resp APPEND_MODE d = Some (0, Some (createBMapResponse n (isize i mod BLOCK_SIZE)), i1, d1)"
    and i1: "resized i i1" "isize i1 = isize i" and blk: "read_block n d1 = Some b" "length b = BLOCK_SIZE"
    and app: "\<And>i2 d2. resized i1 i2 \<Longrightarrow> dataBlockNums i2 = dataBlockNums i1 \<Longrightarrow> isize i2 = isize i + of_nat (length ?c) \<Longrightarrow>
      d2 = put_block n (memcpy_at (m mod BLOCK_SIZE) ?c b) d1 \<Longrightarrow> appended i d fs ?c i2 d2 fs'"
    by (rule append_piece [OF rep m fits', where resp = resp]) (use c0 len in auto)
  let ?r = "createBMapResponse n (isize i mod 1024)"
  let ?d2 = "put_block n (memcpy_at (m mod 1024) ?c b) d1"
  let ?i2 = "updateINodeMetadata i1 (to_c_int (of_nat c)) (linksCount i1) ?d2"
  have isz: "isize i = of_nat m" using m by simp
  have u: "unat (min (bytesLeftInBlock ?r) (of_nat ?len - of_c_int (of_nat w))) = c"
    unfolding wc c_def isz using w m10
    by (simp add: unat_min createBMapResponse_def unat_left_in_block unat_of_nat_diff)
  then have cw: "min (bytesLeftInBlock ?r) (of_nat ?len - of_c_int (of_nat w)) = of_nat c"
    by (metis unsigned_of_nat of_nat_unat ucast_id)
  have sz2: "isize ?i2 = isize i + of_nat c" using updateINodeMetadata_append [of c] c0(4) i1(2) by simp
  have "writeToBlock ?r ?c d1 = Some ?d2"
    using blk c0 len m by (simp add: writeToBlock_def createBMapResponse_def unat_mod_distrib)
  moreover have "to_c_int (of_c_int (of_nat w) + of_nat c) = of_nat (w + c)"
    using to_c_int_of_nat [of "w + c"] w c0(2) by (simp add: wc)
  ultimately have "write_loop buf (of_nat ?len) (of_nat w) (isize i) resp k i d =
      write_loop buf (of_nat ?len) (of_nat (w + c)) (isize ?i2) (Some ?r) (k + of_nat c) ?i2 ?d2"
    using lt b cw i1(2) sz2 u wc w31
    by (subst write_loop.simps) (simp add: Let_def unat_of_nat_small)
  moreover have "appended i d fs ?c ?i2 ?d2 fs'"
    by (rule app) (use sz2 len in simp_all)
  moreover have "dirty ?i2" by simp
  ultimately show thesis using that c0 by blast
qed

lemma write_loop_append:
  assumes "direct i d fs" and "w \<le> length buf" "length buf \<le> 10240" and "append_fits i fs (length buf - w)"
  shows "\<exists>i' d' fs'. write_loop buf (of_nat (length buf)) (of_nat w) (isize i) resp k i d =
      Some (of_nat (length buf), k + of_nat (length buf - w), i', d') \<and> appended i d fs (drop w buf) i' d' fs' \<and>
      (if w < length buf then dirty i' else i' = i \<and> d' = d \<and> fs' = fs)"
  using assms
proof (induction "length buf - w" arbitrary: i d fs w k resp rule: less_induct)
  case less
  let ?len = "length buf"
  show ?case
  proof (cases "w = ?len")
    case True
    moreover have "of_c_int (of_nat w) = of_nat w" using less.prems(2,3) by (intro of_c_int_of_nat) simp
    ultimately show ?thesis using less.prems(1) appended_Nil
      by (intro exI [of _ i] exI [of _ d] exI [of _ fs]) (subst write_loop.simps, simp)
  next
    case False
    with less.prems have wl: "w < ?len" by simp
    obtain c i1 d1 fs1 resp1 where c: "0 < c" "c \<le> ?len - w"
      and app: "appended i d fs (bytes_at w c buf) i1 d1 fs1" and di: "dirty i1"
      and step: "write_loop buf (of_nat ?len) (of_nat w) (isize i) resp k i d =
        write_loop buf (of_nat ?len) (of_nat (w + c)) (isize i1) resp1 (k + of_nat c) i1 d1"
      using write_loop_step [OF less.prems(1) refl wl less.prems(3,4)] by metis
    have split: "bytes_at w c buf @ drop (w + c) buf = drop w buf"
      by (simp add: bytes_at_def add.commute flip: drop_drop)
    have left: "?len - w = c + (?len - (w + c))" using c wl by simp
    have "direct i1 d1 fs1" using app by (simp add: appended_def)
    moreover have "append_fits i1 fs1 (?len - (w + c))"
      using append_fits_rest [OF app] less.prems(4) c wl by simp
    ultimately obtain i' d' fs' where
      "write_loop buf (of_nat ?len) (of_nat (w + c)) (isize i1) resp1 (k + of_nat c) i1 d1 =
        Some (of_nat ?len, k + of_nat c + of_nat (?len - (w + c)), i', d')"
      "appended i1 d1 fs1 (drop (w + c) buf) i' d' fs'" "dirty i'"
      using less.hyps [OF _ _ _ less.prems(3), of "w + c" i1 d1 fs1 resp1 "k + of_nat c"] c wl di by (force split: if_splits)
    moreover have "k + of_nat c + of_nat (?len - (w + c)) = k + of_nat (?len - w)"
      by (subst left) (simp add: add.assoc)
    ultimately show ?thesis using appended_trans [OF app] step split wl by metis
  qed
qed

section \<open>The operations on an open file\<close>

text \<open>Descriptor \<open>k\<close> is open on node \<open>p\<close>, which nobody has locked.\<close>

definition open_on :: "fs \<Rightarrow> nat \<Rightarrow> nat \<Rightarrow> bool" where
  "open_on s k p \<longleftrightarrow> k < MAX_FILE_DESCRIPTORS \<and> k < length (fileTable s) \<and> validEntry (fileTable s ! k) \<and>
     f_inode (fileTable s ! k) = p \<and> \<not> iNodeMutex (core s p)"

lemma open_on_descriptor:
  assumes "open_on s k p"
  shows "getFileDescriptor pid (c_int (of_nat k)) (fileTable s) = Some (0, Some k)"
proof -
  have "c_int (of_nat k) = int k" using assms by (intro c_int_eq unat_of_nat_small) (auto simp: open_on_def)
  then show ?thesis using assms by (simp add: getFileDescriptor_def open_on_def)
qed

lemma sint_small:
  assumes "unat (x :: size_t) < 2 ^ 63"
  shows "sint x = int (unat x)"
proof -
  have "int (unat x) < 2 ^ 63" using assms by (metis of_nat_less_iff of_nat_numeral of_nat_power)
  then have "uint x < 2 ^ 63" by simp
  moreover have "- (2 ^ 63) \<le> uint x" by (rule order_trans [of _ 0]) simp_all
  ultimately have "signed_take_bit 63 (uint x) = uint x" by (intro signed_take_bit_int_eq_self)
  then show ?thesis by (simp add: sint_uint)
qed

text \<open>Reading and writing move the offset of the descriptor.\<close>

definition advance :: "nat \<Rightarrow> nat \<Rightarrow> fs \<Rightarrow> fs" where
  "advance k c s = s\<lparr> fileTable := (fileTable s)[k := (fileTable s ! k)\<lparr> f_offset := f_offset (fileTable s ! k) + of_nat c \<rparr>] \<rparr>"

lemma advance_parts [simp]: "disk (advance k c s) = disk s" "cache (advance k c s) = cache s"
  by (simp_all add: advance_def)

lemma advance_open:
  assumes "open_on s k p"
  shows "open_on (advance k c s) k p" and "f_offset (fileTable (advance k c s) ! k) = f_offset (fileTable s ! k) + of_nat c"
  using assms by (simp_all add: open_on_def advance_def)

lemma readFile_whole:
  assumes op: "open_on s k p" and ok: "file_ok (core s p) (disk s)" and sz: "unat sz < 2 ^ 31"
    and fi: "fi_fh fi = of_nat k"
  defines "bs \<equiv> take (unat sz) (file_bytes (core s p) (disk s))"
  shows "readFile sz 0 fi ctx s = Some (int (length bs), bs, advance k (length bs) s)"
proof -
  let ?i = "(core s p)\<lparr> iNodeMutex := True \<rparr>" and ?L = "min (unat sz) (unat (isize (core s p)))"
  have fb: "file_bytes ?i (disk s) = file_bytes (core s p) (disk s)" by (rule file_bytes_cong) simp_all
  have ok': "file_ok ?i (disk s)" using ok file_ok_cong [of ?i "core s p"] by simp
  have bs: "bs = take ?L (file_bytes (core s p) (disk s))" unfolding bs_def by (simp add: min_def)
  have len: "length bs = ?L" by (simp add: bs)
  have "sint sz = int (unat sz)" by (rule sint_small) (use sz in simp)
  moreover have "sint (isize (core s p)) = int (unat (isize (core s p)))"
    by (rule sint_small) (use ok in \<open>simp add: file_ok_def\<close>)
  ultimately have left: "min (sint sz) (sint (isize (core s p)) - sint (0 :: size_t)) = int ?L"
    by (simp only: sint_0 diff_0_right of_nat_min)
  have last: "min (isize (core s p)) (sz + 0) = of_nat ?L"
    by (simp add: min_def word_le_nat_alt)
  have loop: "read_loop ?i sz (of_nat ?L) (int ?L) 0 None [] (disk s) = Some bs"
    using read_loop_ok [OF ok', of ?L sz 0 None] bs fb by simp
  let ?s = "upd_core p (iNodeMutex_update (\<lambda>_. True)) s"
  let ?t = "(fileTable s)[k := (fileTable s ! k)\<lparr> f_offset := f_offset (fileTable s ! k) + of_nat (length bs) \<rparr>]"
  have op': "k < length (fileTable s)" "f_inode (fileTable s ! k) = p" "\<not> iNodeMutex (core s p)"
    "validEntry (fileTable s ! k)" "k < 10000"
    using op by (simp_all add: open_on_def)
  have rd: "readBytes k sz 0 ?s = Some (bs, ?s\<lparr> fileTable := ?t \<rparr>)"
    using op'(2) left last loop by (simp add: readBytes_def Let_def)
  have "c_int (of_nat (length bs)) = int (length bs)"
    using sz len by (intro c_int_eq unat_of_nat_small) auto
  then have "readFile sz 0 fi ctx s = Some (int (length bs), bs, unlock p (?s\<lparr> fileTable := ?t \<rparr>))"
    using open_on_descriptor [OF op, of "ctx_pid ctx"] fi op' rd
    by (simp add: readFile_def lock_free Let_def)
  then show ?thesis unfolding unlock_fileTable unlock_marked [OF op'(3)] by (simp add: advance_def)
qed


lemma writeToFile_state:
  assumes op: "open_on s k p" and fi: "fi_fh fi = of_nat k"
    and rep: "direct (core s p) (disk s) fs" and fits: "append_fits (core s p) fs (length buf)"
  shows "\<exists>i' d' fs'. writeToFile buf (isize (core s p)) fi ctx s =
      Some (int (length buf), advance k (length buf) (upd_core p (\<lambda>_. i') (s\<lparr> disk := d' \<rparr>))) \<and>
    appended (core s p) (disk s) fs buf i' d' fs' \<and> (if buf = [] then i' = core s p \<and> d' = disk s \<and> fs' = fs else dirty i')"
proof -
  let ?i = "(core s p)\<lparr> iNodeMutex := True \<rparr>" and ?len = "length buf"
  have op': "k < length (fileTable s)" "f_inode (fileTable s ! k) = p" "\<not> iNodeMutex (core s p)"
    "validEntry (fileTable s ! k)" "k < 10000"
    using op by (simp_all add: open_on_def)
  have len: "?len \<le> 10240" using fits by (simp add: append_fits_def)
  obtain i' d' fs' where w: "write_loop buf (of_nat ?len) 0 (isize ?i) None 0 ?i (disk s) =
      Some (of_nat ?len, of_nat ?len, i', d')"
    and app: "appended ?i (disk s) fs buf i' d' fs'"
    and di: "if buf = [] then i' = ?i \<and> d' = disk s \<and> fs' = fs else dirty i'"
    using write_loop_append [of ?i "disk s" fs 0 buf None 0] rep fits len by (auto split: if_splits)
  let ?t = "(fileTable s)[k := (fileTable s ! k)\<lparr> f_offset := f_offset (fileTable s ! k) + of_nat ?len \<rparr>]"
  have "writeToFile buf (isize (core s p)) fi ctx s = Some (sint (of_nat ?len :: 32 word),
      unlock p ((upd_core p (\<lambda>_. i') ((upd_core p (iNodeMutex_update (\<lambda>_. True)) s)\<lparr> disk := d' \<rparr>))\<lparr> fileTable := ?t \<rparr>))"
    using open_on_descriptor [OF op, of "ctx_pid ctx"] fi op' w
    by (simp add: writeToFile_def lock_free Let_def)
  moreover have "sint (of_nat ?len :: 32 word) = int ?len" by (rule sint_of_nat32) (use len in simp)
  ultimately have "writeToFile buf (isize (core s p)) fi ctx s =
      Some (int ?len, advance k ?len (upd_core p (\<lambda>_. i'\<lparr> iNodeMutex := False \<rparr>) (s\<lparr> disk := d' \<rparr>)))"
    unfolding unlock_fileTable locked_replace by (simp add: advance_def)
  moreover have "?i\<lparr> iNodeMutex := False \<rparr> = core s p" using op'(3) by (cases "core s p") simp
  ultimately show ?thesis
    using appended_mutex [OF app] op'(3) di by (intro exI [of _ "i'\<lparr> iNodeMutex := False \<rparr>"] exI [of _ d'] exI [of _ fs']) (auto split: if_splits)
qed

lemma writeToFile_append:
  assumes op: "open_on s k p" and fi: "fi_fh fi = of_nat k"
    and rep: "direct (core s p) (disk s) fs" and fits: "append_fits (core s p) fs (length buf)"
  shows "\<exists>s' fs'. writeToFile buf (isize (core s p)) fi ctx s = Some (int (length buf), s') \<and> open_on s' k p \<and>
    appended (core s p) (disk s) fs buf (core s' p) (disk s') fs' \<and>
    f_offset (fileTable s' ! k) = f_offset (fileTable s ! k) + of_nat (length buf) \<and>
    (\<forall>q. q \<noteq> p \<longrightarrow> core s' q = core s q)"
proof -
  obtain i' d' fs' where w: "writeToFile buf (isize (core s p)) fi ctx s =
      Some (int (length buf), advance k (length buf) (upd_core p (\<lambda>_. i') (s\<lparr> disk := d' \<rparr>)))"
    and app: "appended (core s p) (disk s) fs buf i' d' fs'"
    using writeToFile_state [OF assms, of ctx] by blast
  let ?s = "upd_core p (\<lambda>_. i') (s\<lparr> disk := d' \<rparr>)"
  have "iNodeMutex i' = iNodeMutex (core s p)" using app resizedD(1) by (simp add: appended_def)
  then have "open_on ?s k p" using op by (simp add: open_on_def)
  then show ?thesis using w app advance_open [of ?s k p "length buf"]
    by (intro exI [of _ "advance k (length buf) ?s"] exI [of _ fs']) simp
qed

text \<open>What was appended is what is read.\<close>

lemma append_then_read:
  assumes op: "open_on s k p" and fi: "fi_fh fi = of_nat k"
    and rep: "direct (core s p) (disk s) fs" and fits: "append_fits (core s p) fs (length buf)"
    and sz: "unat (isize (core s p)) + length buf \<le> unat sz" "unat sz < 2 ^ 31"
  shows "\<exists>s1 s2. writeToFile buf (isize (core s p)) fi ctx s = Some (int (length buf), s1) \<and>
    readFile sz 0 fi ctx s1 =
      Some (int (unat (isize (core s p)) + length buf), file_bytes (core s p) (disk s) @ buf, s2)"
proof -
  obtain s1 fs' where s1: "writeToFile buf (isize (core s p)) fi ctx s = Some (int (length buf), s1)" "open_on s1 k p"
    "appended (core s p) (disk s) fs buf (core s1 p) (disk s1) fs'"
    using writeToFile_append [OF assms(1-4)] by blast
  then have b: "direct_file (core s1 p) (disk s1) fs' (blocks_for (unat (isize (core s1 p))))"
    "file_bytes (core s1 p) (disk s1) = file_bytes (core s p) (disk s) @ buf"
    by (simp_all add: appended_def direct_def)
  have "take (unat sz) (file_bytes (core s1 p) (disk s1)) = file_bytes (core s p) (disk s) @ buf"
    using b(2) sz(1) by simp
  then show ?thesis using s1(1) readFile_whole [OF s1(2) direct_file_ok [OF b(1)] sz(2) fi, of ctx] by simp
qed

text \<open>A state with an empty file open.\<close>

lemma empty_open_file:
  obtains s fs where "open_on s 0 0" and "direct (core s 0) (disk s) fs"
    and "isize (core s 0) = 0" and "length fs = 2" and "file_bytes (core s 0) (disk s) = []"
proof -
  let ?i = "inCoreiNode.make False 1 0 5 0 0 0 1 1 0 0 0 (replicate 13 0) False False 0"
  let ?n = "\<lparr> inode = ?i, n_prev = None, n_next = None, hash_prev = None, hash_next = None \<rparr>"
  obtain d where d: "free_list d [16390, 16391]" using free_list_exists [of "[16390, 16391]"] by auto
  let ?s = "\<lparr> cache = \<lparr> nodes = (\<lambda>_. ?n), freeList = None, hashQ = replicate INODE_HASH_SIZE None \<rparr>, disk = d,
    fileTable = [\<lparr> f_inode = 0, f_pid = 1, f_flags = 2, f_offset = 0, validEntry = True \<rparr>] \<rparr>"
  have "open_on ?s 0 0" by (simp add: open_on_def inCoreiNode.defs)
  moreover have "direct (core ?s 0) (disk ?s) [16390, 16391]"
    using d by (simp add: direct_def direct_file_def wf_inCore_def inCoreiNode.defs blocks_for_def)
  ultimately show ?thesis by (rule that) (simp_all add: inCoreiNode.defs file_bytes_def)
qed

section \<open>Properties\<close>

text \<open>
  C20. \<open>readFile\<close> at offset 0 through an open descriptor returns the first \<open>sz\<close> bytes of the file, or all of them
  when the file is shorter, at every level of indirection; it changes neither the disk nor any inode and advances
  the offset of the descriptor by the number of bytes read.
\<close>

theorem read_whole:
  assumes "open_on s k p" and "file_ok (core s p) (disk s)" and "unat sz < 2 ^ 31" and "fi_fh fi = of_nat k"
  shows "\<exists>s' bs. bs = take (unat sz) (file_bytes (core s p) (disk s)) \<and>
    readFile sz 0 fi ctx s = Some (int (length bs), bs, s') \<and> open_on s' k p \<and> disk s' = disk s \<and>
    core s' = core s \<and> f_offset (fileTable s' ! k) = f_offset (fileTable s ! k) + of_nat (length bs)"
proof -
  define bs where "bs = take (unat sz) (file_bytes (core s p) (disk s))"
  have "core (advance k (length bs) s) = core s" by (simp add: fun_eq_iff)
  then show ?thesis
    using readFile_whole [OF assms, of ctx] advance_open [OF assms(1), of "length bs"] unfolding bs_def [symmetric]
    by (intro exI [of _ "advance k (length bs) s"] exI [of _ bs]) simp
qed

theorem read_whole_witness:
  "\<exists>s s'. file_bytes (core s 0) (disk s) = [104, 105] \<and>
     readFile 1 0 \<lparr> fi_flags = 0, fi_fh = 0 \<rparr> \<lparr> ctx_uid = 0, ctx_gid = 0, ctx_pid = 1 \<rparr> s = Some (1, [104], s')"
proof -
  let ?fi = "\<lparr> fi_flags = 0, fi_fh = 0 \<rparr>" and ?ctx = "\<lparr> ctx_uid = 0, ctx_gid = 0, ctx_pid = 1 \<rparr>"
  obtain s0 fs where "open_on s0 0 0" "direct (core s0 0) (disk s0) fs" "isize (core s0 0) = 0"
    "length fs = 2" "file_bytes (core s0 0) (disk s0) = []"
    by (rule empty_open_file)
  then obtain s fs' where s: "open_on s 0 0" "direct (core s 0) (disk s) fs'"
    "file_bytes (core s 0) (disk s) = [104, 105]"
    using writeToFile_append [of s0 0 0 ?fi fs "[104, 105]" ?ctx] by (auto simp: append_fits_def appended_def blocks_for_def)
  then have "unat (isize (core s 0)) = 2" using length_file_bytes [of "core s 0" "disk s"] by simp
  then show ?thesis
    using read_whole [of s 0 0 1 ?fi ?ctx] direct_file_ok [OF s(2) [unfolded direct_def]] s(1,3) by - (rule exI [of _ s], auto)
qed

text \<open>
  C19. \<open>writeToFile\<close> at the end of a file in direct blocks appends the buffer: the file holds its old bytes followed by
  the new ones, the blocks it needed came off the front of the free list, nothing outside the list and the file's
  own blocks was written, the inode keeps everything but blocks, size, time and flags, other inodes are unchanged
  and the offset of the descriptor has advanced.
\<close>

theorem append_write:
  assumes "open_on s k p" and "fi_fh fi = of_nat k" and "direct (core s p) (disk s) fs"
    and "append_fits (core s p) fs (length buf)"
  shows "\<exists>s' fs'. writeToFile buf (isize (core s p)) fi ctx s = Some (int (length buf), s') \<and> open_on s' k p \<and>
    direct (core s' p) (disk s') fs' \<and> file_bytes (core s' p) (disk s') = file_bytes (core s p) (disk s) @ buf \<and>
    resized (core s p) (core s' p) \<and> (\<forall>q. q \<noteq> p \<longrightarrow> core s' q = core s q) \<and>
    (\<exists>new. fs = new @ fs' \<and> file_blocks (core s' p) = file_blocks (core s p) \<union> set new) \<and>
    same_except (disk s) (disk s') (insert FREE_LIST_BLOCK (file_blocks (core s' p))) \<and>
    f_offset (fileTable s' ! k) = f_offset (fileTable s ! k) + of_nat (length buf)"
  using writeToFile_append [OF assms, of ctx] unfolding appended_def by blast

theorem append_write_witness:
  "\<exists>s s'. file_bytes (core s 0) (disk s) = [] \<and>
     writeToFile [104, 105] 0 \<lparr> fi_flags = 1, fi_fh = 0 \<rparr> \<lparr> ctx_uid = 0, ctx_gid = 0, ctx_pid = 1 \<rparr> s = Some (2, s') \<and>
     file_bytes (core s' 0) (disk s') = [104, 105]"
proof -
  let ?fi = "\<lparr> fi_flags = 1, fi_fh = 0 \<rparr>" and ?ctx = "\<lparr> ctx_uid = 0, ctx_gid = 0, ctx_pid = 1 \<rparr>"
  obtain s fs where "open_on s 0 0" "direct (core s 0) (disk s) fs" "isize (core s 0) = 0"
    "length fs = 2" "file_bytes (core s 0) (disk s) = []"
    by (rule empty_open_file)
  then show ?thesis
    using append_write [of s 0 0 ?fi fs "[104, 105]" ?ctx] by - (rule exI [of _ s], auto simp: append_fits_def blocks_for_def)
qed

text \<open>
  C18. Reading a file after a write at its end returns the old bytes followed by those written.
\<close>

theorem append_read:
  assumes "open_on s k p" and "fi_fh fi = of_nat k" and "direct (core s p) (disk s) fs"
    and "append_fits (core s p) fs (length buf)" and "unat (isize (core s p)) + length buf \<le> unat sz" and "unat sz < 2 ^ 31"
  shows "\<exists>s1 s2. writeToFile buf (isize (core s p)) fi ctx s = Some (int (length buf), s1) \<and>
    readFile sz 0 fi ctx s1 =
      Some (int (unat (isize (core s p)) + length buf), file_bytes (core s p) (disk s) @ buf, s2)"
  by (rule append_then_read [OF assms])

theorem append_read_witness:
  "\<exists>s s1 s2. writeToFile [104, 105] 0 \<lparr> fi_flags = 2, fi_fh = 0 \<rparr> \<lparr> ctx_uid = 0, ctx_gid = 0, ctx_pid = 1 \<rparr> s = Some (2, s1) \<and>
     readFile 100 0 \<lparr> fi_flags = 2, fi_fh = 0 \<rparr> \<lparr> ctx_uid = 0, ctx_gid = 0, ctx_pid = 1 \<rparr> s1 = Some (2, [104, 105], s2)"
proof -
  let ?fi = "\<lparr> fi_flags = 2, fi_fh = 0 \<rparr>" and ?ctx = "\<lparr> ctx_uid = 0, ctx_gid = 0, ctx_pid = 1 \<rparr>"
  obtain s fs where "open_on s 0 0" "direct (core s 0) (disk s) fs" "isize (core s 0) = 0"
    "length fs = 2" "file_bytes (core s 0) (disk s) = []"
    by (rule empty_open_file)
  then show ?thesis
    using append_read [of s 0 0 ?fi fs "[104, 105]" 100 ?ctx] by - (rule exI [of _ s], auto simp: append_fits_def blocks_for_def)
qed

end
