(* ===== verification/Handles.thy ===== *)
theory Handles
  imports Namei
begin

text \<open>
  The inode cache as operations that hold several inodes at once see it.  What can be observed is, for every
  inode, its content (\<open>inode_view\<close>), its references (\<open>refs\<close>), whether changes wait to be written (\<open>pending\<close>)
  and the node that holds it (\<open>holds\<close>).  \<open>iget\<close>, \<open>iput\<close> and a change of a held node each concern one inode
  (\<open>touches\<close>); writing blocks under the cache concerns none that it relies on (\<open>disk_change\<close>).
\<close>

section \<open>What operations see of the cache\<close>

definition well :: "fs \<Rightarrow> bool" where
  "well s \<longleftrightarrow> (\<exists>fl hq. cache_inv s fl hq \<and> coherent s hq)"

lemma well_meta_ok: "well s \<Longrightarrow> meta_ok (disk s)"
  by (auto simp: well_def cache_inv_def numbered_def)

text \<open>Inode \<open>n\<close> has changes not yet on the disk; the free nodes.\<close>

definition pending :: "fs \<Rightarrow> size_t \<Rightarrow> bool" where
  "pending s n \<longleftrightarrow> (\<exists>p. hashLookup n 0 (cache s) = Some (Some p) \<and> dirty (core s p))"

definition free_nodes :: "fs \<Rightarrow> nat set" where
  "free_nodes s = {p. p < INODE_BUFFER_SIZE \<and> reference_count (core s p) = 0}"

text \<open>
  A step from \<open>s\<close> to \<open>s'\<close> that concerns inode \<open>n\<close> only: afterwards it has content \<open>x\<close> and \<open>r\<close> references.
\<close>

definition touches :: "fs \<Rightarrow> size_t \<Rightarrow> size_t \<Rightarrow> iNode \<Rightarrow> fs \<Rightarrow> bool" where
  "touches s n r x s' \<longleftrightarrow> well s' \<and> fileTable s' = fileTable s \<and>
     (\<forall>m < NUM_OF_INODES. inode_view s' m = (if m = n then x else inode_view s m)) \<and>
     (\<forall>m. refs s' m = (if m = n then r else refs s m)) \<and>
     (\<forall>q m. holds s q m \<longrightarrow> m \<noteq> n \<longrightarrow> holds s' q m \<and> core s' q = core s q) \<and>
     (\<forall>m. m \<noteq> n \<longrightarrow> pending s' m = pending s m) \<and>
     card (free_nodes s') + of_bool (r \<noteq> 0) = card (free_nodes s) + of_bool (refs s n \<noteq> 0)"

lemma holdsE:
  assumes "well s" and "holds s p n"
  obtains fl hq where "cache_inv s fl hq" and "coherent s hq" and "p \<in> set hq" and "p < 32" and "n < NUM_OF_INODES"
    and "inode_number (core s p) = n" and "reference_count (core s p) = refs s n" and "refs s n \<noteq> 0"
    and "\<not> iNodeMutex (core s p)" and "wf_inCore (core s p)" and "getDiskINodeData (core s p) = inode_view s n"
    and "pending s n \<longleftrightarrow> dirty (core s p)"
proof -
  obtain fl hq where inv: "cache_inv s fl hq" and co: "coherent s hq" using assms(1) by (auto simp: well_def)
  note D = cache_invD [OF inv]
  have p: "p \<in> set hq" "inode_number (core s p) = n" using assms(2) lookup_node [OF inv] by (auto simp: holds_def)
  have p32: "p < 32" using D(12) [OF p(1)] .
  have r: "reference_count (core s p) = refs s n" using refs_cached [OF inv p] by simp
  have nz: "reference_count (core s p) \<noteq> 0" using assms(2) by (simp add: holds_def)
  have "getDiskINodeData (core s p) = inode_view s n"
    using view_cached [OF inv p] co p nz by (auto simp: coherent_def word_neq_0_conv)
  moreover have "pending s n \<longleftrightarrow> dirty (core s p)" using assms(2) by (auto simp: pending_def holds_def)
  ultimately show ?thesis
    using that [OF inv co p(1) p32 _ p(2) r _ D(9) [OF p32] D(10) [OF p32]] D(14) [OF p(1)] p nz r by auto
qed

lemma step_touches:
  assumes inv: "cache_inv s fl hq" and inv': "cache_inv s' fl' hq'" and co': "coherent s' hq'"
    and st: "cache_step s s' p i fl'' hq''" and hq': "set hq' = insert p (set hq)" and n: "inode_number i = n"
    and old: "p \<in> set hq \<and> inode_number (core s p) = n \<or> reference_count (core s p) = 0 \<and> \<not> dirty (core s p)"
    and d: "\<And>m. m < NUM_OF_INODES \<Longrightarrow> m \<noteq> n \<Longrightarrow> inode_at (disk s') m = inode_at (disk s) m"
    and x: "x = (if dirty i then getDiskINodeData i else inode_at (disk s') n)"
  shows "touches s n (reference_count i) x s'" and "pending s' n = dirty i"
    and "reference_count i \<noteq> 0 \<Longrightarrow> holds s' p n"
proof -
  note c = cache_stepD(1) [OF st]
  have p: "p \<in> set hq'" "core s' p = i" "p < 32" using hq' c [of p] cache_invD(12) [OF inv', of p] by auto
  have look: "hashLookup n 0 (cache s') = Some (Some p)" using lookup_node [OF inv'] p n by auto
  then show "pending s' n = dirty i" by (auto simp: pending_def p)
  show "reference_count i \<noteq> 0 \<Longrightarrow> holds s' p n" using look p by (simp add: holds_def)
  have key: "inode_number (core s q) \<noteq> n" if "q \<in> set hq" "q \<noteq> p" for q
    using that c [of q] p n hq' cache_invD(3) [OF inv'] by (auto simp: inj_on_def node_key_core)
  have other: "hashLookup m 0 (cache s') = Some (Some q) \<longleftrightarrow> hashLookup m 0 (cache s) = Some (Some q) \<and> q \<noteq> p"
    if "m \<noteq> n" for m q
    using that lookup_node [OF inv] lookup_node [OF inv'] hq' c [of q] n by (cases "q = p") auto
  have refs: "refs s' m = (if m = n then reference_count i else refs s m)" for m
    using refs_step [OF inv inv' st hq'] old n by auto
  have view: "inode_view s' m = (if m = n then x else inode_view s m)" if m: "m < NUM_OF_INODES" for m
  proof (cases "m = n")
    case True
    then show ?thesis using view_cached [OF inv' p(1), of n] p n x by simp
  next
    case False
    then show ?thesis using view_step_other [OF inv inv' st hq', of m] n d [OF m False] old by auto
  qed
  have holds: "holds s' q m \<and> core s' q = core s q" if "holds s q m" "m \<noteq> n" for q m
  proof -
    have "q \<noteq> p" using that old lookup_node [OF inv] by (auto simp: holds_def)
    then show ?thesis using that other c [of q] by (simp add: holds_def)
  qed
  have pend: "pending s' m = pending s m" if "m \<noteq> n" for m
  proof -
    have "\<not> (hashLookup m 0 (cache s) = Some (Some p) \<and> dirty (core s p))"
      using that old lookup_node [OF inv] by auto
    then show ?thesis using that other c unfolding pending_def by metis
  qed
  have rn: "reference_count (core s p) = refs s n"
  proof (cases "p \<in> set hq \<and> inode_number (core s p) = n")
    case True
    then show ?thesis using refs_cached [OF inv] by auto
  next
    case False
    then have "\<forall>q \<in> set hq. inode_number (core s q) \<noteq> n" using key by auto
    then show ?thesis using refs_uncached [OF inv] old False by auto
  qed
  have "free_nodes s' = (if reference_count i = 0 then insert p (free_nodes s) else free_nodes s - {p})"
    using p(3) c by (auto simp: free_nodes_def split: if_splits)
  moreover have fin: "finite (free_nodes s)" by (simp add: free_nodes_def)
  moreover have "p \<in> free_nodes s \<longleftrightarrow> refs s n = 0" using p(3) rn by (simp add: free_nodes_def)
  moreover have "p \<in> free_nodes s \<Longrightarrow> 0 < card (free_nodes s)" using fin by (auto simp: card_gt_0_iff)
  ultimately have "card (free_nodes s') + of_bool (reference_count i \<noteq> 0) = card (free_nodes s) + of_bool (refs s n \<noteq> 0)"
    by (cases "p \<in> free_nodes s") (auto simp: card_insert_if)
  then show "touches s n (reference_count i) x s'"
    using inv' co' refs view holds pend cache_stepD(2) [OF st] unfolding touches_def well_def by blast
qed

section \<open>Taking, changing and giving back an inode\<close>

lemma iget_touches:
  assumes "well s" and n: "n < NUM_OF_INODES" and room: "refs s n \<noteq> 0 \<or> free_nodes s \<noteq> {}" and fit: "refs s n \<noteq> SIZE_MAX"
    and linked: "pending s n \<Longrightarrow> di_linksCount (inode_view s n) \<noteq> 0"
  shows "\<exists>p s'. iget n 0 s = Some (Some p, s') \<and> touches s n (refs s n + 1) (inode_view s n) s' \<and> holds s' p n \<and>
    disk s' = disk s \<and> pending s' n = pending s n"
proof -
  obtain fl hq where inv: "cache_inv s fl hq" and co: "coherent s hq" using assms(1) by (auto simp: well_def)
  note D = cache_invD [OF inv]
  have room: "fl \<noteq> [] \<or> (\<exists>p \<in> set hq. inode_number (core s p) = n)"
    using room refs_uncached [OF inv] D(8) by (force simp: free_nodes_def)
  have "\<forall>p \<in> set hq. inode_number (core s p) = n \<longrightarrow> dirty (core s p) \<longrightarrow> linksCount (core s p) \<noteq> 0"
    using linked lookup_node [OF inv] view_cached [OF inv] same_links by (metis pending_def)
  then obtain p s' fl' hq' where s': "iget n 0 s = Some (Some p, s')" "cache_inv s' fl' hq'" "coherent s' hq'"
      "p \<in> set hq'" "getDiskINodeData (core s' p) = inode_view s n"
    using iget_transparent [OF inv co n room fit] by blast
  obtain i fl'' hq'' where inv2: "cache_inv s' fl'' hq''"
    and i: "disk s' = disk s" "cache_step s s' p i fl'' hq''" "set hq'' = insert p (set hq)"
      "inode_number i = n" "reference_count i = refs s n + 1" "got s n hq p i"
    using iget_step [OF inv n room fit] s'(1) by auto
  have hq': "set hq' = insert p (set hq)"
    using i(3) lookup_node [OF s'(2)] lookup_node [OF inv2] by blast
  have nz: "reference_count i \<noteq> 0" using i(5) fit by (simp add: eq_neg_iff_add_eq_0 [symmetric])
  have ci: "core s' p = i" using cache_stepD(1) [OF i(2), of p] by simp
  have old: "p \<in> set hq \<and> inode_number (core s p) = n \<or> reference_count (core s p) = 0 \<and> \<not> dirty (core s p)"
    using i(6) co by (auto simp: got_def coherent_def)
  have x: "inode_view s n = (if dirty i then getDiskINodeData i else inode_at (disk s') n)"
    using s'(3-5) ci i(4) nz by (auto simp: coherent_def word_neq_0_conv)
  note st = step_touches [OF inv s'(2,3) i(2) hq' i(4) old _ x]
  have "dirty i = dirty (core s p)" using i(6) by (auto simp: got_def)
  moreover have "pending s n = dirty (core s p)"
  proof (cases "p \<in> set hq \<and> inode_number (core s p) = n")
    case True
    then have "hashLookup n 0 (cache s) = Some (Some p)" using lookup_node [OF inv] by blast
    then show ?thesis by (simp add: pending_def)
  next
    case False
    then have "\<not> dirty (core s p)" "\<forall>q \<in> set hq. inode_number (core s q) \<noteq> n" using i(6) old by (auto simp: got_def)
    then show ?thesis using lookup_node [OF inv] by (auto simp: pending_def)
  qed
  ultimately show ?thesis using s'(1) st(1,2) st(3) nz i(1,5) by (intro exI [of _ p] exI [of _ s']) simp
qed

lemma change_touches:
  assumes w: "well s" and h: "holds s p n"
    and i: "inode_number i = n" "reference_count i = reference_count (core s p)"
      "iNodeMutex i = iNodeMutex (core s p)" "wf_inCore i" "dirty i"
  shows "touches s n (refs s n) (getDiskINodeData i) (upd_core p (\<lambda>_. i) s)" and "holds (upd_core p (\<lambda>_. i) s) p n"
    and "pending (upd_core p (\<lambda>_. i) s) n"
proof -
  let ?s = "upd_core p (\<lambda>_. i) s"
  obtain fl hq where inv: "cache_inv s fl hq" and co: "coherent s hq" and p: "p \<in> set hq"
    and n: "inode_number (core s p) = n" and r: "reference_count (core s p) = refs s n" "refs s n \<noteq> 0"
    using w h by (rule holdsE)
  note st = modify_inv(1) [OF inv p i(1) [folded n] i(2-4)] and inv1 = modify_inv(2) [OF inv p i(1) [folded n] i(2-4)]
  have key: "\<forall>q \<in> set hq - {p}. inode_number (core s q) \<noteq> inode_number i"
    using inv p i(1) n by (auto simp: cache_inv_def inj_on_def node_key_core)
  have hq: "set hq = insert p (set hq)" using p by auto
  have co1: "coherent ?s hq" by (rule coherent_step [OF inv co st hq key]) (use i(2,5) r in auto)
  have old: "p \<in> set hq \<and> inode_number (core s p) = n \<or> reference_count (core s p) = 0 \<and> \<not> dirty (core s p)"
    using p n by simp
  have x: "getDiskINodeData i = (if dirty i then getDiskINodeData i else inode_at (disk ?s) n)" using i(5) by simp
  note t = step_touches [OF inv inv1 co1 st hq i(1) old _ x]
  show "touches s n (refs s n) (getDiskINodeData i) ?s" "holds ?s p n" "pending ?s n"
    using t(1-3) i(2,5) r by simp_all
qed

text \<open>The last reference writes pending changes to the inode's place in the table; data blocks stay.\<close>

lemma iput_touches:
  assumes w: "well s" and h: "holds s p n" and keep: "keeps s n"
  shows "\<exists>s'. iput p s = Some (0, s') \<and> touches s n (refs s n - 1) (inode_view s n) s' \<and>
    pending s' n = (pending s n \<and> refs s n \<noteq> 1) \<and> (refs s n \<noteq> 1 \<longrightarrow> holds s' p n) \<and>
    disk s' = (if refs s n = 1 \<and> pending s n then put_inode n (inode_view s n) (disk s) else disk s)"
proof -
  obtain fl hq where inv: "cache_inv s fl hq" and co: "coherent s hq" and p: "p \<in> set hq" "p < 32" "n < NUM_OF_INODES"
    and n: "inode_number (core s p) = n" and r: "reference_count (core s p) = refs s n" "refs s n \<noteq> 0"
    and data: "getDiskINodeData (core s p) = inode_view s n" and pe: "pending s n \<longleftrightarrow> dirty (core s p)"
    using w h by (rule holdsE)
  have r0: "0 < reference_count (core s p)" using r by (simp add: word_neq_0_conv)
  have k: "linksCount (core s p) \<noteq> 0 \<or> inode_number (core s p) = 0"
    using keep same_links [OF data] n by (auto simp: keeps_def)
  obtain s' fl' where s': "iput p s = Some (0, s')" "cache_inv s' fl' hq" "coherent s' hq"
      "\<forall>m < NUM_OF_INODES. inode_view s' m = inode_view s m"
    using iput_transparent [OF inv co p(1) r0 k] by blast
  have sp: "fileTable s' = fileTable s"
      "disk s' = (if refs s n = 1 then written_back (core s p) (disk s) else disk s)"
    using iput_spec [OF inv p(1) r0 k] s'(1) n by auto
  let ?i = "given_back (core s p)"
  have core: "core s' q = (if q = p then ?i else core s q)" for q
    by (rule iput_core [OF inv p(1) r0 k s'(1)])
  have st: "cache_step s s' p ?i fl' hq"
    using core sp(1) cache_invD(1,2) [OF s'(2)] by (auto simp: cache_step_def fun_eq_iff)
  have hq: "set hq = insert p (set hq)" using p by auto
  have i: "inode_number ?i = n" "reference_count ?i = refs s n - 1" "dirty ?i = (pending s n \<and> refs s n \<noteq> 1)"
    using n r pe by (auto simp: given_back_def released_def)
  have old: "p \<in> set hq \<and> inode_number (core s p) = n \<or> reference_count (core s p) = 0 \<and> \<not> dirty (core s p)"
    using p n by simp
  have d: "inode_at (disk s') m = inode_at (disk s) m" if "m < NUM_OF_INODES" "m \<noteq> n" for m
    using that sp(2) p(3) n cache_invD(5) [OF inv] by (auto simp: written_back_def inode_at_put_inode)
  have "core s' p = ?i" using core by simp
  then have x: "inode_view s n = (if dirty ?i then getDiskINodeData ?i else inode_at (disk s') n)"
    using s'(4) p(3) view_cached [OF s'(2) p(1), of n] i(1) by auto
  note t = step_touches [OF inv s'(2,3) st hq i(1) old d x]
  have "refs s n - 1 \<noteq> 0 \<longleftrightarrow> refs s n \<noteq> 1" by simp
  then show ?thesis using s'(1) t sp(2) i(2,3) n pe data by (intro exI [of _ s']) (auto simp: written_back_def)
qed

text \<open>Blocks of the disk change under the cache, but no inode that the cache relies on.\<close>

definition spares :: "fs \<Rightarrow> dsk \<Rightarrow> bool" where
  "spares s d \<longleftrightarrow> numbered d \<and> (\<forall>m < NUM_OF_INODES. inode_at d m = inode_at (disk s) m \<or>
     refs s m = 0 \<and> di_linksCount (inode_at (disk s) m) = 0)"

lemma disk_observe [simp]:
  "refs (s\<lparr> disk := d \<rparr>) n = refs s n" "holds (s\<lparr> disk := d \<rparr>) p n = holds s p n"
  "pending (s\<lparr> disk := d \<rparr>) n = pending s n" "free_nodes (s\<lparr> disk := d \<rparr>) = free_nodes s"
  by (simp_all add: refs_def holds_def pending_def free_nodes_def split: option.splits)

lemma unreferenced:
  assumes "well s" and "refs s m = 0"
  shows "\<not> pending s m" and "inode_view s m = inode_at (disk s) m"
proof -
  obtain fl hq where inv: "cache_inv s fl hq" and co: "coherent s hq" using assms(1) by (auto simp: well_def)
  show "\<not> pending s m"
    using refs_cached [OF inv] lookup_node [OF inv] cache_invD(12) [OF inv] co assms(2) by (auto simp: pending_def coherent_def)
  then show "inode_view s m = inode_at (disk s) m" by (auto simp: inode_view_def pending_def split: option.splits)
qed

lemma disk_change:
  assumes w: "well s" and sp: "spares s d"
  shows "well (s\<lparr> disk := d \<rparr>)"
    and "\<And>m. m < NUM_OF_INODES \<Longrightarrow>
      inode_view (s\<lparr> disk := d \<rparr>) m = (if refs s m = 0 then inode_at d m else inode_view s m)"
proof -
  obtain fl hq where inv: "cache_inv s fl hq" and co: "coherent s hq" using w by (auto simp: well_def)
  note D = cache_invD [OF inv]
  have inv': "cache_inv (s\<lparr> disk := d \<rparr>) fl hq" using inv sp by (auto simp: cache_inv_def spares_def)
  have "getDiskINodeData (core s p) = inode_at d (inode_number (core s p))"
    if "p \<in> set hq" "\<not> dirty (core s p)" "0 < reference_count (core s p) \<or> linksCount (core s p) \<noteq> 0" for p
  proof -
    let ?m = "inode_number (core s p)"
    have "getDiskINodeData (core s p) = inode_at (disk s) ?m" using co that by (auto simp: coherent_def)
    moreover then have "linksCount (core s p) = di_linksCount (inode_at (disk s) ?m)" by (rule same_links)
    moreover have "refs s ?m = reference_count (core s p)" using refs_cached [OF inv that(1)] by simp
    ultimately show ?thesis using sp D(14) [OF that(1)] that(3) by (auto simp: spares_def)
  qed
  then have "coherent (s\<lparr> disk := d \<rparr>) hq" using co by (auto simp: coherent_def)
  with inv' show w': "well (s\<lparr> disk := d \<rparr>)" by (auto simp: well_def)
  fix m :: size_t assume m: "m < 65536"
  show "inode_view (s\<lparr> disk := d \<rparr>) m = (if refs s m = 0 then inode_at d m else inode_view s m)"
  proof (cases "refs s m = 0")
    case True
    then show ?thesis using unreferenced(2) [OF w', of m] by simp
  next
    case False
    then have "inode_at d m = inode_at (disk s) m" using sp m by (auto simp: spares_def)
    then show ?thesis using False by (simp add: inode_view_def split: option.splits)
  qed
qed

text \<open>Data blocks change under the cache.\<close>

lemma data_change:
  assumes w: "well s" and st: "data_step (disk s) d" and ok: "meta_ok d"
  shows "well (s\<lparr> disk := d \<rparr>)" and "\<And>m. m < NUM_OF_INODES \<Longrightarrow> inode_view (s\<lparr> disk := d \<rparr>) m = inode_view s m"
proof -
  have n: "numbered (disk s)" using w by (auto simp: well_def cache_inv_def)
  then have at: "inode_at d m = inode_at (disk s) m" if "m < NUM_OF_INODES" for m
    using data_step_inode [OF st _ that] by (simp add: numbered_def)
  then have sp: "spares s d" using n ok by (auto simp: spares_def numbered_def)
  show "well (s\<lparr> disk := d \<rparr>)" by (rule disk_change(1) [OF w sp])
  fix m :: size_t assume m: "m < 65536"
  show "inode_view (s\<lparr> disk := d \<rparr>) m = inode_view s m"
    using disk_change(2) [OF w sp m] unreferenced(2) [OF w] at [OF m] by auto
qed

text \<open>The number of free nodes follows from the reference counts.\<close>

lemma card_free_nodes:
  assumes "well s"
  shows "card (free_nodes s) + card {n. refs s n \<noteq> 0} = INODE_BUFFER_SIZE"
proof -
  obtain fl hq where inv: "cache_inv s fl hq" using assms(1) by (auto simp: well_def)
  note D = cache_invD [OF inv]
  let ?used = "{p. p < 32 \<and> reference_count (core s p) \<noteq> 0}"
  have used: "p \<in> ?used \<longleftrightarrow> p \<in> set hq \<and> reference_count (core s p) \<noteq> 0" for p
    using D(8,11,12) by blast
  have "inj_on (\<lambda>p. inode_number (core s p)) ?used"
    using D(3) used unfolding inj_on_def node_key_core by blast
  moreover have "(\<lambda>p. inode_number (core s p)) ` ?used = {n. refs s n \<noteq> 0}"
  proof
    show "(\<lambda>p. inode_number (core s p)) ` ?used \<subseteq> {n. refs s n \<noteq> 0}"
      using used refs_cached [OF inv] by auto
    show "{n. refs s n \<noteq> 0} \<subseteq> (\<lambda>p. inode_number (core s p)) ` ?used"
    proof
      fix n assume "n \<in> {n. refs s n \<noteq> 0}"
      then obtain p where "p \<in> set hq" "inode_number (core s p) = n" using refs_uncached [OF inv] by force
      moreover then have "reference_count (core s p) \<noteq> 0"
        using refs_cached [OF inv] \<open>n \<in> _\<close> by auto
      ultimately show "n \<in> (\<lambda>p. inode_number (core s p)) ` ?used" using used by blast
    qed
  qed
  ultimately have "card {n. refs s n \<noteq> 0} = card ?used" using card_image by fastforce
  moreover have "free_nodes s \<union> ?used = {..<32}" "free_nodes s \<inter> ?used = {}" "finite ?used" "finite (free_nodes s)"
    by (auto simp: free_nodes_def)
  ultimately show ?thesis using card_Un_disjoint [of "free_nodes s" ?used] by simp
qed

section \<open>Idle states and handles\<close>

lemma settled_pending:
  assumes "well s"
  shows "settled s \<longleftrightarrow> (\<forall>n < NUM_OF_INODES. pending s n \<longrightarrow> di_linksCount (inode_view s n) \<noteq> 0)"
proof -
  obtain fl hq where inv: "cache_inv s fl hq" and co: "coherent s hq" using assms(1) by (auto simp: well_def)
  note D = cache_invD [OF inv]
  have dirty_hq: "p \<in> set hq" if "p < 32" "dirty (core s p)" for p
    using that D(8,11) [OF that(1)] co by (auto simp: coherent_def)
  have node: "pending s (inode_number (core s p))"
      "inode_view s (inode_number (core s p)) = getDiskINodeData (core s p)" if "p \<in> set hq" "dirty (core s p)" for p
    using that view_cached [OF inv that(1) refl] lookup_node [OF inv] by (auto simp: pending_def)
  show ?thesis
  proof
    assume set: "settled s"
    show "\<forall>n < NUM_OF_INODES. pending s n \<longrightarrow> di_linksCount (inode_view s n) \<noteq> 0"
    proof (intro allI impI)
      fix n assume "pending s n"
      then obtain p where p: "p \<in> set hq" "inode_number (core s p) = n" "dirty (core s p)"
        using lookup_node [OF inv] by (auto simp: pending_def)
      then show "di_linksCount (inode_view s n) \<noteq> 0"
        using node(2) [OF p(1,3)] same_links [of "core s p"] set D(12) [OF p(1)] by (auto simp: settled_def)
    qed
  next
    assume "\<forall>n < NUM_OF_INODES. pending s n \<longrightarrow> di_linksCount (inode_view s n) \<noteq> 0"
    then show "settled s"
      using dirty_hq node D(14) same_links [OF refl] unfolding settled_def by (metis (no_types, lifting))
  qed
qed

lemma idleI:
  assumes "well s" and "\<And>n. n < NUM_OF_INODES \<Longrightarrow> pending s n \<Longrightarrow> di_linksCount (inode_view s n) \<noteq> 0"
    and "free_nodes s \<noteq> {}" and "\<And>n. refs s n \<noteq> SIZE_MAX"
  shows "idle s s"
  using assms settled_pending [OF assms(1)] by (auto simp: idle_def well_def spare_def free_nodes_def same_files_def)

lemma idleD:
  assumes "idle s s"
  shows "well s" and "refs s n \<noteq> SIZE_MAX" and "free_nodes s \<noteq> {}"
    and "n < NUM_OF_INODES \<Longrightarrow> pending s n \<Longrightarrow> di_linksCount (inode_view s n) \<noteq> 0"
proof -
  show w: "well s" using assms by (auto simp: idle_def well_def)
  show "refs s n \<noteq> SIZE_MAX" "free_nodes s \<noteq> {}" using assms by (auto simp: idle_def spare_def free_nodes_def)
  show "n < NUM_OF_INODES \<Longrightarrow> pending s n \<Longrightarrow> di_linksCount (inode_view s n) \<noteq> 0"
    using assms settled_pending [OF w] by (auto simp: idle_def)
qed

lemma heldD:
  assumes "held s0 s p n"
  shows "well s" and "holds s p n" and "disk s = disk s0" and "fileTable s = fileTable s0" and "n < NUM_OF_INODES"
    and "\<And>m. m < NUM_OF_INODES \<Longrightarrow> inode_view s m = inode_view s0 m"
    and "\<And>m. refs s m = (if m = n then refs s0 n + 1 else refs s0 m)"
    and "\<And>m. m < NUM_OF_INODES \<Longrightarrow> pending s m \<Longrightarrow> di_linksCount (inode_view s m) \<noteq> 0"
    and "refs s0 n = 0 \<Longrightarrow> \<not> pending s n" and "pinned s0 s"
proof -
  obtain fl hq where inv: "cache_inv s fl hq" and co: "coherent s hq" and p: "p \<in> set hq" and set: "settled s"
    and n: "inode_number (core s p) = n" and r: "0 < reference_count (core s p)"
    using assms by (rule heldE)
  show w: "well s" using inv co by (auto simp: well_def)
  show h: "holds s p n" using lookup_node [OF inv] p n r by (auto simp: holds_def)
  show "disk s = disk s0" "fileTable s = fileTable s0" "n < NUM_OF_INODES" "pinned s0 s"
    "\<And>m. m < NUM_OF_INODES \<Longrightarrow> inode_view s m = inode_view s0 m"
    "\<And>m. refs s m = (if m = n then refs s0 n + 1 else refs s0 m)"
    using assms by (auto simp: held_def same_files_def)
  show "\<And>m. m < NUM_OF_INODES \<Longrightarrow> pending s m \<Longrightarrow> di_linksCount (inode_view s m) \<noteq> 0"
    using set settled_pending [OF w] by blast
  show "refs s0 n = 0 \<Longrightarrow> \<not> pending s n"
    using assms h by (auto simp: held_def pending_def holds_def)
qed

end
