(* ===== verification/DirData.thy ===== *)
theory DirData
  imports Handles
begin

text \<open>
  A directory as the list of its entries, read off the bytes of its file, and what adding an entry
  (\<open>getAndUpdateDirectoryTable\<close>) and filling a new directory (\<open>updateNewDirMetaData\<close>) do to the list.
\<close>

section \<open>Entries of a sequence of bytes\<close>

type_synonym entry = "cstring option \<times> size_t"

definition entry_at :: "byte list \<Rightarrow> nat \<Rightarrow> entry" where
  "entry_at bs g = (entry_name bs (64 * g), entry_num bs (64 * g))"

definition entries :: "byte list \<Rightarrow> entry list" where
  "entries bs = map (entry_at bs) [0..<length bs div 64]"

definition lookup_entry :: "entry list \<Rightarrow> cstring \<Rightarrow> size_t option" where
  "lookup_entry es c = map_option snd (find (\<lambda>e. fst e = Some c) es)"

definition dir_entries :: "inCoreiNode \<Rightarrow> dsk \<Rightarrow> entry list" where
  "dir_entries i d = entries (file_bytes i d)"

text \<open>A directory in order: all blocks in place, whole entries, terminated names.\<close>

definition good_dir :: "inCoreiNode \<Rightarrow> dsk \<Rightarrow> bool" where
  "good_dir i d \<longleftrightarrow> file_ok i d \<and> 64 dvd unat (isize i) \<and> validateSearch i \<noteq> - 1 \<and>
     (\<forall>e \<in> set (dir_entries i d). fst e \<noteq> None)"

definition entry_bytes :: "mem_env \<Rightarrow> cstring \<Rightarrow> size_t \<Rightarrow> byte list" where
  "entry_bytes m f num = name_field m f @ le_bytes INODE_ADDRESS_SIZE num"

lemma length_entry_bytes [simp]: "length (entry_bytes m f num) = 64"
  by (simp add: entry_bytes_def)

lemma entry_at_append1: "64 * g + 64 \<le> length a \<Longrightarrow> entry_at (a @ b) g = entry_at a g"
  by (simp add: entry_at_def entry_name_def entry_num_def bytes_at_append1)

lemma entry_at_append2: "length a = 64 * n \<Longrightarrow> entry_at (a @ b) (n + g) = entry_at b g"
  by (simp add: entry_at_def entry_name_def entry_num_def bytes_at_append2)

lemma entries_append:
  assumes "64 dvd length a" and "64 dvd length b"
  shows "entries (a @ b) = entries a @ entries b"
proof -
  obtain n k where n: "length a = 64 * n" "length b = 64 * k" using assms by (auto elim!: dvdE)
  have "map (entry_at (a @ b)) [0..<n + k] = map (entry_at (a @ b)) [0..<n] @ map (entry_at (a @ b)) [n..<n + k]"
    using upt_add_eq_append [of 0 n k] by simp
  moreover have "map (entry_at (a @ b)) [0..<n] = map (entry_at a) [0..<n]"
    using n by (intro map_cong) (auto intro: entry_at_append1)
  moreover have "map (entry_at (a @ b)) [n..<n + k] = map (entry_at b) [0..<k]"
    by (subst upt_shift) (simp add: entry_at_append2 [OF n(1)])
  moreover have "length (a @ b) div 64 = n + k" "length a div 64 = n" "length b div 64 = k" using n by simp_all
  ultimately show ?thesis unfolding entries_def by (simp only:)
qed

lemma entries_entry_bytes:
  assumes "length f < FILENAME_SIZE" and "0 \<notin> set f"
  shows "entries (entry_bytes m f num) = [(Some f, num mod 65536)]"
  using field_string_name_field [OF assms, of m]
  by (simp add: entries_def entry_at_def entry_bytes_def entry_name_def entry_num_def bytes_at_append1
      bytes_at_append2 le_word_low2)

lemma lookup_entry_append:
  "lookup_entry (es @ es') c = (case lookup_entry es c of None \<Rightarrow> lookup_entry es' c | Some n \<Rightarrow> Some n)"
  by (auto simp: lookup_entry_def find_append split: option.splits)

section \<open>Entries of a directory\<close>

lemma entry_in_block:
  assumes ok: "file_ok i d" and g: "64 * g + 64 \<le> unat (isize i)"
  shows "bytes_at (64 * g) 64 (file_bytes i d) = bytes_at (64 * (g mod 16)) 64 (file_blk i d (g div 16))"
    and "\<exists>b. dir_block i d (g div 16) = Some b \<and> length b = BLOCK_SIZE \<and> file_blk i d (g div 16) = b"
proof -
  have dm: "64 * g div 1024 = g div 16" "64 * g mod 1024 = 64 * (g mod 16)"
    using mult_mod_right [of 64 g 16] by simp_all
  have le: "64 * (g mod 16) + 64 \<le> 1024" by (simp add: mod_less_divisor Suc_leI)
  have "1024 * (g div 16) < unat (isize i)"
    using g dm(1) by (metis add_gr_0 le_less_trans less_add_same_cancel1 less_le_trans times_div_less_eq_dividend zero_less_numeral)
  then show b: "\<exists>b. dir_block i d (g div 16) = Some b \<and> length b = BLOCK_SIZE \<and> file_blk i d (g div 16) = b"
    using ok by (fastforce simp: file_ok_def dir_block_def file_blk_def)
  have len: "length (file_blk i d (64 * g div 1024)) = 1024" using b dm(1) by auto
  have "take (64 * g + 64) (file_bytes i d) = take (64 * g) (file_bytes i d) @
      bytes_at (64 * (g mod 16)) 64 (file_blk i d (g div 16))"
    using file_bytes_chunk [OF g _ len] le unfolding dm by simp
  then have "drop (64 * g) (take (64 * g + 64) (file_bytes i d)) = bytes_at (64 * (g mod 16)) 64 (file_blk i d (g div 16))"
    using g by simp
  then show "bytes_at (64 * g) 64 (file_bytes i d) = bytes_at (64 * (g mod 16)) 64 (file_blk i d (g div 16))"
    by (simp add: bytes_at_def drop_take)
qed

lemma dir_entry:
  assumes "file_ok i d" and "64 * g + 64 \<le> unat (isize i)"
  shows "entry_at (file_bytes i d) g = (dir_name i d g, dir_num i d g)"
proof -
  obtain b where b: "dir_block i d (g div 16) = Some b" "length b = BLOCK_SIZE" "file_blk i d (g div 16) = b"
    using entry_in_block(2) [OF assms] by blast
  have same: "bytes_at (64 * g + o') k (file_bytes i d) = bytes_at (64 * (g mod 16) + o') k b" if "o' + k \<le> 64" for o' k
    using arg_cong [OF entry_in_block(1) [OF assms], of "bytes_at o' k"] that b(3) by simp
  have le: "64 * (g mod 16) + 64 \<le> 1024" by (simp add: mod_less_divisor Suc_leI)
  have "length (bytes_at (64 * (g mod 16) + 62) 2 b) = 2" using b(2) le by simp
  then have "dir_num i d g = le_word (bytes_at (64 * (g mod 16) + 62) 2 b)"
    using b(1) by (simp add: dir_num_def load_entry_def zero_entry_def memcpy_low_clean)
  then show ?thesis using same [of 0 62] same [of 62 2] b(1)
    by (simp add: entry_at_def entry_name_def entry_num_def dir_name_def)
qed

lemma dir_entries_eq:
  assumes "file_ok i d"
  shows "dir_entries i d = map (\<lambda>g. (dir_name i d g, dir_num i d g)) [0..<unat (isize i) div 64]"
  unfolding dir_entries_def entries_def by (auto simp: dir_entry [OF assms])

lemma good_dir_ok:
  assumes "good_dir i d"
  shows "dir_ok i d (unat (isize i) div 64)"
proof -
  let ?n = "unat (isize i) div 64"
  have ok: "file_ok i d" and n: "unat (isize i) = 64 * ?n" using assms by (auto simp: good_dir_def)
  have "\<exists>b. dir_block i d k = Some b \<and> length b = BLOCK_SIZE" if "16 * k < ?n" for k
    using entry_in_block(2) [OF ok, of "16 * k"] that n by auto
  moreover have "\<exists>t. dir_name i d g = Some t" if "g < ?n" for g
    using assms that by (auto simp: good_dir_def dir_entries_eq)
  moreover have "unat (isize i) + 1024 < 2 ^ 64" using ok by (simp add: file_ok_def)
  ultimately show ?thesis using assms n by (simp add: dir_ok_def good_dir_def)
qed

lemma find_entry:
  assumes "good_dir i d"
  shows "map_option (dir_num i d) (find (\<lambda>g. dir_name i d g = Some c) [0..<unat (isize i) div 64]) =
    lookup_entry (dir_entries i d) c"
  using assms by (simp add: good_dir_def dir_entries_eq lookup_entry_def find_map option.map_comp o_def)

section \<open>Adding an entry\<close>

lemma memcpy_at_join:
  "off + length a + length b \<le> length x \<Longrightarrow> memcpy_at (off + length a) b (memcpy_at off a x) = memcpy_at off (a @ b) x"
  by (rule nth_equalityI) (auto simp: nth_memcpy_at nth_append)

lemma addDirectoryEntry_bytes:
  assumes "read_block n d = Some b" and "length b = BLOCK_SIZE" and "unat off + 64 \<le> BLOCK_SIZE"
  shows "addDirectoryEntry m n off f num d = Some (put_block n (memcpy_at (unat off) (entry_bytes m f num) b) d)"
  using assms memcpy_at_join [of "unat off" "name_field m f" "le_bytes 2 num" b]
  by (simp add: addDirectoryEntry_def entry_bytes_def)

lemma entry_fits_block: "64 dvd (m :: nat) \<Longrightarrow> m mod BLOCK_SIZE + 64 \<le> BLOCK_SIZE"
proof -
  assume "64 dvd m"
  then obtain k where "m = 64 * k" by (rule dvdE)
  moreover have "64 * k mod 1024 = 64 * (k mod 16)" using mult_mod_right [of 64 k 16] by simp
  ultimately show ?thesis by (simp add: mod_less_divisor Suc_leI)
qed

lemma getAndUpdateDirectoryTable_append:
  assumes rep: "direct (core s p) (disk s) fs" and fits: "append_fits (core s p) fs 64"
    and al: "64 dvd unat (isize (core s p))" and dir: "validateSearch (core s p) \<noteq> - 1"
  shows "\<exists>i' d' fs'. getAndUpdateDirectoryTable m p num f s = Some (None, upd_core p (\<lambda>_. i') (s\<lparr> disk := d' \<rparr>)) \<and>
    appended (core s p) (disk s) fs (entry_bytes m f num) i' d' fs' \<and> dirty i'"
proof -
  let ?i = "core s p" and ?e = "entry_bytes m f num"
  let ?m = "unat (isize ?i)"
  note le = entry_fits_block [OF al]
  obtain i1 d1 n b fs' where
    bm: "bmap ?i (isize ?i) None APPEND_MODE (disk s) = Some (0, Some (createBMapResponse n (isize ?i mod BLOCK_SIZE)), i1, d1)"
    and i1: "resized ?i i1" "isize i1 = isize ?i" and blk: "read_block n d1 = Some b" "length b = BLOCK_SIZE"
    and app: "\<And>i2 d2. resized i1 i2 \<Longrightarrow> dataBlockNums i2 = dataBlockNums i1 \<Longrightarrow>
      isize i2 = isize ?i + of_nat (length ?e) \<Longrightarrow> d2 = put_block n (memcpy_at (?m mod BLOCK_SIZE) ?e b) d1 \<Longrightarrow>
      appended ?i (disk s) fs ?e i2 d2 fs'"
    by (rule append_piece [OF rep refl, where c = ?e and resp = None]) (use fits le in auto)
  let ?d2 = "put_block n (memcpy_at (?m mod 1024) ?e b) d1"
  let ?i2 = "updateINodeMetadata i1 64 (linksCount i1) ?d2"
  have off: "unat (isize ?i mod 1024) = ?m mod 1024" by (simp add: unat_mod_distrib)
  have "addDirectoryEntry m n (isize ?i mod 1024) f num d1 = Some ?d2"
    using addDirectoryEntry_bytes [OF blk, of "isize ?i mod 1024"] le off by simp
  moreover have "updateINodeMetadata_at p 64 (linksCount i1) ((upd_core p (\<lambda>_. i1) (s\<lparr> disk := d1 \<rparr>))\<lparr> disk := ?d2 \<rparr>) =
      upd_core p (\<lambda>_. ?i2) (s\<lparr> disk := ?d2 \<rparr>)"
    by (simp add: updateINodeMetadata_at_def upd_core_def upd_node_def o_def)
  ultimately have "getAndUpdateDirectoryTable m p num f s = Some (None, upd_core p (\<lambda>_. ?i2) (s\<lparr> disk := ?d2 \<rparr>))"
    using dir bm by (simp add: getAndUpdateDirectoryTable_def bmap_at_def on_disk_def createBMapResponse_def)
  moreover have "appended ?i (disk s) fs ?e ?i2 ?d2 fs'"
    by (rule app) (use i1(2) in \<open>simp_all add: of_c_int_64\<close>)
  moreover have "dirty ?i2" by (simp add: updateINodeMetadata_def)
  ultimately show ?thesis by blast
qed

lemma appended_entries:
  assumes "appended i d fs (entry_bytes m f num) i' d' fs'" and "good_dir i d"
    and "length f < FILENAME_SIZE" and "0 \<notin> set f"
  shows "dir_entries i' d' = dir_entries i d @ [(Some f, num mod NUM_OF_INODES)]" and "good_dir i' d'"
proof -
  have by': "file_bytes i' d' = file_bytes i d @ entry_bytes m f num" and rs: "resized i i'" and dr: "direct i' d' fs'"
    using assms(1) by (simp_all add: appended_def)
  show es: "dir_entries i' d' = dir_entries i d @ [(Some f, num mod NUM_OF_INODES)]"
    using assms(2) entries_entry_bytes [OF assms(3,4)] entries_append [of "file_bytes i d" "entry_bytes m f num"]
    by (simp add: dir_entries_def by' good_dir_def)
  have "validateSearch i' = validateSearch i" using resizedD(6) [OF rs] by (simp add: validateSearch_def)
  then show "good_dir i' d'"
    using assms(2) es appended_size [OF assms(1)] direct_file_ok [OF dr [unfolded direct_def]] by (auto simp: good_dir_def)
qed

section \<open>A new directory\<close>

lemma good_dir_frame:
  assumes "good_dir i d" and "direct i d' fs'" and "file_bytes i d' = file_bytes i d"
  shows "good_dir i d'"
  using assms direct_file_ok [of i d' fs'] by (simp add: good_dir_def dir_entries_def direct_def)

lemma metadata_links:
  "updateINodeMetadata i n l d = (updateINodeMetadata i n (linksCount i) d)\<lparr> linksCount := l \<rparr>"
  by (cases i) (simp add: updateINodeMetadata_def Let_def)

lemma updateNewDirMetaData_ok:
  assumes fl: "free_list (disk s) fs" "fs \<noteq> []" and wf: "wf_inCore (core s q)" and sz: "isize (core s q) = 0"
  shows "\<exists>j d' fs'. updateNewDirMetaData m q par s =
      Some (None, upd_core q (\<lambda>_. j\<lparr> linksCount := 2 \<rparr>) (s\<lparr> disk := d' \<rparr>)) \<and> dirty j \<and>
    appended (core s q) (disk s) fs (entry_bytes m dot (inode_number (core s q)) @ entry_bytes m dotdot par) j d' fs'"
proof -
  let ?i = "core s q" and ?d = "disk s"
  let ?a = "entry_bytes m dot (inode_number ?i)" and ?b = "entry_bytes m dotdot par"
  have rep: "direct ?i ?d fs" using fl wf sz by (simp add: direct_def direct_file_def blocks_for_def)
  have fits: "append_fits ?i fs (length (?a @ ?b))" using sz fl(2) by (cases fs) (simp_all add: append_fits_def blocks_for_def)
  obtain i1 d1 n b fs' where
    bm: "bmap ?i (isize ?i) None APPEND_MODE ?d = Some (0, Some (createBMapResponse n (isize ?i mod BLOCK_SIZE)), i1, d1)"
    and i1: "resized ?i i1" "isize i1 = isize ?i" and blk: "read_block n d1 = Some b" "length b = BLOCK_SIZE"
    and ok: "disk_ok d1" "blk_valid d1 n"
    and app: "\<And>i2 d2. resized i1 i2 \<Longrightarrow> dataBlockNums i2 = dataBlockNums i1 \<Longrightarrow>
      isize i2 = isize ?i + of_nat (length (?a @ ?b)) \<Longrightarrow>
      d2 = put_block n (memcpy_at (unat (isize ?i) mod BLOCK_SIZE) (?a @ ?b) b) d1 \<Longrightarrow>
      appended ?i ?d fs (?a @ ?b) i2 d2 fs'"
    by (rule append_piece [OF rep refl fits, where resp = None]) (use sz in auto)
  let ?d1 = "put_block n (memcpy_at 0 ?a b) d1" and ?d2 = "put_block n (memcpy_at 0 (?a @ ?b) b) d1"
  have num: "inode_number i1 = inode_number ?i" using resizedD(3) [OF i1(1)] .
  have e1: "addDirectoryEntry m n 0 dot (inode_number ?i) d1 = Some ?d1"
    using addDirectoryEntry_bytes [OF blk, of 0] by simp
  have "memcpy_at 64 ?b (memcpy_at 0 ?a b) = memcpy_at 0 (?a @ ?b) b"
    using memcpy_at_join [of 0 ?a ?b b] blk(2) by simp
  then have e2: "addDirectoryEntry m n 64 dotdot par ?d1 = Some ?d2"
    using addDirectoryEntry_bytes [of n ?d1 "memcpy_at 0 ?a b" 64 m dotdot par] ok blk(2)
    by (simp add: disk_simps put_block_twice)
  let ?j = "updateINodeMetadata i1 128 (linksCount i1) ?d2"
  let ?s1 = "upd_core q (\<lambda>_. i1) (s\<lparr> disk := d1 \<rparr>)"
  have "updateINodeMetadata_at q 128 2 (?s1\<lparr> disk := ?d2 \<rparr>) = upd_core q (\<lambda>_. ?j\<lparr> linksCount := 2 \<rparr>) (s\<lparr> disk := ?d2 \<rparr>)"
    by (simp add: updateINodeMetadata_at_def upd_core_def upd_node_def o_def metadata_links [of i1 128 2])
  then have "updateNewDirMetaData m q par s = Some (None, upd_core q (\<lambda>_. ?j\<lparr> linksCount := 2 \<rparr>) (s\<lparr> disk := ?d2 \<rparr>))"
    using bm sz e1 e2 num by (simp add: updateNewDirMetaData_def bmap_at_def on_disk_def createBMapResponse_def)
  moreover have "of_c_int 128 = 128" by (simp add: of_c_int_def)
  then have "appended ?i ?d fs (?a @ ?b) ?j ?d2 fs'" by (intro app) (use i1(2) sz in simp_all)
  moreover have "dirty ?j" by (simp add: updateINodeMetadata_def)
  ultimately show ?thesis by blast
qed

section \<open>Properties\<close>

text \<open>
  C27. \<open>getAndUpdateDirectoryTable\<close> puts an entry behind the existing ones of a directory, in a new block when the last
  one is full: the list of entries is the old one with the name and the low two bytes of the inode number
  appended, the inode is marked for writing back, no other node of the cache changes, and nothing outside the
  blocks of the directory and the free list is written.
\<close>

theorem directory_add:
  assumes "direct (core s p) (disk s) fs" and "append_fits (core s p) fs 64" and "good_dir (core s p) (disk s)"
    and "length f < FILENAME_SIZE" and "0 \<notin> set f"
  shows "\<exists>s' fs'. getAndUpdateDirectoryTable m p num f s = Some (None, s') \<and> dirty (core s' p) \<and>
    direct (core s' p) (disk s') fs' \<and> good_dir (core s' p) (disk s') \<and>
    dir_entries (core s' p) (disk s') = dir_entries (core s p) (disk s) @ [(Some f, num mod NUM_OF_INODES)] \<and>
    (\<forall>q. q \<noteq> p \<longrightarrow> core s' q = core s q) \<and>
    same_except (disk s) (disk s') (insert FREE_LIST_BLOCK (file_blocks (core s' p)))"
proof -
  obtain i' d' fs' where a: "getAndUpdateDirectoryTable m p num f s = Some (None, upd_core p (\<lambda>_. i') (s\<lparr> disk := d' \<rparr>))"
    "appended (core s p) (disk s) fs (entry_bytes m f num) i' d' fs'" "dirty i'"
    using getAndUpdateDirectoryTable_append [OF assms(1,2), of m num f] assms(3) by (auto simp: good_dir_def)
  note e = appended_entries [OF a(2) assms(3-5)]
  show ?thesis using a e
    by (intro exI [of _ "upd_core p (\<lambda>_. i') (s\<lparr> disk := d' \<rparr>)"] exI [of _ fs']) (simp add: appended_def)
qed

theorem directory_add_witness:
  "\<exists>s s'. getAndUpdateDirectoryTable sample_env 0 9 [98, 99] s = Some (None, s') \<and>
     dir_entries (core s' 0) (disk s') = [(Some [98, 99], 9)]"
proof -
  let ?i = "sample_dir\<lparr> isize := 0 \<rparr>"
  obtain d where d: "free_list d [16390]" using free_list_exists [of "[16390]"] by auto
  let ?s = "\<lparr> cache = \<lparr> nodes = (\<lambda>_. zero_Node\<lparr> inode := ?i \<rparr>), freeList = None, hashQ = [] \<rparr>, disk = d, fileTable = [] \<rparr>"
  have empty: "dir_entries ?i d = []" by (simp add: dir_entries_def entries_def)
  have "direct ?i d [16390]" "append_fits ?i [16390] 64" "good_dir ?i d"
    using d empty by (simp_all add: direct_def direct_file_def append_fits_def good_dir_def file_ok_def blocks_for_def
        wf_inCore_def sample_dir_def validateSearch_iff)
  then show ?thesis
    using directory_add [of ?s 0 "[16390]" "[98, 99]" sample_env 9] empty by - (rule exI [of _ ?s], auto)
qed

end
