(* ===== verification/FileOps.thy ===== *)
theory FileOps
  imports FileData DirData
begin

text \<open>
  What the operations of \<open>src/interface/\<close> and the start of the program in \<open>src/main.c\<close> guarantee, over the
  contracts of path resolution and of the inode cache: the state \<open>main\<close> hands to FUSE, attributes, change
  of mode and owner, opening and closing.
\<close>

section \<open>Starting the program\<close>

text \<open>Static storage before \<open>main\<close>.\<close>

definition static_cache :: icache where
  "static_cache = \<lparr> nodes = (\<lambda>_. zero_Node), freeList = None, hashQ = replicate INODE_HASH_SIZE None \<rparr>"

definition static_entry :: fileTableEntry where
  "static_entry = \<lparr> f_inode = 0, f_pid = 0, f_flags = 0, f_offset = 0, validEntry = False \<rparr>"

definition static_fs :: "(string \<Rightarrow> byte list option) \<Rightarrow> time_t \<Rightarrow> fs" where
  "static_fs host now =
     \<lparr> cache = static_cache, disk = static_dsk host now,
       fileTable = replicate MAX_FILE_DESCRIPTORS static_entry \<rparr>"

text \<open>The inodes of a new file system; \<open>x\<close> is the block of the root directory.\<close>

definition fresh_inode :: "size_t \<Rightarrow> size_t \<Rightarrow> iNode" where
  "fresh_inode x n = (if n = 0 then root_inode (initializeINode 0) x else initializeINode n)"

lemma parseCmdArg_memory:
  "\<forall>arg \<in> set argv. take 6 arg \<noteq> ''fsname'' \<Longrightarrow> parseCmdArg argv = Some (0, [])"
  by (induction argv) auto

lemma initializeINodeParams_idem: "params_ok d \<Longrightarrow> initializeINodeParams d = d"
  using params_ok_initializeINodeParams [of d]
  by (cases d) (simp add: params_ok_def initializeINodeParams_def Let_def)

lemma fresh_inode_number: "n < NUM_OF_INODES \<Longrightarrow> di_inode_number (fresh_inode x n) = n"
  by (auto simp: fresh_inode_def root_inode_def initializeINode_def zero_iNode_def)

lemma zero_inCore_fields [simp]: "reference_count zero_inCore = 0" "\<not> iNodeMutex zero_inCore"
  "\<not> inode_changed zero_inCore" "\<not> file_data_changed zero_inCore" "wf_inCore zero_inCore"
  by (simp_all add: zero_inCore_def wf_inCore_def)

text \<open>The rest of \<open>main\<close>, on whatever disk the start of it has set up.\<close>

lemma main_init_disk:
  assumes dev: "checkDevMode junk argv (static_fs host now) = Some (0, (static_fs host now)\<lparr> disk := d \<rparr>)"
    and num: "numbered (initializeINodeParams d)"
  shows "\<exists>s. main_init junk k argv (static_fs host now) = Some (True, s) \<and> disk s = initializeINodeParams d \<and>
    cache_inv s [0..<32] [] \<and> coherent s [] \<and>
    (\<forall>n < NUM_OF_INODES. inode_view s n = inode_at (initializeINodeParams d) n) \<and> (\<forall>p < 32. core s p = zero_inCore) \<and>
    wf_table (fileTable s) \<and> (\<forall>e \<in> set (fileTable s). \<not> validEntry e)"
proof -
  obtain c where c: "initFreeInCoreINodeList static_cache = Some c" "fl_list c [0..<32]"
      "hashQ c = replicate 8 None" "\<forall>p < 32. blank_node (nodes c p)"
    using initFreeInCoreINodeList_ok [of static_cache] by (auto simp: static_cache_def)
  let ?s = "\<lparr> cache = c, disk = initializeINodeParams d, fileTable = initGlobalFileTable (replicate 10000 static_entry) \<rparr>"
  have init: "main_init junk k argv (static_fs host now) = Some (True, ?s)"
    using dev c(1,3) by (simp add: main_init_def static_fs_def on_cache_def initHashQueues_replicate)
  have inv: "cache_inv ?s [0..<32] []"
    using c num hq_list_empty [OF c(3,4)] by (auto simp: cache_inv_def blank_node_def)
  have "coherent ?s []" "\<forall>p < 32. core ?s p = zero_inCore" using c by (auto simp: coherent_def blank_node_def)
  moreover have "inode_view ?s n = inode_at (initializeINodeParams d) n" for n using view_uncached [OF inv, of n] by simp
  moreover have "wf_table (fileTable ?s)" "\<forall>e \<in> set (fileTable ?s). \<not> validEntry e"
    by (simp_all add: wf_table_def initGlobalFileTable_def static_entry_def)
  ultimately show ?thesis using init inv by (intro exI [of _ ?s]) simp
qed

lemma idle_at_start:
  assumes "cache_inv s [0..<32] []" and "coherent s []" and "\<forall>p < 32. core s p = zero_inCore"
  shows "idle s s" and "refs s n = 0" and "card (free_nodes s) = 32"
proof -
  show r: "refs s n = 0" for n using refs_uncached [OF assms(1)] by simp
  have "free_nodes s = {..<32}" using assms(3) by (auto simp: free_nodes_def)
  then show "card (free_nodes s) = 32" by simp
  have "spare s" using assms(3) by (auto simp: spare_def intro!: exI [of _ 0])
  then show "idle s s" using assms r by (auto simp: idle_def settled_def same_files_def)
qed

lemma main_init_ok:
  assumes argv: "\<forall>arg \<in> set argv. take 6 arg \<noteq> ''fsname''" and junk: "length junk = BLOCK_SIZE"
  shows "\<exists>s x. main_init junk k argv (static_fs host now) = Some (True, s) \<and>
    cache_inv s [0..<32] [] \<and> coherent s [] \<and> inode_stack (disk s) first_inodes \<and>
    (\<forall>n < NUM_OF_INODES. inode_view s n = fresh_inode x n) \<and>
    (\<forall>p < 32. core s p = zero_inCore) \<and>
    wf_table (fileTable s) \<and> (\<forall>e \<in> set (fileTable s). \<not> validEntry e)"
proof -
  obtain d x where d: "makeFileSystem junk (static_dsk host now) = Some d" "meta_ok d"
      "inode_stack d first_inodes" "\<forall>n < NUM_OF_INODES. inode_at d n = fresh_inode x n"
    using makeFileSystem_inodes [OF meta_ok_memory junk, of "static_dsk host now"]
    unfolding fresh_inode_def by (auto simp: static_dsk_def)
  have par: "initializeINodeParams d = d" using d(2) by (simp add: meta_ok_def disk_ok_def initializeINodeParams_idem)
  have dev: "checkDevMode junk argv (static_fs host now) = Some (0, (static_fs host now)\<lparr> disk := d \<rparr>)"
    using argv d(1) by (simp add: checkDevMode_def parseCmdArg_memory static_fs_def)
  have num: "numbered (initializeINodeParams d)" using d par by (simp add: numbered_def fresh_inode_number)
  show ?thesis using main_init_disk [OF dev num, of k] d par by fastforce
qed

lemma main_init_idle:
  assumes "main_init junk k argv (static_fs host now) = Some (True, s)"
    and "\<forall>arg \<in> set argv. take 6 arg \<noteq> ''fsname''" and "length junk = BLOCK_SIZE"
  shows "idle s s"
  using main_init_ok [OF assms(2,3), of k host now] assms(1) idle_at_start(1) by auto

text \<open>A device formatted by the program \<open>mkfs\<close>, and the same device opened by a later process.\<close>

lemma setupDisk_static:
  assumes "host dn = Some content"
  shows "setupDisk dn (static_dsk host now) =
    (0, (static_dsk host now)\<lparr> devName := Some dn, device := content, isDiskAvailable := True \<rparr>)"
  using assms by (simp add: setupDisk_def initDeviceAccessor_def static_dsk_def)

lemma exec_mkfs_device:
  assumes host: "host dn = Some content" and len: "31457280 * BLOCK_SIZE \<le> length content" and junk: "length junk = BLOCK_SIZE"
  shows "\<exists>d x. exec_mkfs_main junk [prog, dn] (static_dsk host now) = Some (0, d) \<and> isDiskAvailable d \<and> meta_ok d \<and>
    free_list d (block_range 16388 31457280) \<and> inode_stack d first_inodes \<and>
    (\<forall>n < NUM_OF_INODES. inode_at d n = fresh_inode x n)"
proof -
  let ?d = "(static_dsk host now)\<lparr> devName := Some dn, device := content, isDiskAvailable := True \<rparr>"
  have av: "isDiskAvailable ?d" "31457280 * BLOCK_SIZE \<le> length (device ?d)"
    "\<forall>n < NUM_OF_BLOCKS_IN_MEM. length (mem_disk ?d n) = BLOCK_SIZE"
    using len by (simp_all add: static_dsk_def)
  note meta = meta_ok_device [OF av]
  obtain d x where d: "makeFileSystem junk ?d = Some d" "meta_ok d" "inode_stack d first_inodes"
      "\<forall>n < NUM_OF_INODES. inode_at d n = fresh_inode x n"
    using makeFileSystem_inodes [OF meta junk] unfolding fresh_inode_def by auto
  have fl: "free_list d (block_range 16388 31457280)"
    using makeFileSystem_free_list [OF meta junk] device_all_valid [OF av(1,2)] d(1) by auto
  have "(31457279 :: size_t) \<in> set (block_range 16388 31457280)" by (simp add: in_block_range)
  then have "blk_valid d 31457279" using fl by (auto simp: free_list_def)
  then have "isDiskAvailable d" by (cases "isDiskAvailable d") (simp_all add: blk_valid_def mem_valid_def)
  then show ?thesis using d fl setupDisk_static [of host dn content now] host by (auto simp: exec_mkfs_main_def)
qed

lemma reopened_device:
  fixes host :: "string \<Rightarrow> byte list option" and now :: time_t and dn :: string
  assumes av: "isDiskAvailable d" and ok: "meta_ok d"
  defines "e \<equiv> initializeINodeParams ((static_dsk host now)\<lparr> devName := Some dn, device := device d, isDiskAvailable := True \<rparr>)"
  shows "same_except d e {}" and "disk_ok e"
proof -
  have p: "params_ok d" using ok by (simp add: meta_ok_def disk_ok_def)
  have f: "isDiskAvailable e" "device e = device d" "NUM_OF_BLOCKS e = NUM_OF_BLOCKS d"
    using p params_ok_initializeINodeParams unfolding e_def by (simp_all add: frame_simps params_ok_def)
  then have "blk_valid e m = blk_valid d m" "read_block m e = read_block m d" for m
    using av by (simp_all add: blk_valid_def dev_valid_def read_block_def getDiskBlock_def fetchDeviceDiskBlock_def)
  then show "same_except d e {}" by (simp add: same_except_def)
  show "disk_ok e" unfolding e_def by (simp add: disk_ok_def params_ok_initializeINodeParams frame_simps static_dsk_def)
qed

lemma mount_device:
  assumes host: "host dn = Some content" and len: "31457280 * BLOCK_SIZE \<le> length content"
    and junk: "length junk = BLOCK_SIZE" and arg: "length dn < 20" "take 6 prog' \<noteq> ''fsname''"
  shows "\<exists>d s x. exec_mkfs_main junk [prog, dn] (static_dsk host now) = Some (0, d) \<and>
    main_init junk' k [prog', ''fsname='' @ dn] (static_fs (host(dn \<mapsto> device d)) now') = Some (True, s) \<and>
    idle s s \<and> (\<forall>n. refs s n = 0) \<and> card (free_nodes s) = 32 \<and>
    free_list (disk s) (block_range 16388 31457280) \<and> inode_stack (disk s) first_inodes \<and>
    (\<forall>n < NUM_OF_INODES. inode_view s n = fresh_inode x n) \<and> wf_table (fileTable s) \<and> (\<forall>e \<in> set (fileTable s). \<not> validEntry e)"
proof -
  obtain d x where d: "exec_mkfs_main junk [prog, dn] (static_dsk host now) = Some (0, d)" "isDiskAvailable d" "meta_ok d"
    and fl: "free_list d (block_range 16388 31457280)" and stk: "inode_stack d first_inodes"
    and at: "\<forall>n < NUM_OF_INODES. inode_at d n = fresh_inode x n"
    using exec_mkfs_device [of host dn, OF host len junk] by blast
  let ?host = "host(dn \<mapsto> device d)"
  let ?d = "(static_dsk ?host now')\<lparr> devName := Some dn, device := device d, isDiskAvailable := True \<rparr>"
  let ?e = "initializeINodeParams ?d"
  note re = reopened_device [OF d(2,3), where host = ?host and now = now' and dn = dn]
  have meta: "meta_step d ?e" and data: "data_step d ?e" using re by (simp_all add: meta_step_def data_step_def same_except_def)
  have fl': "free_list ?e (block_range 16388 31457280)" by (rule meta_step_free_list [OF meta fl])
  have stk': "inode_stack ?e first_inodes" by (rule data_step_stack [OF data d(3) stk])
  have at': "inode_at ?e n = fresh_inode x n" if "n < NUM_OF_INODES" for n using data_step_inode [OF data d(3) that] at that by simp
  have num: "numbered ?e" using fl' at' by (auto simp: numbered_def fresh_inode_number elim: free_listE)
  have set: "setupDisk dn (static_dsk ?host now') = (0, ?d)" by (rule setupDisk_static) simp
  then have dev: "checkDevMode junk' [prog', ''fsname='' @ dn] (static_fs ?host now') = Some (0, (static_fs ?host now')\<lparr> disk := ?d \<rparr>)"
    using arg by (simp add: checkDevMode_def static_fs_def)
  obtain s where s: "main_init junk' k [prog', ''fsname='' @ dn] (static_fs ?host now') = Some (True, s)" "disk s = ?e"
    "cache_inv s [0..<32] []" "coherent s []" "\<forall>p < 32. core s p = zero_inCore"
    "\<forall>n < NUM_OF_INODES. inode_view s n = inode_at ?e n"
    "wf_table (fileTable s)" "\<forall>e \<in> set (fileTable s). \<not> validEntry e"
    using main_init_disk [OF dev num, of k] by blast
  then show ?thesis using d(1) idle_at_start [OF s(3-5)] fl' stk' at'
    by (intro exI [of _ d] exI [of _ s] exI [of _ x]) simp
qed

text \<open>A mounted file system to evaluate operations on.\<close>

definition boot :: fs where
  "boot = snd (the (main_init (replicate BLOCK_SIZE 0) 0 [''naofs'', ''/mnt''] (static_fs (\<lambda>_. None) 0)))"

lemma boot_init: "main_init (replicate BLOCK_SIZE 0) 0 [''naofs'', ''/mnt''] (static_fs (\<lambda>_. None) 0) = Some (True, boot)"
  using main_init_ok [of "[''naofs'', ''/mnt'']" "replicate BLOCK_SIZE 0" 0 "\<lambda>_. None" 0]
  by (auto simp: boot_def)

lemma boot_facts:
  shows "idle boot boot" and "cache_inv boot [0..<32] []" and "coherent boot []"
    and "\<exists>x. \<forall>n < NUM_OF_INODES. inode_view boot n = fresh_inode x n"
    and "inode_stack (disk boot) first_inodes" and "wf_table (fileTable boot)"
    and "\<forall>e \<in> set (fileTable boot). \<not> validEntry e" and "refs boot n = 0"
proof -
  show "idle boot boot" by (rule main_init_idle [OF boot_init]) auto
  show inv: "cache_inv boot [0..<32] []" and "coherent boot []"
    and "\<exists>x. \<forall>n < NUM_OF_INODES. inode_view boot n = fresh_inode x n"
    and "inode_stack (disk boot) first_inodes" and "wf_table (fileTable boot)"
    and "\<forall>e \<in> set (fileTable boot). \<not> validEntry e"
    using main_init_ok [of "[''naofs'', ''/mnt'']" "replicate BLOCK_SIZE 0" 0 "\<lambda>_. None" 0] boot_init
    by (auto simp del: upt_rec_numeral)
  show "refs boot n = 0" using refs_uncached [OF inv] by simp
qed

lemma boot_root:
  "di_size (inode_view boot 0) = 0" "di_file_mode (inode_view boot 0) = root_mode" "di_type (inode_view boot 0) = T_DIRECTORY"
  "di_linksCount (inode_view boot 0) = 0" "di_owner_uid (inode_view boot 0) = 0"
  using boot_facts(4) by (auto simp: fresh_inode_def root_inode_def initializeINode_def zero_iNode_def)

lemma boot_is_dir: "is_dir boot 0"
proof -
  have "file_mode (dir_view boot 0) = root_mode"
    using boot_root by (simp add: dir_view_def insertDiskInodeData_def)
  then show ?thesis
    by (simp add: is_dir_def keeps_def dir_ok_def boot_root validateSearch_iff root_mode_def)
qed

lemma boot_lookup: "lookup_name boot 0 c = None"
  by (simp add: lookup_name_def boot_root)

section \<open>Handles of a path\<close>

text \<open>A path as the operations receive it: absolute, through directories, without a null byte.\<close>

definition names :: "cstring \<Rightarrow> cstring list" where
  "names path = split_tokens [SLASH] path"

definition good_path :: "fs \<Rightarrow> cstring \<Rightarrow> bool" where
  "good_path s path \<longleftrightarrow> idle s s \<and> dirs_on s (names path) 0 \<and> 0 \<notin> set path"

lemma path_found:
  assumes "good_path s path" and "lookup_path s (names path) 0 = Some n"
  obtains p s' where "getFileINode m (SLASH # path) s = Some (Some p, s')" and "held s s' p n"
  using getFileINode_lookup [of s path m] assms by (auto simp: good_path_def names_def)

lemma path_missing:
  assumes "good_path s path" and "lookup_path s (names path) 0 = None"
  obtains s' where "getFileINode m (SLASH # path) s = Some (None, s')" and "idle s s'"
  using getFileINode_lookup [of s path m] assms by (auto simp: good_path_def names_def)

lemma names_Nil [simp]: "names [] = []"
  by (simp add: names_def)

lemma boot_path: "0 \<notin> set path \<Longrightarrow> length (names path) \<le> 1 \<Longrightarrow> good_path boot path"
  using boot_facts(1) boot_is_dir boot_lookup by (cases "names path") (auto simp: good_path_def)

lemma names_word: "c \<noteq> [] \<Longrightarrow> SLASH \<notin> set c \<Longrightarrow> names c = [c]"
  by (simp add: names_def split_tokens_word)

lemma held_data: "held s0 s p n \<Longrightarrow> inode_view s0 n = getDiskINodeData (core s p)"
  by (simp add: held_def)

lemma getDiskINodeData_fields [simp]:
  "di_inode_number (getDiskINodeData i) = inode_number i" "di_linksCount (getDiskINodeData i) = linksCount i"
  "di_type (getDiskINodeData i) = itype i" "di_file_mode (getDiskINodeData i) = file_mode i"
  "di_size (getDiskINodeData i) = isize i"
  by (simp_all add: getDiskINodeData_def)

section \<open>Changing a node under its lock\<close>

lemma held_unlocked: "held s0 s p n \<Longrightarrow> \<not> iNodeMutex (core s p) \<and> wf_inCore (core s p)"
  by (erule heldE) (auto simp: cache_inv_def)

text \<open>The section between \<open>pthread_mutex_lock\<close> and \<open>pthread_mutex_unlock\<close> as one change of the node.\<close>

lemma locked_section:
  assumes "held s0 s p n"
  shows "lock p s = Some (upd_core p (iNodeMutex_update (\<lambda>_. True)) s)"
    and "unlock p (upd_core p f (upd_core p (iNodeMutex_update (\<lambda>_. True)) s)) =
      upd_core p (\<lambda>_. (f ((core s p)\<lparr> iNodeMutex := True \<rparr>))\<lparr> iNodeMutex := False \<rparr>) s"
proof -
  show "lock p s = Some (upd_core p (iNodeMutex_update (\<lambda>_. True)) s)"
    using held_unlocked [OF assms] by (simp add: lock_free)
  show "unlock p (upd_core p f (upd_core p (iNodeMutex_update (\<lambda>_. True)) s)) =
      upd_core p (\<lambda>_. (f ((core s p)\<lparr> iNodeMutex := True \<rparr>))\<lparr> iNodeMutex := False \<rparr>) s"
    unfolding unlock_def upd_core_comp by (subst upd_core_const) simp
qed


section \<open>getAttr.c\<close>

definition attrs :: "iNode \<Rightarrow> stat \<Rightarrow> stat" where
  "attrs i st = st\<lparr> st_atime := di_access i, st_mtime := di_modification i, st_ctime := di_status_change i,
     st_mode := di_file_mode i, st_size := di_size i, st_uid := di_owner_uid i, st_gid := di_group_uid i \<rparr>"

lemma attrPopulate_found:
  assumes "good_path s path" and "lookup_path s (names path) 0 = Some n" and "keeps s n"
  shows "\<exists>s'. attrPopulate m (SLASH # path) st s = Some (0, attrs (inode_view s n) st, s') \<and> idle s s'"
proof -
  obtain p s1 where g: "getFileINode m (SLASH # path) s = Some (Some p, s1)" and held: "held s s1 p n"
    using assms(1,2) by (rule path_found)
  obtain s2 where s2: "iput p s1 = Some (0, s2)" "idle s s2" using ih.put_rest [OF held assms(3)] by blast
  have data: "inode_view s n = getDiskINodeData (core s1 p)" using held by (rule held_data)
  have "attrs (inode_view s n) st = st\<lparr> st_atime := access (core s1 p), st_mtime := modification (core s1 p),
      st_ctime := status_change (core s1 p), st_mode := file_mode (core s1 p), st_size := isize (core s1 p),
      st_uid := owner_uid (core s1 p), st_gid := group_uid (core s1 p) \<rparr>"
    by (simp add: data attrs_def getDiskINodeData_def)
  with g s2 show ?thesis by (simp add: attrPopulate_def Let_def)
qed

lemma attrPopulate_missing:
  assumes "good_path s path" and "lookup_path s (names path) 0 = None"
  shows "\<exists>s'. attrPopulate m (SLASH # path) st s = Some (- ENOENT, st, s') \<and> idle s s'"
proof -
  obtain s1 where "getFileINode m (SLASH # path) s = Some (None, s1)" "idle s s1" using assms by (rule path_missing)
  then show ?thesis by (simp add: attrPopulate_def)
qed

text \<open>
  The change of one inode that \<open>changeMode\<close> and \<open>changeOwner\<close> make under the lock; the root has no links, so
  that the change of a root somebody else holds would be lost.
\<close>

definition changeable :: "fs \<Rightarrow> size_t \<Rightarrow> bool" where
  "changeable s n \<longleftrightarrow> di_linksCount (inode_view s n) \<noteq> 0 \<or> n = 0 \<and> refs s n = 0"

lemma locked_change:
  assumes held: "held s0 s p n" and ch: "changeable s0 n"
    and f: "\<And>i. inode_number (f i) = inode_number i" "\<And>i. reference_count (f i) = reference_count i"
      "\<And>i. dataBlockNums (f i) = dataBlockNums i" "\<And>i. linksCount (f i) = linksCount i" "\<And>i. dirty (f i)"
  shows "\<exists>s'. iput p (unlock p (upd_core p f (upd_core p (iNodeMutex_update (\<lambda>_. True)) s))) = Some (0, s') \<and>
    changed_files s0 n (getDiskINodeData (f ((core s p)\<lparr> iNodeMutex := True \<rparr>))) s'"
proof -
  let ?i = "(f ((core s p)\<lparr> iNodeMutex := True \<rparr>))\<lparr> iNodeMutex := False \<rparr>"
  note un = held_unlocked [OF held]
  have "linksCount (core s p) = di_linksCount (inode_view s0 n)" "inode_number (core s p) = n"
    using held_data [OF held] held by (simp, simp add: held_def)
  then have "\<exists>s'. iput p (upd_core p (\<lambda>_. ?i) s) = Some (0, s') \<and> changed_files s0 n (getDiskINodeData ?i) s'"
    by (intro iput_changed [OF held]) (use un ch f in \<open>auto simp: wf_inCore_def changeable_def\<close>)
  then show ?thesis unfolding locked_section(2) [OF held] by simp
qed

lemma changeMode_found:
  assumes "good_path s path" and "lookup_path s (names path) 0 = Some n" and ch: "changeable s n"
  shows "\<exists>s'. changeMode m (SLASH # path) mode s = Some (0, s') \<and>
    changed_files s n ((inode_view s n)\<lparr> di_file_mode :=
      (if di_type (inode_view s n) = T_DIRECTORY then S_IFDIR OR mode else mode) \<rparr>) s'"
proof -
  obtain p s1 where g: "getFileINode m (SLASH # path) s = Some (Some p, s1)" and held: "held s s1 p n"
    using assms(1,2) by (rule path_found)
  let ?m = "if itype (core s1 p) = T_DIRECTORY then S_IFDIR OR mode else mode"
  let ?f = "\<lambda>i. i\<lparr> file_mode := ?m, inode_changed := True \<rparr>"
  have data: "inode_view s n = getDiskINodeData (core s1 p)" using held by (rule held_data)
  have v: "getDiskINodeData (?f ((core s1 p)\<lparr> iNodeMutex := True \<rparr>)) =
      (inode_view s n)\<lparr> di_file_mode := (if di_type (inode_view s n) = T_DIRECTORY then S_IFDIR OR mode else mode) \<rparr>"
    by (simp add: data getDiskINodeData_def)
  obtain s2 where "iput p (unlock p (upd_core p ?f (upd_core p (iNodeMutex_update (\<lambda>_. True)) s1))) = Some (0, s2)"
      "changed_files s n (getDiskINodeData (?f ((core s1 p)\<lparr> iNodeMutex := True \<rparr>))) s2"
    using locked_change [OF held ch, of ?f] by auto
  with g v show ?thesis by (simp add: changeMode_def locked_section(1) [OF held])
qed

text \<open>\<open>-1\<close> for the user or the group leaves it alone; with both there is nothing to do.\<close>

definition owned_by :: "uid_t \<Rightarrow> gid_t \<Rightarrow> iNode \<Rightarrow> iNode" where
  "owned_by uid gid i = i\<lparr> di_owner_uid := (if uid = - 1 then di_owner_uid i else uid),
     di_group_uid := (if gid = - 1 then di_group_uid i else gid) \<rparr>"

lemma changeOwner_found:
  assumes "good_path s path" and "lookup_path s (names path) 0 = Some n" and ch: "changeable s n"
    and some: "uid \<noteq> - 1 \<or> gid \<noteq> - 1"
  shows "\<exists>s'. changeOwner m (SLASH # path) uid gid s = Some (0, s') \<and>
    changed_files s n (owned_by uid gid (inode_view s n)) s'"
proof -
  obtain p s1 where g: "getFileINode m (SLASH # path) s = Some (Some p, s1)" and held: "held s s1 p n"
    using assms(1,2) by (rule path_found)
  let ?f = "\<lambda>i. i\<lparr> owner_uid := (if uid = - 1 then owner_uid i else uid),
     group_uid := (if gid = - 1 then group_uid i else gid), inode_changed := True \<rparr>"
  let ?s = "upd_core p (iNodeMutex_update (\<lambda>_. True)) s1"
  have data: "inode_view s n = getDiskINodeData (core s1 p)" using held by (rule held_data)
  have v: "getDiskINodeData (?f ((core s1 p)\<lparr> iNodeMutex := True \<rparr>)) = owned_by uid gid (inode_view s n)"
    by (simp add: data owned_by_def getDiskINodeData_def)
  have up: "(if uid \<noteq> - 1 then
        let s = upd_core p (owner_uid_update (\<lambda>_. uid)) ?s;
            s = (if gid \<noteq> - 1 then upd_core p (group_uid_update (\<lambda>_. gid)) s else s)
        in upd_core p (inode_changed_update (\<lambda>_. True)) s
      else if gid \<noteq> - 1 then
        upd_core p (inode_changed_update (\<lambda>_. True)) (upd_core p (group_uid_update (\<lambda>_. gid)) ?s)
      else ?s) = upd_core p ?f ?s"
    using some by (auto simp: Let_def o_def upd_core_comp intro!: arg_cong [where f = "\<lambda>f. upd_core p f s1"])
  obtain s2 where "iput p (unlock p (upd_core p ?f ?s)) = Some (0, s2)"
      "changed_files s n (getDiskINodeData (?f ((core s1 p)\<lparr> iNodeMutex := True \<rparr>))) s2"
    using locked_change [OF held ch, of ?f] by auto
  with g v show ?thesis
    unfolding changeOwner_def by (simp only: g locked_section(1) [OF held] bind.bind_lunit prod.case option.case up) simp
qed

section \<open>open.c and close.c\<close>

lemma fileTable_frame [simp]:
  "refs (s\<lparr> fileTable := t \<rparr>) n = refs s n" "inode_view (s\<lparr> fileTable := t \<rparr>) n = inode_view s n"
  "cache_inv (s\<lparr> fileTable := t \<rparr>) fl hq = cache_inv s fl hq" "coherent (s\<lparr> fileTable := t \<rparr>) hq = coherent s hq"
  "settled (s\<lparr> fileTable := t \<rparr>) = settled s" "spare (s\<lparr> fileTable := t \<rparr>) = spare s"
  by (simp_all add: refs_def inode_view_def cache_inv_def coherent_def settled_def spare_def
      split: option.splits)

lemma fileTable_pinned [simp]:
  "holds (s\<lparr> fileTable := t \<rparr>) p n = holds s p n" "pinned (s0\<lparr> fileTable := t \<rparr>) s = pinned s0 s"
  "pinned s0 (s\<lparr> fileTable := t \<rparr>) = pinned s0 s"
  by (simp_all add: holds_def pinned_def)

lemma held_fileTable: "held s0 s p n \<Longrightarrow> held (s0\<lparr> fileTable := t \<rparr>) (s\<lparr> fileTable := t \<rparr>) p n"
  by (simp add: held_def same_files_def)

lemma unlock_lock:
  "held s0 s p n \<Longrightarrow> unlock p (upd_core p (iNodeMutex_update (\<lambda>_. True)) s) = s"
  using held_unlocked unlock_marked by blast

lemma openFile_found:
  assumes "good_path s path" and "lookup_path s (names path) 0 = Some n"
    and free: "k < MAX_FILE_DESCRIPTORS" "\<not> validEntry (fileTable s ! k)" "\<forall>j < k. validEntry (fileTable s ! j)"
    and off: "off = (if fi_flags fi = 0 then 0 else di_size (inode_view s n))"
  shows "\<exists>p s1. openFile m (SLASH # path) fi ctx s = Some (0, fi\<lparr> fi_fh := of_nat k \<rparr>,
      s1\<lparr> fileTable := (fileTable s)[k := initFdTableEntry p (ctx_pid ctx) (fi_flags fi) off] \<rparr>) \<and> held s s1 p n"
proof -
  obtain p s1 where g: "getFileINode m (SLASH # path) s = Some (Some p, s1)" and held: "held s s1 p n"
    using assms(1,2) by (rule path_found)
  let ?s = "upd_core p (iNodeMutex_update (\<lambda>_. True)) s1"
  have data: "isize (core s1 p) = di_size (inode_view s n)" "fileTable s1 = fileTable s"
    using held by (simp_all add: held_data [OF held] held_def same_files_def)
  have fd: "createAndGetFileDescriptor (ctx_pid ctx) p (fi_flags fi) off (fileTable s) =
      (int k, (fileTable s)[k := initFdTableEntry p (ctx_pid ctx) (fi_flags fi) off])"
    using create_fd_hit [of 0 k "fileTable s"] free by (simp add: createAndGetFileDescriptor_def)
  have "unlock p (?s\<lparr> fileTable := t \<rparr>) = s1\<lparr> fileTable := t \<rparr>" for t
    by (simp add: unlock_fileTable unlock_lock [OF held])
  moreover have "calculateFileOffset (core ?s p) (fi_flags fi) = off"
    by (simp add: calculateFileOffset_def off data)
  ultimately show ?thesis
    using g held data(2) fd by (auto simp: openFile_def locked_section(1) [OF held] Let_def simp del: core_upd_core)
qed


lemma getFileDescriptor_valid:
  assumes "k < MAX_FILE_DESCRIPTORS" and "validEntry (tab ! k)"
  shows "getFileDescriptor pid (c_int (of_nat k)) tab = Some (0, Some k)"
proof -
  have "c_int (of_nat k) = int k" using assms(1) by (intro c_int_eq unat_of_nat_small) auto
  then show ?thesis using assms by (simp add: getFileDescriptor_def)
qed

lemma getFileDescriptor_invalid:
  assumes "k < MAX_FILE_DESCRIPTORS" and "\<not> validEntry (tab ! k)"
  shows "getFileDescriptor pid (c_int (of_nat k)) tab = Some (- EBADF, None)"
proof -
  have "c_int (of_nat k) = int k" using assms(1) by (intro c_int_eq unat_of_nat_small) auto
  then show ?thesis using assms by (simp add: getFileDescriptor_def)
qed

lemma closeFile_held:
  assumes held: "held s0 (s\<lparr> fileTable := fileTable s0 \<rparr>) p n" and keep: "keeps s0 n"
    and k: "k < MAX_FILE_DESCRIPTORS" "k < length (fileTable s)"
    and e: "validEntry (fileTable s ! k)" "f_inode (fileTable s ! k) = p"
  shows "\<exists>s'. closeFile (fi\<lparr> fi_fh := of_nat k \<rparr>) ctx s = Some (0, s') \<and>
    idle (s0\<lparr> fileTable := (fileTable s)[k := (fileTable s ! k)\<lparr> validEntry := False \<rparr>] \<rparr>) s'"
proof -
  let ?t = "(fileTable s)[k := (fileTable s ! k)\<lparr> validEntry := False \<rparr>]"
  have "held (s0\<lparr> fileTable := ?t \<rparr>) (s\<lparr> fileTable := ?t \<rparr>) p n"
    using held_fileTable [OF held, of ?t] by simp
  moreover have "keeps (s0\<lparr> fileTable := ?t \<rparr>) n" using keep by (simp add: keeps_def)
  ultimately obtain s' where "iput p (s\<lparr> fileTable := ?t \<rparr>) = Some (0, s')" "idle (s0\<lparr> fileTable := ?t \<rparr>) s'"
    using ih.put_rest by blast
  then show ?thesis
    using getFileDescriptor_valid [OF k(1) e(1)] k e by (simp add: closeFile_def Let_def)
qed

lemma open_close:
  assumes "good_path s path" and "lookup_path s (names path) 0 = Some n" and keep: "keeps s n"
    and tab: "wf_table (fileTable s)"
    and free: "k < MAX_FILE_DESCRIPTORS" "\<not> validEntry (fileTable s ! k)" "\<forall>j < k. validEntry (fileTable s ! j)"
  shows "\<exists>s1 s2. openFile m (SLASH # path) fi ctx s = Some (0, fi\<lparr> fi_fh := of_nat k \<rparr>, s1) \<and>
    validEntry (fileTable s1 ! k) \<and> f_flags (fileTable s1 ! k) = fi_flags fi \<and>
    inode_number (core s1 (f_inode (fileTable s1 ! k))) = n \<and> refs s1 n = refs s n + 1 \<and>
    closeFile (fi\<lparr> fi_fh := of_nat k \<rparr>) ctx s1 = Some (0, s2) \<and> (\<forall>m. refs s2 m = refs s m) \<and>
    (\<forall>m < NUM_OF_INODES. inode_view s2 m = inode_view s m) \<and> disk s2 = disk s \<and> \<not> validEntry (fileTable s2 ! k)"
proof -
  let ?off = "if fi_flags fi = 0 then 0 else di_size (inode_view s n)"
  obtain p s1 where o: "openFile m (SLASH # path) fi ctx s = Some (0, fi\<lparr> fi_fh := of_nat k \<rparr>,
      s1\<lparr> fileTable := (fileTable s)[k := initFdTableEntry p (ctx_pid ctx) (fi_flags fi) ?off] \<rparr>)"
    and held: "held s s1 p n"
    using openFile_found [OF assms(1,2) free refl] by blast
  let ?s = "s1\<lparr> fileTable := (fileTable s)[k := initFdTableEntry p (ctx_pid ctx) (fi_flags fi) ?off] \<rparr>"
  have k: "k < length (fileTable s)" using tab free by (simp add: wf_table_def)
  have "held s (?s\<lparr> fileTable := fileTable s \<rparr>) p n" using held by (simp add: held_def same_files_def)
  then obtain s2 where c: "closeFile (fi\<lparr> fi_fh := of_nat k \<rparr>) ctx ?s = Some (0, s2)"
    "idle (s\<lparr> fileTable := (fileTable ?s)[k := (fileTable ?s ! k)\<lparr> validEntry := False \<rparr>] \<rparr>) s2"
    using closeFile_held [of s ?s p n k fi ctx] keep free k by (auto simp: initFdTableEntry_def)
  have "refs s1 n = refs s n + 1" "inode_number (core s1 p) = n" using held by (auto simp: held_def)
  with o c k show ?thesis
    by (intro exI [of _ ?s] exI [of _ s2]) (auto simp: initFdTableEntry_def idle_def same_files_def)
qed

text \<open>
  With a full table \<open>openFile\<close> succeeds all the same: the descriptor it hands out is \<open>-ENFILE\<close>, the reference it took stays,
  and closing the descriptor has no defined outcome.
\<close>

lemma openFile_full:
  assumes "good_path s path" and "lookup_path s (names path) 0 = Some n" and full: "\<forall>j < MAX_FILE_DESCRIPTORS. validEntry (fileTable s ! j)"
  shows "\<exists>s1. openFile m (SLASH # path) fi ctx s = Some (0, fi\<lparr> fi_fh := word_of_int (- ENFILE) \<rparr>, s1) \<and>
    refs s1 n = refs s n + 1 \<and> fileTable s1 = fileTable s \<and> closeFile (fi\<lparr> fi_fh := word_of_int (- ENFILE) \<rparr>) ctx s1 = None"
proof -
  obtain p s1 where g: "getFileINode m (SLASH # path) s = Some (Some p, s1)" and held: "held s s1 p n"
    using assms(1,2) by (rule path_found)
  have tab: "fileTable s1 = fileTable s" and refs: "refs s1 n = refs s n + 1" using held by (auto simp: held_def same_files_def)
  have none: "createAndGetFileDescriptor pid p fl off (fileTable s) = (- ENFILE, fileTable s)" for pid fl off
    using full by (cases rule: createAndGetFileDescriptor_cases [of "fileTable s" pid p fl off]) auto
  have "s1\<lparr> fileTable := fileTable s \<rparr> = s1" using tab by (cases s1) simp
  then have "unlock p (upd_core p (iNodeMutex_update (\<lambda>_. True)) s1\<lparr> fileTable := fileTable s \<rparr>) = s1"
    by (simp add: unlock_fileTable unlock_lock [OF held])
  then have "openFile m (SLASH # path) fi ctx s = Some (0, fi\<lparr> fi_fh := word_of_int (- ENFILE) \<rparr>, s1)"
    using g tab none by (simp add: openFile_def locked_section(1) [OF held])
  moreover have "c_int (- 23) = - 23" by (simp add: c_int_def to_c_int_def)
  ultimately show ?thesis using tab refs by (simp add: closeFile_def getFileDescriptor_def)
qed

section \<open>Properties\<close>

text \<open>
  Started on the memory disk, \<open>main\<close> reaches \<open>fuse_main\<close> in a state that satisfies the invariant of the cache: all
  32 nodes free, none cached, the cache and the disk agreeing, inode 0 the root directory and all others free, no
  descriptor in use.  The uninitialised loop counter of \<open>initHashQueues\<close> does not matter.
\<close>

lemma mount_state:
  assumes "\<forall>arg \<in> set argv. take 6 arg \<noteq> ''fsname''" and "length junk = BLOCK_SIZE"
  shows "\<exists>s x. main_init junk k argv (static_fs host now) = Some (True, s) \<and>
    cache_inv s [0..<32] [] \<and> coherent s [] \<and> idle s s \<and> inode_stack (disk s) first_inodes \<and>
    (\<forall>n < NUM_OF_INODES. inode_view s n = fresh_inode x n) \<and>
    wf_table (fileTable s) \<and> (\<forall>e \<in> set (fileTable s). \<not> validEntry e)"
  using main_init_ok [OF assms, of k host now] main_init_idle [OF _ assms, of k host now] by blast

text \<open>
  C9. \<open>getFileINode\<close> refines the specification of path resolution: for a path whose components lead through
  directories it returns a node holding the inode the walk over the directory contents ends at, with that inode's
  data, or \<open>NULL\<close> if a name is not there.  In both cases every file, the disk and the descriptors are unchanged
  and no reference is left behind but the one returned.
\<close>

theorem path_resolution:
  assumes "good_path s path"
  shows "case lookup_path s (names path) 0 of
      None \<Rightarrow> \<exists>s'. getFileINode m (SLASH # path) s = Some (None, s') \<and> idle s s'
    | Some n \<Rightarrow> \<exists>p s'. getFileINode m (SLASH # path) s = Some (Some p, s') \<and>
        getDiskINodeData (core s' p) = inode_view s n \<and> same_files s s' \<and>
        (\<forall>k. refs s' k = (if k = n then refs s n + 1 else refs s k))"
proof (cases "lookup_path s (names path) 0")
  case None
  then show ?thesis using path_missing [OF assms None, of m] by auto
next
  case (Some n)
  then obtain p s' where "getFileINode m (SLASH # path) s = Some (Some p, s')" "held s s' p n"
    using path_found [OF assms Some, of m] by blast
  then show ?thesis using Some by (auto simp: held_def)
qed

theorem path_resolution_witness:
  "(\<exists>s'. getFileINode sample_env [47, 120] boot = Some (None, s') \<and> idle boot s') \<and>
   (\<exists>p s'. getFileINode sample_env [47] boot = Some (Some p, s') \<and> same_files boot s')"
  using path_resolution [OF boot_path, of "[120]" sample_env] path_resolution [OF boot_path, of "[]" sample_env]
  by (auto simp: names_word boot_lookup)

text \<open>
  \<open>attrPopulate\<close> reports times, mode, size and owner of the inode the path leads to, and \<open>-ENOENT\<close> with the
  buffer untouched if there is none; the file system is left as it was.
\<close>

lemma getattr_correct:
  assumes "good_path s path" and "\<forall>n. lookup_path s (names path) 0 = Some n \<longrightarrow> keeps s n"
  shows "\<exists>s'. attrPopulate m (SLASH # path) st s =
    (case lookup_path s (names path) 0 of
       None \<Rightarrow> Some (- ENOENT, st, s')
     | Some n \<Rightarrow> Some (0, attrs (inode_view s n) st, s')) \<and> idle s s'"
  using attrPopulate_missing [OF assms(1)] attrPopulate_found [OF assms(1)] assms(2)
  by (cases "lookup_path s (names path) 0") auto

text \<open>
  \<open>changeMode\<close> sets the mode of the inode the path leads to, with the directory bit added for a directory, and
  changes nothing else of it, no other inode, no data block and no reference count; the new mode is what the cache
  and the disk together hold, whether the inode was written back or not.
\<close>

lemma chmod_correct:
  assumes "good_path s path" and "lookup_path s (names path) 0 = Some n" and "changeable s n"
  shows "\<exists>s'. changeMode m (SLASH # path) mode s = Some (0, s') \<and>
    changed_files s n ((inode_view s n)\<lparr> di_file_mode :=
      (if di_type (inode_view s n) = T_DIRECTORY then S_IFDIR OR mode else mode) \<rparr>) s'"
  by (rule changeMode_found [OF assms])

text \<open>
  \<open>changeOwner\<close> sets the user and the group of the inode the path leads to, each unless it is \<open>-1\<close>, and nothing
  else in the file system.
\<close>

lemma chown_correct:
  assumes "good_path s path" and "lookup_path s (names path) 0 = Some n" and "changeable s n"
    and "uid \<noteq> - 1 \<or> gid \<noteq> - 1"
  shows "\<exists>s'. changeOwner m (SLASH # path) uid gid s = Some (0, s') \<and>
    changed_files s n (owned_by uid gid (inode_view s n)) s'"
  by (rule changeOwner_found [OF assms])

text \<open>
  C17. \<open>openFile\<close> takes the lowest free descriptor, whose entry refers to a node that holds the inode of the path and
  one more reference to it; \<open>closeFile\<close> of that descriptor frees it and gives the reference back, after which all
  reference counts, files and the disk are as before.
\<close>

theorem open_close_roundtrip:
  assumes "good_path s path" and "lookup_path s (names path) 0 = Some n" and "keeps s n"
    and "wf_table (fileTable s)"
    and "k < MAX_FILE_DESCRIPTORS" and "\<not> validEntry (fileTable s ! k)" and "\<forall>j < k. validEntry (fileTable s ! j)"
  shows "\<exists>s1 s2. openFile m (SLASH # path) fi ctx s = Some (0, fi\<lparr> fi_fh := of_nat k \<rparr>, s1) \<and>
    validEntry (fileTable s1 ! k) \<and> f_flags (fileTable s1 ! k) = fi_flags fi \<and>
    inode_number (core s1 (f_inode (fileTable s1 ! k))) = n \<and> refs s1 n = refs s n + 1 \<and>
    closeFile (fi\<lparr> fi_fh := of_nat k \<rparr>) ctx s1 = Some (0, s2) \<and> (\<forall>m. refs s2 m = refs s m) \<and>
    (\<forall>m < NUM_OF_INODES. inode_view s2 m = inode_view s m) \<and> disk s2 = disk s \<and> \<not> validEntry (fileTable s2 ! k)"
  by (rule open_close [OF assms])

theorem open_close_roundtrip_witness:
  "\<exists>s1 s2. openFile sample_env [47] \<lparr> fi_flags = 0, fi_fh = 0 \<rparr> \<lparr> ctx_uid = 0, ctx_gid = 0, ctx_pid = 1 \<rparr> boot =
       Some (0, \<lparr> fi_flags = 0, fi_fh = 0 \<rparr>, s1) \<and>
     closeFile \<lparr> fi_flags = 0, fi_fh = 0 \<rparr> \<lparr> ctx_uid = 0, ctx_gid = 0, ctx_pid = 1 \<rparr> s1 = Some (0, s2) \<and> disk s2 = disk boot"
proof -
  have "\<not> validEntry (fileTable boot ! 0)"
    using boot_facts(6,7) nth_mem [of 0 "fileTable boot"] by (simp add: wf_table_def)
  then show ?thesis
    using open_close_roundtrip [OF boot_path, of "[]" 0 0 sample_env "\<lparr> fi_flags = 0, fi_fh = 0 \<rparr>"
        "\<lparr> ctx_uid = 0, ctx_gid = 0, ctx_pid = 1 \<rparr>"] boot_facts(6)
    by (fastforce simp: keeps_def)
qed

text \<open>
  C38. A path that does not exist: \<open>openFile\<close>, \<open>truncateFile\<close>, \<open>changeMode\<close>, \<open>changeOwner\<close>, \<open>attrPopulate\<close> and, for
  the old name, \<open>renameFile\<close> fail with \<open>-ENOENT\<close>, \<open>readDirectory\<close> with \<open>-1\<close>, and each leaves files, references and
  descriptors as they were.  \<open>unlinkDir\<close> has no defined outcome: it locks the NULL inode it got.
\<close>

theorem missing_path:
  assumes "good_path s path" and "lookup_path s (names path) 0 = None"
  shows "\<exists>s'. idle s s' \<and> openFile m (SLASH # path) fi ctx s = Some (- ENOENT, fi, s') \<and>
    truncateFile m (SLASH # path) sz s = Some (- ENOENT, s') \<and>
    changeMode m (SLASH # path) mode s = Some (- ENOENT, s') \<and>
    changeOwner m (SLASH # path) uid gid s = Some (- ENOENT, s') \<and>
    attrPopulate m (SLASH # path) st s = Some (- ENOENT, st, s') \<and>
    renameFile m (SLASH # path) to s = Some (- ENOENT, s') \<and>
    readDirectory m (SLASH # path) s = Some (- 1, [], s') \<and>
    unlinkDir m (SLASH # path) force s = None"
proof -
  obtain s' where "getFileINode m (SLASH # path) s = Some (None, s')" "idle s s'" using assms by (rule path_missing)
  then show ?thesis
    by (simp add: openFile_def truncateFile_def changeMode_def changeOwner_def attrPopulate_def renameFile_def
        readDirectory_def unlinkDir_def)
qed

theorem missing_path_witness:
  "\<exists>s'. truncateFile sample_env [47, 120] 5 boot = Some (- ENOENT, s') \<and>
     attrPopulate sample_env [47, 120] zero_stat boot = Some (- ENOENT, zero_stat, s') \<and> idle boot s' \<and>
     unlinkDir sample_env [47, 120] False boot = None"
  using missing_path [OF boot_path, of "[120]" sample_env "\<lparr> fi_flags = 0, fi_fh = 0 \<rparr>"
      "\<lparr> ctx_uid = 0, ctx_gid = 0, ctx_pid = 1 \<rparr>" 5 0 0 0 zero_stat "[]" False] by (auto simp: names_word boot_lookup)

text \<open>
  C39. Descriptors that are not open, \<open>fd\<close> being \<open>fi->fh\<close> as an \<open>int\<close>: beyond the table, or in the table without a valid
  entry, reading gives \<open>-EBADF\<close>, writing \<open>-1\<close>, closing \<open>0\<close>, all without effect.  A negative one, such as the \<open>-ENFILE\<close>
  that \<open>openFile\<close> stores when the table is full, is not caught: all three access memory before the table and have no
  defined outcome.
\<close>

theorem bad_descriptor:
  fixes fi :: fuse_file_info
  defines "fd \<equiv> c_int (fi_fh fi)"
  shows "(int MAX_FILE_DESCRIPTORS \<le> fd \<or> 0 \<le> fd \<and> \<not> validEntry (fileTable s ! nat fd) \<longrightarrow>
      readFile sz off fi ctx s = Some (- EBADF, [], s) \<and> writeToFile buf off fi ctx s = Some (- 1, s) \<and>
      closeFile fi ctx s = Some (0, s)) \<and>
    (fd < 0 \<longrightarrow> readFile sz off fi ctx s = None \<and> writeToFile buf off fi ctx s = None \<and> closeFile fi ctx s = None)"
  by (simp add: fd_def readFile_def writeToFile_def closeFile_def getFileDescriptor_def)

theorem bad_descriptor_witness:
  "readFile 10 0 \<lparr> fi_flags = 0, fi_fh = 0 \<rparr> \<lparr> ctx_uid = 0, ctx_gid = 0, ctx_pid = 1 \<rparr> boot = Some (- EBADF, [], boot) \<and>
   closeFile \<lparr> fi_flags = 0, fi_fh = 10000 \<rparr> \<lparr> ctx_uid = 0, ctx_gid = 0, ctx_pid = 1 \<rparr> boot = Some (0, boot) \<and>
   closeFile \<lparr> fi_flags = 0, fi_fh = - 23 \<rparr> \<lparr> ctx_uid = 0, ctx_gid = 0, ctx_pid = 1 \<rparr> boot = None"
proof -
  let ?ctx = "\<lparr> ctx_uid = 0, ctx_gid = 0, ctx_pid = 1 \<rparr>"
  have v: "\<not> validEntry (fileTable boot ! 0)"
    using boot_facts(6,7) nth_mem [of 0 "fileTable boot"] by (simp add: wf_table_def)
  have c: "c_int 0 = 0" "c_int 10000 = 10000" "c_int (- 23) = - 23" by (simp_all add: c_int_def to_c_int_def)
  show ?thesis
    using bad_descriptor [where fi = "\<lparr> fi_flags = 0, fi_fh = 0 \<rparr>" and sz = 10 and off = 0 and ctx = ?ctx and s = boot and buf = "[]"]
      bad_descriptor [where fi = "\<lparr> fi_flags = 0, fi_fh = 10000 \<rparr>" and sz = 10 and off = 0 and ctx = ?ctx and s = boot and buf = "[]"]
      bad_descriptor [where fi = "\<lparr> fi_flags = 0, fi_fh = - 23 \<rparr>" and sz = 10 and off = 0 and ctx = ?ctx and s = boot and buf = "[]"] v
    by (simp add: c)
qed

text \<open>
  C40. Truncating a directory gives \<open>-EISDIR\<close> but returns with the inode still locked and its reference not given back:
  whatever locks that node next waits for ever.
\<close>

theorem truncate_directory:
  assumes "good_path s path" and "lookup_path s (names path) 0 = Some n" and "di_type (inode_view s n) = T_DIRECTORY"
  shows "\<exists>p s'. truncateFile m (SLASH # path) sz s = Some (- EISDIR, s') \<and> inode_number (core s' p) = n \<and>
    reference_count (core s' p) = refs s n + 1 \<and> lock p s' = None \<and> iput p s' = None"
proof -
  obtain p s1 where g: "getFileINode m (SLASH # path) s = Some (Some p, s1)" and held: "held s s1 p n"
    using assms(1,2) by (rule path_found)
  have "inode_number (core s1 p) = n" "reference_count (core s1 p) = refs s n + 1" using held by (auto elim: heldE)
  with g show ?thesis using assms(3) held_data [OF held] held_unlocked [OF held]
    by (intro exI [of _ p]) (simp add: truncateFile_def lock_def iput_def)
qed

theorem truncate_directory_witness:
  "\<exists>p s'. truncateFile sample_env [47] 0 boot = Some (- EISDIR, s') \<and> lock p s' = None"
  using truncate_directory [OF boot_path, of "[]" 0 sample_env 0] by (auto simp: boot_root)

text \<open>
  The root directory cannot be removed: \<open>unlinkDir\<close> of it gives \<open>-EACCES\<close>, with \<open>force\<close> or without, and
  changes nothing.
\<close>

lemma rmdir_root:
  assumes "idle s s"
  shows "\<exists>s'. unlinkDir m [SLASH] force s = Some (- EACCES, s') \<and> idle s s'"
proof -
  have "good_path s []" "lookup_path s (names []) 0 = Some 0" using assms by (simp_all add: good_path_def)
  then obtain p s1 where g: "getFileINode m [SLASH] s = Some (Some p, s1)" and held: "held s s1 p 0"
    by (rule path_found)
  obtain s2 where s2: "iput p s1 = Some (0, s2)" "idle s s2"
    using ih.put_rest [OF held] by (auto simp: keeps_def)
  have "inode_number (core s1 p) = 0" using held by (simp add: held_def)
  then have "validateAndEmptyDirectoryIfNeeded m p force (upd_core p (iNodeMutex_update (\<lambda>_. True)) s1) =
      Some (- EACCES, upd_core p (iNodeMutex_update (\<lambda>_. True)) s1)"
    by (simp add: validateAndEmptyDirectoryIfNeeded_def validate_dir_def)
  with g s2 show ?thesis by (simp add: unlinkDir_def locked_section(1) [OF held] unlock_lock [OF held])
qed

end
