(* ===== verification/Create.thy ===== *)
theory Create
  imports FileOps
begin

text \<open>
  What \<open>createFile\<close> of \<open>src/interface/create.c\<close> guarantees for files and directories, over the handles of the inode
  cache and the entries of directories.
\<close>

section \<open>Directories of a state\<close>

text \<open>Path and name as \<open>createFile\<close> splits them.\<close>

definition in_dir :: "cstring \<Rightarrow> cstring \<Rightarrow> bool" where
  "in_dir dir f \<longleftrightarrow> (dir = [] \<or> last dir = SLASH) \<and> SLASH \<notin> set f"

lemma split_path:
  assumes "in_dir dir f"
  shows "getParentDirectory (SLASH # dir @ f) = Some (SLASH # dir)" and "getFilenameFromPath (SLASH # dir @ f) = Some f"
proof -
  let ?P = "\<lambda>b. b \<noteq> SLASH"
  have f: "\<forall>x \<in> set (rev f). ?P x" using assms by (auto simp: in_dir_def)
  obtain dir' where d: "SLASH # dir = dir' @ [SLASH]" 
    using assms append_butlast_last_id [of "SLASH # dir"] by (metis in_dir_def last.simps list.discI)
  have "rev (SLASH # dir @ f) = rev f @ SLASH # rev dir'" using d by (metis append_Cons rev_append rev_eq_Cons_iff rev_rev_ident)
  then have "takeWhile ?P (rev (SLASH # dir @ f)) = rev f" "dropWhile ?P (rev (SLASH # dir @ f)) = SLASH # rev dir'"
    using takeWhile_append2 [of "rev f" ?P "SLASH # rev dir'"] dropWhile_append2 [of "rev f" ?P "SLASH # rev dir'"] f
    by (simp_all only: takeWhile.simps dropWhile.simps simp_thms if_False append_Nil2)
  moreover have "rev (SLASH # rev dir') = SLASH # dir" using d by simp
  ultimately show "getParentDirectory (SLASH # dir @ f) = Some (SLASH # dir)" "getFilenameFromPath (SLASH # dir @ f) = Some f"
    unfolding getParentDirectory_def getFilenameFromPath_def by (simp_all del: rev.simps)
qed

lemma incore_fields:
  assumes "wf_inCore i"
  defines "j \<equiv> insertDiskInodeData (getDiskINodeData i) zero_inCore"
  shows "dataBlockNums j = dataBlockNums i" and "isize j = isize i" and "file_mode j = file_mode i"
  using assms(1) unfolding j_def
  by (simp_all add: insertDiskInodeData_def getDiskINodeData_def wf_inCore_def list_eq_iff_nth_eq)

lemma same_contents:
  assumes "dataBlockNums j = dataBlockNums i" and "isize j = isize i"
  shows "direct j d fs = direct i d fs" "file_bytes j d = file_bytes i d" "append_fits j fs k = append_fits i fs k"
    "dir_entries j d = dir_entries i d" "file_blocks j = file_blocks i"
    and "file_mode j = file_mode i \<Longrightarrow> good_dir j d = good_dir i d"
proof -
  show "direct j d fs = direct i d fs" using direct_file_cong [OF assms] assms(2) by (simp add: direct_def)
  show b: "file_bytes j d = file_bytes i d" by (rule file_bytes_cong [OF assms])
  then show "dir_entries j d = dir_entries i d" by (simp add: dir_entries_def)
  then show "file_mode j = file_mode i \<Longrightarrow> good_dir j d = good_dir i d"
    using file_ok_cong [OF assms] assms(2) by (simp add: good_dir_def validateSearch_iff)
  show "append_fits j fs k = append_fits i fs k" "file_blocks j = file_blocks i"
    using assms by (simp_all add: append_fits_def file_blocks_def)
qed

lemma view_contents:
  assumes "inode_view s n = getDiskINodeData i" and "wf_inCore i"
  shows "direct (dir_view s n) d fs = direct i d fs" "file_bytes (dir_view s n) d = file_bytes i d"
    "append_fits (dir_view s n) fs k = append_fits i fs k" "dir_entries (dir_view s n) d = dir_entries i d"
    "file_blocks (dir_view s n) = file_blocks i" "good_dir (dir_view s n) d = good_dir i d"
  using same_contents [OF incore_fields(1,2) [OF assms(2)]] incore_fields(3) [OF assms(2)] assms(1)
  by (simp_all add: dir_view_def)

lemma good_dir_meta:
  assumes "meta_step d d'" and "direct i d fs" and "good_dir i d"
  shows "good_dir i d'"
  using assms(3) meta_step_direct [OF assms(1,2)] direct_file_ok [of i d' fs]
  by (simp add: good_dir_def dir_entries_def direct_def)

lemma finite_free_nodes: "finite (free_nodes s)"
  by (simp add: free_nodes_def)

lemma same_room:
  assumes "well s" and "well s'" and "\<And>k. refs s' k = refs s k"
  shows "card (free_nodes s') = card (free_nodes s)"
  using card_free_nodes [OF assms(1)] card_free_nodes [OF assms(2)] by (simp add: assms(3))

lemma appended_one_block:
  assumes "appended i d fs c i' d' fs'" and "length c \<le> BLOCK_SIZE"
  shows "length fs \<le> Suc (length fs')"
proof -
  have "blocks_for (unat (isize i')) \<le> Suc (blocks_for (unat (isize i)))"
    using appended_size [OF assms(1)] assms(2) by (simp add: blocks_for_def)
  then show ?thesis using assms(1) by (simp add: appended_def)
qed

section \<open>Steps of createFile\<close>

lemma touchesD:
  assumes "touches s n r x s'"
  shows "well s'" and "fileTable s' = fileTable s"
    and "\<And>m. m < NUM_OF_INODES \<Longrightarrow> inode_view s' m = (if m = n then x else inode_view s m)"
    and "\<And>m. refs s' m = (if m = n then r else refs s m)"
    and "\<And>q m. holds s q m \<Longrightarrow> m \<noteq> n \<Longrightarrow> holds s' q m" and "\<And>q m. holds s q m \<Longrightarrow> m \<noteq> n \<Longrightarrow> core s' q = core s q"
    and "\<And>m. m \<noteq> n \<Longrightarrow> pending s' m = pending s m"
  using assms unfolding touches_def by blast+

text \<open>References that were there before the operation began stay.\<close>

lemma pinned_touches:
  assumes "pinned s s1" and "touches s1 n r x s2" and "holds s1 p n \<and> holds s2 p n \<or> refs s n = 0"
  shows "pinned s s2"
  unfolding pinned_def
proof (intro allI impI)
  fix q m assume q: "holds s q m"
  then have q1: "holds s1 q m" using assms(1) by (simp add: pinned_def)
  show "holds s2 q m"
  proof (cases "m = n")
    case True
    have "refs s m \<noteq> 0" by (rule holds_refs_nonzero [OF q])
    then have p: "holds s1 p n" "holds s2 p n" using assms(3) True by auto
    then have "q = p" using holds_unique q1 True by blast
    then show ?thesis using p True by simp
  qed (use touchesD(5) [OF assms(2) q1] in blast)
qed

lemma new_inode_step:
  assumes w: "well s" and st: "inode_stack (disk s) (num # nums)" "nums \<noteq> []"
    and free: "refs s num = 0" "di_linksCount (inode_at (disk s) num) = 0"
  obtains d where "getNewINode t mode u g (disk s) = Some (num, d)" and "meta_step (disk s) d" and "inode_stack d nums"
    and "well (s\<lparr> disk := d \<rparr>)" and "num < NUM_OF_INODES"
    and "\<And>m. m < NUM_OF_INODES \<Longrightarrow> inode_view (s\<lparr> disk := d \<rparr>) m =
      (if m = num then assigned t mode u g (disk s) (inode_view s num) else inode_view s m)"
proof -
  have n: "numbered (disk s)" and ok: "meta_ok (disk s)" using w by (auto simp: well_def cache_inv_def numbered_def)
  let ?new = "assigned t mode u g (disk s) (inode_at (disk s) num)"
  obtain b where b: "length b = BLOCK_SIZE" and x: "num < NUM_OF_INODES"
    and get: "getNewINode t mode u g (disk s) = Some (num, put_block INODE_LIST_BLOCK b (put_inode num ?new (disk s)))"
    and stk: "inode_stack (put_block INODE_LIST_BLOCK b (put_inode num ?new (disk s))) nums"
    by (rule getNewINode_eq [OF ok st])
  let ?d1 = "put_inode num ?new (disk s)"
  let ?d = "put_block INODE_LIST_BLOCK b ?d1"
  have wf: "wf_iNode ?new" by (simp add: wf_inode_at)
  have ok1: "meta_ok ?d1" using ok x wf by (simp add: disk_simps)
  have "meta_step (disk s) ?d1" by (rule meta_step_put_inode [OF ok x wf])
  moreover have "meta_step ?d1 ?d" using meta_okD(1) [OF ok1] b by (intro meta_step_put) auto
  ultimately have ms: "meta_step (disk s) ?d" by (rule meta_step_trans)
  have at: "inode_at ?d m = (if m = num then ?new else inode_at (disk s) m)" if "m < NUM_OF_INODES" for m
    by (rule list_and_inode(2) [OF ok wf x b that])
  have num: "di_inode_number ?new = num" using n x by (simp add: assigned_def numbered_def)
  have sp: "spares s ?d"
    using n num free at list_and_inode(1) [OF ok wf x b] by (auto simp: spares_def numbered_def)
  have "inode_view (s\<lparr> disk := ?d \<rparr>) m = (if m = num then assigned t mode u g (disk s) (inode_view s num) else inode_view s m)"
    if "m < NUM_OF_INODES" for m
    using disk_change(2) [OF w sp that] at [OF that] unreferenced(2) [OF w] free(1) by auto
  then show thesis using that [OF get ms stk disk_change(1) [OF w sp] x] by blast
qed

text \<open>A change of data blocks and then of one held node.\<close>

lemma data_then_change:
  assumes w: "well s" and st: "data_step (disk s) d" "meta_ok d" and h: "holds s p n"
    and i: "inode_number i = n" "reference_count i = reference_count (core s p)"
      "iNodeMutex i = iNodeMutex (core s p)" "wf_inCore i" "dirty i"
  defines "s' \<equiv> upd_core p (\<lambda>_. i) (s\<lparr> disk := d \<rparr>)"
  shows "touches s n (refs s n) (getDiskINodeData i) s'" and "holds s' p n" and "pending s' n"
proof -
  note dc = data_change [OF w st]
  have h': "holds (s\<lparr> disk := d \<rparr>) p n" using h by simp
  have "touches (s\<lparr> disk := d \<rparr>) n (refs s n) (getDiskINodeData i) s'"
    using change_touches(1) [OF dc(1) h' i(1)] i(2-5) by (simp add: s'_def)
  then show "touches s n (refs s n) (getDiskINodeData i) s'"
    using dc(2) unfolding touches_def by simp
  show "holds s' p n" "pending s' n" using change_touches(2,3) [OF dc(1) h' i(1)] i(2-5) by (simp_all add: s'_def)
qed

lemma add_entry_step:
  assumes w: "well s" and h: "holds s p n"
    and rep: "direct (core s p) (disk s) fs" and fits: "append_fits (core s p) fs 64" and dir: "good_dir (core s p) (disk s)"
  shows "\<exists>i' d' fs' s'. s' = upd_core p (\<lambda>_. i') (s\<lparr> disk := d' \<rparr>) \<and>
    getAndUpdateDirectoryTable m p num f s = Some (None, s') \<and>
    appended (core s p) (disk s) fs (entry_bytes m f num) i' d' fs' \<and>
    touches s n (refs s n) (getDiskINodeData i') s' \<and> holds s' p n \<and> pending s' n \<and> wf_inCore i'"
proof -
  obtain i' d' fs' where a: "getAndUpdateDirectoryTable m p num f s = Some (None, upd_core p (\<lambda>_. i') (s\<lparr> disk := d' \<rparr>))"
    "appended (core s p) (disk s) fs (entry_bytes m f num) i' d' fs'" "dirty i'"
    using getAndUpdateDirectoryTable_append [OF rep fits, of m num f] dir by (auto simp: good_dir_def)
  have rs: "resized (core s p) i'" and wf: "wf_inCore i'" using a(2) by (simp_all add: appended_def direct_def direct_file_def)
  have num: "inode_number (core s p) = n" using w h by (rule holdsE)
  note t = data_then_change [OF w appended_data_step [OF a(2)] h _ resizedD(2) [OF rs] resizedD(1) [OF rs] wf a(3)]
  show ?thesis using a wf t num resizedD(3) [OF rs] by blast
qed

lemma links_step:
  fixes l :: size_t
  assumes w: "well s" and h: "holds s q n"
  defines "s' \<equiv> updateINodeMetadata_at q 0 l s"
  shows "touches s n (refs s n) ((inode_view s n)\<lparr> di_linksCount := l \<rparr>) s'" and "holds s' q n" and "pending s' n"
    and "disk s' = disk s"
proof -
  let ?i = "updateINodeMetadata (core s q) 0 l (disk s)"
  have s': "s' = upd_core q (\<lambda>_. ?i) s" unfolding s'_def updateINodeMetadata_at_def by (rule upd_core_const)
  have c: "inode_number (core s q) = n" "wf_inCore (core s q)" "getDiskINodeData (core s q) = inode_view s n"
    using holdsE [OF w h] by metis+
  have "getDiskINodeData ?i = (inode_view s n)\<lparr> di_linksCount := l \<rparr>"
    by (simp add: updateINodeMetadata_def getDiskINodeData_def flip: c(3))
  moreover have "iNodeMutex ?i = iNodeMutex (core s q)" "wf_inCore ?i" "dirty ?i"
    using c(2) by (simp_all add: updateINodeMetadata_def wf_inCore_def)
  ultimately show "touches s n (refs s n) ((inode_view s n)\<lparr> di_linksCount := l \<rparr>) s'" "holds s' q n" "pending s' n"
      "disk s' = disk s"
    using change_touches [OF w h, of ?i] c(1) unfolding s' by simp_all
qed

section \<open>createFile\<close>

text \<open>
  What \<open>createFile\<close> needs: the directory exists and is in order, has room for one more entry and does not contain
  the name; a free inode that nobody uses; two free nodes in the cache.
\<close>

definition can_create :: "fs \<Rightarrow> cstring \<Rightarrow> cstring \<Rightarrow> size_t \<Rightarrow> size_t \<Rightarrow> size_t list \<Rightarrow> size_t list \<Rightarrow> bool" where
  "can_create s dir f n num nums fs \<longleftrightarrow>
     in_dir dir f \<and> f \<noteq> [] \<and> length f < FILENAME_SIZE \<and> 0 \<notin> set f \<and>
     good_path s dir \<and> lookup_path s (names dir) 0 = Some n \<and> changeable s n \<and>
     good_dir (dir_view s n) (disk s) \<and> direct (dir_view s n) (disk s) fs \<and> append_fits (dir_view s n) fs 64 \<and>
     lookup_entry (dir_entries (dir_view s n) (disk s)) f = None \<and>
     inode_stack (disk s) (num # nums) \<and> nums \<noteq> [] \<and> num \<noteq> n \<and> refs s num = 0 \<and>
     di_linksCount (inode_view s num) = 0 \<and> 2 \<le> card (free_nodes s)"

lemma parent_found:
  assumes "can_create s dir f n num nums fs" and t: "t = T_REGULAR \<or> t = T_DIRECTORY"
  obtains p s1 where "validateThenGetParentINode m t (SLASH # dir @ f) s = Some (Some p, f, s1)" and "held s s1 p n"
    and "direct (core s1 p) (disk s) fs" and "append_fits (core s1 p) fs 64" and "good_dir (core s1 p) (disk s)"
    and "dir_entries (core s1 p) (disk s) = dir_entries (dir_view s n) (disk s)"
proof -
  note c = assms(1) [unfolded can_create_def]
  obtain p s1 where g: "getFileINode m (SLASH # dir) s = Some (Some p, s1)" and held: "held s s1 p n"
    using c path_found by blast
  have disk: "disk s1 = disk s" using heldD(3) [OF held] .
  have cc: "inode_view s n = getDiskINodeData (core s1 p)" "wf_inCore (core s1 p)"
    using held_data [OF held] held_unlocked [OF held] by auto
  note v = view_contents [OF cc]
  have dir: "good_dir (core s1 p) (disk s)" using c v(6) by simp
  have "find (\<lambda>g. dir_name (core s1 p) (disk s) g = Some f) [0..<unat (isize (core s1 p)) div 64] = None"
    using find_entry [OF dir, of f] c v(4) by simp
  then have search: "searchINodeDirectoryEntries m (core s1 p) (Some f) 0 [fresh_entry m] 0 False (disk s1) =
      Some (0, [fresh_entry m], disk s)"
    using search_directory [OF good_dir_ok [OF dir], of f m] c disk by simp
  then have "doesFileExistIn m f p s1 = Some (False, s1)"
    unfolding doesFileExistIn_def search using disk by simp
  then have "validateThenGetParentINode m t (SLASH # dir @ f) s = Some (Some p, f, s1)"
    using split_path [of dir f] c g t by (auto simp: validateThenGetParentINode_def getParentINode_def)
  then show thesis using that held c v dir by simp
qed

text \<open>
  The state after the entry \<open>f\<close> for inode \<open>num\<close> with content \<open>x\<close> was added to directory \<open>n\<close>: node \<open>p\<close> holds the
  directory, whose inode is now \<open>i\<close>, node \<open>q\<close> the new inode.
\<close>

definition regrown :: "iNode \<Rightarrow> iNode \<Rightarrow> bool" where
  "regrown x y \<longleftrightarrow> (\<exists>sz t ns. y = x\<lparr> di_size := sz, di_modification := t, di_dataBlockNums := ns \<rparr>)"

lemma regrownD:
  assumes "regrown x y"
  shows "di_linksCount y = di_linksCount x" "di_type y = di_type x" "di_file_mode y = di_file_mode x"
    "di_owner_uid y = di_owner_uid x" "di_group_uid y = di_group_uid x"
  using assms by (auto simp: regrown_def)

lemma resized_view:
  assumes "resized i i'"
  shows "\<exists>t ns. getDiskINodeData i' = (getDiskINodeData i)\<lparr> di_size := isize i', di_modification := t, di_dataBlockNums := ns \<rparr>"
  by (subst assms [unfolded resized_def]) (simp add: getDiskINodeData_def)

definition inode_blocks :: "iNode \<Rightarrow> size_t set" where
  "inode_blocks x = file_blocks (insertDiskInodeData x zero_inCore)"

lemma inode_blocks_view: "inode_blocks (inode_view s n) = file_blocks (dir_view s n)"
  by (simp add: inode_blocks_def dir_view_def)

lemma inode_blocks_core: "wf_inCore i \<Longrightarrow> inode_blocks (getDiskINodeData i) = file_blocks i"
  unfolding inode_blocks_def by (rule same_contents(5)) (simp_all add: incore_fields)

lemma inode_blocks_links [simp]: "inode_blocks (x\<lparr> di_linksCount := l \<rparr>) = inode_blocks x"
  unfolding inode_blocks_def by (rule same_contents(5)) (simp_all add: insertDiskInodeData_def)

lemma inode_blocks_empty: "di_size x = 0 \<Longrightarrow> inode_blocks x = {}"
  by (simp add: inode_blocks_def file_blocks_def insertDiskInodeData_def blocks_for_def)

definition entry_made ::
    "fs \<Rightarrow> size_t list \<Rightarrow> size_t \<Rightarrow> cstring \<Rightarrow> size_t \<Rightarrow> iNode \<Rightarrow> fs \<Rightarrow> nat \<Rightarrow> nat \<Rightarrow> inCoreiNode \<Rightarrow> size_t list \<Rightarrow> bool" where
  "entry_made s fs0 n f num x s' p q i fs \<longleftrightarrow> well s' \<and> holds s' p n \<and> holds s' q num \<and> n < NUM_OF_INODES \<and>
     num < NUM_OF_INODES \<and> fileTable s' = fileTable s \<and>
     (\<forall>k < NUM_OF_INODES. inode_view s' k =
        (if k = n then getDiskINodeData i else if k = num then x else inode_view s k)) \<and>
     (\<forall>k. refs s' k = (if k = n then refs s n + 1 else if k = num then 1 else refs s k)) \<and>
     (\<forall>k < NUM_OF_INODES. k \<noteq> n \<longrightarrow> k \<noteq> num \<longrightarrow> pending s' k \<longrightarrow> di_linksCount (inode_view s k) \<noteq> 0) \<and> pinned s s' \<and>
     wf_inCore i \<and> regrown (inode_view s n) (getDiskINodeData i) \<and> direct i (disk s') fs \<and> good_dir i (disk s') \<and>
     dir_entries i (disk s') = dir_entries (dir_view s n) (disk s) @ [(Some f, num)] \<and>
     frames (disk s) fs0 (file_blocks (dir_view s n)) (disk s') fs \<and> set fs \<subseteq> set fs0 \<and>
     file_blocks i \<subseteq> file_blocks (dir_view s n) \<union> set fs0 \<and>
     set fs0 \<union> file_blocks (dir_view s n) \<subseteq> set fs \<union> file_blocks i \<union> inode_blocks x"

lemma room_after_held:
  assumes w: "well s" "well s'" and r: "\<And>k. refs s' k = (if k = n then refs s n + 1 else refs s k)"
    and two: "2 \<le> card (free_nodes s)"
  shows "free_nodes s' \<noteq> {}"
proof -
  have "{k. refs s' k \<noteq> 0} \<subseteq> insert n {k. refs s k \<noteq> 0}" using r by auto
  then have "card {k. refs s' k \<noteq> 0} \<le> card (insert n {k. refs s k \<noteq> 0})" by (intro card_mono) simp_all
  then show ?thesis using card_free_nodes [OF w(1)] card_free_nodes [OF w(2)] two by (auto simp: card_insert_if split: if_splits)
qed

lemma create_entry:
  assumes can: "can_create s dir f n num nums fs" and t: "t = T_REGULAR \<or> t = T_DIRECTORY"
  shows "\<exists>p s1 d s3 q s4 i' fs'. validateThenGetParentINode m t (SLASH # dir @ f) s = Some (Some p, f, s1) \<and>
    getNewINode t mode u g (disk s1) = Some (num, d) \<and>
    getAndUpdateDirectoryTable m p num f (s1\<lparr> disk := d \<rparr>) = Some (None, s3) \<and>
    iget num 0 s3 = Some (Some q, s4) \<and>
    entry_made s fs n f num (assigned t mode u g (disk s) (inode_view s num)) s4 p q i' fs' \<and> inode_stack (disk s4) nums \<and>
    length fs \<le> Suc (length fs')"
proof -
  note c = can [unfolded can_create_def]
  obtain p s1 where v: "validateThenGetParentINode m t (SLASH # dir @ f) s = Some (Some p, f, s1)"
    and held: "held s s1 p n" and rep: "direct (core s1 p) (disk s) fs" and fits: "append_fits (core s1 p) fs 64"
    and dir: "good_dir (core s1 p) (disk s)"
    and ents: "dir_entries (core s1 p) (disk s) = dir_entries (dir_view s n) (disk s)"
    by (rule parent_found [OF can t])
  note H = heldD [OF held]
  have idle: "idle s s" using c by (simp add: good_path_def)
  have num1: "refs s1 num = 0" "di_linksCount (inode_at (disk s1) num) = 0"
    using c H(3) H(7) [of num] unreferenced(2) [OF idleD(1) [OF idle]] by auto
  have stk1: "inode_stack (disk s1) (num # nums)" "nums \<noteq> []" using c H(3) by auto
  obtain d where g: "getNewINode t mode u g (disk s1) = Some (num, d)"
    and ms: "meta_step (disk s1) d" and stk: "inode_stack d nums" and w2: "well (s1\<lparr> disk := d \<rparr>)" and num: "num < NUM_OF_INODES"
    and view2: "\<And>m. m < NUM_OF_INODES \<Longrightarrow> inode_view (s1\<lparr> disk := d \<rparr>) m =
      (if m = num then assigned t mode u g (disk s1) (inode_view s1 num) else inode_view s1 m)"
    using new_inode_step [OF H(1) stk1 num1, of t mode u g] by metis
  let ?s2 = "s1\<lparr> disk := d \<rparr>"
  have h2: "holds ?s2 p n" using H(2) by simp
  note md = meta_step_direct [OF ms rep [folded H(3)]]
  have dir2: "good_dir (core ?s2 p) (disk ?s2)" using good_dir_meta [OF ms rep [folded H(3)]] dir by (simp add: H(3))
  obtain i' d3 fs' s3 where s3: "s3 = upd_core p (\<lambda>_. i') (?s2\<lparr> disk := d3 \<rparr>)"
    and a: "getAndUpdateDirectoryTable m p num f ?s2 = Some (None, s3)"
    and app: "appended (core ?s2 p) d fs (entry_bytes m f num) i' d3 fs'"
    and t3: "touches ?s2 n (refs ?s2 n) (getDiskINodeData i') s3" and h3: "holds s3 p n" and wf: "wf_inCore i'"
    using add_entry_step [OF w2 h2 _ _ dir2, of fs m num f] md(1) fits by auto
  note T3 = touchesD [OF t3]
  have disk3: "disk s3 = d3" using s3 by simp
  have stk3: "inode_stack (disk s3) nums"
    using data_step_stack [OF appended_data_step(1) [OF app] well_meta_ok [OF w2, simplified] stk] disk3 by simp
  have "num mod 65536 = num" using num by (simp add: word_unat_eq_iff unat_mod_distrib word_less_nat_alt)
  then have e: "dir_entries i' (disk s3) = dir_entries (dir_view s n) (disk s) @ [(Some f, num)]" "good_dir i' (disk s3)"
    using appended_entries [OF app] dir2 c ents md(2) disk3 by (auto simp: dir_entries_def H(3))
  have view: "inode_view s3 k = (if k = n then getDiskINodeData i'
      else if k = num then assigned t mode u g (disk s) (inode_view s num) else inode_view s k)" if "k < NUM_OF_INODES" for k
    using T3(3) [OF that] view2 [OF that] H(3,6) that num by auto
  have pend: "di_linksCount (inode_view s k) \<noteq> 0" if "k < NUM_OF_INODES" "k \<noteq> n" "pending s3 k" for k
    using T3(7) H(8) [OF that(1)] H(6) that by auto
  have app': "direct i' (disk s3) fs'" "regrown (inode_view s n) (getDiskINodeData i')"
    using app disk3 resized_view [of "core s1 p" i'] held_data [OF held] by (auto simp: appended_def regrown_def)
  have vb: "file_blocks (dir_view s n) = file_blocks (core s1 p)"
    using view_contents(5) [OF held_data [OF held]] held_unlocked [OF held] by simp
  obtain new where "fs = new @ fs'" "file_blocks i' = file_blocks (dir_view s n) \<union> set new"
    using app unfolding vb appended_def by auto
  then have blocks: "set fs' \<subseteq> set fs" "file_blocks i' \<subseteq> file_blocks (dir_view s n) \<union> set fs"
    "set fs \<union> file_blocks (dir_view s n) \<subseteq> set fs' \<union> file_blocks i'"
    by auto
  have frames: "frames (disk s) fs (file_blocks (dir_view s n)) (disk s3) fs'"
    using frames_trans [OF frames_meta [OF ms, of fs "{}"] frames_appended [OF app]] unfolding vb disk3 H(3) by simp
  have refs3: "refs s3 k = (if k = n then refs s n + 1 else refs s k)" for k using T3(4) H(7) by simp
  have num3: "refs s3 num = 0" using refs3 c by simp
  have "free_nodes s3 \<noteq> {}" by (rule room_after_held [OF idleD(1) [OF idle] T3(1) refs3]) (use c in simp)
  then obtain q s4 where g4: "iget num 0 s3 = Some (Some q, s4)"
    and t4: "touches s3 num 1 (inode_view s3 num) s4" and h4: "holds s4 q num" and d4: "disk s4 = disk s3"
    using iget_touches [OF T3(1) num] num3 unreferenced(1) [OF T3(1) num3] by auto
  note T4 = touchesD [OF t4]
  have hp: "holds s4 p n" using T4(5) h3 c by auto
  have p2: "pinned s ?s2" using H(10) by (simp add: pinned_def)
  have "pinned s s3" by (rule pinned_touches [OF p2 t3]) (use h2 h3 in blast)
  then have pin: "pinned s s4" by (rule pinned_touches [OF _ t4]) (use c in blast)
  from hp have "entry_made s fs n f num (assigned t mode u g (disk s) (inode_view s num)) s4 p q i' fs'"
    unfolding entry_made_def using T4(1-4,7) T3(2) h4 d4 H(4,5) num view pend refs3 wf app' e c blocks frames pin by auto
  moreover have "length fs \<le> Suc (length fs')" by (rule appended_one_block [OF app]) simp
  ultimately show ?thesis using v g a g4 stk3 d4 by auto
qed

text \<open>Giving back two inodes.\<close>

lemma inode_stack_put_inode:
  assumes "meta_ok d" and "n < NUM_OF_INODES" and "wf_iNode i" and "inode_stack d xs"
  shows "inode_stack (put_inode n i d) xs"
proof -
  have "INODE_LIST_BLOCK \<noteq> iblk n" using iblk_range(2) [OF assms(2)] by auto
  then have "read_block INODE_LIST_BLOCK (put_inode n i d) = read_block INODE_LIST_BLOCK d"
    using read_block_put_inode [OF assms(1-3) meta_okD(4) [OF assms(1)]] by simp
  then show ?thesis using assms(4) by (simp add: inode_stack_def)
qed

lemma iput_meta:
  assumes w: "well s" and h: "holds s p n" and keep: "keeps s n"
  obtains s' where "iput p s = Some (0, s')" and "touches s n (refs s n - 1) (inode_view s n) s'"
    and "pending s' n = (pending s n \<and> refs s n \<noteq> 1)" and "refs s n \<noteq> 1 \<longrightarrow> holds s' p n"
    and "meta_step (disk s) (disk s')" and "\<And>xs. inode_stack (disk s) xs \<Longrightarrow> inode_stack (disk s') xs"
proof -
  obtain s' where s': "iput p s = Some (0, s')" "touches s n (refs s n - 1) (inode_view s n) s'"
    "pending s' n = (pending s n \<and> refs s n \<noteq> 1)" "refs s n \<noteq> 1 \<longrightarrow> holds s' p n"
    and d: "disk s' = (if refs s n = 1 \<and> pending s n then put_inode n (inode_view s n) (disk s) else disk s)"
    using iput_touches [OF assms] by blast
  have n: "n < NUM_OF_INODES" and wf: "wf_iNode (inode_view s n)" using holdsE [OF w h] wf_getDiskINodeData by metis+
  note ok = well_meta_ok [OF w]
  show thesis
    by (rule that [OF s']) (use d meta_step_put_inode [OF ok n wf] inode_stack_put_inode [OF ok n wf] meta_step_refl [OF meta_okD(1) [OF ok]] in simp_all)
qed

text \<open>Giving back the last inode an operation holds, possibly changed.\<close>

lemma put_idle:
  assumes idle: "idle s0 s0" and w: "well s" and h: "holds s p n" and pin: "pinned s0 s"
    and r: "\<And>k. refs s k = (if k = n then refs s0 n + 1 else refs s0 k)"
    and links: "di_linksCount (inode_view s n) \<noteq> 0 \<or> n = 0 \<and> refs s0 n = 0"
    and pend: "\<And>k. k < NUM_OF_INODES \<Longrightarrow> k \<noteq> n \<Longrightarrow> pending s k \<Longrightarrow> di_linksCount (inode_view s k) \<noteq> 0"
  obtains s' where "iput p s = Some (0, s')" and "idle s' s'" and "pinned s0 s'" and "\<And>k. refs s' k = refs s0 k"
    and "fileTable s' = fileTable s" and "\<And>k. k < NUM_OF_INODES \<Longrightarrow> inode_view s' k = inode_view s k"
    and "meta_step (disk s) (disk s')" and "\<And>xs. inode_stack (disk s) xs \<Longrightarrow> inode_stack (disk s') xs"
proof -
  have "keeps s n" using links by (auto simp: keeps_def)
  then obtain s' where s': "iput p s = Some (0, s')" "touches s n (refs s n - 1) (inode_view s n) s'"
    "pending s' n = (pending s n \<and> refs s n \<noteq> 1)" and hk: "refs s n \<noteq> 1 \<longrightarrow> holds s' p n"
    and m: "meta_step (disk s) (disk s')" "\<And>xs. inode_stack (disk s) xs \<Longrightarrow> inode_stack (disk s') xs"
    using iput_meta [OF w h] by blast
  note T = touchesD [OF s'(2)]
  have refs: "refs s' k = refs s0 k" for k using T(4) r by simp
  have view: "inode_view s' k = inode_view s k" if "k < NUM_OF_INODES" for k using T(3) [OF that] by simp
  have "di_linksCount (inode_view s' k) \<noteq> 0" if k: "k < NUM_OF_INODES" "pending s' k" for k
  proof (cases "k = n")
    case True
    then have "refs s0 n \<noteq> 0" using k(2) s'(3) r by auto
    then show ?thesis using True links view [OF k(1)] by simp
  qed (use k T(7) pend view in auto)
  moreover have "free_nodes s' \<noteq> {}"
    using same_room [OF idleD(1) [OF idle] T(1) refs] idleD(3) [OF idle] finite_free_nodes by (metis card.empty card_0_eq)
  ultimately have id: "idle s' s'" using idleI [OF T(1)] refs idleD(2) [OF idle] by simp
  have "holds s p n \<and> holds s' p n \<or> refs s0 n = 0" using h hk r by auto
  from pinned_touches [OF pin s'(2) this] show thesis using that [OF s'(1) id _ refs T(2) view m] by blast
qed

lemma two_iputs:
  assumes w: "well s" and p: "holds s p n" "keeps s n" and q: "holds s q k" "keeps s k" and ne: "n \<noteq> k"
  shows "\<exists>s1 s2. iput p s = Some (0, s1) \<and> iput q s1 = Some (0, s2) \<and> well s2 \<and>
    (\<forall>m < NUM_OF_INODES. inode_view s2 m = inode_view s m) \<and>
    (\<forall>m. refs s2 m = (if m = n \<or> m = k then refs s m - 1 else refs s m)) \<and> fileTable s2 = fileTable s \<and>
    (\<forall>m. pending s2 m \<longrightarrow> pending s m \<and> ((m = n \<or> m = k) \<longrightarrow> refs s m \<noteq> 1)) \<and> meta_step (disk s) (disk s2) \<and>
    (\<forall>xs. inode_stack (disk s) xs \<longrightarrow> inode_stack (disk s2) xs) \<and>
    (\<forall>r m. holds s r m \<longrightarrow> ((m = n \<or> m = k) \<longrightarrow> refs s m \<noteq> 1) \<longrightarrow> holds s2 r m)"
proof -
  have n: "n < NUM_OF_INODES" "k < NUM_OF_INODES" using holdsE [OF w p(1)] holdsE [OF w q(1)] by metis+
  obtain s1 where s1: "iput p s = Some (0, s1)" "touches s n (refs s n - 1) (inode_view s n) s1"
    "pending s1 n = (pending s n \<and> refs s n \<noteq> 1)" and h1: "refs s n \<noteq> 1 \<longrightarrow> holds s1 p n"
    and m1: "meta_step (disk s) (disk s1)" "\<And>xs. inode_stack (disk s) xs \<Longrightarrow> inode_stack (disk s1) xs"
    using iput_meta [OF w p] by blast
  note T1 = touchesD [OF s1(2)]
  have q1: "holds s1 q k" "keeps s1 k" using q T1(5) ne T1(3) n by (auto simp: keeps_def)
  obtain s2 where s2: "iput q s1 = Some (0, s2)" "touches s1 k (refs s1 k - 1) (inode_view s1 k) s2"
    "pending s2 k = (pending s1 k \<and> refs s1 k \<noteq> 1)" and h2: "refs s1 k \<noteq> 1 \<longrightarrow> holds s2 q k"
    and m2: "meta_step (disk s1) (disk s2)" "\<And>xs. inode_stack (disk s1) xs \<Longrightarrow> inode_stack (disk s2) xs"
    using iput_meta [OF T1(1) q1] by blast
  note T2 = touchesD [OF s2(2)]
  have "meta_step (disk s) (disk s2)" by (rule meta_step_trans [OF m1(1) m2(1)])
  moreover have "pending s2 m \<longrightarrow> pending s m \<and> ((m = n \<or> m = k) \<longrightarrow> refs s m \<noteq> 1)" for m
    using s1(3) s2(3) T1(4,7) T2(7) ne by (cases "m = k"; cases "m = n") auto
  moreover have "inode_stack (disk s) xs \<Longrightarrow> inode_stack (disk s2) xs" for xs using m1(2) m2(2) by blast
  moreover have "holds s2 r m" if r: "holds s r m" "m = n \<or> m = k \<Longrightarrow> refs s m \<noteq> 1" for r m
  proof -
    have "refs s1 k = refs s k" using T1(4) ne by simp
    moreover have "m = n \<Longrightarrow> r = p" "m = k \<Longrightarrow> r = q" using r(1) p(1) q(1) holds_unique by blast+
    ultimately show ?thesis using r h1 h2 T1(5) T2(5) ne by metis
  qed
  ultimately show ?thesis
    using s1(1) s2(1) T1(2-4) T2(1-4) ne n by (intro exI [of _ s1] exI [of _ s2]) auto
qed

text \<open>What remains true of the directory when only metadata is written afterwards.\<close>

lemma dir_after_meta:
  assumes "meta_step d d'" and "direct i d fs" and "good_dir i d" and "inode_view s n = getDiskINodeData i" and "wf_inCore i"
  shows "direct (dir_view s n) d' fs" and "good_dir (dir_view s n) d'" and "dir_entries (dir_view s n) d' = dir_entries i d"
    and "file_blocks (dir_view s n) = file_blocks i"
proof -
  note md = meta_step_direct [OF assms(1,2)] and vc = view_contents [OF assms(4,5)]
  show "direct (dir_view s n) d' fs" "dir_entries (dir_view s n) d' = dir_entries i d" "file_blocks (dir_view s n) = file_blocks i"
    using md by (simp_all add: vc dir_entries_def)
  show "good_dir (dir_view s n) d'" unfolding vc(6) by (rule good_dir_meta [OF assms(1-3)])
qed

text \<open>
  The result of \<open>createFile\<close>: inode \<open>num\<close> has content \<open>x\<close> and is the last entry of directory \<open>n\<close>; all other inodes,
  all references and the table of open files are as before.
\<close>

definition created :: "fs \<Rightarrow> size_t list \<Rightarrow> size_t \<Rightarrow> cstring \<Rightarrow> size_t \<Rightarrow> iNode \<Rightarrow> fs \<Rightarrow> size_t list \<Rightarrow> bool" where
  "created s fs0 n f num x s' fs \<longleftrightarrow> idle s' s' \<and> fileTable s' = fileTable s \<and> pinned s s' \<and> (\<forall>k. refs s' k = refs s k) \<and>
     inode_view s' num = x \<and> (\<forall>k < NUM_OF_INODES. k \<noteq> n \<longrightarrow> k \<noteq> num \<longrightarrow> inode_view s' k = inode_view s k) \<and>
     regrown (inode_view s n) (inode_view s' n) \<and> direct (dir_view s' n) (disk s') fs \<and> good_dir (dir_view s' n) (disk s') \<and>
     dir_entries (dir_view s' n) (disk s') = dir_entries (dir_view s n) (disk s) @ [(Some f, num)] \<and>
     frames (disk s) fs0 (file_blocks (dir_view s n)) (disk s') fs \<and> set fs \<subseteq> set fs0 \<and>
     file_blocks (dir_view s' n) \<subseteq> file_blocks (dir_view s n) \<union> set fs0 \<and>
     set fs0 \<union> file_blocks (dir_view s n) \<subseteq> set fs \<union> file_blocks (dir_view s' n) \<union> inode_blocks x"

lemma idle_after_iputs:
  assumes s: "idle s s" "changeable s n" "n \<noteq> num" and em: "entry_made s fs0 n f num x s5 p q i fs" and x: "di_linksCount x \<noteq> 0"
    and w: "well s7" and view: "\<forall>m < NUM_OF_INODES. inode_view s7 m = inode_view s5 m" and r: "\<And>k. refs s7 k = refs s k"
    and pe: "\<forall>m. pending s7 m \<longrightarrow> pending s5 m \<and> ((m = n \<or> m = num) \<longrightarrow> refs s5 m \<noteq> 1)"
  shows "idle s7 s7"
proof (rule idleI [OF w])
  note e = em [unfolded entry_made_def] and rg = regrownD(1) [of "inode_view s n" "getDiskINodeData i"]
  fix k :: size_t assume k: "k < 65536" "pending s7 k"
  show "di_linksCount (inode_view s7 k) \<noteq> 0"
  proof (cases "k = n")
    case True
    then have "refs s n \<noteq> 0" using k(2) pe e by auto
    then show ?thesis using True s(2) e rg view by (auto simp: changeable_def)
  next
    case False
    then show ?thesis using k pe e view s(3) x by (cases "k = num") auto
  qed
next
  show "free_nodes s7 \<noteq> {}"
    using same_room [OF idleD(1) [OF s(1)] w r] idleD(3) [OF s(1)] finite_free_nodes by (metis card.empty card_0_eq)
qed (simp add: r idleD(2) [OF s(1)])

lemma entry_finish:
  assumes s: "idle s s" "changeable s n" "n \<noteq> num" and free: "refs s num = 0" and em: "entry_made s fs0 n f num x s5 p q i fs"
    and x: "di_linksCount x \<noteq> 0" and stk: "inode_stack (disk s5) nums"
  shows "\<exists>s6 s7. iput p s5 = Some (0, s6) \<and> iput q s6 = Some (0, s7) \<and> created s fs0 n f num x s7 fs \<and>
    meta_step (disk s5) (disk s7) \<and> inode_stack (disk s7) nums \<and> inode_view s7 n = getDiskINodeData i"
proof -
  note e = em [unfolded entry_made_def]
  have k: "keeps s5 n" "keeps s5 num"
    using s(2,3) e x regrownD(1) [of "inode_view s n" "getDiskINodeData i"] by (auto simp: keeps_def changeable_def)
  have h: "well s5" "holds s5 p n" "holds s5 q num" using e by auto
  obtain s6 s7 where s7: "iput p s5 = Some (0, s6)" "iput q s6 = Some (0, s7)" "well s7"
    and view: "\<forall>m < NUM_OF_INODES. inode_view s7 m = inode_view s5 m"
    and r: "\<forall>m. refs s7 m = (if m = n \<or> m = num then refs s5 m - 1 else refs s5 m)" and ft: "fileTable s7 = fileTable s5"
    and pe: "\<forall>m. pending s7 m \<longrightarrow> pending s5 m \<and> ((m = n \<or> m = num) \<longrightarrow> refs s5 m \<noteq> 1)"
    and ms: "meta_step (disk s5) (disk s7)" and stk7: "inode_stack (disk s7) nums"
    and hk: "\<forall>r m. holds s5 r m \<longrightarrow> ((m = n \<or> m = num) \<longrightarrow> refs s5 m \<noteq> 1) \<longrightarrow> holds s7 r m"
    using two_iputs [OF h(1,2) k(1) h(3) k(2) s(3)] stk by blast
  have refs: "refs s7 k = refs s k" for k using r e free by auto
  have id: "idle s7 s7" by (rule idle_after_iputs [OF s em x s7(3) view refs pe])
  have "holds s7 r m" if "holds s r m" for r m
  proof -
    have "refs s m \<noteq> 0" by (rule holds_refs_nonzero [OF that])
    then have "m \<noteq> num" "refs s5 n = refs s n + 1" using free e by auto
    moreover have "holds s5 r m" using that e by (simp add: pinned_def)
    ultimately show ?thesis using hk \<open>refs s m \<noteq> 0\<close> by auto
  qed
  then have pin: "pinned s s7" by (simp add: pinned_def)
  have vn: "inode_view s7 n = getDiskINodeData i" using view e by auto
  note da = dir_after_meta [OF ms _ _ vn]
  have "frames (disk s) fs0 (file_blocks (dir_view s n)) (disk s7) fs"
    using frames_trans [OF _ frames_meta [OF ms, of fs "{}"]] e by auto
  then have "created s fs0 n f num x s7 fs"
    unfolding created_def using id da [of fs] e view refs ft s(3) pin by auto
  then show ?thesis using s7(1,2) ms stk7 vn by blast
qed

lemma create_finish:
  assumes can: "can_create s dir f n num nums fs0" and em: "entry_made s fs0 n f num x s5 p q i fs"
    and x: "di_linksCount x \<noteq> 0" and stk: "inode_stack (disk s5) nums"
  shows "\<exists>s6 s7. iput p s5 = Some (0, s6) \<and> iput q s6 = Some (0, s7) \<and> created s fs0 n f num x s7 fs \<and>
    meta_step (disk s5) (disk s7) \<and> inode_stack (disk s7) nums \<and> inode_view s7 n = getDiskINodeData i"
  by (rule entry_finish [OF _ _ _ _ em x stk]) (use can in \<open>auto simp: can_create_def good_path_def\<close>)

text \<open>A step that concerns the new inode only.\<close>

lemma entry_made_step:
  assumes "entry_made s fs0 n f num x s4 p q i fs" and "n \<noteq> num" and "touches s4 num (refs s4 num) x' s5" and "holds s5 q num"
    and "direct i (disk s5) fs'" and "good_dir i (disk s5)" and "dir_entries i (disk s5) = dir_entries i (disk s4)"
    and "frames (disk s4) fs {} (disk s5) fs'" and "set fs' \<subseteq> set fs" and "set fs \<union> inode_blocks x \<subseteq> set fs' \<union> inode_blocks x'"
  shows "entry_made s fs0 n f num x' s5 p q i fs'"
proof -
  note T = touchesD [OF assms(3)]
  have "pinned s s4" "holds s4 q num" using assms(1) by (simp_all add: entry_made_def)
  then have "pinned s s5" using assms(4) T(5) holds_unique by (metis pinned_def)
  then show ?thesis
    using assms(1,2,4-7,9,10) T frames_trans [OF _ assms(8), of "disk s" fs0 "file_blocks (dir_view s n)"]
    unfolding entry_made_def by auto
qed

lemma createFile_regular:
  assumes can: "can_create s dir f n num nums fs"
  shows "\<exists>s' fs'. createFile m (SLASH # dir @ f) T_REGULAR mode ctx s = Some (0, s') \<and> inode_stack (disk s') nums \<and>
    created s fs n f num ((assigned T_REGULAR mode (ctx_uid ctx) (ctx_gid ctx) (disk s) (inode_view s num))\<lparr> di_linksCount := 1 \<rparr>) s' fs'"
proof -
  note c = can [unfolded can_create_def]
  let ?new = "assigned T_REGULAR mode (ctx_uid ctx) (ctx_gid ctx) (disk s) (inode_view s num)"
  obtain p s1 d s3 q s4 i' fs' where
    code: "validateThenGetParentINode m T_REGULAR (SLASH # dir @ f) s = Some (Some p, f, s1)"
      "getNewINode T_REGULAR mode (ctx_uid ctx) (ctx_gid ctx) (disk s1) = Some (num, d)"
      "getAndUpdateDirectoryTable m p num f (s1\<lparr> disk := d \<rparr>) = Some (None, s3)" "iget num 0 s3 = Some (Some q, s4)"
    and em: "entry_made s fs n f num ?new s4 p q i' fs'" and stk: "inode_stack (disk s4) nums"
    using create_entry [OF can, of T_REGULAR m mode "ctx_uid ctx" "ctx_gid ctx"] by blast
  note e = em [unfolded entry_made_def]
  have w4: "well s4" "holds s4 q num" using e by auto
  note l5 = links_step [OF w4, of 1]
  let ?s5 = "updateINodeMetadata_at q 0 1 s4" and ?x = "?new\<lparr> di_linksCount := 1 \<rparr>"
  have "inode_view s4 num = ?new" using e c by auto
  then have "entry_made s fs n f num ?x ?s5 p q i' fs'"
    using entry_made_step [OF em _ l5(1,2), of fs'] e c l5(4) frames_refl by auto
  then obtain s6 s7 where "iput p ?s5 = Some (0, s6)" "iput q s6 = Some (0, s7)" "created s fs n f num ?x s7 fs'"
      "inode_stack (disk s7) nums"
    using create_finish [OF can, of ?x ?s5 p q i' fs'] stk l5(4) by auto
  then show ?thesis using code by (auto simp: createFile_def Let_def)
qed

section \<open>New directories\<close>

lemma newdir_step:
  assumes w: "well s" and h: "holds s q n" and fl: "free_list (disk s) fs" "fs \<noteq> []" and sz: "di_size (inode_view s n) = 0"
  shows "\<exists>j d' fs' s'. updateNewDirMetaData m q par s = Some (None, s') \<and> disk s' = d' \<and>
    appended (core s q) (disk s) fs (entry_bytes m dot n @ entry_bytes m dotdot par) j d' fs' \<and>
    touches s n (refs s n) (getDiskINodeData (j\<lparr> linksCount := 2 \<rparr>)) s' \<and> holds s' q n"
proof -
  have c: "inode_number (core s q) = n" "wf_inCore (core s q)" "getDiskINodeData (core s q) = inode_view s n"
    using holdsE [OF w h] by metis+
  have "isize (core s q) = 0" using sz by (simp flip: c(3))
  then obtain j d' fs' where u: "updateNewDirMetaData m q par s =
      Some (None, upd_core q (\<lambda>_. j\<lparr> linksCount := 2 \<rparr>) (s\<lparr> disk := d' \<rparr>))" "dirty j"
    and app: "appended (core s q) (disk s) fs (entry_bytes m dot n @ entry_bytes m dotdot par) j d' fs'"
    using updateNewDirMetaData_ok [OF fl c(2), of m par] c(1) by blast
  have rs: "resized (core s q) j" and wf: "wf_inCore j" using app by (simp_all add: appended_def direct_def direct_file_def)
  show ?thesis
    using u app data_then_change(1,2) [OF w appended_data_step [OF app] h, of "j\<lparr> linksCount := 2 \<rparr>"]
      resizedD(1-3) [OF rs] c(1) wf by (auto simp: wf_inCore_def)
qed

lemma newdir_contents:
  assumes app: "appended i d fs (entry_bytes m dot n @ entry_bytes m dotdot par) j d' fs'" and sz: "isize i = 0"
    and nums: "n < NUM_OF_INODES" "par < NUM_OF_INODES" and mode: "file_mode i AND 0xF000 = S_IFDIR"
  shows "dir_entries (j\<lparr> linksCount := l \<rparr>) d' = [(Some dot, n), (Some dotdot, par)]"
    and "good_dir (j\<lparr> linksCount := l \<rparr>) d'" and "direct (j\<lparr> linksCount := l \<rparr>) d' fs'"
proof -
  let ?j = "j\<lparr> linksCount := l \<rparr>"
  note sc = same_contents [of ?j j]
  have small: "x mod 65536 = x" if "x < NUM_OF_INODES" for x :: size_t
    using that by (simp add: word_unat_eq_iff unat_mod_distrib word_less_nat_alt)
  have "file_bytes j d' = entry_bytes m dot n @ entry_bytes m dotdot par"
    using app sz by (simp add: appended_def file_bytes_def [of i])
  then have es: "dir_entries j d' = [(Some dot, n), (Some dotdot, par)]"
    using entries_entry_bytes [of dot m n] entries_entry_bytes [of dotdot m par] small nums
    by (simp add: dir_entries_def entries_append)
  then show "dir_entries ?j d' = [(Some dot, n), (Some dotdot, par)]" using sc by simp
  have dj: "direct j d' fs'" and rs: "resized i j" using app by (simp_all add: appended_def)
  then show "direct ?j d' fs'" using sc by simp
  have "validateSearch j \<noteq> - 1" using resizedD(6) [OF rs] mode by (simp add: validateSearch_iff)
  then have "good_dir j d'"
    using es direct_file_ok [OF dj [unfolded direct_def]] appended_size [OF app] sz by (simp add: good_dir_def)
  then show "good_dir ?j d'" using sc by simp
qed

lemma createFile_directory:
  assumes can: "can_create s dir f n num nums fs" and two: "2 \<le> length fs" and mode: "(S_IFDIR OR mode) AND 0xF000 = S_IFDIR"
  shows "\<exists>s' fs' x. createFile m (SLASH # dir @ f) T_DIRECTORY mode ctx s = Some (0, s') \<and> inode_stack (disk s') nums \<and>
    created s fs n f num x s' fs' \<and> di_type x = T_DIRECTORY \<and> di_file_mode x = S_IFDIR OR mode \<and>
    di_owner_uid x = ctx_uid ctx \<and> di_group_uid x = ctx_gid ctx \<and> di_linksCount x = 2 \<and> di_size x = 128 \<and>
    direct (dir_view s' num) (disk s') fs' \<and> good_dir (dir_view s' num) (disk s') \<and>
    dir_entries (dir_view s' num) (disk s') = [(Some dot, num), (Some dotdot, n)] \<and>
    file_blocks (dir_view s' num) \<subseteq> set fs \<and> file_blocks (dir_view s' num) \<inter> file_blocks (dir_view s' n) = {}"
proof -
  note c = can [unfolded can_create_def]
  let ?m = "S_IFDIR OR mode"
  let ?new = "assigned T_DIRECTORY ?m (ctx_uid ctx) (ctx_gid ctx) (disk s) (inode_view s num)"
  obtain p s1 d s3 q s4 i' fs' where
    code: "validateThenGetParentINode m T_DIRECTORY (SLASH # dir @ f) s = Some (Some p, f, s1)"
      "getNewINode T_DIRECTORY ?m (ctx_uid ctx) (ctx_gid ctx) (disk s1) = Some (num, d)"
      "getAndUpdateDirectoryTable m p num f (s1\<lparr> disk := d \<rparr>) = Some (None, s3)" "iget num 0 s3 = Some (Some q, s4)"
    and em: "entry_made s fs n f num ?new s4 p q i' fs'" and stk: "inode_stack (disk s4) nums" and len: "length fs \<le> Suc (length fs')"
    using create_entry [OF can, of T_DIRECTORY m ?m "ctx_uid ctx" "ctx_gid ctx"] by blast
  note e = em [unfolded entry_made_def]
  have w4: "well s4" "holds s4 q num" "holds s4 p n" and nums: "num < NUM_OF_INODES" "n < NUM_OF_INODES" using e by auto
  have v4: "inode_view s4 num = ?new" using e c by auto
  have cq: "getDiskINodeData (core s4 q) = ?new" "inode_number (core s4 p) = n"
    using holdsE [OF w4(1,2)] holdsE [OF w4(1,3)] v4 by metis+
  have fl: "free_list (disk s4) fs'" "fs' \<noteq> []" using e two len by (auto simp: direct_def direct_file_def)
  obtain j fs5 s5 where u: "updateNewDirMetaData m q n s4 = Some (None, s5)"
    and app: "appended (core s4 q) (disk s4) fs' (entry_bytes m dot num @ entry_bytes m dotdot n) j (disk s5) fs5"
    and t5: "touches s4 num (refs s4 num) (getDiskINodeData (j\<lparr> linksCount := 2 \<rparr>)) s5" and h5: "holds s5 q num"
    using newdir_step [OF w4(1,2) fl, of m n] v4 by (auto simp: assigned_def)
  let ?j = "j\<lparr> linksCount := 2 \<rparr>"
  have sz: "isize (core s4 q) = 0" and md: "file_mode (core s4 q) = ?m"
    using arg_cong [OF cq(1), of di_size] arg_cong [OF cq(1), of di_file_mode] by (simp_all add: assigned_def)
  note nc = newdir_contents [OF app sz nums, of 2, unfolded md, OF mode]
  have eb: "file_blocks (core s4 q) = {}" using sz by (simp add: file_blocks_def blocks_for_def)
  then have fr: "frames (disk s4) fs' {} (disk s5) fs5" using frames_appended [OF app] by simp
  from eb have par: "direct i' (disk s5) fs5" "file_bytes i' (disk s5) = file_bytes i' (disk s4)"
    using appended_other [OF app, of i'] e by auto
  have wj: "wf_inCore ?j" using app by (simp add: appended_def direct_def direct_file_def wf_inCore_def)
  have "set fs' \<union> inode_blocks ?new \<subseteq> set fs5 \<union> inode_blocks (getDiskINodeData ?j)"
    unfolding inode_blocks_core [OF wj] using app inode_blocks_empty [of ?new] by (auto simp: appended_def file_blocks_def assigned_def)
  then have em5: "entry_made s fs n f num (getDiskINodeData ?j) s5 p q i' fs5"
    using par entry_made_step [OF em _ t5 h5 par(1) _ _ fr] good_dir_frame [OF _ par] e c app by (auto simp: dir_entries_def appended_def)
  have stk5: "inode_stack (disk s5) nums"
    using data_step_stack [OF appended_data_step(1) [OF app] well_meta_ok [OF w4(1), simplified] stk] by simp
  obtain s6 s7 where s7: "iput p s5 = Some (0, s6)" "iput q s6 = Some (0, s7)"
    and cr: "created s fs n f num (getDiskINodeData ?j) s7 fs5" and ms: "meta_step (disk s5) (disk s7)"
    and stk7: "inode_stack (disk s7) nums" and s7view: "inode_view s7 n = getDiskINodeData i'"
    using create_finish [OF can em5 _ stk5] by auto
  have run: "createFile m (SLASH # dir @ f) T_DIRECTORY mode ctx s = Some (0, s7)"
    using code s7 u cq(2) by (simp add: createFile_def Let_def)
  have rs: "resized (core s4 q) j" using app by (simp add: appended_def)
  have "inode_view s7 num = getDiskINodeData ?j" using cr by (simp add: created_def)
  note db = dir_after_meta [OF ms nc(3,2) this wj]
  have attr: "itype j = T_DIRECTORY" "file_mode j = ?m" "owner_uid j = ctx_uid ctx" "group_uid j = ctx_gid ctx"
    using resizedD(5-8) [OF rs] arg_cong [OF cq(1), of di_type] arg_cong [OF cq(1), of di_file_mode]
      arg_cong [OF cq(1), of di_owner_uid] arg_cong [OF cq(1), of di_group_uid]
    by (simp_all add: assigned_def getDiskINodeData_def)
  have sz2: "isize j = 128" using appended_size [OF app] sz by (simp add: word_unat_eq_iff)
  have "file_blocks ?j \<subseteq> set fs'" using app eb by (auto simp: appended_def file_blocks_def)
  moreover have i': "wf_inCore i'" "set fs' \<subseteq> set fs" "direct i' (disk s4) fs'" using e by auto
  moreover have "file_blocks (dir_view s7 n) = file_blocks i'" by (rule view_contents(5) [OF s7view i'(1)])
  moreover have "x \<notin> set fs'" if "x \<in> file_blocks i'" for x by (rule direct_not_free(1) [OF i'(3) that])
  ultimately have "file_blocks (dir_view s7 num) \<subseteq> set fs" "file_blocks (dir_view s7 num) \<inter> file_blocks (dir_view s7 n) = {}"
    using db(4) by auto
  then show ?thesis
    using run stk7 cr db nc(1) attr sz2
    by (intro exI [of _ s7] exI [of _ fs5] exI [of _ "getDiskINodeData ?j"]) (simp add: getDiskINodeData_def)
qed

section \<open>Looking up a new name\<close>

lemma lookup_name_entries:
  assumes "good_dir (dir_view s n) (disk s)"
  shows "lookup_name s n c = lookup_entry (dir_entries (dir_view s n) (disk s)) c"
  using find_entry [OF assms, of c] by (simp add: lookup_name_def Let_def)

lemma created_lookup:
  assumes "can_create s dir f n num nums fs" and "created s fs n f num x s' fs'"
  shows "lookup_name s' n f = Some num"
  using assms lookup_name_entries [of s' n f]
  by (simp add: created_def can_create_def lookup_entry_append) (simp add: lookup_entry_def)

text \<open>A new file system can create files in its root.\<close>

lemma new_file_system:
  assumes "SLASH \<notin> set f" and "f \<noteq> []" and "length f < FILENAME_SIZE" and "0 \<notin> set f"
  obtains s nums fs where "can_create s [] f 0 1 nums fs" and "2 \<le> length fs" and "\<And>c. lookup_name s 0 c = None"
proof -
  let ?host = "[''d'' \<mapsto> replicate (31457280 * BLOCK_SIZE) (0 :: byte)]" and ?fs = "block_range 16388 31457280"
  obtain s x where s: "idle s s" "\<forall>n. refs s n = 0" "card (free_nodes s) = 32" "free_list (disk s) ?fs"
    "inode_stack (disk s) first_inodes" "\<forall>n < NUM_OF_INODES. inode_view s n = fresh_inode x n"
    using mount_device [of ?host "''d''" "replicate (31457280 * BLOCK_SIZE) 0" "replicate BLOCK_SIZE 0" "''''" "''''" 0 "[]" 0 0] by auto
  have root: "di_size (inode_view s 0) = 0" "di_file_mode (inode_view s 0) = root_mode"
    "di_linksCount (inode_view s 1) = 0"
    using s(6) by (simp_all add: fresh_inode_def root_inode_def initializeINode_def zero_iNode_def)
  have wf: "wf_inCore (dir_view s 0)" by (simp add: dir_view_def insertDiskInodeData_def wf_inCore_def)
  have mode: "file_mode (dir_view s 0) = root_mode" using root by (simp add: dir_view_def insertDiskInodeData_def)
  have es: "dir_entries (dir_view s 0) (disk s) = []" using root by (simp add: dir_entries_def entries_def)
  have gd: "good_dir (dir_view s 0) (disk s)"
    using es root mode by (simp add: good_dir_def file_ok_def validateSearch_iff root_mode_def)
  have len: "length ?fs = 31457280 - 16388" by (simp only: block_range_def length_map length_upt)
  have "direct (dir_view s 0) (disk s) ?fs" "append_fits (dir_view s 0) ?fs 64"
    using wf s(4) root len by (simp_all add: direct_def direct_file_def append_fits_def blocks_for_def)
  moreover have "first_inodes = 1 # map (\<lambda>k. word_of_nat k + 1) [1..<512]"
    using upt_conv_Cons [of 0 "512::nat"] by (simp add: first_inodes_def del: upt_rec_numeral upt_conv_Cons)
  moreover have "map (\<lambda>k. word_of_nat k + 1 :: size_t) [1..<512] \<noteq> []" by (simp del: upt_rec_numeral)
  ultimately have "can_create s [] f 0 1 (map (\<lambda>k. word_of_nat k + 1) [1..<512]) ?fs"
    using assms s root gd es
    by (auto simp: can_create_def in_dir_def good_path_def changeable_def lookup_entry_def simp del: upt_rec_numeral)
  moreover have "lookup_name s 0 c = None" for c using lookup_name_entries [OF gd] es by (simp add: lookup_entry_def)
  moreover have "2 \<le> length ?fs" using len by simp
  ultimately show thesis using that by blast
qed

section \<open>Properties\<close>

text \<open>
  C10. \<open>createFile\<close> of a regular file in a directory that is in order takes the first free inode, gives it type, mode, owner,
  size 0 and one link, and appends its entry to the directory; other inodes, the contents of all files with other
  blocks, all reference counts and open files are as before, the free list of inodes has lost the number and the state is again one in which every
  operation can run.
\<close>

theorem create_file:
  assumes "can_create s dir f n num nums fs"
  shows "\<exists>s' fs'. createFile m (SLASH # dir @ f) T_REGULAR mode ctx s = Some (0, s') \<and> inode_stack (disk s') nums \<and>
    created s fs n f num ((inode_view s num)\<lparr> di_status_change := clock (disk s), di_type := T_REGULAR, di_file_mode := mode,
      di_owner_uid := ctx_uid ctx, di_group_uid := ctx_gid ctx, di_size := 0, di_linksCount := 1 \<rparr>) s' fs' \<and>
    lookup_name s' n f = Some num"
proof -
  obtain s' fs' where s': "createFile m (SLASH # dir @ f) T_REGULAR mode ctx s = Some (0, s')" "inode_stack (disk s') nums"
    "created s fs n f num ((assigned T_REGULAR mode (ctx_uid ctx) (ctx_gid ctx) (disk s) (inode_view s num))\<lparr> di_linksCount := 1 \<rparr>) s' fs'"
    using createFile_regular [OF assms, of m mode ctx] by blast
  moreover have "lookup_name s' n f = Some num" by (rule created_lookup [OF assms s'(3)])
  ultimately show ?thesis by (auto simp: assigned_def)
qed

theorem create_file_witness:
  "\<exists>s s'. lookup_name s 0 [97] = None \<and>
     createFile sample_env [47, 97] T_REGULAR 0x1A4 \<lparr> ctx_uid = 5, ctx_gid = 6, ctx_pid = 1 \<rparr> s = Some (0, s') \<and>
     lookup_name s' 0 [97] = Some 1 \<and> di_owner_uid (inode_view s' 1) = 5"
proof -
  obtain s nums fs where s: "can_create s [] [97] 0 1 nums fs" "2 \<le> length fs" "\<And>c. lookup_name s 0 c = None"
    using new_file_system [of "[97]"] by auto
  then show ?thesis
    using create_file [OF s(1), of sample_env "0x1A4" "\<lparr> ctx_uid = 5, ctx_gid = 6, ctx_pid = 1 \<rparr>"]
    by - (rule exI [of _ s], auto simp: created_def)
qed

text \<open>
  C11. \<open>createFile\<close> of a directory in addition gives the new inode a block with the two entries for itself and its parent and
  two links; both directories are in order, each with blocks of its own.
\<close>

theorem create_directory:
  assumes "can_create s dir f n num nums fs" and "2 \<le> length fs" and "(S_IFDIR OR mode) AND 0xF000 = S_IFDIR"
  shows "\<exists>s' fs' x. createFile m (SLASH # dir @ f) T_DIRECTORY mode ctx s = Some (0, s') \<and> inode_stack (disk s') nums \<and>
    created s fs n f num x s' fs' \<and> di_type x = T_DIRECTORY \<and> di_file_mode x = S_IFDIR OR mode \<and>
    di_owner_uid x = ctx_uid ctx \<and> di_group_uid x = ctx_gid ctx \<and> di_linksCount x = 2 \<and> di_size x = 128 \<and>
    direct (dir_view s' num) (disk s') fs' \<and> good_dir (dir_view s' num) (disk s') \<and>
    dir_entries (dir_view s' num) (disk s') = [(Some dot, num), (Some dotdot, n)] \<and>
    file_blocks (dir_view s' num) \<subseteq> set fs \<and> file_blocks (dir_view s' num) \<inter> file_blocks (dir_view s' n) = {}"
  by (rule createFile_directory [OF assms])

theorem create_directory_witness:
  "\<exists>s s'. createFile sample_env [47, 100] T_DIRECTORY 0x1ED \<lparr> ctx_uid = 5, ctx_gid = 6, ctx_pid = 1 \<rparr> s = Some (0, s') \<and>
     dir_entries (dir_view s' 1) (disk s') = [(Some [46], 1), (Some [46, 46], 0)]"
proof -
  obtain s nums fs where s: "can_create s [] [100] 0 1 nums fs" "2 \<le> length fs" and "\<And>c. lookup_name s 0 c = None"
    using new_file_system [of "[100]"] by auto
  have "(S_IFDIR OR 0x1ED) AND 0xF000 = (S_IFDIR :: mode_t)" by simp
  then show ?thesis
    using create_directory [OF s, of "0x1ED" sample_env "\<lparr> ctx_uid = 5, ctx_gid = 6, ctx_pid = 1 \<rparr>"]
    by - (rule exI [of _ s], auto)
qed

text \<open>
  C12. Formatting a device with the program \<open>mkfs\<close> and starting the file system on it in a later process gives a running
  file system: cache and file table empty, all data blocks free, inodes 1 to 512 listed as free, the root in
  place and every inode as \<open>mkfs\<close> wrote it.
\<close>

theorem mkfs_mount:
  assumes "host dn = Some content" and "31457280 * BLOCK_SIZE \<le> length content" and "length junk = BLOCK_SIZE"
    and "length dn < 20" and "take 6 prog' \<noteq> ''fsname''"
  shows "\<exists>d s x. exec_mkfs_main junk [prog, dn] (static_dsk host now) = Some (0, d) \<and>
    main_init junk' k [prog', ''fsname='' @ dn] (static_fs (host(dn \<mapsto> device d)) now') = Some (True, s) \<and>
    idle s s \<and> (\<forall>n. refs s n = 0) \<and> card (free_nodes s) = 32 \<and>
    free_list (disk s) (block_range 16388 31457280) \<and> inode_stack (disk s) first_inodes \<and>
    (\<forall>n < NUM_OF_INODES. inode_view s n = fresh_inode x n) \<and> wf_table (fileTable s) \<and> (\<forall>e \<in> set (fileTable s). \<not> validEntry e)"
  by (rule mount_device [of host dn, OF assms])

theorem mkfs_mount_witness:
  "\<exists>host d s. exec_mkfs_main (replicate BLOCK_SIZE 0) [''mkfs'', ''/dev/sdb''] (static_dsk host 0) = Some (0, d) \<and>
     main_init [] 0 [''naofs'', ''fsname=/dev/sdb''] (static_fs (host(''/dev/sdb'' \<mapsto> device d)) 9) = Some (True, s) \<and> idle s s"
proof -
  let ?host = "[''/dev/sdb'' \<mapsto> replicate (31457280 * BLOCK_SIZE) (0 :: byte)]"
  show ?thesis
    using mkfs_mount [of ?host "''/dev/sdb''" "replicate (31457280 * BLOCK_SIZE) 0" "replicate BLOCK_SIZE 0" "''naofs''" "''mkfs''" 0 "[]" 0 9]
    by - (rule exI [of _ ?host], auto)
qed

end
