(* ===== verification/Truncate.thy ===== *)
theory Truncate
  imports Create
begin

text \<open>
  What \<open>truncateINode\<close> and \<open>truncateFile\<close> of \<open>src/interface/truncate.c\<close> do to the bytes of a file in direct blocks:
  a longer file ends in zeros, a shorter one is a prefix and the blocks behind its end are free again.
\<close>

section \<open>Growing\<close>

lemma writeNullBytes_ok:
  assumes "read_block n d = Some b" and "unat off + unat c \<le> BLOCK_SIZE"
  shows "writeNullBytes n off c d = Some (put_block n (memcpy_at (unat off) (replicate (unat c) 0) b) d)"
  using assms by (simp add: writeNullBytes_def memset_at_def)

lemma increase_step:
  assumes rep: "direct i d fs" and w: "w < sz" "sz \<le> 10240" and fits: "append_fits i fs (sz - w)"
  obtains c i' d' fs' resp' where "0 < c" and "c \<le> sz - w" and "appended i d fs (replicate c 0) i' d' fs'" and "dirty i'"
    and "increase_loop (of_nat sz) (of_nat w) (isize i) resp i d =
      increase_loop (of_nat sz) (of_nat (w + c)) (isize i') resp' i' d'"
proof -
  define m where "m = unat (isize i)"
  have isz: "isize i = of_nat m" by (simp add: m_def)
  have m10: "m < 10240" using fits w(1) unfolding append_fits_def m_def by linarith
  define c where "c = min (1024 - m mod 1024) (sz - w)"
  let ?c = "replicate c 0 :: byte list"
  have c0: "0 < c" "c \<le> sz - w" "m mod 1024 + c \<le> 1024" "c \<le> 1024" using w by (auto simp: c_def)
  have fits': "append_fits i fs (length ?c)" using append_fits_le [OF fits c0(2)] by simp
  obtain i1 d1 n b fs' where
    b: "bmap i (isize i) resp APPEND_MODE d = Some (0, Some (createBMapResponse n (isize i mod BLOCK_SIZE)), i1, d1)"
    and i1: "resized i i1" "isize i1 = isize i" and blk: "read_block n d1 = Some b" "length b = BLOCK_SIZE"
    and app: "\<And>i2 d2. resized i1 i2 \<Longrightarrow> dataBlockNums i2 = dataBlockNums i1 \<Longrightarrow> isize i2 = isize i + of_nat (length ?c) \<Longrightarrow>
      d2 = put_block n (memcpy_at (m mod BLOCK_SIZE) ?c b) d1 \<Longrightarrow> appended i d fs ?c i2 d2 fs'"
    by (rule append_piece [OF rep m_def fits', where resp = resp]) (use c0 in auto)
  let ?r = "createBMapResponse n (isize i mod 1024)"
  let ?d2 = "put_block n (memcpy_at (m mod 1024) ?c b) d1"
  let ?i2 = "updateINodeMetadata i1 (to_c_int (of_nat c)) (linksCount i1) ?d2"
  have u: "unat (min (bytesLeftInBlock ?r) (of_nat sz - of_nat w)) = c"
    unfolding c_def isz using w m10
    by (simp add: unat_min createBMapResponse_def unat_left_in_block unat_of_nat_diff)
  then have cw: "min (bytesLeftInBlock ?r) (of_nat sz - of_nat w) = of_nat c"
    by (metis unsigned_of_nat of_nat_unat ucast_id)
  have sz2: "isize ?i2 = isize i + of_nat c" using updateINodeMetadata_append [of c] c0(4) i1(2) by simp
  have "unat (byteOffsetInBlock ?r) = m mod 1024" by (simp add: createBMapResponse_def m_def unat_mod_distrib)
  then have "writeNullBytes n (byteOffsetInBlock ?r) (of_nat c) d1 = Some ?d2"
    using writeNullBytes_ok [OF blk(1), of "byteOffsetInBlock ?r" "of_nat c"] c0 by (simp add: unat_of_nat_small)
  moreover have "(of_nat w :: size_t) < of_nat sz" using w by (simp add: word_less_nat_alt unat_of_nat_small)
  ultimately have "increase_loop (of_nat sz) (of_nat w) (isize i) resp i d =
      increase_loop (of_nat sz) (of_nat (w + c)) (isize ?i2) (Some ?r) ?i2 ?d2"
    using b cw sz2 by (subst increase_loop.simps) (simp add: Let_def, simp add: createBMapResponse_def)
  moreover have "appended i d fs ?c ?i2 ?d2 fs'" by (rule app) (use sz2 in simp_all)
  moreover have "dirty ?i2" by simp
  ultimately show thesis using that c0 by blast
qed

lemma increase_loop_ok:
  assumes "direct i d fs" and "w \<le> sz" "sz \<le> 10240" and "append_fits i fs (sz - w)"
  shows "\<exists>i' d' fs'. increase_loop (of_nat sz) (of_nat w) (isize i) resp i d = Some (i', d') \<and>
    appended i d fs (replicate (sz - w) 0) i' d' fs' \<and> (w < sz \<longrightarrow> dirty i')"
  using assms
proof (induction "sz - w" arbitrary: i d fs w resp rule: less_induct)
  case less
  show ?case
  proof (cases "w = sz")
    case True
    then show ?thesis using less.prems(1) appended_Nil
      by (intro exI [of _ i] exI [of _ d] exI [of _ fs]) (subst increase_loop.simps, simp)
  next
    case False
    with less.prems have wl: "w < sz" by simp
    obtain c i1 d1 fs1 resp1 where c: "0 < c" "c \<le> sz - w" and app: "appended i d fs (replicate c 0) i1 d1 fs1" "dirty i1"
      and step: "increase_loop (of_nat sz) (of_nat w) (isize i) resp i d =
        increase_loop (of_nat sz) (of_nat (w + c)) (isize i1) resp1 i1 d1"
      using increase_step [OF less.prems(1) wl less.prems(3,4), of resp] by metis
    have left: "sz - w = c + (sz - (w + c))" using c wl by simp
    have "direct i1 d1 fs1" "append_fits i1 fs1 (sz - (w + c))"
      using app(1) append_fits_rest [OF app(1)] less.prems(4) c wl by (simp_all add: appended_def)
    then obtain i' d' fs' where
      r: "increase_loop (of_nat sz) (of_nat (w + c)) (isize i1) resp1 i1 d1 = Some (i', d')"
      "appended i1 d1 fs1 (replicate (sz - (w + c)) 0) i' d' fs'" "w + c < sz \<longrightarrow> dirty i'"
      using less.hyps [of "w + c" i1 d1 fs1 resp1] less.prems(3) c wl by force
    have "dirty i'"
    proof (cases "w + c < sz")
      case False
      then have "w + c = sz" using c wl by simp
      then have "increase_loop (of_nat sz) (of_nat (w + c)) (isize i1) resp1 i1 d1 = Some (i1, d1)"
        by (subst increase_loop.simps) (simp only: less_irrefl if_False)
      then show ?thesis using r(1) app(2) by simp
    qed (use r(3) in blast)
    then show ?thesis using appended_trans [OF app(1) r(2)] step r(1) left
      by (intro exI [of _ i'] exI [of _ d'] exI [of _ fs']) (simp flip: replicate_add)
  qed
qed

section \<open>Shrinking\<close>

text \<open>A prefix of a file is a file.\<close>

lemma direct_prefix:
  assumes rep: "direct i d fs" and nums: "dataBlockNums j = dataBlockNums i" and n: "unat (isize j) \<le> unat (isize i)"
  shows "direct j d fs" and "file_bytes j d = take (unat (isize j)) (file_bytes i d)"
proof -
  let ?n = "unat (isize j)" and ?K = "blocks_for (unat (isize i))"
  have le: "blocks_for ?n \<le> ?K" by (rule blocks_for_mono [OF n])
  have "?n \<le> 1024 * blocks_for ?n" by (simp add: blocks_for_def)
  then show "direct j d fs" using rep nums le
    by (auto simp: direct_def direct_file_def wf_inCore_def dest: distinct_take [of _ "blocks_for ?n"])
  show "file_bytes j d = take ?n (file_bytes i d)"
    using n file_block_cong [OF nums] by (simp add: file_bytes_def file_blk_def take_map)
qed

lemma updateINodeMetadata_shrink:
  assumes "c < 2 ^ 31"
  shows "isize (updateINodeMetadata i (to_c_int (- of_nat c)) l d) = isize i - of_nat c"
proof -
  have neg: "- of_nat c = (word_of_int (- int c) :: size_t)" by simp
  have "to_c_int (word_of_int (- int c)) = word_of_int (- int c)"
    unfolding to_c_int_def by (rule bit_word_eqI) (simp add: bit_simps del: of_int_minus of_int_of_nat_eq)
  moreover have "signed_take_bit 31 (- int c) = - int c" using assms by (intro signed_take_bit_int_eq_self) simp_all
  then have "sint (word_of_int (- int c) :: 32 word) = - int c"
    by (simp add: signed_of_int del: of_int_minus of_int_of_nat_eq)
  ultimately have "of_c_int (to_c_int (word_of_int (- int c))) = word_of_int (- int c)"
    by (simp add: of_c_int_def scast_eq del: of_int_minus of_int_of_nat_eq)
  then have "of_c_int (to_c_int (- of_nat c)) = - (of_nat c :: size_t)" unfolding neg .
  then show ?thesis by simp
qed


text \<open>
  \<open>shrunk\<close>: the file was cut to its first \<open>n\<close> bytes; the blocks it no longer needs are in front of the free list, and
  only these and the list block were written.
\<close>

definition freed_blocks :: "inCoreiNode \<Rightarrow> nat \<Rightarrow> size_t list" where
  "freed_blocks i n = drop (blocks_for n) (take (blocks_for (unat (isize i))) (dataBlockNums i))"

definition shrunk ::
    "inCoreiNode \<Rightarrow> dsk \<Rightarrow> size_t list \<Rightarrow> nat \<Rightarrow> inCoreiNode \<Rightarrow> dsk \<Rightarrow> size_t list \<Rightarrow> bool" where
  "shrunk i d fs n i' d' fs' \<longleftrightarrow> direct i' d' fs' \<and> file_bytes i' d' = take n (file_bytes i d) \<and> resized i i' \<and>
     dataBlockNums i' = dataBlockNums i \<and> fs' = freed_blocks i n @ fs \<and> free_list_linked d' \<and>
     same_except d d' (insert FREE_LIST_BLOCK (set (freed_blocks i n)))"

lemma shrunkD:
  assumes "shrunk i d fs n i' d' fs'"
  shows "direct i' d' fs'" and "file_bytes i' d' = take n (file_bytes i d)" and "resized i i'" and "free_list_linked d'"
    and "dataBlockNums i' = dataBlockNums i"
  using assms unfolding shrunk_def by blast+

lemma appendedD:
  assumes "appended i d fs c i' d' fs'"
  shows "direct i' d' fs'" and "file_bytes i' d' = file_bytes i d @ c" and "resized i i'"
    and "set fs' \<union> file_blocks i' = set fs \<union> file_blocks i"
  using assms by (auto simp: appended_def)

lemma shrunk_same:
  assumes "direct i d fs" and "free_list_linked d" and "resized i i'" and "dataBlockNums i' = dataBlockNums i"
    and "isize i' = of_nat n" and "n \<le> unat (isize i)" and "blocks_for n = blocks_for (unat (isize i))"
  shows "shrunk i d fs n i' d fs"
proof -
  have n: "unat (isize i') = n" using assms(5,6) unat_bound [of "isize i"] by (simp add: unat_of_nat_small)
  show ?thesis using direct_prefix [OF assms(1,4)] assms n
    by (simp add: shrunk_def freed_blocks_def same_except_def)
qed

lemma segment_split:
  assumes "a \<le> b" and "b \<le> c"
  shows "drop a (take c xs) = drop a (take b xs) @ drop b (take c xs)"
  using assms take_add [of "b - a" "c - b" "drop a xs"] by (simp add: drop_take)

lemma shrunk_trans:
  assumes a: "shrunk i d fs k i1 d1 fs1" and b: "shrunk i1 d1 fs1 n i2 d2 fs2" and n: "n \<le> k" "k \<le> unat (isize i)"
  shows "shrunk i d fs n i2 d2 fs2"
proof -
  let ?K = "blocks_for (unat (isize i))" and ?ns = "dataBlockNums i"
  have k: "unat (isize i1) = k" using a n(2) length_file_bytes [of i1 d1] by (simp add: shrunk_def)
  have le: "blocks_for n \<le> blocks_for k" "blocks_for k \<le> ?K" using n by (auto intro: blocks_for_mono)
  have split: "freed_blocks i n = freed_blocks i1 n @ freed_blocks i k"
    using a k segment_split [OF le, of ?ns] by (simp add: freed_blocks_def shrunk_def)
  have "same_except d d2 (insert FREE_LIST_BLOCK (set (freed_blocks i n)))"
    using a b split by (auto simp: shrunk_def intro: same_except_trans)
  then show ?thesis using a b n split by (auto simp: shrunk_def intro: resized_trans)
qed


lemma blocks_for_same_block: "1024 * k < n \<Longrightarrow> n \<le> m \<Longrightarrow> m \<le> 1024 * k + 1024 \<Longrightarrow> blocks_for n = blocks_for m"
  using blocks_for_step [of "n - 1024 * k" "1024 * k"] blocks_for_step [of "m - 1024 * k" "1024 * k"] by simp

lemma shrink_block:
  assumes rep: "direct i d fs" and l: "free_list_linked d" and m: "0 < unat (isize i)" "unat (isize i) < 10240"
  defines "k \<equiv> (unat (isize i) - 1) div BLOCK_SIZE"
  obtains d' where "freeDataBlockInINode i (dataBlockNums i ! k) d = Some d'"
    and "\<And>i'. resized i i' \<Longrightarrow> dataBlockNums i' = dataBlockNums i \<Longrightarrow> isize i' = of_nat (BLOCK_SIZE * k) \<Longrightarrow>
      shrunk i d fs (BLOCK_SIZE * k) i' d' (dataBlockNums i ! k # fs)"
proof -
  let ?m = "unat (isize i)" and ?b = "dataBlockNums i ! k"
  have K: "blocks_for ?m = Suc k" "blocks_for (1024 * k) = k" "1024 * k \<le> ?m" "k < 10"
    using m by (auto simp: k_def blocks_for_def)
  have wf: "length (dataBlockNums i) = 13" and fl: "free_list d fs" and dis: "distinct (take (Suc k) (dataBlockNums i))"
    and own: "owned d fs ?b" using rep K by (auto simp: direct_def direct_file_def wf_inCore_def)
  obtain d' where d': "blockFree ?b d = Some d'" "free_list d' (?b # fs)" "free_list_linked d'"
    and v: "\<And>n. blk_valid d' n = blk_valid d n"
    and r: "\<And>n. blk_valid d n \<Longrightarrow> n \<noteq> FREE_LIST_BLOCK \<Longrightarrow> n \<noteq> ?b \<Longrightarrow> read_block n d' = read_block n d"
    by (rule blockFree_step [OF fl l]) (use own in \<open>auto simp: owned_def\<close>)
  have se: "same_except d d' {FREE_LIST_BLOCK, ?b}" using v r by (auto simp: same_except_def)
  have "?m div 1024 \<le> 9" using m by simp
  then have "freeDataBlockInINode i ?b d = Some d'"
    using d'(1) by (simp add: freeDataBlockInINode_def freeNeededBlocks_def calculateOffset_offset_of offset_of_def)
  moreover have "shrunk i d fs (1024 * k) i' d' (?b # fs)"
    if i': "resized i i'" "dataBlockNums i' = dataBlockNums i" "isize i' = of_nat (1024 * k)" for i'
  proof -
    have n: "unat (isize i') = 1024 * k" using i'(3) K(4) unat_of_nat_small [of "1024 * k"] by simp
    note p = direct_prefix [OF rep i'(2), unfolded n, OF K(3)]
    have fr: "freed_blocks i (1024 * k) = [?b]" using K wf by (simp add: freed_blocks_def take_Suc_conv_app_nth)
    have "file_blocks i' = set (take k (dataBlockNums i))" using n K i'(2) by (simp add: file_blocks_def)
    moreover have "?b \<notin> set (take k (dataBlockNums i))" using dis wf K by (simp add: take_Suc_conv_app_nth)
    moreover have "x \<notin> set fs \<and> x \<noteq> FREE_LIST_BLOCK" if "x \<in> file_blocks i'" for x
      using p(1) that file_blocks_nth [OF p(1)] by (auto simp: direct_def direct_file_def owned_def)
    ultimately have "file_blocks i' \<inter> ({FREE_LIST_BLOCK, ?b} \<union> set (?b # fs)) = {}" by auto
    note direct_frame [OF p(1) se d'(2) this]
    then show ?thesis using p i' d' se fr by (simp add: shrunk_def)
  qed
  ultimately show thesis by (rule that)
qed


lemma decrease_step:
  assumes rep: "direct i d fs" and l: "free_list_linked d" and m: "m = unat (isize i)" "m < 10240"
    and w: "w < sz" "sz - w \<le> m" "sz \<le> 10240"
  defines "t \<equiv> (m - 1) mod BLOCK_SIZE + 1"
  shows "sz - w < t \<Longrightarrow> \<exists>i'. decrease_loop (of_nat sz) (of_nat w) (isize i - 1) resp i d = Some (i', d) \<and> dirty i' \<and>
      shrunk i d fs (m - (sz - w)) i' d fs"
    and "t \<le> sz - w \<Longrightarrow> \<exists>i' d' fs' resp'. decrease_loop (of_nat sz) (of_nat w) (isize i - 1) resp i d =
      decrease_loop (of_nat sz) (of_nat (w + t)) (isize i' - 1) resp' i' d' \<and> dirty i' \<and>
      shrunk i d fs (m - t) i' d' fs' \<and> isize i' = of_nat (m - t)"
proof -
  let ?k = "(m - 1) div 1024"
  let ?b = "dataBlockNums i ! ?k"
  have m0: "0 < m" using w by linarith
  have "m - 1 = 1024 * ?k + (m - 1) mod 1024" "(m - 1) mod 1024 < 1024" by simp_all
  with m(2) m0 have k: "m = 1024 * ?k + t" "?k < 10" "0 < t" "t \<le> 1024" "m - t = 1024 * ?k"
    unfolding t_def by linarith+
  have off: "unat (isize i - 1) = m - 1" using m(1) m0 unat_minus_of_nat [of 1 "isize i"] by simp
  have "isize i - 1 < isize i" using off m(1) m0 by (simp add: word_less_nat_alt)
  moreover have "file_block i d ?k = Some ?b" using rep k(2) by (intro file_block_direct) (auto simp: direct_def direct_file_def)
  moreover define r where "r = createBMapResponse ?b ((isize i - 1) mod 1024)"
  ultimately have bm: "bmap i (isize i - 1) resp READ_MODE d = Some (0, Some r, i, d)"
    using off by (simp add: bmap_existing)
  have "unat (byteOffsetInBlock r + 1) = t"
    using off unat_mod_distrib [of "isize i - 1" 1024]
    by (simp add: r_def createBMapResponse_def t_def unat_word_ariths(1))
  then have rb: "byteOffsetInBlock r + 1 = of_nat t" "blockNumber r = ?b"
    by (metis of_nat_unat ucast_id, simp add: r_def createBMapResponse_def)
  have lt: "(of_nat w :: size_t) < of_nat sz" using w by (simp add: word_less_nat_alt unat_of_nat_small)
  have left: "(of_nat sz :: size_t) - of_nat w = of_nat (sz - w)" using w by simp
  have cmp: "(of_nat (sz - w) :: size_t) < of_nat t \<longleftrightarrow> sz - w < t"
    using w k(4) by (simp add: word_less_nat_alt unat_of_nat_small del: of_nat_diff)
  have u: "decrease_loop (of_nat sz) (of_nat w) (isize i - 1) resp i d =
      (if of_nat (sz - w) < (of_nat t :: size_t)
       then Some (updateINodeMetadata i (to_c_int (- of_nat (sz - w))) (linksCount i) d, d)
       else Option.bind (freeDataBlockInINode i ?b d) (\<lambda>d.
         decrease_loop (of_nat sz) (of_nat w + of_nat t) (isize i - 1 - of_nat t) (Some r)
           (updateINodeMetadata i (to_c_int (- of_nat t)) (linksCount i) d) d))"
    using lt by (subst decrease_loop.simps) (simp only: bm bind.bind_lunit prod.case rb left if_True)
  show "\<exists>i'. decrease_loop (of_nat sz) (of_nat w) (isize i - 1) resp i d = Some (i', d) \<and> dirty i' \<and>
      shrunk i d fs (m - (sz - w)) i' d fs" if "sz - w < t"
  proof -
    let ?i = "updateINodeMetadata i (to_c_int (- of_nat (sz - w))) (linksCount i) d"
    have "decrease_loop (of_nat sz) (of_nat w) (isize i - 1) resp i d = Some (?i, d)"
      unfolding u using cmp that by simp
    moreover have "isize ?i = of_nat (m - (sz - w))"
      using updateINodeMetadata_shrink [of "sz - w"] w m(1) by (simp add: of_nat_diff)
    moreover have "blocks_for (m - (sz - w)) = blocks_for m"
      by (rule blocks_for_same_block [of ?k]) (use k that w in linarith)+
    ultimately show ?thesis using m(1) w
      by (intro exI [of _ ?i] conjI shrunk_same [OF rep l]) simp_all
  qed
  show "\<exists>i' d' fs' resp'. decrease_loop (of_nat sz) (of_nat w) (isize i - 1) resp i d =
      decrease_loop (of_nat sz) (of_nat (w + t)) (isize i' - 1) resp' i' d' \<and> dirty i' \<and>
      shrunk i d fs (m - t) i' d' fs' \<and> isize i' = of_nat (m - t)" if "t \<le> sz - w"
  proof -
    obtain d' where d': "freeDataBlockInINode i ?b d = Some d'"
      and sh: "\<And>i'. resized i i' \<Longrightarrow> dataBlockNums i' = dataBlockNums i \<Longrightarrow> isize i' = of_nat (1024 * ?k) \<Longrightarrow>
        shrunk i d fs (1024 * ?k) i' d' (?b # fs)"
      using shrink_block [OF rep l] m m0 by auto
    let ?i = "updateINodeMetadata i (to_c_int (- of_nat t)) (linksCount i) d'"
    have sz': "isize ?i = isize i - of_nat t" "isize i - of_nat t = of_nat (m - t)"
      using updateINodeMetadata_shrink [of t] k(1,4) m(1) by (simp, simp add: of_nat_diff)
    have off': "isize i - 1 - of_nat t = isize ?i - 1" unfolding sz'(1) by simp
    have "shrunk i d fs (m - t) ?i d' (?b # fs)" unfolding k(5) by (rule sh) (use sz' k(5) in simp_all)
    moreover have "decrease_loop (of_nat sz) (of_nat w) (isize i - 1) resp i d =
        decrease_loop (of_nat sz) (of_nat (w + t)) (isize ?i - 1) (Some r) ?i d'"
      unfolding u off' using cmp that d' by simp
    ultimately show ?thesis using sz' dirty_meta by metis
  qed
qed


lemma left_over: "a = m - t \<Longrightarrow> t \<le> s - w \<Longrightarrow> s - w \<le> m \<Longrightarrow> a - (s - (w + t)) = m - (s - w)" for a m t s w :: nat
  by simp

lemma decrease_loop_ok:
  assumes "direct i d fs" and "free_list_linked d" and "unat (isize i) < 10240" and "w \<le> sz" "sz - w \<le> unat (isize i)" "sz \<le> 10240"
  shows "\<exists>i' d' fs'. decrease_loop (of_nat sz) (of_nat w) (isize i - 1) resp i d = Some (i', d') \<and>
    shrunk i d fs (unat (isize i) - (sz - w)) i' d' fs' \<and> (dirty i \<or> w < sz \<longrightarrow> dirty i')"
  using assms
proof (induction "sz - w" arbitrary: i d fs w resp rule: less_induct)
  case less
  let ?m = "unat (isize i)" and ?t = "(unat (isize i) - 1) mod 1024 + 1"
  note step = decrease_step [OF less.prems(1,2) refl less.prems(3) _ less.prems(5,6), of resp]
  consider "w = sz" | "w < sz" "sz - w < ?t" | "w < sz" "?t \<le> sz - w" using less.prems(4) by linarith
  then show ?case
  proof cases
    case 1
    then have "decrease_loop (of_nat sz) (of_nat w) (isize i - 1) resp i d = Some (i, d)"
      by (subst decrease_loop.simps) simp
    then show ?thesis using 1 shrunk_same [OF less.prems(1,2), of i ?m] by auto
  next
    case 2
    then show ?thesis using step(1) by blast
  next
    case 3
    obtain i1 d1 fs1 resp1 where e: "decrease_loop (of_nat sz) (of_nat w) (isize i - 1) resp i d =
        decrease_loop (of_nat sz) (of_nat (w + ?t)) (isize i1 - 1) resp1 i1 d1"
      and i1: "dirty i1" "shrunk i d fs (?m - ?t) i1 d1 fs1" "isize i1 = of_nat (?m - ?t)"
      using step(2) [OF 3] by blast
    have m1: "unat (isize i1) = ?m - ?t" using i1(3) less.prems(3) unat_of_nat_small [of "?m - ?t"] by simp
    have le: "sz - (w + ?t) < sz - w" "unat (isize i1) < 10240" "w + ?t \<le> sz" "sz - (w + ?t) \<le> unat (isize i1)"
      using 3 less.prems(3,5) m1 by linarith+
    note ih = less.hyps [OF le(1) shrunkD(1,4) [OF i1(2)] le(2-4) less.prems(6), of resp1]
    then obtain i' d' fs' where
      r: "decrease_loop (of_nat sz) (of_nat (w + ?t)) (isize i1 - 1) resp1 i1 d1 = Some (i', d')"
      "shrunk i1 d1 fs1 (unat (isize i1) - (sz - (w + ?t))) i' d' fs'" "dirty i1 \<or> w + ?t < sz \<longrightarrow> dirty i'"
      by (elim exE conjE) (rule that)
    have "unat (isize i1) - (sz - (w + ?t)) = ?m - (sz - w)" by (rule left_over [OF m1 3(2) less.prems(5)])
    then have "shrunk i d fs (?m - (sz - w)) i' d' fs'" 
      using shrunk_trans [OF i1(2) r(2)] diff_le_mono2 [OF 3(2), of ?m] diff_le_self by metis
    then show ?thesis unfolding e r(1) using r(3) i1(1) by blast
  qed
qed

section \<open>truncateINode\<close>

text \<open>
  The bytes of a file cut or filled to length \<open>n\<close>, and when the code can do it: a file that grows needs free blocks
  and must stay in its direct blocks; one that shrinks must have less than ten full blocks and the free list must
  be able to take its blocks.
\<close>

definition sized :: "nat \<Rightarrow> byte list \<Rightarrow> byte list" where
  "sized n bs = take n bs @ replicate (n - length bs) 0"

definition can_resize :: "inCoreiNode \<Rightarrow> dsk \<Rightarrow> size_t list \<Rightarrow> nat \<Rightarrow> bool" where
  "can_resize i d fs n \<longleftrightarrow> direct i d fs \<and>
     (unat (isize i) < n \<longrightarrow> append_fits i fs (n - unat (isize i))) \<and>
     (n < unat (isize i) \<longrightarrow> unat (isize i) < 10240 \<and> free_list_linked d)"

definition resize_result ::
    "inCoreiNode \<Rightarrow> dsk \<Rightarrow> size_t list \<Rightarrow> nat \<Rightarrow> inCoreiNode \<Rightarrow> dsk \<Rightarrow> size_t list \<Rightarrow> bool" where
  "resize_result i d fs n i' d' fs' \<longleftrightarrow>
     (if n = unat (isize i) then i' = i \<and> d' = d \<and> fs' = fs
      else if n < unat (isize i) then shrunk i d fs n i' d' fs' \<and> dirty i'
      else appended i d fs (replicate (n - unat (isize i)) 0) i' d' fs' \<and> dirty i')"

lemma truncateINode_ok:
  assumes "can_resize i d fs (unat n)"
  shows "\<exists>i' d' fs'. truncateINode i n d = Some (i', d') \<and> resize_result i d fs (unat n) i' d' fs'"
proof -
  let ?m = "unat (isize i)" and ?n = "unat n"
  note c = assms [unfolded can_resize_def]
  consider "?n = ?m" | "?n < ?m" | "?m < ?n" by linarith
  then show ?thesis
  proof cases
    case 1
    then show ?thesis by (auto simp: truncateINode_def resize_result_def word_unat_eq_iff)
  next
    case 2
    have k: "isize i - n = of_nat (?m - ?n)" using 2 by (simp add: of_nat_diff)
    have le: "?m - ?n \<le> 10240" using c 2 by linarith
    obtain i' d' fs' where "decrease_loop (of_nat (?m - ?n)) (of_nat 0) (isize i - 1) None i d = Some (i', d')"
        "shrunk i d fs (?m - (?m - ?n - 0)) i' d' fs'" "dirty i'"
      using decrease_loop_ok [of i d fs 0 "?m - ?n" None] c 2 le by (metis diff_le_self diff_zero le0 zero_less_diff)
    moreover have "truncateINode i n d = decrease_loop (of_nat (?m - ?n)) (of_nat 0) (isize i - 1) None i d"
      using 2 by (simp only: truncateINode_def decreaseFileSizeBy_def k word_unat_eq_iff word_less_nat_alt) simp
    ultimately show ?thesis using 2 by (auto simp: resize_result_def)
  next
    case 3
    have k: "n - isize i = of_nat (?n - ?m)" using 3 by (simp add: of_nat_diff)
    have "?n - ?m \<le> 10240" using c 3 by (auto simp: append_fits_def)
    then obtain i' d' fs' where "increase_loop (of_nat (?n - ?m)) (of_nat 0) (isize i) None i d = Some (i', d')"
        "appended i d fs (replicate (?n - ?m) 0) i' d' fs'" "dirty i'"
      using increase_loop_ok [of i d fs 0 "?n - ?m" None] c 3 by (metis diff_zero le0 zero_less_diff)
    moreover have "truncateINode i n d = increase_loop (of_nat (?n - ?m)) (of_nat 0) (isize i) None i d"
      using 3 by (simp only: truncateINode_def increaseFileSizeBy_def k word_unat_eq_iff word_less_nat_alt) simp
    ultimately show ?thesis using 3 by (auto simp: resize_result_def)
  qed
qed

text \<open>In each case the file has the bytes it should have, and other files keep theirs.\<close>

lemma freed_blocks_subset: "set (freed_blocks i n) \<subseteq> file_blocks i"
  by (auto simp: freed_blocks_def file_blocks_def dest: in_set_dropD)

lemma shrunk_stock:
  assumes "shrunk i d fs n i' d' fs'" and "n < unat (isize i)"
  shows "set fs' \<union> file_blocks i' = set fs \<union> file_blocks i"
proof -
  let ?b = "blocks_for n" and ?xs = "take (blocks_for (unat (isize i))) (dataBlockNums i)"
  have "length (file_bytes i' d') = n" using shrunkD(2) [OF assms(1)] assms(2) by simp
  then have "unat (isize i') = n" by simp
  moreover have "?b \<le> blocks_for (unat (isize i))" using assms(2) by (simp add: blocks_for_def div_le_mono)
  ultimately have "file_blocks i' = set (take ?b ?xs)"
    using shrunkD(5) [OF assms(1)] by (simp add: file_blocks_def min_absorb1)
  moreover have "set (take ?b ?xs) \<union> set (drop ?b ?xs) = set ?xs" by (metis append_take_drop_id set_append)
  ultimately show ?thesis using assms(1) by (auto simp: shrunk_def freed_blocks_def file_blocks_def)
qed

lemma frames_shrunk:
  assumes "shrunk i d fs n i' d' fs'"
  shows "frames d fs (file_blocks i) d' fs'"
proof (rule frames_same)
  show "same_except d d' (insert FREE_LIST_BLOCK (file_blocks i))" "free_list d' fs'" "set fs' \<subseteq> file_blocks i \<union> set fs"
    using assms freed_blocks_subset [of i n] by (auto simp: shrunk_def same_except_def direct_def direct_file_def)
qed

lemma shrunk_data_step:
  assumes "shrunk i d fs n i' d' fs'"
  shows "data_step d d'" and "meta_ok d'"
proof -
  have fl: "free_list d' fs'" and fs': "fs' = freed_blocks i n @ fs"
    and se: "same_except d d' (insert FREE_LIST_BLOCK (set (freed_blocks i n)))"
    using assms by (auto simp: shrunk_def direct_def direct_file_def)
  show "meta_ok d'" using fl by (rule free_listE)
  have "\<forall>x \<in> set fs'. 16388 \<le> x \<and> blk_valid d' x" using fl by (rule free_listE)
  then show "data_step d d'" using se meta_okD(1) [OF \<open>meta_ok d'\<close>] fs'
    by (auto simp: data_step_def same_except_def)
qed

lemma resize_resultD:
  assumes can: "can_resize i d fs n" and r: "resize_result i d fs n i' d' fs'"
  shows "direct i' d' fs'" and "file_bytes i' d' = sized n (file_bytes i d)" and "resized i i'"
    and "data_step d d'" and "meta_ok d'" and "set fs' \<union> file_blocks i' = set fs \<union> file_blocks i"
    and "frames d fs (file_blocks i) d' fs'"
proof -
  let ?m = "unat (isize i)"
  have fl: "free_list d fs" using can by (simp add: can_resize_def direct_def direct_file_def)
  have ok: "meta_ok d" "disk_ok d" using fl by (auto elim: free_listE)
  consider (same) "n = ?m" "i' = i" "d' = d" "fs' = fs" | (less) "n < ?m" "shrunk i d fs n i' d' fs'"
    | (more) "?m < n" "appended i d fs (replicate (n - ?m) 0) i' d' fs'"
    using r by (auto simp: resize_result_def split: if_splits)
  note cases = this
  show "direct i' d' fs'" by (rule cases) (use can in \<open>simp add: can_resize_def\<close>, erule shrunkD(1), erule appendedD(1))
  show "resized i i'" by (rule cases) (simp, erule shrunkD(3), erule appendedD(3))
  show "data_step d d'" by (rule cases) (use ok in \<open>simp add: data_step_def same_except_def\<close>, erule shrunk_data_step(1), erule appended_data_step(1))
  show "meta_ok d'" by (rule cases) (use ok in simp, erule shrunk_data_step(2), erule appended_data_step(2))
  show "file_bytes i' d' = sized n (file_bytes i d)"
    by (rule cases) (simp_all add: sized_def shrunkD(2) appendedD(2))
  show "set fs' \<union> file_blocks i' = set fs \<union> file_blocks i"
    by (rule cases) (simp, erule shrunk_stock, simp, erule appendedD(4))
  show "frames d fs (file_blocks i) d' fs'"
    by (rule cases) (simp add: frames_refl, erule frames_shrunk, erule frames_appended)
qed


text \<open>The lock of the inode plays no part in it.\<close>

lemma shrunk_mutex:
  assumes "shrunk (i\<lparr> iNodeMutex := b \<rparr>) d fs n i' d' fs'"
  shows "shrunk i d fs n (i'\<lparr> iNodeMutex := iNodeMutex i \<rparr>) d' fs'"
proof -
  have "resized (i\<lparr> iNodeMutex := b \<rparr>) i'" by (rule shrunkD(3) [OF assms])
  then have "resized i (i'\<lparr> iNodeMutex := iNodeMutex i \<rparr>)" unfolding resized_def by (cases i, cases i') simp
  then show ?thesis using assms by (auto simp: shrunk_def freed_blocks_def)
qed

lemma can_resize_mutex [simp]: "can_resize (i\<lparr> iNodeMutex := b \<rparr>) d fs n = can_resize i d fs n"
  by (simp add: can_resize_def)

lemma resize_result_mutex:
  assumes "resize_result (i\<lparr> iNodeMutex := b \<rparr>) d fs n i' d' fs'"
  shows "resize_result i d fs n (i'\<lparr> iNodeMutex := iNodeMutex i \<rparr>) d' fs'"
  using assms shrunk_mutex [where i = i and b = b] appended_mutex [where i = i and b = b]
  by (auto simp: resize_result_def split: if_splits)

section \<open>The end of an operation on one inode\<close>

text \<open>
  \<open>modified\<close>: inode \<open>n\<close> has content \<open>x\<close>; other inodes, all references and the open files are as before, and the
  next operation can run.
\<close>

definition modified :: "fs \<Rightarrow> size_t \<Rightarrow> iNode \<Rightarrow> fs \<Rightarrow> bool" where
  "modified s n x s' \<longleftrightarrow> idle s' s' \<and> fileTable s' = fileTable s \<and> pinned s s' \<and> (\<forall>k. refs s' k = refs s k) \<and>
     (\<forall>k < NUM_OF_INODES. inode_view s' k = (if k = n then x else inode_view s k))"

lemma change_finish:
  assumes idle: "idle s0 s0" and held: "held s0 s p n" and ch: "changeable s0 n"
    and t: "touches s n (refs s n) x s5" and h: "holds s5 p n" and x: "di_linksCount x = di_linksCount (inode_view s0 n)"
  shows "\<exists>s'. iput p s5 = Some (0, s') \<and> modified s0 n x s' \<and> meta_step (disk s5) (disk s') \<and>
    (\<forall>xs. inode_stack (disk s5) xs \<longrightarrow> inode_stack (disk s') xs)"
proof -
  note H = heldD [OF held] and T = touchesD [OF t]
  have v: "inode_view s5 k = (if k = n then x else inode_view s0 k)" if "k < NUM_OF_INODES" for k using T(3) H(6) that by simp
  have r: "refs s5 k = (if k = n then refs s0 n + 1 else refs s0 k)" for k using T(4) H(7) by simp
  have pin: "pinned s0 s5" by (rule pinned_touches [OF H(10) t]) (use H(2) h in blast)
  have links: "di_linksCount (inode_view s5 n) \<noteq> 0 \<or> n = 0 \<and> refs s0 n = 0" using ch x v [OF H(5)] by (auto simp: changeable_def)
  have pend: "di_linksCount (inode_view s5 k) \<noteq> 0" if "k < NUM_OF_INODES" "k \<noteq> n" "pending s5 k" for k
    using that T(7) H(8) H(6) v by auto
  obtain s' where s': "iput p s5 = Some (0, s')" "idle s' s'" "pinned s0 s'" "\<And>k. refs s' k = refs s0 k" "fileTable s' = fileTable s5"
    "\<And>k. k < NUM_OF_INODES \<Longrightarrow> inode_view s' k = inode_view s5 k"
    "meta_step (disk s5) (disk s')" "\<And>xs. inode_stack (disk s5) xs \<Longrightarrow> inode_stack (disk s') xs"
    using put_idle [OF idle T(1) h pin r links pend] by blast
  have "modified s0 n x s'" using s' v T(2) H(4) by (simp add: modified_def)
  then show ?thesis using s'(1,7,8) by blast
qed

section \<open>truncateFile\<close>

text \<open>\<open>truncateINode\<close> on a held node, within its lock.\<close>

lemma truncate_held:
  assumes held: "held s0 s p n" and can: "can_resize (core s p) (disk s) fs (unat sz)"
  obtains i' d' fs' where "truncateINode (core (upd_core p (iNodeMutex_update (\<lambda>_. True)) s) p) sz (disk s) = Some (i', d')"
    and "resize_result (core s p) (disk s) fs (unat sz) (i'\<lparr> iNodeMutex := False \<rparr>) d' fs'"
    and "touches s n (refs s n) (getDiskINodeData i') (upd_core p (\<lambda>_. i'\<lparr> iNodeMutex := False \<rparr>) (s\<lparr> disk := d' \<rparr>))"
    and "holds (upd_core p (\<lambda>_. i'\<lparr> iNodeMutex := False \<rparr>) (s\<lparr> disk := d' \<rparr>)) p n"
proof -
  note H = heldD [OF held] and un = held_unlocked [OF held]
  let ?i = "(core s p)\<lparr> iNodeMutex := True \<rparr>"
  obtain i1 d' fs' where r: "truncateINode ?i sz (disk s) = Some (i1, d')" "resize_result ?i (disk s) fs (unat sz) i1 d' fs'"
    using truncateINode_ok [of ?i "disk s" fs sz] can by auto
  let ?j = "i1\<lparr> iNodeMutex := False \<rparr>"
  let ?s = "upd_core p (\<lambda>_. ?j) (s\<lparr> disk := d' \<rparr>)"
  have rj: "resize_result (core s p) (disk s) fs (unat sz) ?j d' fs'" using resize_result_mutex [OF r(2)] un by simp
  note R = resize_resultD [OF can rj]
  have "touches s n (refs s n) (getDiskINodeData ?j) ?s \<and> holds ?s p n"
  proof (cases "unat sz = unat (isize (core s p))")
    case True
    then have e: "?j = core s p" "d' = disk s" using rj by (simp_all add: resize_result_def)
    have "inode_view s n = getDiskINodeData (core s p)" using held_data [OF held] H(5,6) by simp
    then have "touches s n (refs s n) (getDiskINodeData (core s p)) s" using H(1,5) by (auto simp: touches_def)
    then show ?thesis unfolding e using H(2) by (simp add: upd_core_same)
  next
    case False
    then have dirty: "dirty ?j" using rj by (auto simp: resize_result_def split: if_splits)
    have num: "inode_number (core s p) = n" using held by (simp add: held_def)
    have wf: "wf_inCore ?j" using R(1) by (simp add: direct_def direct_file_def)
    show ?thesis
      using data_then_change(1,2) [OF H(1) R(4,5) H(2) _ resizedD(2,1) [OF R(3)] wf dirty] resizedD(3) [OF R(3)] num by simp
  qed
  then show thesis using that [of i1 d' fs'] r(1) rj by simp
qed

text \<open>What \<open>truncateFile\<close> leaves behind: the file has length \<open>k\<close>, and files with other blocks are untouched.\<close>

definition truncated :: "fs \<Rightarrow> size_t \<Rightarrow> nat \<Rightarrow> size_t list \<Rightarrow> fs \<Rightarrow> size_t list \<Rightarrow> bool" where
  "truncated s n k fs s' fs' \<longleftrightarrow>
     (\<exists>t ns. modified s n ((inode_view s n)\<lparr> di_size := of_nat k, di_modification := t, di_dataBlockNums := ns \<rparr>) s') \<and>
     direct (dir_view s' n) (disk s') fs' \<and>
     file_bytes (dir_view s' n) (disk s') = sized k (file_bytes (dir_view s n) (disk s)) \<and>
     set fs' \<union> file_blocks (dir_view s' n) = set fs \<union> file_blocks (dir_view s n) \<and>
     frames (disk s) fs (file_blocks (dir_view s n)) (disk s') fs' \<and>
     (\<forall>xs. inode_stack (disk s) xs \<longrightarrow> inode_stack (disk s') xs)"

lemma truncateFile_found:
  assumes path: "good_path s path" "lookup_path s (names path) 0 = Some n" and ch: "changeable s n"
    and reg: "di_type (inode_view s n) \<noteq> T_DIRECTORY" and can: "can_resize (dir_view s n) (disk s) fs (unat sz)"
  shows "\<exists>s' fs'. truncateFile m (SLASH # path) sz s = Some (0, s') \<and> truncated s n (unat sz) fs s' fs'"
proof -
  obtain p s1 where g: "getFileINode m (SLASH # path) s = Some (Some p, s1)" and held: "held s s1 p n"
    using path by (rule path_found)
  note H = heldD [OF held]
  have data: "inode_view s n = getDiskINodeData (core s1 p)" "wf_inCore (core s1 p)"
    using held_data [OF held] held_unlocked [OF held] by auto
  note V = view_contents [OF data]
  have sz0: "isize (dir_view s n) = isize (core s1 p)" using data by (simp add: dir_view_def insertDiskInodeData_def)
  have can1: "can_resize (core s1 p) (disk s1) fs (unat sz)" using can V H(3) sz0 by (simp add: can_resize_def)
  obtain i' d' fs' where r: "truncateINode (core (upd_core p (iNodeMutex_update (\<lambda>_. True)) s1) p) sz (disk s1) = Some (i', d')"
    and rr: "resize_result (core s1 p) (disk s1) fs (unat sz) (i'\<lparr> iNodeMutex := False \<rparr>) d' fs'"
    and t: "touches s1 n (refs s1 n) (getDiskINodeData i') (upd_core p (\<lambda>_. i'\<lparr> iNodeMutex := False \<rparr>) (s1\<lparr> disk := d' \<rparr>))"
    and h: "holds (upd_core p (\<lambda>_. i'\<lparr> iNodeMutex := False \<rparr>) (s1\<lparr> disk := d' \<rparr>)) p n"
    using truncate_held [OF held can1] by metis
  let ?j = "i'\<lparr> iNodeMutex := False \<rparr>"
  note R = resize_resultD [OF can1 rr]
  have gj: "getDiskINodeData ?j = getDiskINodeData i'" by (simp add: getDiskINodeData_def)
  have sized: "isize ?j = sz"
    using R(2) length_file_bytes [of ?j d'] by (simp add: sized_def word_unat_eq_iff)
  have links: "di_linksCount (getDiskINodeData i') = di_linksCount (inode_view s n)"
    using resizedD(4) [OF R(3)] data(1) by simp
  obtain s' where s': "iput p (upd_core p (\<lambda>_. ?j) (s1\<lparr> disk := d' \<rparr>)) = Some (0, s')" "modified s n (getDiskINodeData i') s'"
    and ms: "meta_step d' (disk s')" and stk: "\<And>xs. inode_stack d' xs \<Longrightarrow> inode_stack (disk s') xs"
    using change_finish [OF _ held ch t h links] path(1) by (auto simp: good_path_def)
  have "itype (core s1 p) \<noteq> T_DIRECTORY" using reg data(1) by simp
  then have run: "truncateFile m (SLASH # path) sz s = Some (0, s')"
    using g r s'(1) by (simp add: truncateFile_def locked_section(1) [OF held] truncateINode_at_def locked_replace)
  have view: "inode_view s' n = getDiskINodeData ?j" unfolding gj using s'(2) H(5) by (simp add: modified_def)
  have wf: "wf_inCore ?j" using R(1) by (simp add: direct_def direct_file_def)
  note V' = view_contents [OF view wf] and md = meta_step_direct [OF ms]
  have ok: "meta_ok (disk s)" using well_meta_ok idleD(1) path(1) by (auto simp: good_path_def)
  obtain mt ns where "getDiskINodeData i' = (inode_view s n)\<lparr> di_size := sz, di_modification := mt, di_dataBlockNums := ns \<rparr>"
    using resized_view [OF R(3)] unfolding data(1) gj sized by blast
  then have "\<exists>t ns. modified s n ((inode_view s n)\<lparr> di_size := of_nat (unat sz), di_modification := t, di_dataBlockNums := ns \<rparr>) s'"
    using s'(2) by (intro exI [of _ mt] exI [of _ ns]) simp
  moreover have "frames (disk s) fs (file_blocks (core s1 p)) (disk s') fs'"
    using frames_trans [OF R(7) frames_meta [OF ms, of fs' "{}"]] H(3) by simp
  moreover have "inode_stack (disk s') xs" if "inode_stack (disk s) xs" for xs
    using data_step_stack [OF R(4)] stk ok H(3) that by simp
  ultimately have "truncated s n (unat sz) fs s' fs'"
    unfolding truncated_def V V' using md [OF R(1)] R(2,6) H(3) by auto
  then show ?thesis using run by blast
qed

end
