(* ===== verification/Unlink.thy ===== *)
theory Unlink
  imports Truncate
begin

text \<open>
  Removal of names: what \<open>iput\<close> does with the last reference to an inode without links (\<open>inodeBlocksFree\<close>,
  \<open>freeINode\<close>), what the search for unlinking does to a directory, and what \<open>unlinkFile\<close> of
  \<open>src/interface/unlink.c\<close> guarantees.
\<close>

section \<open>Giving up an inode\<close>

text \<open>The blocks of a file go to the front of the free list, the first block last.\<close>

lemma free_direct_ok:
  assumes "free_list d fs" and "free_list_linked d" and "\<forall>x \<in> set xs. owned d fs x" and "distinct xs"
    and "length xs \<le> n" and "1024 * (int (length xs) - 1) < left" and "left \<le> 1024 * int (length xs)"
  shows "\<exists>ys left' d'. free_direct n (length pre) (pre @ xs @ post) left d = Some (pre @ ys @ post, left', d') \<and> left' \<le> 0 \<and>
    length ys = length xs \<and> free_list d' (rev xs @ fs) \<and> free_list_linked d' \<and>
    same_except d d' (insert FREE_LIST_BLOCK (set xs))"
  using assms
proof (induction xs arbitrary: pre n left d fs)
  case Nil
  then show ?case by (cases n) (auto simp: same_except_def)
next
  case (Cons x xs)
  obtain n' where n: "n = Suc n'" using Cons.prems(5) by (cases n) auto
  have left: "0 < left" using Cons.prems(6) by simp
  obtain d1 where d1: "blockFree x d = Some d1" "free_list d1 (x # fs)" "free_list_linked d1"
    and v: "\<And>m. blk_valid d1 m = blk_valid d m"
    and r: "\<And>m. blk_valid d m \<Longrightarrow> m \<noteq> FREE_LIST_BLOCK \<Longrightarrow> m \<noteq> x \<Longrightarrow> read_block m d1 = read_block m d"
    by (rule blockFree_step [OF Cons.prems(1,2), of x]) (use Cons.prems(3) in \<open>auto simp: owned_def\<close>)
  have se: "same_except d d1 {FREE_LIST_BLOCK, x}" using v r by (auto simp: same_except_def)
  have "\<forall>y \<in> set xs. owned d1 (x # fs) y" using Cons.prems(3,4) v by (auto simp: owned_def)
  then obtain ys left' d' where
    ih: "free_direct n' (length (pre @ [0])) ((pre @ [0]) @ xs @ post) (left - 1024) d1 = Some ((pre @ [0]) @ ys @ post, left', d')"
    "left' \<le> 0" "length ys = length xs" "free_list d' (rev xs @ x # fs)" "free_list_linked d'"
    "same_except d1 d' (insert FREE_LIST_BLOCK (set xs))"
    using Cons.IH [OF d1(2,3), of n' "left - 1024" "pre @ [0]"] Cons.prems(4-7) n by auto
  have upd: "(pre @ (x # xs) @ post)[length pre := 0] = (pre @ [0]) @ xs @ post" by simp
  have "free_direct n (length pre) (pre @ (x # xs) @ post) left d = Some (pre @ (0 # ys) @ post, left', d')"
    unfolding n using left d1(1) ih(1) upd by (simp del: append_Cons) (simp)
  moreover have "same_except d d' (insert FREE_LIST_BLOCK (set (x # xs)))"
    by (rule same_except_trans [OF se ih(6)]) auto
  ultimately show ?case using ih by (intro exI [of _ "0 # ys"] exI [of _ left'] exI [of _ d']) simp
qed

text \<open>The blocks of the file in the order in which they become free.\<close>

definition all_blocks :: "inCoreiNode \<Rightarrow> size_t list" where
  "all_blocks i = rev (take (blocks_for (unat (isize i))) (dataBlockNums i))"

lemma set_all_blocks: "set (all_blocks i) = file_blocks i"
  by (simp add: all_blocks_def file_blocks_def)

lemma blocks_for_bounds: "1024 * (int (blocks_for m) - 1) < int m" "int m \<le> 1024 * int (blocks_for m)"
proof -
  define q r where "q = blocks_for m" and "r = (m + 1023) mod 1024"
  have "m + 1023 = 1024 * q + r" "r < 1024" by (simp_all add: q_def r_def blocks_for_def)
  then have "1024 * (int q - 1) < int m" "int m \<le> 1024 * int q" by simp_all
  then show "1024 * (int (blocks_for m) - 1) < int m" "int m \<le> 1024 * int (blocks_for m)" by (simp_all add: q_def)
qed

lemma inodeBlocksFree_ok:
  assumes rep: "direct i d fs" and l: "free_list_linked d"
  obtains nums d' where "inodeBlocksFree i d = Some (i\<lparr> dataBlockNums := nums \<rparr>, d')" and "length nums = 13"
    and "free_list d' (all_blocks i @ fs)" and "free_list_linked d'"
    and "same_except d d' (insert FREE_LIST_BLOCK (file_blocks i))"
proof -
  let ?m = "unat (isize i)" and ?K = "blocks_for (unat (isize i))" and ?ns = "dataBlockNums i"
  have rep': "length ?ns = 13" "free_list d fs" "?K \<le> 10" "?m \<le> 1024 * ?K" "distinct (take ?K ?ns)" "\<forall>k < ?K. owned d fs (?ns ! k)"
    using rep by (auto simp: direct_def direct_file_def wf_inCore_def)
  have "sint (isize i) = int ?m" by (rule sint_small) (use rep'(3,4) in simp)
  moreover have "\<forall>x \<in> set (take ?K ?ns). owned d fs x" using rep'(6) by (auto simp: in_set_conv_nth)
  moreover have "1024 * (int ?K - 1) < int ?m" "int ?m \<le> 1024 * int ?K" by (rule blocks_for_bounds)+
  ultimately obtain ys left' d' where
    f: "free_direct 10 0 (take ?K ?ns @ drop ?K ?ns) (sint (isize i)) d = Some (ys @ drop ?K ?ns, left', d')" "left' \<le> 0"
    "length ys = ?K" "free_list d' (rev (take ?K ?ns) @ fs)" "free_list_linked d'"
    "same_except d d' (insert FREE_LIST_BLOCK (set (take ?K ?ns)))"
    using free_direct_ok [OF rep'(2) l, of "take ?K ?ns" 10 "int ?m" "[]" "drop ?K ?ns"] rep' by auto
  have "free_indirect 3 0 (ys @ drop ?K ?ns) left' d' = Some (ys @ drop ?K ?ns, left', d')"
    using f(2) by (simp add: eval_nat_numeral)
  then show thesis using that [of "ys @ drop ?K ?ns" d'] f rep'(1,3)
    by (simp add: inodeBlocksFree_def all_blocks_def file_blocks_def)
qed


lemma final_step_delete:
  assumes rep: "direct i d fs" and l: "free_list_linked d" and st: "inode_stack d (y # ys)" "length (y # ys) < INODE_NOS_PER_BLOCK"
    and i: "linksCount i = 0" "inode_number i \<noteq> 0" "inode_number i < NUM_OF_INODES" and num: "numbered d"
  defines "n \<equiv> inode_number i"
  shows "\<exists>nums d' x. final_step i d = Some (i\<lparr> dataBlockNums := nums \<rparr>, d') \<and> length nums = 13 \<and>
    free_list d' (all_blocks i @ fs) \<and> free_list_linked d' \<and> inode_stack d' (n # y # ys) \<and> numbered d' \<and>
    di_linksCount x = 0 \<and> (\<forall>m < NUM_OF_INODES. inode_at d' m = (if m = n then x else inode_at d m)) \<and>
    frames d fs (file_blocks i) d' (all_blocks i @ fs)"
proof -
  obtain nums d1 where b: "inodeBlocksFree i d = Some (i\<lparr> dataBlockNums := nums \<rparr>, d1)" "length nums = 13"
    and fl: "free_list d1 (all_blocks i @ fs)" and l1: "free_list_linked d1"
    and se: "same_except d d1 (insert FREE_LIST_BLOCK (file_blocks i))"
    by (rule inodeBlocksFree_ok [OF rep l])
  have ok: "meta_ok d" "meta_ok d1" using num fl by (auto simp: numbered_def elim: free_listE)
  have ds: "data_step d d1"
    using se meta_okD(1) [OF ok(2)] direct_not_free(2) [OF rep] by (auto simp: data_step_def same_except_def)
  note st1 = data_step_stack [OF ds ok(1) st(1)]
  let ?x = "assigned T_FREE 0 0 0 d1 (inode_at d1 n)"
  let ?d2 = "put_inode n ?x d1"
  have n: "n < NUM_OF_INODES" "n \<noteq> 0" using i by (simp_all add: n_def)
  obtain lb where lb: "length lb = BLOCK_SIZE" "freeINode n d1 = Some (put_block INODE_LIST_BLOCK lb ?d2)"
    "inode_stack (put_block INODE_LIST_BLOCK lb ?d2) (n # y # ys)"
    by (rule freeINode_eq [OF ok(2) st1 st(2) n])
  let ?d3 = "put_block INODE_LIST_BLOCK lb ?d2"
  have wf: "wf_iNode ?x" by (simp add: wf_inode_at)
  note li = list_and_inode [OF ok(2) wf n(1) lb(1)]
  have ok2: "meta_ok ?d2" using ok(2) n(1) wf by (simp add: disk_simps)
  have ms: "meta_step d1 ?d3"
    using meta_step_trans [OF meta_step_put_inode [OF ok(2) n(1) wf] meta_step_put [OF meta_okD(1) [OF ok2] lb(1)]] by simp
  have at: "inode_at ?d3 m = (if m = n then ?x else inode_at d m)" if "m < NUM_OF_INODES" for m
    using li(2) [OF that] data_step_inode [OF ds ok(1) that] by simp
  have x: "di_inode_number ?x = n" "di_linksCount ?x = 0"
    using num n(1) data_step_inode [OF ds ok(1) n(1)] by (simp_all add: assigned_def numbered_def)
  have nd: "numbered ?d3" using num li(1) at x(1) by (auto simp: numbered_def)
  have "frames d fs (file_blocks i) d1 (all_blocks i @ fs)" by (rule frames_same [OF se fl]) (simp add: set_all_blocks)
  then have fr: "frames d fs (file_blocks i) ?d3 (all_blocks i @ fs)" by (rule frames_trans [OF _ frames_meta [OF ms, of _ "{}"]]) simp
  have run: "final_step i d = Some (i\<lparr> dataBlockNums := nums \<rparr>, ?d3)"
    using b(1) i lb(2) by (simp add: final_step_def n_def)
  show ?thesis
    using run b(2) meta_step_free_list [OF ms fl] meta_step_linked [OF ms ok(2)] l1 lb(3) nd x(2) at fr
    by (intro exI [of _ nums] exI [of _ ?d3] exI [of _ ?x]) simp
qed

text \<open>\<open>iput\<close> of the only reference to an inode without links.\<close>

lemma iput_delete:
  assumes w: "well s" and h: "holds s p n" and r: "refs s n = 1" and n0: "n \<noteq> 0" "di_linksCount (inode_view s n) = 0"
    and rep: "direct (core s p) (disk s) fs" and l: "free_list_linked (disk s)"
    and st: "inode_stack (disk s) (y # ys)" "length (y # ys) < INODE_NOS_PER_BLOCK"
  shows "\<exists>s' x. iput p s = Some (0, s') \<and> touches s n 0 x s' \<and> di_linksCount x = 0 \<and>
    free_list (disk s') (all_blocks (core s p) @ fs) \<and> free_list_linked (disk s') \<and> inode_stack (disk s') (n # y # ys) \<and>
    frames (disk s) fs (file_blocks (core s p)) (disk s') (all_blocks (core s p) @ fs)"
proof -
  obtain fl hq where inv: "cache_inv s fl hq" and co: "coherent s hq" and p: "p \<in> set hq" "p < 32" "n < NUM_OF_INODES"
    and n: "inode_number (core s p) = n" and rc: "reference_count (core s p) = refs s n"
    and data: "getDiskINodeData (core s p) = inode_view s n" and un: "\<not> iNodeMutex (core s p)" and wf: "wf_inCore (core s p)"
    using holdsE [OF w h] by metis
  note D = cache_invD [OF inv]
  let ?i = "(released (core s p))\<lparr> iNodeMutex := True \<rparr>" and ?d = "written_back (core s p) (disk s)"
  have nd: "numbered (disk s)" and ok: "meta_ok (disk s)" using inv by (auto simp: cache_inv_def numbered_def)
  have wb: "meta_step (disk s) ?d"
    using meta_step_put_inode [OF ok p(3) wf_getDiskINodeData] meta_step_refl meta_okD(1) [OF ok] n by (simp add: written_back_def)
  have same: "dataBlockNums ?i = dataBlockNums (core s p)" "isize ?i = isize (core s p)" by (simp_all add: released_def)
  note sc = same_contents [OF same]
  have rep': "direct ?i ?d fs" unfolding sc by (rule meta_step_direct(1) [OF wb rep])
  have l': "free_list_linked ?d" using meta_step_linked [OF wb ok] l by simp
  have st': "inode_stack ?d (y # ys)"
    using inode_stack_put_inode [OF ok p(3) wf_getDiskINodeData st(1)] st(1) n by (simp add: written_back_def)
  have links: "linksCount (core s p) = 0" using n0(2) by (simp flip: data)
  have nd': "numbered ?d" using numbered_written_back [OF nd] n p(3) by simp
  have all: "all_blocks ?i = all_blocks (core s p)" by (simp add: all_blocks_def same)
  obtain nums d' x where fs: "final_step ?i ?d = Some (?i\<lparr> dataBlockNums := nums \<rparr>, d')" "length nums = 13"
    and fl': "free_list d' (all_blocks (core s p) @ fs)" and ld: "free_list_linked d'" and sd: "inode_stack d' (n # y # ys)"
    and ndd: "numbered d'" and x: "di_linksCount x = 0"
    and at: "\<forall>m < NUM_OF_INODES. inode_at d' m = (if m = n then x else inode_at ?d m)"
    and fr: "frames ?d fs (file_blocks (core s p)) d' (all_blocks (core s p) @ fs)"
    using final_step_delete [OF rep' l' st' st(2) _ _ _ nd'] links n0(1) p(3) n all sc(5) by (auto simp: released_def)
  let ?j = "?i\<lparr> dataBlockNums := nums, iNodeMutex := False \<rparr>"
  obtain s' where s': "iput p s = Some (0, s')" "disk s' = d'" "cache_step s s' p ?j (fl @ [p]) hq"
    using iput_end [OF inv p(1) _ fs(1)] rc r by (auto simp: released_def)
  have hqp: "set hq = insert p (set hq)" using p(1) by auto
  have key: "\<forall>q \<in> set hq - {p}. inode_number (core s q) \<noteq> inode_number ?j"
    using D(3) p(1) by (auto simp: inj_on_def node_key_core released_def)
  have inv': "cache_inv s' (fl @ [p]) hq"
    by (rule cache_inv_step [OF inv s'(3) p(2)])
      (use D(4) p(3) n hqp key s'(2) ndd fs(2) in \<open>auto simp: released_def wf_inCore_def\<close>)
  have wbat: "inode_at ?d m = inode_at (disk s) m" if "m < NUM_OF_INODES" "m \<noteq> n" for m
    using inode_at_put_inode [OF ok p(3) that(1) wf_getDiskINodeData] that(2) n by (simp add: written_back_def)
  have d: "inode_at (disk s') m = inode_at (disk s) m" if "m < NUM_OF_INODES" "m \<noteq> n" for m
    using at that wbat s'(2) by simp
  have co': "coherent s' hq"
    by (rule coherent_step [OF inv co s'(3) hqp key]) (use d n links in \<open>auto simp: released_def\<close>)
  have t: "touches s n (reference_count ?j) x s'"
    by (rule step_touches(1) [OF inv inv' co' s'(3) hqp _ _ d]) (use p n at s'(2) in \<open>auto simp: released_def\<close>)
  moreover have "frames (disk s) fs (file_blocks (core s p)) d' (all_blocks (core s p) @ fs)"
    by (rule frames_trans [OF frames_meta [OF wb, of fs "{}"] fr]) simp
  ultimately show ?thesis using s'(1,2) x fl' ld sd by (auto simp: released_def)
qed

end
