(* ===== verification/Consistency.thy ===== *)
theory Consistency
  imports Unlink
begin

text \<open>
  What the file system as a whole promises.  \<open>afs\<close> is the abstract file system: a map from inode numbers to
  attributes and contents, a sequence of bytes or a map from names to inode numbers.  \<open>abs_fs\<close> reads it off a
  state of the program, cache and disk together.  \<open>consistent\<close> is the global invariant: every inode in use is
  stored in blocks of its own, none of them on the free list, directories are in order and lead to inodes in use,
  and the inodes listed as free are not in use.  The theory shows that a running file system starts in a consistent
  state and that the operations keep it and do to the abstract file system what they should.
\<close>

section \<open>The abstract file system\<close>

datatype content = Bytes "byte list" | Folder "cstring \<rightharpoonup> size_t"

record anode =
  a_mode :: mode_t
  a_uid :: uid_t
  a_gid :: gid_t
  a_links :: size_t
  a_content :: content

type_synonym afs = "size_t \<rightharpoonup> anode"

record afile =
  o_inode :: size_t
  o_flags :: "32 word"
  o_offset :: size_t

type_synonym afiles = "nat \<rightharpoonup> afile"

definition folder_at :: "afs \<Rightarrow> size_t \<Rightarrow> (cstring \<rightharpoonup> size_t) option" where
  "folder_at a n = (case a n of Some x \<Rightarrow> (case a_content x of Folder t \<Rightarrow> Some t | Bytes _ \<Rightarrow> None) | None \<Rightarrow> None)"

text \<open>The inode a path leads to, and whether the walk meets directories only.\<close>

primrec path_to :: "afs \<Rightarrow> cstring list \<Rightarrow> size_t \<Rightarrow> size_t option" where
  "path_to a [] n = Some n"
| "path_to a (c # cs) n =
     (case folder_at a n of None \<Rightarrow> None | Some t \<Rightarrow> (case t c of None \<Rightarrow> None | Some k \<Rightarrow> path_to a cs k))"

primrec folders_on :: "afs \<Rightarrow> cstring list \<Rightarrow> size_t \<Rightarrow> bool" where
  "folders_on a [] n = True"
| "folders_on a (c # cs) n \<longleftrightarrow>
     (case folder_at a n of None \<Rightarrow> False | Some t \<Rightarrow> (case t c of None \<Rightarrow> True | Some k \<Rightarrow> folders_on a cs k))"

text \<open>The root is a directory and the entries of directories lead to inodes that exist.\<close>

definition closed :: "afs \<Rightarrow> bool" where
  "closed a \<longleftrightarrow> folder_at a 0 \<noteq> None \<and> (\<forall>n t. folder_at a n = Some t \<longrightarrow> ran t \<subseteq> dom a)"

section \<open>The state of the program as an abstract file system\<close>

definition used :: "fs \<Rightarrow> size_t \<Rightarrow> bool" where
  "used s n \<longleftrightarrow> n < NUM_OF_INODES \<and> (n = 0 \<or> di_linksCount (inode_view s n) \<noteq> 0)"

abbreviation bytes_of :: "fs \<Rightarrow> size_t \<Rightarrow> byte list" where
  "bytes_of s n \<equiv> file_bytes (dir_view s n) (disk s)"

abbreviation entries_of :: "fs \<Rightarrow> size_t \<Rightarrow> entry list" where
  "entries_of s n \<equiv> dir_entries (dir_view s n) (disk s)"

abbreviation blocks_of :: "fs \<Rightarrow> size_t \<Rightarrow> size_t set" where
  "blocks_of s n \<equiv> file_blocks (dir_view s n)"

definition node_of :: "fs \<Rightarrow> size_t \<Rightarrow> anode" where
  "node_of s n = \<lparr> a_mode = di_file_mode (inode_view s n), a_uid = di_owner_uid (inode_view s n),
     a_gid = di_group_uid (inode_view s n), a_links = di_linksCount (inode_view s n),
     a_content = (if di_type (inode_view s n) = T_DIRECTORY then Folder (lookup_entry (entries_of s n))
                  else Bytes (bytes_of s n)) \<rparr>"

definition abs_fs :: "fs \<Rightarrow> afs" where
  "abs_fs s n = (if used s n then Some (node_of s n) else None)"

text \<open>The open files, and the descriptors that are open on an inode.\<close>

definition abs_files :: "fs \<Rightarrow> afiles" where
  "abs_files s k = (if k < MAX_FILE_DESCRIPTORS \<and> validEntry (fileTable s ! k)
     then Some \<lparr> o_inode = inode_number (core s (f_inode (fileTable s ! k))), o_flags = f_flags (fileTable s ! k),
       o_offset = f_offset (fileTable s ! k) \<rparr>
     else None)"

definition opens :: "afiles \<Rightarrow> size_t \<Rightarrow> nat set" where
  "opens t n = {k. \<exists>x. t k = Some x \<and> o_inode x = n}"

section \<open>Consistent states\<close>

text \<open>An inode in use: its blocks are in place, and a directory is in order and names nothing twice.\<close>

definition sound :: "fs \<Rightarrow> size_t list \<Rightarrow> size_t \<Rightarrow> bool" where
  "sound s fs n \<longleftrightarrow> direct (dir_view s n) (disk s) fs \<and>
     (di_type (inode_view s n) = T_DIRECTORY \<longrightarrow>
        good_dir (dir_view s n) (disk s) \<and> distinct (map fst (entries_of s n)))"

text \<open>
  The table of open files: every descriptor points to a node that holds its inode, the root is not open, and the
  references to an inode are its descriptors.
\<close>

definition tabled :: "fs \<Rightarrow> bool" where
  "tabled s \<longleftrightarrow> wf_table (fileTable s) \<and> (\<forall>n. refs s n = of_nat (card (opens (abs_files s) n))) \<and>
     (\<forall>k x. abs_files s k = Some x \<longrightarrow>
        o_inode x \<noteq> 0 \<and> used s (o_inode x) \<and> holds s (f_inode (fileTable s ! k)) (o_inode x))"

definition consistent :: "fs \<Rightarrow> size_t list \<Rightarrow> size_t list \<Rightarrow> bool" where
  "consistent s fs nums \<longleftrightarrow> idle s s \<and> tabled s \<and> inode_stack (disk s) nums \<and> distinct nums \<and>
     (\<forall>n \<in> set nums. n < NUM_OF_INODES \<and> di_linksCount (inode_view s n) = 0) \<and>
     (\<forall>n. used s n \<longrightarrow> sound s fs n) \<and>
     (\<forall>n k. used s n \<longrightarrow> used s k \<longrightarrow> n \<noteq> k \<longrightarrow> blocks_of s n \<inter> blocks_of s k = {}) \<and> closed (abs_fs s)"

lemma used_zero [simp]: "used s 0"
  by (simp add: used_def)

lemma used_less: "used s n \<Longrightarrow> n < NUM_OF_INODES"
  by (simp add: used_def)

lemma finite_opens: "finite (opens (abs_files s) n)"
  by (rule finite_subset [of _ "{..<10000}"]) (auto simp: opens_def abs_files_def split: if_splits)

lemma tabled_refs:
  assumes "tabled s"
  shows "refs s 0 = 0" and "\<not> used s n \<Longrightarrow> refs s n = 0" and "refs s n = 0 \<Longrightarrow> opens (abs_files s) n = {}"
proof -
  have "opens (abs_files s) 0 = {}" "\<not> used s n \<Longrightarrow> opens (abs_files s) n = {}" using assms by (auto simp: tabled_def opens_def)
  then show "refs s 0 = 0" "\<not> used s n \<Longrightarrow> refs s n = 0" using assms by (simp_all add: tabled_def)
  show "opens (abs_files s) n = {}" if "refs s n = 0"
  proof (rule ccontr)
    assume "opens (abs_files s) n \<noteq> {}"
    then obtain k x where "abs_files s k = Some x" "o_inode x = n" by (auto simp: opens_def)
    then have "holds s (f_inode (fileTable s ! k)) n" using assms by (auto simp: tabled_def)
    then show False using that holds_refs_nonzero by blast
  qed
qed

lemma consistentD:
  assumes "consistent s fs nums"
  shows "idle s s" "refs s 0 = 0" "inode_stack (disk s) nums" "distinct nums"
    "n \<in> set nums \<Longrightarrow> n < NUM_OF_INODES \<and> di_linksCount (inode_view s n) = 0 \<and> refs s n = 0"
    "used s n \<Longrightarrow> direct (dir_view s n) (disk s) fs"
    "used s n \<Longrightarrow> di_type (inode_view s n) = T_DIRECTORY \<Longrightarrow> good_dir (dir_view s n) (disk s)"
    "used s n \<Longrightarrow> di_type (inode_view s n) = T_DIRECTORY \<Longrightarrow> distinct (map fst (entries_of s n))"
    "used s n \<Longrightarrow> used s k \<Longrightarrow> n \<noteq> k \<Longrightarrow> blocks_of s n \<inter> blocks_of s k = {}"
    "closed (abs_fs s)" "tabled s"
proof -
  have t: "tabled s" using assms by (simp add: consistent_def)
  note T = tabled_refs [OF t]
  show "n \<in> set nums \<Longrightarrow> n < NUM_OF_INODES \<and> di_linksCount (inode_view s n) = 0 \<and> refs s n = 0"
    using assms T(1) T(2) [of n] by (auto simp: consistent_def used_def)
qed (use assms tabled_refs(1) in \<open>simp_all add: consistent_def sound_def\<close>)

lemma folder_at_abs:
  "folder_at (abs_fs s) n =
     (if used s n \<and> di_type (inode_view s n) = T_DIRECTORY then Some (lookup_entry (entries_of s n)) else None)"
  by (simp add: folder_at_def abs_fs_def node_of_def)

text \<open>Walks over the abstract file system are the walks over the directories on the disk.\<close>

lemma lookup_folder:
  assumes "consistent s fs nums" and "folder_at (abs_fs s) n = Some t"
  shows "lookup_name s n = t" and "is_dir s n"
proof -
  have n: "used s n" "di_type (inode_view s n) = T_DIRECTORY" and t: "t = lookup_entry (entries_of s n)"
    using assms(2) by (auto simp: folder_at_abs split: if_splits)
  note gd = consistentD(7) [OF assms(1) n]
  show "lookup_name s n = t" using lookup_name_entries [OF gd] t by (simp add: fun_eq_iff)
  have "isize (dir_view s n) = di_size (inode_view s n)" by (simp add: dir_view_def insertDiskInodeData_def)
  then show "is_dir s n" using good_dir_ok [OF gd] n(1) by (auto simp: is_dir_def keeps_def used_def)
qed

lemma walk_abs:
  assumes "consistent s fs nums" and "folders_on (abs_fs s) cs n"
  shows "dirs_on s cs n" and "lookup_path s cs n = path_to (abs_fs s) cs n"
  using assms(2)
proof (induction cs arbitrary: n)
  case (Cons c cs)
  {
    case 1
    then obtain t where t: "folder_at (abs_fs s) n = Some t" by (auto split: option.splits)
    then show ?case using 1 Cons.IH lookup_folder [OF assms(1) t] by (auto split: option.splits)
  next
    case 2
    then obtain t where t: "folder_at (abs_fs s) n = Some t" by (auto split: option.splits)
    then show ?case using 2 Cons.IH lookup_folder [OF assms(1) t] by (auto split: option.splits)
  }
qed simp_all

lemma path_to_used:
  assumes "consistent s fs nums" and "used s n" and "path_to (abs_fs s) cs n = Some k"
  shows "used s k"
  using assms(2,3)
proof (induction cs arbitrary: n)
  case (Cons c cs)
  then obtain t j where t: "folder_at (abs_fs s) n = Some t" "t c = Some j" and k: "path_to (abs_fs s) cs j = Some k"
    by (auto split: option.splits)
  have "j \<in> ran t" using t(2) by (auto simp: ran_def)
  then have "j \<in> dom (abs_fs s)" using consistentD(10) [OF assms(1)] t(1) by (auto simp: closed_def)
  then have "used s j" by (auto simp: abs_fs_def split: if_splits)
  then show ?case using Cons.IH k by blast
qed simp

text \<open>A path on which the operations below can run, in terms of the abstract file system.\<close>

definition valid_path :: "afs \<Rightarrow> cstring \<Rightarrow> size_t \<Rightarrow> bool" where
  "valid_path a path n \<longleftrightarrow> folders_on a (names path) 0 \<and> path_to a (names path) 0 = Some n \<and> 0 \<notin> set path"

lemma valid_pathD:
  assumes "consistent s fs nums" and "valid_path (abs_fs s) path n"
  shows "good_path s path" and "lookup_path s (names path) 0 = Some n" and "changeable s n" and "used s n"
proof -
  have f: "folders_on (abs_fs s) (names path) 0" "path_to (abs_fs s) (names path) 0 = Some n" "0 \<notin> set path"
    using assms(2) by (auto simp: valid_path_def)
  show "good_path s path" using walk_abs(1) [OF assms(1) f(1)] consistentD(1) [OF assms(1)] f(3) by (simp add: good_path_def)
  show "lookup_path s (names path) 0 = Some n" using walk_abs(2) [OF assms(1) f(1)] f(2) by simp
  show u: "used s n" using path_to_used [OF assms(1) _ f(2)] by simp
  show "changeable s n" using u consistentD(2) [OF assms(1)] by (auto simp: changeable_def used_def)
qed

section \<open>Changes to a few inodes\<close>

text \<open>The inodes outside \<open>N\<close> and their blocks stay as they are.\<close>

definition outside :: "fs \<Rightarrow> size_t list \<Rightarrow> size_t set \<Rightarrow> fs \<Rightarrow> size_t list \<Rightarrow> bool" where
  "outside s fs N s' fs' \<longleftrightarrow> idle s' s' \<and>
     (\<forall>k < NUM_OF_INODES. k \<notin> N \<longrightarrow> inode_view s' k = inode_view s k) \<and>
     frames (disk s) fs (\<Union>n \<in> {n \<in> N. used s n}. blocks_of s n) (disk s') fs'"

text \<open>In addition no file is opened or closed.\<close>

definition confined :: "fs \<Rightarrow> size_t list \<Rightarrow> size_t set \<Rightarrow> fs \<Rightarrow> size_t list \<Rightarrow> bool" where
  "confined s fs N s' fs' \<longleftrightarrow> outside s fs N s' fs' \<and> fileTable s' = fileTable s \<and> pinned s s' \<and> (\<forall>k. refs s' k = refs s k)"

lemma confined_outside: "confined s fs N s' fs' \<Longrightarrow> outside s fs N s' fs'"
  by (simp add: confined_def)

lemma good_dir_same:
  assumes "good_dir i d" and "direct i d' fs" and "file_bytes i d' = file_bytes i d"
  shows "good_dir i d'"
  using assms direct_file_ok [of i d' fs] by (simp add: good_dir_def dir_entries_def direct_def)

lemma outside_other:
  assumes con: "consistent s fs nums" and cf: "outside s fs N s' fs'" and k: "k \<notin> N" "k < NUM_OF_INODES"
  shows "used s' k = used s k" and "blocks_of s' k = blocks_of s k"
    and "used s k \<Longrightarrow> sound s' fs' k" and "abs_fs s' k = abs_fs s k"
proof -
  have v: "inode_view s' k = inode_view s k" using cf k by (simp add: outside_def)
  then have dv: "dir_view s' k = dir_view s k" by (simp add: dir_view_def)
  show u: "used s' k = used s k" and "blocks_of s' k = blocks_of s k" by (simp_all add: used_def v dv)
  have fr: "direct (dir_view s k) (disk s') fs'" "bytes_of s' k = bytes_of s k" if "used s k"
  proof -
    have "blocks_of s k \<inter> (\<Union>n \<in> {n \<in> N. used s n}. blocks_of s n) = {}"
      using consistentD(9) [OF con that] k(1) by blast
    then show "direct (dir_view s k) (disk s') fs'" "bytes_of s' k = bytes_of s k"
      using framesD [of "disk s" fs _ "disk s'" fs'] cf consistentD(6) [OF con that] unfolding outside_def dv by blast+
  qed
  have es: "entries_of s' k = entries_of s k" if "used s k" using fr(2) [OF that] by (simp add: dir_entries_def)
  show "sound s' fs' k" if "used s k"
    using fr [OF that] es [OF that] consistentD(7,8) [OF con that] good_dir_same [of "dir_view s k" "disk s" "disk s'" fs'] v dv
    by (simp add: sound_def)
  show "abs_fs s' k = abs_fs s k" using u fr(2) es v by (simp add: abs_fs_def node_of_def)
qed

lemma abs_outside:
  assumes "consistent s fs nums" and "outside s fs N s' fs'" and "N \<subseteq> {n. n < NUM_OF_INODES}"
  shows "abs_fs s' = (\<lambda>k. if k \<in> N then abs_fs s' k else abs_fs s k)"
proof
  fix k
  show "abs_fs s' k = (if k \<in> N then abs_fs s' k else abs_fs s k)"
  proof (cases "k < NUM_OF_INODES")
    case True
    then show ?thesis using outside_other(4) [OF assms(1,2)] by simp
  next
    case False
    then show ?thesis by (simp add: abs_fs_def used_def)
  qed
qed

text \<open>All blocks that are free or belong to an inode in use.\<close>

definition stock :: "fs \<Rightarrow> size_t list \<Rightarrow> size_t set" where
  "stock s fs = set fs \<union> (\<Union>n \<in> {n. used s n}. blocks_of s n)"

abbreviation blocks_in :: "fs \<Rightarrow> size_t set \<Rightarrow> size_t set" where
  "blocks_in s N \<equiv> (\<Union>n \<in> {n \<in> N. used s n}. blocks_of s n)"

lemma outside_stock:
  assumes con: "consistent s fs nums" and out: "outside s fs N s' fs'"
    and eq: "set fs' \<union> blocks_in s' N = set fs \<union> blocks_in s N"
  shows "stock s' fs' = stock s fs"
proof -
  have split: "stock t xs = (set xs \<union> blocks_in t N) \<union> blocks_in t (- N)" for t xs by (auto simp: stock_def)
  note O = outside_other(1,2) [OF con out]
  have "{n \<in> - N. used s' n} = {n \<in> - N. used s n}" using O(1) used_less by blast
  then have "blocks_in s' (- N) = blocks_in s (- N)"
    by (rule SUP_cong) (use O(2) used_less in blast)
  then show ?thesis unfolding split eq by simp
qed

lemma holds_number: "well s \<Longrightarrow> holds s p n \<Longrightarrow> inode_number (core s p) = n"
  using holdsE by metis

lemma outside_consistent:
  assumes con: "consistent s fs nums" and cf: "outside s fs N s' fs'"
    and N: "\<And>n. n \<in> N \<Longrightarrow> used s' n \<Longrightarrow> sound s' fs' n"
      "set fs' \<union> blocks_in s' N = set fs \<union> blocks_in s N"
      "\<And>n k. n \<in> N \<Longrightarrow> k \<in> N \<Longrightarrow> n \<noteq> k \<Longrightarrow> used s' n \<Longrightarrow> used s' k \<Longrightarrow> blocks_of s' n \<inter> blocks_of s' k = {}"
    and st: "inode_stack (disk s') nums'" "distinct nums'"
      "\<And>n. n \<in> set nums' \<Longrightarrow> n < NUM_OF_INODES \<and> di_linksCount (inode_view s' n) = 0"
    and cl: "closed (abs_fs s')" and tab: "tabled s'"
  shows "consistent s' fs' nums'"
proof -
  note O = outside_other [OF con cf]
  have mixed: "blocks_of s' n \<inter> blocks_of s' k = {}" if n: "n \<in> N" "used s' n" and k: "k \<notin> N" "used s' k" for n k
  proof -
    have u: "used s k" and b: "blocks_of s' k = blocks_of s k" using O(1,2) [OF k(1)] used_less [OF k(2)] k(2) by auto
    have "x \<notin> blocks_of s k" if "x \<in> blocks_of s' n" for x
      using N(2) n that consistentD(9) [OF con u] k(1) direct_not_free(1) [OF consistentD(6) [OF con u], of x] by blast
    then show ?thesis using b by blast
  qed
  have "blocks_of s' n \<inter> blocks_of s' k = {}" if "used s' n" "used s' k" "n \<noteq> k" for n k
  proof (cases "n \<in> N \<or> k \<in> N")
    case True
    then show ?thesis using N(3) mixed that by blast
  next
    case False
    then have "used s n" "used s k" "blocks_of s' n = blocks_of s n" "blocks_of s' k = blocks_of s k"
      using O(1,2) used_less that(1,2) by blast+
    then show ?thesis using consistentD(9) [OF con _ _ that(3)] by simp
  qed
  moreover have "sound s' fs' n" if "used s' n" for n
    using N(1) O(1,3) used_less [OF that] that by blast
  ultimately show ?thesis using cf st cl tab by (auto simp: consistent_def outside_def)
qed

lemma confined_tabled:
  assumes con: "consistent s fs nums" and cf: "confined s fs N s' fs'"
    and N: "\<And>n. n \<in> N \<Longrightarrow> used s n \<Longrightarrow> refs s n \<noteq> 0 \<Longrightarrow> used s' n"
  shows "tabled s'" and "abs_files s' = abs_files s"
proof -
  note t = consistentD(11) [OF con, unfolded tabled_def]
  have out: "outside s fs N s' fs'" and w': "well s'" using cf idleD(1) by (auto simp: confined_def outside_def)
  have node: "holds s' (f_inode (fileTable s ! k)) (o_inode x)" if "abs_files s k = Some x" for k x
    using cf t that by (auto simp: confined_def pinned_def)
  show f: "abs_files s' = abs_files s"
  proof
    fix k
    show "abs_files s' k = abs_files s k"
    proof (cases "abs_files s k")
      case None
      then show ?thesis using cf by (auto simp: abs_files_def confined_def split: if_splits)
    next
      case (Some x)
      moreover have "inode_number (core s' (f_inode (fileTable s ! k))) = o_inode x"
        using holds_number [OF w' node [OF Some]] .
      ultimately show ?thesis using cf by (auto simp: abs_files_def confined_def split: if_splits)
    qed
  qed
  have "used s' (o_inode x)" if "abs_files s k = Some x" for k x
  proof -
    have u: "used s (o_inode x)" "refs s (o_inode x) \<noteq> 0" using t that holds_refs_nonzero by blast+
    then show ?thesis using N outside_other(1) [OF con out _ used_less] by blast
  qed
  then show "tabled s'" using t node cf unfolding tabled_def f by (auto simp: confined_def)
qed

lemma confined_consistent:
  assumes con: "consistent s fs nums" and cf: "confined s fs N s' fs'"
    and N: "\<And>n. n \<in> N \<Longrightarrow> used s' n \<Longrightarrow> sound s' fs' n"
      "set fs' \<union> blocks_in s' N = set fs \<union> blocks_in s N"
      "\<And>n k. n \<in> N \<Longrightarrow> k \<in> N \<Longrightarrow> n \<noteq> k \<Longrightarrow> used s' n \<Longrightarrow> used s' k \<Longrightarrow> blocks_of s' n \<inter> blocks_of s' k = {}"
      "\<And>n. n \<in> N \<Longrightarrow> used s n \<Longrightarrow> refs s n \<noteq> 0 \<Longrightarrow> used s' n"
    and st: "inode_stack (disk s') nums'" "distinct nums'"
      "\<And>n. n \<in> set nums' \<Longrightarrow> n < NUM_OF_INODES \<and> di_linksCount (inode_view s' n) = 0"
    and cl: "closed (abs_fs s')"
  shows "consistent s' fs' nums'"
proof -
  have "outside s fs N s' fs'" using cf by (simp add: confined_def)
  then show ?thesis by (rule outside_consistent [OF con _ N(1-3) st cl confined_tabled(1) [OF con cf N(4)]])
qed

section \<open>Operations on the abstract file system\<close>

definition a_create :: "size_t \<Rightarrow> cstring \<Rightarrow> size_t \<Rightarrow> anode \<Rightarrow> afs \<Rightarrow> afs" where
  "a_create n f k x a =
     (case a n of
        Some y \<Rightarrow> (case a_content y of
            Folder t \<Rightarrow> a(n \<mapsto> y\<lparr> a_content := Folder (t(f \<mapsto> k)) \<rparr>, k \<mapsto> x)
          | Bytes _ \<Rightarrow> a)
      | None \<Rightarrow> a)"

definition a_update :: "size_t \<Rightarrow> (anode \<Rightarrow> anode) \<Rightarrow> afs \<Rightarrow> afs" where
  "a_update n f a = (case a n of None \<Rightarrow> a | Some x \<Rightarrow> a(n \<mapsto> f x))"

definition a_resize :: "nat \<Rightarrow> anode \<Rightarrow> anode" where
  "a_resize k x = (case a_content x of Bytes bs \<Rightarrow> x\<lparr> a_content := Bytes (sized k bs) \<rparr> | Folder _ \<Rightarrow> x)"

definition a_chmod :: "mode_t \<Rightarrow> anode \<Rightarrow> anode" where
  "a_chmod mode x = x\<lparr> a_mode := (case a_content x of Folder _ \<Rightarrow> S_IFDIR OR mode | Bytes _ \<Rightarrow> mode) \<rparr>"

definition a_chown :: "uid_t \<Rightarrow> gid_t \<Rightarrow> anode \<Rightarrow> anode" where
  "a_chown uid gid x = x\<lparr> a_uid := (if uid = - 1 then a_uid x else uid), a_gid := (if gid = - 1 then a_gid x else gid) \<rparr>"

lemma folder_at_upd:
  "folder_at (a(n \<mapsto> x)) k = (if k = n then (case a_content x of Folder t \<Rightarrow> Some t | Bytes _ \<Rightarrow> None) else folder_at a k)"
  by (simp add: folder_at_def)

lemma closed_update:
  assumes "closed a" and "\<And>x t. a n = Some x \<Longrightarrow> a_content x = Folder t \<Longrightarrow> a_content (f x) = Folder t"
    and "\<And>x bs. a n = Some x \<Longrightarrow> a_content x = Bytes bs \<Longrightarrow> \<exists>bs'. a_content (f x) = Bytes bs'"
  shows "closed (a_update n f a)"
proof (cases "a n")
  case (Some x)
  have "folder_at (a_update n f a) k = folder_at a k" for k
    using Some assms(2,3) [OF Some]
    by (cases "a_content x") (force simp: a_update_def folder_at_upd folder_at_def)+
  moreover have "dom (a_update n f a) = dom a" using Some by (auto simp: a_update_def)
  ultimately show ?thesis using assms(1) by (simp add: closed_def)
qed (use assms(1) in \<open>simp add: a_update_def\<close>)

lemma closed_create:
  assumes "closed a" and "a k = None" and "folder_at a n = Some t"
    and "\<And>t'. a_content x = Folder t' \<Longrightarrow> ran t' \<subseteq> {n, k}"
  shows "closed (a_create n f k x a)"
proof -
  obtain y where y: "a n = Some y" "a_content y = Folder t"
    using assms(3) by (auto simp: folder_at_def split: option.splits content.splits)
  have nk: "n \<noteq> k" using y(1) assms(2) by auto
  have e: "a_create n f k x a = a(n \<mapsto> y\<lparr> a_content := Folder (t(f \<mapsto> k)) \<rparr>, k \<mapsto> x)" using y by (simp add: a_create_def)
  have d: "dom (a_create n f k x a) = insert k (dom a)" "n \<in> dom a" using y(1) by (auto simp: e)
  have "folder_at (a_create n f k x a) 0 \<noteq> None"
    using assms(1,2) nk by (auto simp: e folder_at_upd closed_def) (auto simp: folder_at_def)
  moreover have "ran u \<subseteq> dom (a_create n f k x a)" if u: "folder_at (a_create n f k x a) j = Some u" for j u
  proof -
    have "ran (t(f \<mapsto> k)) \<subseteq> insert k (ran t)" by (auto simp: ran_def split: if_splits)
    moreover have "ran t \<subseteq> dom a" using assms(1,3) by (auto simp: closed_def)
    moreover have "ran u \<subseteq> dom a" if "folder_at a j = Some u" using assms(1) that by (auto simp: closed_def)
    ultimately show ?thesis using u assms(4) d by (auto simp: e folder_at_upd split: if_splits content.splits)
  qed
  ultimately show ?thesis by (simp add: closed_def)
qed

section \<open>Operations on one inode\<close>

lemma one_changed:
  assumes con: "consistent s fs nums" and u: "used s n" and m: "modified s n x s'"
    and x: "di_linksCount x = di_linksCount (inode_view s n)"
    and fr: "frames (disk s) fs (blocks_of s n) (disk s') fs'" and snd: "sound s' fs' n"
    and bl: "set fs' \<union> blocks_of s' n = set fs \<union> blocks_of s n" and st: "\<And>xs. inode_stack (disk s) xs \<Longrightarrow> inode_stack (disk s') xs"
    and f: "node_of s' n = f (node_of s n)" and cl: "closed (a_update n f (abs_fs s))"
  shows "consistent s' fs' nums" and "abs_fs s' = a_update n f (abs_fs s)" and "abs_files s' = abs_files s"
    and "stock s' fs' = stock s fs"
proof -
  have v: "inode_view s' n = x" using m used_less [OF u] by (simp add: modified_def)
  have u': "used s' n" using u x v by (simp add: used_def)
  have N: "{k \<in> {n}. used s k} = {n}" "{k \<in> {n}. used s' k} = {n}" using u u' by auto
  have cf: "confined s fs {n} s' fs'" using m fr unfolding confined_def outside_def N by (simp add: modified_def)
  have "abs_fs s' = (\<lambda>k. if k \<in> {n} then abs_fs s' k else abs_fs s k)"
    by (rule abs_outside [OF con confined_outside [OF cf]]) (use used_less [OF u] in simp)
  then show a: "abs_fs s' = a_update n f (abs_fs s)"
    using u u' f by (auto simp: a_update_def abs_fs_def fun_eq_iff)
  have nums: "k < NUM_OF_INODES \<and> di_linksCount (inode_view s' k) = 0" if "k \<in> set nums" for k
    using consistentD(5) [OF con that] m x by (auto simp: modified_def)
  show "abs_files s' = abs_files s" by (rule confined_tabled(2) [OF con cf]) (use u' in auto)
  show "stock s' fs' = stock s fs" by (rule outside_stock [OF con confined_outside [OF cf]]) (use bl N in simp)
  show "consistent s' fs' nums"
    by (rule confined_consistent [OF con cf])
      (use snd bl N u' st consistentD(3,4) [OF con] nums a cl in auto)
qed

lemma a_update_self: "a_update n f (abs_fs s) n = (if used s n then Some (f (node_of s n)) else None)"
  by (simp add: a_update_def abs_fs_def)

lemma node_file:
  assumes "abs_fs s n = Some x" and "a_content x = Bytes bs"
  shows "used s n" and "di_type (inode_view s n) \<noteq> T_DIRECTORY" and "bytes_of s n = bs" and "x = node_of s n"
    and "unat (isize (dir_view s n)) = length bs"
proof -
  show "used s n" "di_type (inode_view s n) \<noteq> T_DIRECTORY" "bytes_of s n = bs" "x = node_of s n"
    using assms by (auto simp: abs_fs_def node_of_def split: if_splits)
  then show "unat (isize (dir_view s n)) = length bs" using length_file_bytes [of "dir_view s n" "disk s"] by simp
qed

text \<open>Whether a file can be given the length \<open>k\<close> when \<open>room\<close> blocks are free.\<close>

definition can_grow :: "nat \<Rightarrow> nat \<Rightarrow> nat \<Rightarrow> bool" where
  "can_grow old k room \<longleftrightarrow> k \<le> 10240 \<and> blocks_for k \<le> blocks_for old + room"

lemma truncate_abs:
  assumes con: "consistent s fs nums" and path: "valid_path (abs_fs s) path n"
    and x: "abs_fs s n = Some x" "a_content x = Bytes bs"
    and grow: "length bs < unat sz \<Longrightarrow> can_grow (length bs) (unat sz) (length fs)"
    and shrink: "unat sz < length bs \<Longrightarrow> length bs < 10240 \<and> 128 \<le> length fs"
  shows "\<exists>s' fs'. truncateFile m (SLASH # path) sz s = Some (0, s') \<and> consistent s' fs' nums \<and>
    abs_fs s' = a_update n (a_resize (unat sz)) (abs_fs s) \<and> abs_files s' = abs_files s \<and> stock s' fs' = stock s fs"
proof -
  note P = valid_pathD [OF con path] and F = node_file [OF x]
  have d: "direct (dir_view s n) (disk s) fs" using consistentD(6) [OF con P(4)] .
  then have fl: "free_list (disk s) fs" by (simp add: direct_def direct_file_def)
  have can: "can_resize (dir_view s n) (disk s) fs (unat sz)"
    using d grow shrink F(5) free_list_ready [OF fl] by (auto simp: can_resize_def append_fits_def can_grow_def)
  obtain s' fs' where s': "truncateFile m (SLASH # path) sz s = Some (0, s')" and t: "truncated s n (unat sz) fs s' fs'"
    using truncateFile_found [OF P(1-3) F(2) can, of m] by blast
  note T = t [unfolded truncated_def]
  obtain tm ns where md: "modified s n ((inode_view s n)\<lparr> di_size := of_nat (unat sz), di_modification := tm, di_dataBlockNums := ns \<rparr>) s'"
    using T by blast
  then have v: "inode_view s' n = (inode_view s n)\<lparr> di_size := of_nat (unat sz), di_modification := tm, di_dataBlockNums := ns \<rparr>"
    using used_less [OF P(4)] by (simp add: modified_def)
  have "closed (a_update n (a_resize (unat sz)) (abs_fs s))"
    by (rule closed_update [OF consistentD(10) [OF con]]) (auto simp: a_resize_def)
  moreover have "node_of s' n = a_resize (unat sz) (node_of s n)" using v F T by (auto simp: node_of_def a_resize_def)
  moreover have "sound s' fs' n" using T v F(2) by (simp add: sound_def)
  ultimately have "consistent s' fs' nums \<and> abs_fs s' = a_update n (a_resize (unat sz)) (abs_fs s) \<and>
      abs_files s' = abs_files s \<and> stock s' fs' = stock s fs"
    using one_changed [OF con P(4) md, of fs' "a_resize (unat sz)"] T by simp
  then show ?thesis using s' by blast
qed

text \<open>Changes of attributes.\<close>

lemma attributes_abs:
  assumes con: "consistent s fs nums" and path: "valid_path (abs_fs s) path n"
    and ch: "changed_files s n x s'"
    and x: "di_linksCount x = di_linksCount (inode_view s n)" "di_type x = di_type (inode_view s n)"
      "di_size x = di_size (inode_view s n)" "di_dataBlockNums x = di_dataBlockNums (inode_view s n)"
      "di_inode_number x = di_inode_number (inode_view s n)"
    and mode: "di_type x = T_DIRECTORY \<Longrightarrow> di_file_mode x AND 0xF000 = S_IFDIR"
    and f: "f (node_of s n) = (node_of s n)\<lparr> a_mode := di_file_mode x, a_uid := di_owner_uid x, a_gid := di_group_uid x \<rparr>"
    and content: "\<And>x. a_content (f x) = a_content x"
  shows "consistent s' fs nums" and "abs_fs s' = a_update n f (abs_fs s)" and "abs_files s' = abs_files s"
    and "stock s' fs = stock s fs"
proof -
  note P = valid_pathD [OF con path]
  have n: "n < NUM_OF_INODES" by (rule used_less [OF P(4)])
  have C: "(\<exists>fl hq. cache_inv s' fl hq \<and> coherent s' hq) \<and> settled s' \<and> spare s'" "\<forall>k. refs s' k = refs s k"
    "\<forall>k < NUM_OF_INODES. inode_view s' k = (if k = n then x else inode_view s k)" "fileTable s' = fileTable s"
    "disk s' = disk s \<or> disk s' = put_inode n x (disk s)" "pinned s s'"
    using ch by (simp_all add: changed_files_def)
  have "idle s' s'" using C(1,2) consistentD(1) [OF con] by (auto simp: idle_def same_files_def)
  then have md: "modified s n x s'" using C by (simp add: modified_def)
  have w: "well s'" "well s" using idleD(1) consistentD(1) [OF con] \<open>idle s' s'\<close> by auto
  then have ok: "meta_ok (disk s)" "meta_ok (disk s')" by (auto intro: well_meta_ok)
  have wf: "wf_iNode x"
  proof -
    have "wf_iNode (inode_view s n)" by (auto simp: inode_view_def wf_inode_at split: option.splits)
    then show ?thesis using x(4) by (simp add: wf_iNode_def)
  qed
  have ms: "meta_step (disk s) (disk s')"
    using C(5) meta_step_put_inode [OF ok(1) n wf] meta_step_refl meta_okD(1) [OF ok(1)] by auto
  have v: "inode_view s' n = x" using C(3) n by simp
  have same: "dataBlockNums (dir_view s' n) = dataBlockNums (dir_view s n)" "isize (dir_view s' n) = isize (dir_view s n)"
    using v x by (simp_all add: dir_view_def insertDiskInodeData_def)
  note S = same_contents [OF same]
  have d: "direct (dir_view s n) (disk s) fs" using consistentD(6) [OF con P(4)] .
  note D = meta_step_direct [OF ms d]
  have es: "entries_of s' n = entries_of s n" using D(2) by (simp add: S dir_entries_def)
  have "good_dir (dir_view s' n) (disk s')" if "di_type x = T_DIRECTORY"
  proof -
    have "good_dir (dir_view s n) (disk s')"
      using good_dir_meta [OF ms d] consistentD(7) [OF con P(4)] that x(2) by simp
    moreover have "file_mode (dir_view s' n) = di_file_mode x" using v by (simp add: dir_view_def insertDiskInodeData_def)
    moreover have "file_ok (dir_view s' n) (disk s')"
      using direct_file_ok [OF D(1) [folded S(1), unfolded direct_def]] .
    ultimately show ?thesis using mode [OF that] S(4) same(2) by (simp add: good_dir_def validateSearch_iff)
  qed
  then have snd: "sound s' fs n" using D(1) S(1) es v x(2) consistentD(8) [OF con P(4)] by (simp add: sound_def)
  have st: "inode_stack (disk s') xs" if "inode_stack (disk s) xs" for xs
    using C(5) inode_stack_put_inode [OF ok(1) n wf that] that by auto
  have cl: "closed (a_update n f (abs_fs s))"
    by (rule closed_update [OF consistentD(10) [OF con]]) (simp_all add: content)
  have "node_of s' n = f (node_of s n)" unfolding f using v x es D(2) S(2) by (simp add: node_of_def)
  note R = one_changed [OF con P(4) md x(1) frames_meta [OF ms] snd _ st this cl]
  show "consistent s' fs nums" "abs_fs s' = a_update n f (abs_fs s)" "abs_files s' = abs_files s" "stock s' fs = stock s fs"
    using R S(5) by auto
qed

lemma chmod_abs:
  assumes con: "consistent s fs nums" and path: "valid_path (abs_fs s) path n"
    and mode: "(S_IFDIR OR mode) AND 0xF000 = S_IFDIR"
  shows "\<exists>s'. changeMode m (SLASH # path) mode s = Some (0, s') \<and> consistent s' fs nums \<and>
    abs_fs s' = a_update n (a_chmod mode) (abs_fs s) \<and> abs_files s' = abs_files s \<and> stock s' fs = stock s fs"
proof -
  note P = valid_pathD [OF con path]
  let ?x = "(inode_view s n)\<lparr> di_file_mode := (if di_type (inode_view s n) = T_DIRECTORY then S_IFDIR OR mode else mode) \<rparr>"
  obtain s' where s': "changeMode m (SLASH # path) mode s = Some (0, s')" "changed_files s n ?x s'"
    using changeMode_found [OF P(1-3)] by blast
  have "consistent s' fs nums" "abs_fs s' = a_update n (a_chmod mode) (abs_fs s)" "abs_files s' = abs_files s" "stock s' fs = stock s fs"
    using attributes_abs [OF con path s'(2), of "a_chmod mode"] mode by (auto simp: a_chmod_def node_of_def)
  then show ?thesis using s'(1) by blast
qed

lemma chown_abs:
  assumes con: "consistent s fs nums" and path: "valid_path (abs_fs s) path n" and some: "uid \<noteq> - 1 \<or> gid \<noteq> - 1"
  shows "\<exists>s'. changeOwner m (SLASH # path) uid gid s = Some (0, s') \<and> consistent s' fs nums \<and>
    abs_fs s' = a_update n (a_chown uid gid) (abs_fs s) \<and> abs_files s' = abs_files s \<and> stock s' fs = stock s fs"
proof -
  note P = valid_pathD [OF con path]
  obtain s' where s': "changeOwner m (SLASH # path) uid gid s = Some (0, s')"
      "changed_files s n (owned_by uid gid (inode_view s n)) s'"
    using changeOwner_found [OF P(1-3) some] by blast
  have "di_file_mode (inode_view s n) AND 0xF000 = S_IFDIR" if "di_type (inode_view s n) = T_DIRECTORY"
    using consistentD(7) [OF con P(4) that] by (simp add: good_dir_def validateSearch_iff dir_view_def insertDiskInodeData_def)
  then have "consistent s' fs nums" "abs_fs s' = a_update n (a_chown uid gid) (abs_fs s)" "abs_files s' = abs_files s" "stock s' fs = stock s fs"
    using attributes_abs [OF con path s'(2), of "a_chown uid gid"] by (auto simp: a_chown_def owned_by_def node_of_def)
  then show ?thesis using s'(1) by blast
qed

section \<open>Creating files\<close>

lemma lookup_entry_dom:
  assumes "distinct (map fst es)" and "\<forall>e \<in> set es. fst e \<noteq> None"
  shows "card (dom (lookup_entry es)) = length es"
proof -
  have "dom (lookup_entry es) = the ` set (map fst es)"
    using assms(2) by (force simp: lookup_entry_def dom_def find_None_iff image_iff)
  moreover have "inj_on the (set (map fst es))"
    using assms(2) by (auto simp: inj_on_def) (metis fst_conv option.sel)
  ultimately show ?thesis using assms(1) by (metis card_image distinct_card length_map)
qed

lemma lookup_entry_None:
  assumes "\<forall>e \<in> set es. fst e \<noteq> None"
  shows "lookup_entry es c = None \<longleftrightarrow> Some c \<notin> fst ` set es"
  by (auto simp: lookup_entry_def find_None_iff image_iff)

lemma length_dir_entries: "length (dir_entries i d) = unat (isize i) div 64"
  by (simp add: dir_entries_def entries_def)

lemma folder_size:
  assumes con: "consistent s fs nums" and t: "folder_at (abs_fs s) n = Some t"
  shows "unat (isize (dir_view s n)) = 64 * card (dom t)"
proof -
  have n: "used s n" "di_type (inode_view s n) = T_DIRECTORY" and t: "t = lookup_entry (entries_of s n)"
    using t by (auto simp: folder_at_abs split: if_splits)
  note gd = consistentD(7,8) [OF con n]
  have "card (dom t) = length (entries_of s n)"
    unfolding t using lookup_entry_dom [OF gd(2)] gd(1) by (simp add: good_dir_def)
  then show ?thesis using gd(1) length_dir_entries [of "dir_view s n" "disk s"] by (simp add: good_dir_def)
qed

lemma blocks_for_next: "blocks_for (m + 64) \<le> Suc (blocks_for m)"
  by (simp add: blocks_for_def)

text \<open>A name can be added to directory \<open>n\<close>: 160 entries fill its ten direct blocks.\<close>

definition may_add :: "afs \<Rightarrow> cstring \<Rightarrow> cstring \<Rightarrow> size_t \<Rightarrow> bool" where
  "may_add a dir f n \<longleftrightarrow> valid_path a dir n \<and> in_dir dir f \<and> f \<noteq> [] \<and> length f < FILENAME_SIZE \<and> 0 \<notin> set f \<and>
     (\<exists>t. folder_at a n = Some t \<and> t f = None \<and> card (dom t) < 160)"

lemma may_create:
  assumes con: "consistent s fs (num # nums)" and add: "may_add (abs_fs s) dir f n" and r: "nums \<noteq> []" "fs \<noteq> []"
    and two: "2 \<le> card (free_nodes s)"
  shows "can_create s dir f n num nums fs"
proof -
  obtain t where path: "valid_path (abs_fs s) dir n" and f: "in_dir dir f" "f \<noteq> []" "length f < FILENAME_SIZE" "0 \<notin> set f"
    and t: "folder_at (abs_fs s) n = Some t" "t f = None" "card (dom t) < 160"
    using add by (auto simp: may_add_def)
  note P = valid_pathD [OF con path]
  have n: "used s n" "di_type (inode_view s n) = T_DIRECTORY" and te: "t = lookup_entry (entries_of s n)"
    using t(1) by (auto simp: folder_at_abs split: if_splits)
  note num = consistentD(5) [OF con, of num]
  have "num \<noteq> 0" using consistentD(3) [OF con] by (auto simp: inode_stack_def)
  then have "num \<noteq> n" using n(1) num by (auto simp: used_def)
  moreover have "append_fits (dir_view s n) fs 64"
    using folder_size [OF con t(1)] t(3) r(2) blocks_for_next [of "unat (isize (dir_view s n))"]
    by (cases fs) (auto simp: append_fits_def)
  ultimately show ?thesis
    using f P consistentD(3,6,7) [OF con] n t(2) te num two r by (simp add: can_create_def)
qed

lemma created_consistent:
  assumes con: "consistent s fs (num # nums)" and add: "may_add (abs_fs s) dir f n"
    and cr: "created s fs n f num x s' fs'" and st: "inode_stack (disk s') nums" and links: "di_linksCount x \<noteq> 0"
    and new: "sound s' fs' num" "blocks_of s' num \<subseteq> set fs" "blocks_of s' num \<inter> blocks_of s' n = {}"
    and dots: "\<And>t. a_content (node_of s' num) = Folder t \<Longrightarrow> ran t \<subseteq> {n, num}"
  shows "consistent s' fs' nums" and "abs_fs s' = a_create n f num (node_of s' num) (abs_fs s)" and "abs_files s' = abs_files s"
    and "stock s' fs' = stock s fs"
proof -
  obtain t where t: "folder_at (abs_fs s) n = Some t" "t f = None" using add by (auto simp: may_add_def)
  have n: "used s n" "di_type (inode_view s n) = T_DIRECTORY" and te: "t = lookup_entry (entries_of s n)"
    using t(1) by (auto simp: folder_at_abs split: if_splits)
  note num = consistentD(5) [OF con, of num] and C = cr [unfolded created_def]
  note vn = regrownD [of "inode_view s n" "inode_view s' n"]
  have num0: "num \<noteq> 0" using consistentD(3) [OF con] by (auto simp: inode_stack_def)
  then have nu: "\<not> used s num" "num \<noteq> n" using n(1) num by (auto simp: used_def)
  have u': "used s' n" "used s' num" using n(1) vn num links C by (auto simp: used_def)
  have N: "{k \<in> {n, num}. used s k} = {n}" "{k \<in> {n, num}. used s' k} = {n, num}" using n(1) nu(1) u' by auto
  have cf: "confined s fs {n, num} s' fs'" using C unfolding confined_def outside_def N by simp
  have es: "entries_of s' n = entries_of s n @ [(Some f, num)]" using C by simp
  have gd: "good_dir (dir_view s n) (disk s)" "distinct (map fst (entries_of s n))" using consistentD(7,8) [OF con n] by auto
  then have fresh: "Some f \<notin> fst ` set (entries_of s n)"
    using lookup_entry_None [of "entries_of s n" f] t(2) te by (simp add: good_dir_def)
  have "lookup_entry (entries_of s' n) = t(f \<mapsto> num)"
    unfolding es te using t(2) te by (auto simp: fun_eq_iff lookup_entry_append) (auto simp: lookup_entry_def split: option.splits)
  then have no: "node_of s' n = (node_of s n)\<lparr> a_content := Folder (t(f \<mapsto> num)) \<rparr>"
    using vn C n(2) by (simp add: node_of_def)
  have "abs_fs s' = (\<lambda>k. if k \<in> {n, num} then abs_fs s' k else abs_fs s k)"
    by (rule abs_outside [OF con confined_outside [OF cf]]) (use used_less [OF n(1)] num in simp)
  moreover have "abs_fs s n = Some (node_of s n)" "a_content (node_of s n) = Folder t"
    using n te by (simp_all add: abs_fs_def node_of_def)
  ultimately show a: "abs_fs s' = a_create n f num (node_of s' num) (abs_fs s)"
    using no u' nu(2) by (auto simp: a_create_def abs_fs_def fun_eq_iff)
  have "closed (a_create n f num (node_of s' num) (abs_fs s))"
    by (rule closed_create [OF consistentD(10) [OF con] _ t(1) dots]) (use nu in \<open>simp_all add: abs_fs_def\<close>)
  then have cl: "closed (abs_fs s')" using a by simp
  have sn: "sound s' fs' n" using C es gd(2) fresh by (auto simp: sound_def)
  show "abs_files s' = abs_files s" by (rule confined_tabled(2) [OF con cf]) (use u' in auto)
  have nums: "k < NUM_OF_INODES \<and> di_linksCount (inode_view s' k) = 0" if "k \<in> set nums" for k
  proof -
    have "k \<noteq> num" "k \<noteq> 0" using consistentD(3,4) [OF con] that by (auto simp: inode_stack_def)
    moreover have k: "k < NUM_OF_INODES" "di_linksCount (inode_view s k) = 0" "refs s k = 0"
      using consistentD(5) [OF con, of k] that by auto
    moreover have "k \<noteq> n" using n(1) k \<open>k \<noteq> 0\<close> by (auto simp: used_def)
    ultimately show ?thesis using C by simp
  qed
  have "inode_blocks x = blocks_of s' num" using C inode_blocks_view [of s' num] by simp
  then have bl: "set fs' \<union> blocks_in s' {n, num} = set fs \<union> blocks_in s {n, num}"
    unfolding N using C new(2) by (simp add: Un_assoc) blast
  show "stock s' fs' = stock s fs" by (rule outside_stock [OF con confined_outside [OF cf] bl])
  have dis: "distinct nums" using consistentD(4) [OF con] by simp
  show "consistent s' fs' nums"
    by (rule confined_consistent [OF con cf _ bl _ _ st dis nums cl]) (use sn new N u' in \<open>auto simp: Int_commute\<close>)
qed

lemma empty_direct:
  assumes "di_size (inode_view s n) = 0" and "free_list (disk s) fs"
  shows "direct (dir_view s n) (disk s) fs" and "blocks_of s n = {}" and "bytes_of s n = []"
proof -
  have wf: "wf_inCore (dir_view s n)" and z: "isize (dir_view s n) = 0"
    using assms(1) by (simp_all add: dir_view_def insertDiskInodeData_def wf_inCore_def)
  then show "direct (dir_view s n) (disk s) fs" "blocks_of s n = {}" "bytes_of s n = []"
    using assms(2) by (simp_all add: direct_def direct_file_def blocks_for_def file_blocks_def file_bytes_def)
qed

lemma create_abs:
  assumes con: "consistent s fs (num # nums)" and add: "may_add (abs_fs s) dir f n" and r: "nums \<noteq> []" "fs \<noteq> []"
    and two: "2 \<le> card (free_nodes s)"
  shows "\<exists>s' fs'. createFile m (SLASH # dir @ f) T_REGULAR mode ctx s = Some (0, s') \<and> consistent s' fs' nums \<and>
    abs_fs s' = a_create n f num \<lparr> a_mode = mode, a_uid = ctx_uid ctx, a_gid = ctx_gid ctx, a_links = 1,
      a_content = Bytes [] \<rparr> (abs_fs s) \<and> abs_files s' = abs_files s \<and> stock s' fs' = stock s fs"
proof -
  obtain s' fs' where s': "createFile m (SLASH # dir @ f) T_REGULAR mode ctx s = Some (0, s')" "inode_stack (disk s') nums"
    and cr: "created s fs n f num
      ((assigned T_REGULAR mode (ctx_uid ctx) (ctx_gid ctx) (disk s) (inode_view s num))\<lparr> di_linksCount := 1 \<rparr>) s' fs'"
    using createFile_regular [OF may_create [OF con add r two], of m mode ctx] by blast
  have v: "inode_view s' num = (assigned T_REGULAR mode (ctx_uid ctx) (ctx_gid ctx) (disk s) (inode_view s num))\<lparr> di_linksCount := 1 \<rparr>"
    and fl: "free_list (disk s') fs'"
    using cr by (auto simp: created_def direct_def direct_file_def)
  note E = empty_direct [of s' num fs', OF _ fl]
  have no: "node_of s' num = \<lparr> a_mode = mode, a_uid = ctx_uid ctx, a_gid = ctx_gid ctx, a_links = 1, a_content = Bytes [] \<rparr>"
    using v E(3) by (simp add: node_of_def assigned_def)
  have snd: "sound s' fs' num" using E(1) v by (simp add: sound_def assigned_def)
  note R = created_consistent [OF con add cr s'(2) _ snd]
  show ?thesis using R s'(1) E(2) no v by (intro exI [of _ s'] exI [of _ fs']) (simp add: assigned_def)
qed

lemma mkdir_abs:
  assumes con: "consistent s fs (num # nums)" and add: "may_add (abs_fs s) dir f n" and r: "nums \<noteq> []" "2 \<le> length fs"
    and two: "2 \<le> card (free_nodes s)" and mode: "(S_IFDIR OR mode) AND 0xF000 = S_IFDIR"
  shows "\<exists>s' fs'. createFile m (SLASH # dir @ f) T_DIRECTORY mode ctx s = Some (0, s') \<and> consistent s' fs' nums \<and>
    abs_fs s' = a_create n f num \<lparr> a_mode = S_IFDIR OR mode, a_uid = ctx_uid ctx, a_gid = ctx_gid ctx, a_links = 2,
      a_content = Folder [dot \<mapsto> num, dotdot \<mapsto> n] \<rparr> (abs_fs s) \<and> abs_files s' = abs_files s \<and> stock s' fs' = stock s fs"
proof -
  have "fs \<noteq> []" using r(2) by auto
  then obtain s' fs' x where s': "createFile m (SLASH # dir @ f) T_DIRECTORY mode ctx s = Some (0, s')" "inode_stack (disk s') nums"
    and cr: "created s fs n f num x s' fs'" and x: "di_type x = T_DIRECTORY" "di_file_mode x = S_IFDIR OR mode"
      "di_owner_uid x = ctx_uid ctx" "di_group_uid x = ctx_gid ctx" "di_linksCount x = 2"
    and d: "direct (dir_view s' num) (disk s') fs'" "good_dir (dir_view s' num) (disk s')"
      "entries_of s' num = [(Some dot, num), (Some dotdot, n)]" "blocks_of s' num \<subseteq> set fs"
      "blocks_of s' num \<inter> blocks_of s' n = {}"
    using createFile_directory [OF may_create [OF con add r(1) _ two] r(2) mode, of m ctx] by blast
  have v: "inode_view s' num = x" using cr by (simp add: created_def)
  have "lookup_entry (entries_of s' num) = [dot \<mapsto> num, dotdot \<mapsto> n]"
    unfolding d(3) by (auto simp: lookup_entry_def fun_eq_iff)
  then have no: "node_of s' num = \<lparr> a_mode = S_IFDIR OR mode, a_uid = ctx_uid ctx, a_gid = ctx_gid ctx, a_links = 2,
      a_content = Folder [dot \<mapsto> num, dotdot \<mapsto> n] \<rparr>"
    using v x by (simp add: node_of_def)
  have snd: "sound s' fs' num" using d by (simp add: sound_def)
  have "ran [dot \<mapsto> num, dotdot \<mapsto> n] \<subseteq> {n, num}" by (auto simp: ran_def split: if_splits)
  then have "consistent s' fs' nums \<and> abs_fs s' = a_create n f num (node_of s' num) (abs_fs s) \<and>
      abs_files s' = abs_files s \<and> stock s' fs' = stock s fs"
    using created_consistent [OF con add cr s'(2) _ snd d(4,5)] no x(5) by simp
  then show ?thesis using s'(1) no by auto
qed

section \<open>A new file system\<close>

lemma distinct_first_inodes: "distinct first_inodes"
proof -
  have "unat (word_of_nat k + 1 :: size_t) = k + 1" if "k < 512" for k
    using that by (simp add: unat_word_ariths unat_of_nat)
  then have "inj_on (\<lambda>k. word_of_nat k + 1 :: size_t) {0..<512}"
    by (intro inj_onI) (metis add_right_cancel atLeastLessThan_iff)
  then show ?thesis by (simp add: first_inodes_def distinct_map)
qed

lemma fresh_consistent:
  assumes s: "idle s s" "\<forall>n. refs s n = 0" "free_list (disk s) fs" "inode_stack (disk s) first_inodes"
    and v: "\<forall>n < NUM_OF_INODES. inode_view s n = fresh_inode x n" and tab: "wf_table (fileTable s)" "\<forall>e \<in> set (fileTable s). \<not> validEntry e"
  shows "consistent s fs first_inodes"
    and "abs_fs s = [0 \<mapsto> \<lparr> a_mode = root_mode, a_uid = 0, a_gid = 0, a_links = 0, a_content = Folder Map.empty \<rparr>]"
    and "abs_files s = Map.empty" and "stock s fs = set fs"
proof -
  have root: "inode_view s 0 = root_inode (initializeINode 0) x" using v by (simp add: fresh_inode_def)
  have links: "di_linksCount (inode_view s n) = 0" if "n < NUM_OF_INODES" for n
    using v that by (simp add: fresh_inode_def root_inode_def initializeINode_def zero_iNode_def)
  then have u: "used s n \<longleftrightarrow> n = 0" for n by (auto simp: used_def)
  have f: "di_size (inode_view s 0) = 0" "di_type (inode_view s 0) = T_DIRECTORY" "di_file_mode (inode_view s 0) = root_mode"
    "di_owner_uid (inode_view s 0) = 0" "di_group_uid (inode_view s 0) = 0"
    by (simp_all add: root root_inode_def initializeINode_def zero_iNode_def)
  note E = empty_direct [OF f(1) s(3)]
  have es: "entries_of s 0 = []" using E(3) by (simp add: dir_entries_def entries_def)
  have "file_mode (dir_view s 0) = root_mode" "isize (dir_view s 0) = 0"
    using f by (simp_all add: dir_view_def insertDiskInodeData_def)
  then have "good_dir (dir_view s 0) (disk s)"
    using es direct_file_ok [OF E(1) [unfolded direct_def]] by (simp add: good_dir_def validateSearch_iff root_mode_def)
  then have snd: "sound s fs 0" using E(1) es by (simp add: sound_def)
  have "lookup_entry [] = Map.empty" by (simp add: lookup_entry_def fun_eq_iff)
  then show a: "abs_fs s = [0 \<mapsto> \<lparr> a_mode = root_mode, a_uid = 0, a_gid = 0, a_links = 0, a_content = Folder Map.empty \<rparr>]"
    using es f links [of 0] by (auto simp: abs_fs_def u node_of_def fun_eq_iff)
  have "closed (abs_fs s)" unfolding a by (auto simp: closed_def folder_at_def split: if_splits option.splits)
  moreover show f: "abs_files s = Map.empty" using tab by (auto simp: abs_files_def wf_table_def fun_eq_iff)
  moreover show "stock s fs = set fs" using E(2) by (simp add: stock_def u)
  moreover have "tabled s" using tab(1) s(2) by (simp add: tabled_def f opens_def)
  ultimately show "consistent s fs first_inodes"
    using s snd links distinct_first_inodes first_inodes_props(3) by (auto simp: consistent_def u)
qed

end
