(* ===== verification/OpenFiles.thy ===== *)
theory OpenFiles
  imports Consistency
begin

text \<open>
  Open files in consistent states: opening, closing, reading and appending keep \<open>consistent\<close> and are the expected
  operations on the abstract file system and its table of open files.
\<close>

section \<open>States that differ in references only\<close>

lemma outside_same:
  assumes con: "consistent s fs nums" and id: "idle s' s'" and tab: "tabled s'"
    and v: "\<And>k. k < NUM_OF_INODES \<Longrightarrow> inode_view s' k = inode_view s k" and ms: "meta_step (disk s) (disk s')"
    and st: "inode_stack (disk s') nums"
  shows "consistent s' fs nums" and "abs_fs s' = abs_fs s" and "stock s' fs = stock s fs"
proof -
  have out: "outside s fs {} s' fs" using id v frames_meta [OF ms] by (simp add: outside_def)
  show a: "abs_fs s' = abs_fs s" using abs_outside [OF con out] by simp
  show "stock s' fs = stock s fs" by (rule outside_stock [OF con out]) simp
  show "consistent s' fs nums"
    by (rule outside_consistent [OF con out _ _ _ st]) (use consistentD(4,5,10) [OF con] v tab a in auto)
qed

lemma idle_abs:
  assumes con: "consistent s fs nums" and idle: "idle s s'"
  shows "consistent s' fs nums" and "abs_fs s' = abs_fs s" and "abs_files s' = abs_files s" and "stock s' fs = stock s fs"
proof -
  have id: "idle s' s'" and d: "disk s' = disk s" and v: "\<And>k. k < NUM_OF_INODES \<Longrightarrow> inode_view s' k = inode_view s k"
    and r: "fileTable s' = fileTable s" "pinned s s'" "\<forall>k. refs s' k = refs s k"
    using idle by (auto simp: idle_def same_files_def)
  have cf: "confined s fs {} s' fs" using id v r d frames_refl by (simp add: confined_def outside_def)
  show "abs_files s' = abs_files s" by (rule confined_tabled(2) [OF con cf]) simp
  have "tabled s'" by (rule confined_tabled(1) [OF con cf]) simp
  moreover have "disk_ok (disk s)"
    using well_meta_ok [OF idleD(1) [OF consistentD(1) [OF con]]] by (rule meta_okD(1))
  ultimately show "consistent s' fs nums" "abs_fs s' = abs_fs s" "stock s' fs = stock s fs"
    using outside_same [OF con id _ v] consistentD(3) [OF con] meta_step_refl by (simp_all add: d)
qed

section \<open>Opening\<close>

lemma opens_insert:
  assumes "t k = None" and "o_inode x = n"
  shows "opens (t(k \<mapsto> x)) m = (if m = n then insert k (opens t n) else opens t m)"
  using assms by (auto simp: opens_def)

lemma refs_opens:
  assumes "consistent s fs nums"
  shows "unat (refs s n) = card (opens (abs_files s) n)" and "unat (refs s n) \<le> 10000"
proof -
  have le: "card (opens (abs_files s) n) \<le> card {..<10000 :: nat}"
    by (rule card_mono) (auto simp: opens_def abs_files_def split: if_splits)
  moreover have "refs s n = of_nat (card (opens (abs_files s) n))" using consistentD(11) [OF assms] by (simp add: tabled_def)
  ultimately show "unat (refs s n) = card (opens (abs_files s) n)" by (simp add: unat_of_nat_small)
  then show "unat (refs s n) \<le> 10000" using le by simp
qed

lemma refs_not_max:
  assumes "unat (w :: size_t) \<le> 10001"
  shows "w \<noteq> SIZE_MAX"
proof
  assume "w = SIZE_MAX"
  then have "w + 1 = 0" by simp
  moreover have "unat (w + 1) = unat w + 1" using assms by (simp add: unat_word_ariths)
  ultimately show False by simp
qed

definition a_size :: "content \<Rightarrow> nat" where
  "a_size c = (case c of Bytes bs \<Rightarrow> length bs | Folder t \<Rightarrow> 64 * card (dom t))"

lemma node_size:
  assumes con: "consistent s fs nums" and x: "abs_fs s n = Some x"
  shows "unat (di_size (inode_view s n)) = a_size (a_content x)"
proof -
  have sz: "isize (dir_view s n) = di_size (inode_view s n)" by (simp add: dir_view_def insertDiskInodeData_def)
  show ?thesis
  proof (cases "a_content x")
    case (Bytes bs)
    then show ?thesis using node_file(5) [OF x Bytes] sz by (simp add: a_size_def)
  next
    case (Folder t)
    then have "folder_at (abs_fs s) n = Some t" using x by (simp add: folder_at_def)
    from folder_size [OF con this] show ?thesis using sz Folder by (simp add: a_size_def)
  qed
qed

text \<open>The first free descriptor.\<close>

definition next_fd :: "afiles \<Rightarrow> nat \<Rightarrow> bool" where
  "next_fd t k \<longleftrightarrow> k < MAX_FILE_DESCRIPTORS \<and> t k = None \<and> (\<forall>j < k. t j \<noteq> None)"

lemma next_fdD:
  assumes "next_fd (abs_files s) k"
  shows "k < MAX_FILE_DESCRIPTORS" and "\<not> validEntry (fileTable s ! k)" and "\<forall>j < k. validEntry (fileTable s ! j)"
  using assms by (auto simp: next_fd_def abs_files_def split: if_splits)

lemma open_abs:
  assumes con: "consistent s fs nums" and path: "valid_path (abs_fs s) path n" and n0: "n \<noteq> 0"
    and x: "abs_fs s n = Some x" and k: "next_fd (abs_files s) k" and room: "2 \<le> card (free_nodes s)"
  shows "\<exists>s'. openFile m (SLASH # path) fi ctx s = Some (0, fi\<lparr> fi_fh := of_nat k \<rparr>, s') \<and> consistent s' fs nums \<and>
    abs_fs s' = abs_fs s \<and> abs_files s' = (abs_files s)(k \<mapsto> \<lparr> o_inode = n, o_flags = fi_flags fi,
      o_offset = (if fi_flags fi = 0 then 0 else of_nat (a_size (a_content x))) \<rparr>) \<and> stock s' fs = stock s fs"
proof -
  note P = valid_pathD [OF con path] and K = next_fdD [OF k]
  let ?off = "if fi_flags fi = 0 then 0 else di_size (inode_view s n)"
  obtain p s1 where op: "openFile m (SLASH # path) fi ctx s = Some (0, fi\<lparr> fi_fh := of_nat k \<rparr>,
      s1\<lparr> fileTable := (fileTable s)[k := initFdTableEntry p (ctx_pid ctx) (fi_flags fi) ?off] \<rparr>)" and held: "held s s1 p n"
    using openFile_found [OF P(1,2) K refl] by blast
  note H = heldD [OF held]
  let ?e = "initFdTableEntry p (ctx_pid ctx) (fi_flags fi) ?off" and ?t = "(fileTable s)[k := initFdTableEntry p (ctx_pid ctx) (fi_flags fi) ?off]"
  let ?s = "s1\<lparr> fileTable := ?t \<rparr>"
  let ?x = "\<lparr> o_inode = n, o_flags = fi_flags fi, o_offset = (if fi_flags fi = 0 then 0 else of_nat (a_size (a_content x))) \<rparr>"
  note t = consistentD(11) [OF con, unfolded tabled_def]
  have len: "length (fileTable s) = 10000" using t by (simp add: wf_table_def)
  have off: "?off = o_offset ?x" using node_size [OF con x] by (simp add: word_unat_eq_iff flip: node_size [OF con x])
  have node: "holds s1 (f_inode (fileTable s ! j)) (o_inode y)" if "abs_files s j = Some y" for j y
    using t that H(10) by (auto simp: pinned_def)
  have files: "abs_files ?s = (abs_files s)(k \<mapsto> ?x)"
  proof
    fix j
    show "abs_files ?s j = ((abs_files s)(k \<mapsto> ?x)) j"
    proof (cases "j = k")
      case True
      then show ?thesis using K(1) len off holds_number [OF H(1,2)] by (simp add: abs_files_def initFdTableEntry_def)
    next
      case False
      then show ?thesis using holds_number [OF H(1) node] by (auto simp: abs_files_def split: if_splits)
    qed
  qed
  have free: "abs_files s k = None" using k by (simp add: next_fd_def)
  have refs: "refs ?s m = of_nat (card (opens (abs_files ?s) m))" for m
  proof -
    have "k \<notin> opens (abs_files s) n" using free by (simp add: opens_def)
    then have "card (opens (abs_files ?s) n) = Suc (card (opens (abs_files s) n))"
      unfolding files using opens_insert [of "abs_files s" k ?x n n] free finite_opens by simp
    moreover have "opens (abs_files ?s) m = opens (abs_files s) m" if "m \<noteq> n"
      unfolding files using opens_insert [of "abs_files s" k ?x n m] free that by simp
    ultimately show ?thesis using H(7) t by (auto simp: add.commute)
  qed
  have "o_inode y \<noteq> 0 \<and> used ?s (o_inode y) \<and> holds ?s (f_inode (?t ! j)) (o_inode y)" if y: "abs_files ?s j = Some y" for j y
  proof (cases "j = k")
    case True
    then show ?thesis using y files n0 H(2,5,6) P(4) K(1) len by (auto simp: used_def initFdTableEntry_def)
  next
    case False
    then have "abs_files s j = Some y" using y files by simp
    moreover then have "used s (o_inode y)" "o_inode y \<noteq> 0" using t by auto
    ultimately show ?thesis using node [of j y] False H(6) by (auto simp: used_def)
  qed
  then have tab: "tabled ?s" using refs t unfolding tabled_def by (simp add: wf_table_def)
  have "unat (refs s n + 1) \<le> 10001" using refs_opens(2) [OF con, of n] by (simp add: unat_word_ariths)
  then have "refs s n + 1 \<noteq> SIZE_MAX" by (rule refs_not_max)
  moreover have "free_nodes s1 \<noteq> {}" by (rule room_after_held [OF idleD(1) [OF consistentD(1) [OF con]] H(1,7) room])
  ultimately have "idle s1 s1" using idleI [OF H(1,8)] H(7) idleD(2) [OF consistentD(1) [OF con]] by simp
  then have id: "idle ?s ?s" by (simp add: idle_def same_files_def)
  have "disk_ok (disk s)"
    using well_meta_ok [OF idleD(1) [OF consistentD(1) [OF con]]] by (rule meta_okD(1))
  then have "consistent ?s fs nums" "abs_fs ?s = abs_fs s" "stock ?s fs = stock s fs"
    using outside_same [OF con id tab] H(3,6) consistentD(3) [OF con] meta_step_refl by simp_all
  then show ?thesis using op files by blast
qed

section \<open>Closing\<close>

lemma file_node:
  assumes con: "consistent s fs nums" and x: "abs_files s k = Some x"
  defines "p \<equiv> f_inode (fileTable s ! k)"
  shows "k < MAX_FILE_DESCRIPTORS" "k < length (fileTable s)" "validEntry (fileTable s ! k)" "holds s p (o_inode x)"
    "o_inode x \<noteq> 0" "used s (o_inode x)" "f_offset (fileTable s ! k) = o_offset x" "open_on s k p"
    "inode_view s (o_inode x) = getDiskINodeData (core s p)" "wf_inCore (core s p)"
proof -
  note t = consistentD(11) [OF con, unfolded tabled_def]
  show a: "k < 10000" "validEntry (fileTable s ! k)" "f_offset (fileTable s ! k) = o_offset x"
    using x by (auto simp: abs_files_def split: if_splits)
  show b: "holds s p (o_inode x)" "o_inode x \<noteq> 0" "used s (o_inode x)" using t x by (auto simp: p_def)
  show c: "k < length (fileTable s)" using a(1) t by (simp add: wf_table_def)
  have w: "well s" by (rule idleD(1) [OF consistentD(1) [OF con]])
  have "\<not> iNodeMutex (core s p)" by (rule holdsE [OF w b(1)])
  then show "open_on s k p" using a c by (simp add: open_on_def p_def)
  show "inode_view s (o_inode x) = getDiskINodeData (core s p)" "wf_inCore (core s p)"
    using holdsE [OF w b(1)] by metis+
qed

lemma fewer_refs_room:
  assumes "well s" and "well s'" and "free_nodes s \<noteq> {}" and "\<And>m. refs s' m \<noteq> 0 \<Longrightarrow> refs s m \<noteq> 0"
  shows "free_nodes s' \<noteq> {}"
proof -
  have "finite {m. refs s m \<noteq> 0}" by simp
  then have "card {m. refs s' m \<noteq> 0} \<le> card {m. refs s m \<noteq> 0}" using assms(4) by (intro card_mono) auto
  moreover have "card (free_nodes s) \<noteq> 0" using assms(3) finite_free_nodes by simp
  ultimately show ?thesis using card_free_nodes [OF assms(1)] card_free_nodes [OF assms(2)] by (metis add_cancel_left_left card.empty le_antisym le_add2)
qed

lemma opens_remove:
  assumes "t k = Some x"
  shows "opens (t(k := None)) m = opens t m - {k}" and "k \<in> opens t m \<longleftrightarrow> m = o_inode x"
  using assms by (auto simp: opens_def)

text \<open>The file table after an entry is cleared and its reference given back.\<close>

lemma cleared_entry:
  assumes con: "consistent s fs nums" and x: "abs_files s k = Some x"
  defines "t \<equiv> s\<lparr> fileTable := (fileTable s)[k := (fileTable s ! k)\<lparr> validEntry := False \<rparr>] \<rparr>"
  assumes tc: "touches t (o_inode x) (refs t (o_inode x) - 1) (inode_view t (o_inode x)) s'"
    and hl: "refs t (o_inode x) \<noteq> 1 \<longrightarrow> holds s' (f_inode (fileTable s ! k)) (o_inode x)"
  shows "abs_files s' = (abs_files s)(k := None)" and "tabled s'"
proof -
  note F = file_node [OF con x] and tb = consistentD(11) [OF con, unfolded tabled_def]
  let ?n = "o_inode x" and ?p = "f_inode (fileTable s ! k)"
  let ?t = "(fileTable s)[k := (fileTable s ! k)\<lparr> validEntry := False \<rparr>]"
  let ?s = "s\<lparr> fileTable := ?t \<rparr>"
  note T = touchesD [OF tc [unfolded t_def]] and hl = hl [unfolded t_def]
  have v: "inode_view s' m = inode_view s m" if "m < NUM_OF_INODES" for m using T(3) [OF that] by simp
  have r: "refs s' m = (if m = ?n then refs s ?n - 1 else refs s m)" for m using T(4) by simp
  have node: "holds s' (f_inode (fileTable s ! j)) (o_inode y)" if y: "abs_files s j = Some y" "j \<noteq> k" for j y
  proof (cases "o_inode y = ?n")
    case True
    have "{k, j} \<subseteq> opens (abs_files s) ?n" using x y True by (auto simp: opens_def)
    then have "card {k, j} \<le> card (opens (abs_files s) ?n)" by (rule card_mono [OF finite_opens])
    then have "refs s ?n \<noteq> 1" using y(2) refs_opens(1) [OF con, of ?n] by auto
    moreover have "f_inode (fileTable s ! j) = ?p" using holds_unique file_node(4) [OF con y(1)] F(4) True by metis
    ultimately show ?thesis using hl True by simp
  next
    case False
    have "holds ?s (f_inode (fileTable s ! j)) (o_inode y)" using file_node(4) [OF con y(1)] by simp
    then show ?thesis using T(5) False by blast
  qed
  show files: "abs_files s' = (abs_files s)(k := None)"
  proof
    fix j
    show "abs_files s' j = ((abs_files s)(k := None)) j"
    proof (cases "j = k \<or> abs_files s j = None")
      case True
      then show ?thesis using T(2) F(2) by (auto simp: abs_files_def split: if_splits)
    next
      case False
      then obtain y where y: "abs_files s j = Some y" "j \<noteq> k" by auto
      have "inode_number (core s' (f_inode (fileTable s ! j))) = o_inode y" by (rule holds_number [OF T(1) node [OF y]])
      then show ?thesis using y T(2) by (auto simp: abs_files_def split: if_splits)
    qed
  qed
  have refs: "refs s' m = of_nat (card (opens (abs_files s') m))" for m
  proof -
    note O = opens_remove [of "abs_files s" k x m, OF x]
    have "card (opens (abs_files s) m - {k}) = card (opens (abs_files s) m) - of_bool (m = ?n)"
      using O(2) finite_opens by (simp add: card_Diff_singleton_if)
    moreover have "m = ?n \<Longrightarrow> card (opens (abs_files s) m) \<noteq> 0" using O(2) finite_opens by auto
    moreover have "refs s m = of_nat (card (opens (abs_files s) m))" using tb by blast
    ultimately show ?thesis unfolding files O(1) r by (auto simp: of_nat_diff Suc_le_eq)
  qed
  have u: "used s' m = used s m" for m using v by (auto simp: used_def)
  have "abs_files s' j = Some y \<Longrightarrow> o_inode y \<noteq> 0 \<and> used s' (o_inode y) \<and> holds s' (f_inode (fileTable s' ! j)) (o_inode y)" for j y
    using node [of j y] file_node(5,6) [OF con, of j y] T(2) by (auto simp: files u split: if_splits)
  then show "tabled s'" using refs tb T(2) unfolding tabled_def by (simp add: wf_table_def)
qed

lemma close_abs:
  assumes con: "consistent s fs nums" and x: "abs_files s k = Some x" and fi: "fi_fh fi = of_nat k"
  shows "\<exists>s'. closeFile fi ctx s = Some (0, s') \<and> consistent s' fs nums \<and> abs_fs s' = abs_fs s \<and>
    abs_files s' = (abs_files s)(k := None) \<and> stock s' fs = stock s fs"
proof -
  note F = file_node [OF con x]
  let ?n = "o_inode x" and ?p = "f_inode (fileTable s ! k)"
  let ?t = "(fileTable s)[k := (fileTable s ! k)\<lparr> validEntry := False \<rparr>]"
  let ?s = "s\<lparr> fileTable := ?t \<rparr>"
  have w: "well ?s" using idleD(1) [OF consistentD(1) [OF con]] by (simp add: well_def)
  have h: "holds ?s ?p ?n" and keep: "keeps ?s ?n" using F(4-6) by (simp_all add: keeps_def used_def)
  obtain s' where put: "iput ?p ?s = Some (0, s')" and tc: "touches ?s ?n (refs ?s ?n - 1) (inode_view ?s ?n) s'"
    and pe: "pending s' ?n = (pending ?s ?n \<and> refs ?s ?n \<noteq> 1)" and hl: "refs ?s ?n \<noteq> 1 \<longrightarrow> holds s' ?p ?n"
    and ms: "meta_step (disk s) (disk s')" and stk: "\<And>xs. inode_stack (disk s) xs \<Longrightarrow> inode_stack (disk s') xs"
    using iput_meta [OF w h keep] by auto
  note T = touchesD [OF tc]
  have run: "closeFile fi ctx s = Some (0, s')"
    using put getFileDescriptor_valid [OF F(1,3)] F(2) fi by (simp add: closeFile_def Let_def)
  have v: "inode_view s' m = inode_view s m" if "m < NUM_OF_INODES" for m using T(3) [OF that] by simp
  have r: "refs s' m = (if m = ?n then refs s ?n - 1 else refs s m)" for m using T(4) by simp
  note C = cleared_entry [OF con x tc hl]
  have "di_linksCount (inode_view s' m) \<noteq> 0" if m: "m < NUM_OF_INODES" "pending s' m" for m
  proof (cases "m = ?n")
    case True
    then show ?thesis using v [OF m(1)] F(5,6) by (simp add: used_def)
  next
    case False
    have "pending ?s m = pending s m" by (simp add: pending_def)
    then show ?thesis using T(7) [OF False] m v idleD(4) [OF consistentD(1) [OF con]] by simp
  qed
  moreover have "free_nodes s' \<noteq> {}"
    by (rule fewer_refs_room [OF idleD(1) [OF consistentD(1) [OF con]] T(1) idleD(3) [OF consistentD(1) [OF con]]])
      (use r holds_refs_nonzero [OF F(4)] in \<open>auto split: if_splits\<close>)
  moreover have "refs s' m \<noteq> SIZE_MAX" for m
  proof -
    have "refs s ?n - 1 \<noteq> SIZE_MAX" using holds_refs_nonzero [OF F(4)] by simp
    then show ?thesis using r idleD(2) [OF consistentD(1) [OF con]] by simp
  qed
  ultimately have "idle s' s'" by (intro idleI [OF T(1)])
  then show ?thesis using outside_same [OF con _ C(2) v ms stk [OF consistentD(3) [OF con]]] run C(1) by blast
qed

section \<open>Reading and writing\<close>

lemma advance_abs:
  assumes con: "consistent s fs nums" and x: "abs_files s k = Some x"
  shows "consistent (advance k c s) fs nums" and "abs_fs (advance k c s) = abs_fs s"
    and "abs_files (advance k c s) = (abs_files s)(k \<mapsto> x\<lparr> o_offset := o_offset x + of_nat c \<rparr>)"
    and "stock (advance k c s) fs = stock s fs"
proof -
  note F = file_node [OF con x] and t = consistentD(11) [OF con, unfolded tabled_def]
  let ?e = "(fileTable s ! k)\<lparr> f_offset := f_offset (fileTable s ! k) + of_nat c \<rparr>"
  have tab: "fileTable (advance k c s) ! j = (if j = k then ?e else fileTable s ! j)" for j
    using F(2) by (auto simp: advance_def nth_list_update)
  have valid: "validEntry (fileTable (advance k c s) ! j) = validEntry (fileTable s ! j)"
    "f_inode (fileTable (advance k c s) ! j) = f_inode (fileTable s ! j)" for j using tab by auto
  show files: "abs_files (advance k c s) = (abs_files s)(k \<mapsto> x\<lparr> o_offset := o_offset x + of_nat c \<rparr>)"
  proof
    fix j
    show "abs_files (advance k c s) j = ((abs_files s)(k \<mapsto> x\<lparr> o_offset := o_offset x + of_nat c \<rparr>)) j"
      using x unfolding abs_files_def valid tab by (auto split: if_splits)
  qed
  have o: "opens (abs_files (advance k c s)) n = opens (abs_files s) n" for n
    unfolding files opens_def using x by auto
  have same: "refs (advance k c s) n = refs s n" "holds (advance k c s) p n = holds s p n" "used (advance k c s) n = used s n"
    "inode_view (advance k c s) n = inode_view s n" for n p
    by (simp_all add: advance_def used_def)
  have "o_inode y \<noteq> 0 \<and> used s (o_inode y) \<and> holds s (f_inode (fileTable s ! j)) (o_inode y)"
    if "abs_files (advance k c s) j = Some y" for j y
    using that file_node(4-6) [OF con, of j] x unfolding files by (cases "j = k") auto
  then have tb: "tabled (advance k c s)"
    using t unfolding tabled_def o same valid by (auto simp: wf_table_def advance_def)
  have id: "idle (advance k c s) (advance k c s)"
    using consistentD(1) [OF con] by (simp add: advance_def idle_def same_files_def)
  have "disk_ok (disk s)"
    using well_meta_ok [OF idleD(1) [OF consistentD(1) [OF con]]] by (rule meta_okD(1))
  then show "consistent (advance k c s) fs nums" "abs_fs (advance k c s) = abs_fs s" "stock (advance k c s) fs = stock s fs"
    using outside_same [OF con id tb same(4)] consistentD(3) [OF con] meta_step_refl by simp_all
qed

lemma open_file_data:
  assumes con: "consistent s fs nums" and x: "abs_files s k = Some x" and y: "abs_fs s (o_inode x) = Some y" "a_content y = Bytes bs"
  defines "p \<equiv> f_inode (fileTable s ! k)"
  shows "direct (core s p) (disk s) fs" and "file_bytes (core s p) (disk s) = bs" and "isize (core s p) = of_nat (length bs)"
    and "file_blocks (core s p) = blocks_of s (o_inode x)"
proof -
  note F = file_node [OF con x] and Y = node_file [OF y]
  note V = view_contents [OF F(9,10), folded p_def]
  show "direct (core s p) (disk s) fs" "file_bytes (core s p) (disk s) = bs" "file_blocks (core s p) = blocks_of s (o_inode x)"
    using consistentD(6) [OF con F(6)] Y(3) V by simp_all
  then have u: "unat (isize (core s p)) = length bs" using length_file_bytes [of "core s p" "disk s"] by simp
  have "isize (core s p) = of_nat (unat (isize (core s p)))" by simp
  then show "isize (core s p) = of_nat (length bs)" unfolding u .
qed

definition a_append :: "byte list \<Rightarrow> anode \<Rightarrow> anode" where
  "a_append buf x = (case a_content x of Bytes bs \<Rightarrow> x\<lparr> a_content := Bytes (bs @ buf) \<rparr> | Folder _ \<Rightarrow> x)"

text \<open>Data appended through a node that is held.\<close>

lemma append_step:
  assumes con: "consistent s fs nums" and u: "used s n" "n \<noteq> 0" and h: "holds s p n" and type: "di_type (inode_view s n) \<noteq> T_DIRECTORY"
    and app: "appended (core s p) (disk s) fs buf i' d' fs'" and dirty: "dirty i'"
  defines "s' \<equiv> upd_core p (\<lambda>_. i') (s\<lparr> disk := d' \<rparr>)"
  shows "consistent s' fs' nums" and "abs_fs s' = a_update n (a_append buf) (abs_fs s)" and "abs_files s' = abs_files s"
    and "stock s' fs' = stock s fs"
proof -
  have w: "well s" by (rule idleD(1) [OF consistentD(1) [OF con]])
  have c: "inode_number (core s p) = n" "wf_inCore (core s p)" "inode_view s n = getDiskINodeData (core s p)"
    using holdsE [OF w h] by metis+
  note V = view_contents [OF c(3,2)]
  have rs: "resized (core s p) i'" and wf: "wf_inCore i'" and rep: "direct i' d' fs'"
    using app by (simp_all add: appended_def direct_def direct_file_def)
  have tc: "touches s n (refs s n) (getDiskINodeData i') s'" and h': "holds s' p n"
    unfolding s'_def using data_then_change(1,2) [OF w appended_data_step [OF app] h] resizedD(1-3) [OF rs] c(1) wf dirty by auto
  note T = touchesD [OF tc]
  obtain tm ns where gi: "getDiskINodeData i' = (inode_view s n)\<lparr> di_size := isize i', di_modification := tm, di_dataBlockNums := ns \<rparr>"
    using resized_view [OF rs] c(3) by metis
  have v: "inode_view s' n = getDiskINodeData i'" using T(3) used_less [OF u(1)] by simp
  note V' = view_contents [OF v wf]
  have "di_linksCount (inode_view s' m) \<noteq> 0" if m: "m < NUM_OF_INODES" "pending s' m" for m
  proof (cases "m = n")
    case True
    then show ?thesis using v gi u by (simp add: used_def)
  next
    case False
    then show ?thesis using T(3,7) m idleD(4) [OF consistentD(1) [OF con]] by auto
  qed
  moreover have refs: "refs s' m = refs s m" for m using T(4) by simp
  moreover have "free_nodes s' \<noteq> {}"
    by (rule fewer_refs_room [OF w T(1) idleD(3) [OF consistentD(1) [OF con]]]) (simp add: refs)
  ultimately have "idle s' s'" using idleI [OF T(1)] idleD(2) [OF consistentD(1) [OF con]] by simp
  moreover have "pinned s s'" using T(5) h h' holds_unique by (metis pinned_def)
  ultimately have md: "modified s n (getDiskINodeData i') s'" using refs T(2,3) by (simp add: modified_def)
  have dk: "disk s' = d'" by (simp add: s'_def)
  have fr: "frames (disk s) fs (blocks_of s n) (disk s') fs'" using frames_appended [OF app] V(5) dk by simp
  have snd: "sound s' fs' n" using V'(1) rep dk v gi type by (simp add: sound_def)
  have bl: "set fs' \<union> blocks_of s' n = set fs \<union> blocks_of s n" using app unfolding V'(5) V(5) by (auto simp: appended_def)
  note ok = well_meta_ok [OF w]
  have st: "inode_stack (disk s') xs" if "inode_stack (disk s) xs" for xs
    using data_step_stack [OF appended_data_step(1) [OF app] ok that] dk by simp
  have "bytes_of s' n = bytes_of s n @ buf" using app V'(2) V(2) dk by (simp add: appended_def)
  then have no: "node_of s' n = a_append buf (node_of s n)" using v gi type by (simp add: node_of_def a_append_def)
  have cl: "closed (a_update n (a_append buf) (abs_fs s))"
    by (rule closed_update [OF consistentD(10) [OF con]]) (auto simp: a_append_def)
  show "consistent s' fs' nums" "abs_fs s' = a_update n (a_append buf) (abs_fs s)" "abs_files s' = abs_files s" "stock s' fs' = stock s fs"
    using one_changed [OF con u(1) md _ fr snd bl st no cl] gi by simp_all
qed

lemma write_abs:
  assumes con: "consistent s fs nums" and x: "abs_files s k = Some x" and fi: "fi_fh fi = of_nat k"
    and y: "abs_fs s (o_inode x) = Some y" "a_content y = Bytes bs"
    and fits: "can_grow (length bs) (length bs + length buf) (length fs)"
  shows "\<exists>s' fs'. writeToFile buf (of_nat (length bs)) fi ctx s = Some (int (length buf), s') \<and> consistent s' fs' nums \<and>
    abs_fs s' = a_update (o_inode x) (a_append buf) (abs_fs s) \<and>
    abs_files s' = (abs_files s)(k \<mapsto> x\<lparr> o_offset := o_offset x + of_nat (length buf) \<rparr>) \<and> stock s' fs' = stock s fs"
proof -
  note F = file_node [OF con x] and D = open_file_data [OF con x y] and Y = node_file [OF y]
  let ?p = "f_inode (fileTable s ! k)" and ?n = "o_inode x"
  have un: "unat (isize (core s ?p)) = length bs" using D(2) length_file_bytes [of "core s ?p" "disk s"] by simp
  then have af: "append_fits (core s ?p) fs (length buf)" using fits by (simp add: append_fits_def can_grow_def)
  obtain i' d' fs' where wr: "writeToFile buf (isize (core s ?p)) fi ctx s =
      Some (int (length buf), advance k (length buf) (upd_core ?p (\<lambda>_. i') (s\<lparr> disk := d' \<rparr>)))"
    and app: "appended (core s ?p) (disk s) fs buf i' d' fs'"
    and di: "if buf = [] then i' = core s ?p \<and> d' = disk s \<and> fs' = fs else dirty i'"
    using writeToFile_state [OF F(8) fi D(1) af, of ctx] by blast
  let ?s = "upd_core ?p (\<lambda>_. i') (s\<lparr> disk := d' \<rparr>)"
  have "consistent ?s fs' nums \<and> abs_fs ?s = a_update ?n (a_append buf) (abs_fs s) \<and> abs_files ?s = abs_files s \<and>
    stock ?s fs' = stock s fs"
  proof (cases "buf = []")
    case True
    then have "?s = s" using di upd_core_same [of ?p s] by simp
    moreover have "a_update ?n (a_append []) (abs_fs s) = abs_fs s"
      using y by (auto simp: a_update_def a_append_def)
    ultimately show ?thesis using True di con by simp
  next
    case False
    then show ?thesis using append_step [OF con F(6,5,4) Y(2) app] di by simp
  qed
  then have c: "consistent ?s fs' nums" "abs_fs ?s = a_update ?n (a_append buf) (abs_fs s)" "abs_files ?s = abs_files s"
    "stock ?s fs' = stock s fs" by auto
  have "abs_files ?s k = Some x" using c(3) x by simp
  from advance_abs [OF c(1) this, of "length buf"] show ?thesis using wr c D(3) by (metis (no_types, lifting))
qed

lemma read_abs:
  assumes con: "consistent s fs nums" and x: "abs_files s k = Some x" and fi: "fi_fh fi = of_nat k"
    and y: "abs_fs s (o_inode x) = Some y" "a_content y = Bytes bs" and sz: "unat sz < 2 ^ 31"
  shows "\<exists>s'. readFile sz 0 fi ctx s = Some (int (min (unat sz) (length bs)), take (unat sz) bs, s') \<and> consistent s' fs nums \<and>
    abs_fs s' = abs_fs s \<and>
    abs_files s' = (abs_files s)(k \<mapsto> x\<lparr> o_offset := o_offset x + of_nat (min (unat sz) (length bs)) \<rparr>) \<and>
    stock s' fs = stock s fs"
proof -
  note F = file_node [OF con x] and D = open_file_data [OF con x y]
  have "readFile sz 0 fi ctx s = Some (int (min (unat sz) (length bs)), take (unat sz) bs, advance k (min (unat sz) (length bs)) s)"
    using readFile_whole [OF F(8) direct_file_ok [OF D(1) [unfolded direct_def]] sz fi, of ctx] D(2) by (simp add: min.commute)
  then show ?thesis using advance_abs [OF con x] by blast
qed

end
