(* ===== verification/Locks.thy ===== *)
theory Locks
  imports Handles
begin

text \<open>
  Work on other inodes while one node is locked.  The invariant of the cache speaks of states in which no lock is
  held; \<open>mark p\<close> is such a state with node \<open>p\<close> locked.  None of the cache's operations looks at a lock but that of
  the node it works on, so \<open>iget\<close> and \<open>iput\<close> of other nodes do in a marked state what they do in the unmarked one.
\<close>

section \<open>Marked states\<close>

definition mark_node :: "nat \<Rightarrow> icache \<Rightarrow> icache" where
  "mark_node p = upd_node p (inode_update (iNodeMutex_update (\<lambda>_. True)))"

definition mark :: "nat \<Rightarrow> fs \<Rightarrow> fs" where
  "mark p s = upd_core p (iNodeMutex_update (\<lambda>_. True)) s"

lemma lock_mark: "\<not> iNodeMutex (core s p) \<Longrightarrow> lock p s = Some (mark p s)"
  by (simp add: lock_def mark_def)

lemma unlock_mark: "\<not> iNodeMutex (core s p) \<Longrightarrow> unlock p (mark p s) = s"
  unfolding mark_def by (rule unlock_marked)

lemma mark_parts [simp]:
  "cache (mark p s) = mark_node p (cache s)" "disk (mark p s) = disk s" "fileTable (mark p s) = fileTable s"
  "(mark p s)\<lparr> disk := d \<rparr> = mark p (s\<lparr> disk := d \<rparr>)" "(mark p s)\<lparr> cache := mark_node p c \<rparr> = mark p (s\<lparr> cache := c \<rparr>)"
  by (simp_all add: mark_def mark_node_def upd_core_def)

lemma mark_node_parts [simp]:
  "freeList (mark_node p c) = freeList c" "hashQ (mark_node p c) = hashQ c"
  "n_next (nodes (mark_node p c) q) = n_next (nodes c q)" "n_prev (nodes (mark_node p c) q) = n_prev (nodes c q)"
  "hash_next (nodes (mark_node p c) q) = hash_next (nodes c q)" "hash_prev (nodes (mark_node p c) q) = hash_prev (nodes c q)"
  "inode_number (inode (nodes (mark_node p c) q)) = inode_number (inode (nodes c q))"
  "device_number (inode (nodes (mark_node p c) q)) = device_number (inode (nodes c q))"
  "q \<noteq> p \<Longrightarrow> nodes (mark_node p c) q = nodes c q"
  by (simp_all add: mark_node_def)

lemma mark_node_self: "inode (nodes (mark_node p c) p) = (inode (nodes c p))\<lparr> iNodeMutex := True \<rparr>"
  by (simp add: mark_node_def)

lemma core_marked: "core (mark p s) p = (core s p)\<lparr> iNodeMutex := True \<rparr>"
  by (simp add: mark_def)

lemma upd_node_marked [simp]:
  "set_next q v (mark_node p c) = mark_node p (set_next q v c)" "set_prev q v (mark_node p c) = mark_node p (set_prev q v c)"
  "set_hash_next q v (mark_node p c) = mark_node p (set_hash_next q v c)"
  "set_hash_prev q v (mark_node p c) = mark_node p (set_hash_prev q v c)"
  "(mark_node p c)\<lparr> freeList := l \<rparr> = mark_node p (c\<lparr> freeList := l \<rparr>)"
  "(mark_node p c)\<lparr> hashQ := h \<rparr> = mark_node p (c\<lparr> hashQ := h \<rparr>)"
  by (auto simp: mark_node_def upd_node_def fun_upd_twist fun_eq_iff)

lemma upd_core_marked: "q \<noteq> p \<Longrightarrow> upd_core q f (mark p s) = mark p (upd_core q f s)"
  by (auto simp: mark_def upd_core_def upd_node_def fun_upd_twist)

section \<open>Operations on the cache\<close>

lemma hash_walk_marked: "hash_walk n h c = Some r \<Longrightarrow> hash_walk n h (mark_node p c) = Some r"
proof (rule hash_walk.raw_induct [where P = "\<lambda>n h c r. hash_walk n h (mark_node p c) = Some r"])
  fix walk n h c r
  assume IH: "\<And>n h c r. walk n h c = Some r \<Longrightarrow> hash_walk n h (mark_node p c) = Some r"
    and run: "(case h of None \<Rightarrow> Some None
      | Some h \<Rightarrow> if inode_number (inode (nodes c h)) = n then Some (Some h) else walk n (hash_next (nodes c h)) c) = Some r"
  show "hash_walk n h (mark_node p c) = Some r"
    using run IH by (subst hash_walk.simps) (auto split: option.splits if_splits)
qed

lemma hashLookup_marked: "hashLookup n dev c = Some r \<Longrightarrow> hashLookup n dev (mark_node p c) = Some r"
  unfolding hashLookup_def mark_node_parts by (rule hash_walk_marked)

lemma fl_find_marked: "fl_find q w c = Some b \<Longrightarrow> fl_find q w (mark_node p c) = Some b"
proof (rule fl_find.raw_induct [where P = "\<lambda>q w c b. fl_find q w (mark_node p c) = Some b"])
  fix find' q w c b
  assume IH: "\<And>q w c b. find' q w c = Some b \<Longrightarrow> fl_find q w (mark_node p c) = Some b"
    and run: "(if q = w then Some True else case n_next (nodes c w) of None \<Rightarrow> Some False
      | Some v \<Rightarrow> if Some v = freeList c then Some False else find' q v c) = Some b"
  show "fl_find q w (mark_node p c) = Some b"
    using run IH by (cases "n_next (nodes c w)") (auto simp: fl_find.simps [of q w] split: if_splits)
qed

lemma freeListInsert_marked: "freeListInsert q c = Some c' \<Longrightarrow> freeListInsert q (mark_node p c) = Some (mark_node p c')"
  by (auto simp: freeListInsert_def Let_def bind_Some_iff simp del: nodes_upd_node split: option.splits)

lemma popFreeList_marked: "popFreeList c = Some (r, c') \<Longrightarrow> popFreeList (mark_node p c) = Some (r, mark_node p c')"
  by (auto simp: popFreeList_def Let_def bind_Some_iff simp del: nodes_upd_node split: option.splits if_splits)

lemma freeListRemove_marked:
  assumes "freeListRemove q c = Some c'"
  shows "freeListRemove q (mark_node p c) = Some (mark_node p c')"
proof (cases "freeList c")
  case (Some f)
  note F = Some
  show ?thesis
  proof (cases "q = f \<and> n_next (nodes c f) = Some f")
    case False
    then obtain found where b: "fl_find q f c = Some found" using assms F by (auto simp: freeListRemove_def bind_Some_iff)
    note b' = fl_find_marked [OF b, of p]
    show ?thesis
    proof (cases found)
      case True
      have "(if f = q then (mark_node p c)\<lparr> freeList := l \<rparr> else mark_node p c) =
          mark_node p (if f = q then c\<lparr> freeList := l \<rparr> else c)" for l by simp
      then show ?thesis using assms F False b b' True
        by (auto simp: freeListRemove_def Let_def bind_Some_iff simp del: nodes_upd_node)
    qed (use assms F False b b' in \<open>auto simp: freeListRemove_def\<close>)
  qed (use assms F in \<open>auto simp: freeListRemove_def Let_def simp del: nodes_upd_node\<close>)
qed (use assms in \<open>simp add: freeListRemove_def\<close>)

lemma removeFromHashQ_marked: "removeFromHashQ q (mark_node p c) = mark_node p (removeFromHashQ q c)"
  by (simp add: removeFromHashQ_def Let_def del: nodes_upd_node split: option.split)

lemma insertInHash_marked: "insertInHash q n dev (mark_node p c) = mark_node p (insertInHash q n dev c)"
  by (simp add: insertInHash_def Let_def del: nodes_upd_node split: option.split)

lemma updateInHashQ_marked: "updateInHashQ q n dev (mark_node p c) = mark_node p (updateInHashQ q n dev c)"
  by (simp add: updateInHashQ_def removeFromHashQ_marked insertInHash_marked)

section \<open>iget and iput of another node\<close>

lemma other_marked:
  assumes "q \<noteq> p"
  shows "core (mark p s) q = core s q" and "unlock q (mark p s) = mark p (unlock q s)"
    and "lock q s = Some s' \<Longrightarrow> lock q (mark p s) = Some (mark p s')"
    and "fetchInodeFromDisk n q s = Some s' \<Longrightarrow> fetchInodeFromDisk n q (mark p s) = Some (mark p s')"
    and "writeINodeToDisk q s = Some s' \<Longrightarrow> writeINodeToDisk q (mark p s) = Some (mark p s')"
    and "updateAndGetINode q s = (r, s') \<Longrightarrow> updateAndGetINode q (mark p s) = (r, mark p s')"
  using assms
  by (auto simp: unlock_def lock_def fetchInodeFromDisk_def writeINodeToDisk_def updateAndGetINode_def Let_def upd_core_marked
      bind_Some_iff split: if_splits)

lemma on_cache_marked:
  "on_cache (freeListRemove q) s = Some s' \<Longrightarrow> on_cache (freeListRemove q) (mark p s) = Some (mark p s')"
  "on_cache (freeListInsert q) s = Some s' \<Longrightarrow> on_cache (freeListInsert q) (mark p s) = Some (mark p s')"
  by (auto simp: on_cache_def freeListRemove_marked freeListInsert_marked)

lemma on_disk_marked: "on_disk f s = Some s' \<Longrightarrow> on_disk f (mark p s) = Some (mark p s')"
  by (auto simp: on_disk_def)

lemma updateAndGetINode_node: "updateAndGetINode q s = (r, s') \<Longrightarrow> r = Some q"
  by (auto simp: updateAndGetINode_def Let_def)

lemma iget_marked:
  assumes run: "iget n dev s = Some (Some q, s')" and q: "q \<noteq> p"
  shows "iget n dev (mark p s) = Some (Some q, mark p s')"
proof -
  obtain r where r: "hashLookup n dev (cache s) = Some r" using run by (auto simp: iget_def bind_Some_iff)
  note r' = hashLookup_marked [OF r, of p] and O = other_marked [OF q]
  show ?thesis
  proof (cases r)
    case None
    obtain x c where pop: "popFreeList (cache s) = Some (x, c)" using run r None by (auto simp: iget_def bind_Some_iff)
    note pop' = popFreeList_marked [OF pop, of p]
    obtain s1 s2 where x: "x = Some q" "lock q (s\<lparr> cache := c \<rparr>) = Some s1"
      "fetchInodeFromDisk n q (s1\<lparr> cache := updateInHashQ q n dev (cache s1) \<rparr>) = Some s2" "updateAndGetINode q s2 = (Some q, s')"
      using run r None pop by (auto simp: iget_def bind_Some_iff Let_def dest: updateAndGetINode_node split: option.splits)
    show ?thesis
      using r' None pop' x(1) O(3) [OF x(2)] O(4) [OF x(3)] O(6) [OF x(4)] by (simp add: iget_def updateInHashQ_marked)
  next
    case (Some a)
    obtain s1 s2 s3 where x: "a = q" "lock q s = Some s1"
      "(if reference_count (core s1 q) = 0 then on_cache (freeListRemove q) s1 else Some s1) = Some s2"
      "(if linksCount (core s2 q) = 0 then fetchInodeFromDisk n q s2 else Some s2) = Some s3"
      "updateAndGetINode q s3 = (Some q, s')"
      using run r Some by (auto simp: iget_def bind_Some_iff dest: updateAndGetINode_node)
    have "(if reference_count (core (mark p s1) q) = 0 then on_cache (freeListRemove q) (mark p s1) else Some (mark p s1)) = Some (mark p s2)"
      using x(3) on_cache_marked(1) [of q s1 s2 p] O(1) by (auto split: if_splits)
    moreover have "(if linksCount (core (mark p s2) q) = 0 then fetchInodeFromDisk n q (mark p s2) else Some (mark p s2)) = Some (mark p s3)"
      using x(4) O(4) [of n s2 s3] O(1) by (auto split: if_splits)
    ultimately show ?thesis
      using r' Some x(1) O(3) [OF x(2)] O(6) [OF x(5)] by (simp add: iget_def)
  qed
qed

text \<open>The parts of \<open>iput\<close> behind the last reference.\<close>

definition put_write :: "nat \<Rightarrow> fs \<Rightarrow> fs option" where
  "put_write q s =
     (if inode_changed (core s q) \<or> file_data_changed (core s q) then do {
        s \<leftarrow> writeINodeToDisk q s;
        Some (upd_core q (\<lambda>i. i\<lparr> inode_changed := False, file_data_changed := False \<rparr>) s)
      }
      else Some s)"

definition put_delete :: "nat \<Rightarrow> fs \<Rightarrow> fs option" where
  "put_delete q s =
     (if linksCount (core s q) = 0 \<and> inode_number (core s q) \<noteq> 0 then do {
        (i, d) \<leftarrow> inodeBlocksFree (core s q) (disk s);
        let s = upd_core q (\<lambda>_. i) (s\<lparr> disk := d \<rparr>);
        on_disk (freeINode (inode_number (core s q))) s
      }
      else Some s)"

definition put_free :: "nat \<Rightarrow> fs \<Rightarrow> (int \<times> fs) option" where
  "put_free q s =
     do {
       node \<leftarrow> hashLookup (inode_number (core s q)) (device_number (core s q)) (cache s);
       case node of
         None \<Rightarrow> Some (- 1, unlock q s)
       | Some node \<Rightarrow> do {
           s \<leftarrow> on_cache (freeListInsert node) s;
           Some (0, unlock q s)
         }
     }"

lemma iput_parts:
  "iput q s =
     do {
       s \<leftarrow> lock q s;
       if reference_count (core s q) = 0 then Some (- 1, unlock q s)
       else do {
         let s = upd_core q (\<lambda>i. i\<lparr> reference_count := reference_count i - 1 \<rparr>) s;
         if reference_count (core s q) = 0 then do {
           s \<leftarrow> put_write q s;
           s \<leftarrow> put_delete q s;
           put_free q s
         }
         else Some (0, unlock q s)
       }
     }"
  unfolding iput_def put_write_def put_delete_def put_free_def by (rule refl)

lemma put_marked:
  assumes q: "q \<noteq> p"
  shows "put_write q s = Some s' \<Longrightarrow> put_write q (mark p s) = Some (mark p s')"
    and "put_delete q s = Some s' \<Longrightarrow> put_delete q (mark p s) = Some (mark p s')"
    and "put_free q s = Some (r, s') \<Longrightarrow> put_free q (mark p s) = Some (r, mark p s')"
proof -
  note O = other_marked [OF q] and U = upd_core_marked [OF q]
  show "put_write q s = Some s' \<Longrightarrow> put_write q (mark p s) = Some (mark p s')"
    using O(1) O(5) U by (auto simp: put_write_def bind_Some_iff split: if_splits)
  show "put_delete q s = Some s' \<Longrightarrow> put_delete q (mark p s) = Some (mark p s')"
    using O(1) U on_disk_marked by (auto simp: put_delete_def bind_Some_iff Let_def split: if_splits)
  show "put_free q s = Some (r, s') \<Longrightarrow> put_free q (mark p s) = Some (r, mark p s')"
    using O(2) hashLookup_marked on_cache_marked(2) by (fastforce simp: put_free_def bind_Some_iff split: option.splits)
qed

lemma iput_marked:
  assumes run: "iput q s = Some (r, s')" and q: "q \<noteq> p"
  shows "iput q (mark p s) = Some (r, mark p s')"
proof -
  note O = other_marked [OF q] and U = upd_core_marked [OF q] and P = put_marked [OF q]
  obtain s1 where s1: "lock q s = Some s1" using run by (auto simp: iput_parts bind_Some_iff)
  note s1' = O(3) [OF s1]
  let ?s2 = "upd_core q (\<lambda>i. i\<lparr> reference_count := reference_count i - 1 \<rparr>) s1"
  show ?thesis
  proof (cases "reference_count (core s1 q) \<noteq> 0 \<and> reference_count (core ?s2 q) = 0")
    case False
    then show ?thesis using run s1 s1' O(1) O(2) U by (auto simp: iput_parts Let_def split: if_splits)
  next
    case True
    obtain s3 s4 where x: "put_write q ?s2 = Some s3" "put_delete q s3 = Some s4" "put_free q s4 = Some (r, s')"
      using run s1 True by (auto simp: iput_parts Let_def bind_Some_iff)
    show ?thesis using s1' True O(1) U P(1) [OF x(1)] P(2) [OF x(2)] P(3) [OF x(3)] by (simp add: iput_parts)
  qed
qed

end
