(* ===== verification/DirRemove.thy ===== *)
theory DirRemove
  imports Unlink Locks "HOL-Library.Multiset"
begin

text \<open>
  Taking a name out of a directory: the search for unlinking overwrites the entry with the last one, and the
  directory is then cut by one entry.  What this does to the list of entries and to the names.
\<close>

section \<open>Entries in the middle of a directory\<close>

lemma take_nat_bytes: "k \<le> n \<Longrightarrow> take k (nat_bytes n x) = nat_bytes k x"
proof (induction k arbitrary: n x)
  case (Suc k)
  then show ?case by (cases n) auto
qed simp

lemma le_bytes_memcpy_low:
  assumes "length src = 2"
  shows "le_bytes 2 (memcpy_low src v) = src"
proof -
  let ?X = "src @ drop 2 (le_bytes 8 v)"
  have "length (le_bytes 8 v) = 8" by simp
  then have len: "length ?X = 8" using assms by simp
  have "le_bytes 2 (memcpy_low src v) = take 2 (le_bytes (length ?X) (le_word ?X :: size_t))"
    using take_nat_bytes [of 2 8] assms unfolding len by (simp add: memcpy_low_def le_bytes_def)
  also have "\<dots> = take 2 ?X" using le_bytes_le_word [of ?X, where 'a = 64] len by simp
  finally show ?thesis using assms by simp
qed

lemma memcpy_low_valid:
  assumes "length src = 2" and "(le_word src :: size_t) \<noteq> 65535"
  shows "memcpy_low src v \<noteq> - 1"
proof
  assume "memcpy_low src v = - 1"
  then have "src = le_bytes 2 (- 1 :: size_t)" using le_bytes_memcpy_low [OF assms(1), of v] by simp
  then have "(le_word src :: size_t) = - 1 mod 65536" using le_word_low2 [of "- 1"] by simp
  also have "(- 1 mod 65536 :: size_t) = 65535" by (simp add: word_unat_eq_iff unat_mod_distrib)
  finally show False using assms(2) by simp
qed

text \<open>A piece of a file in direct blocks that is overwritten in place.\<close>

lemma overwrite_chunk:
  assumes rep: "direct i d fs" and c: "m mod BLOCK_SIZE + length c \<le> BLOCK_SIZE" and le: "m + length c \<le> unat (isize i)" "c \<noteq> []"
  defines "d' \<equiv> put_block (dataBlockNums i ! (m div BLOCK_SIZE)) (memcpy_at (m mod BLOCK_SIZE) c (file_blk i d (m div BLOCK_SIZE))) d"
  shows "direct i d' fs" and "file_bytes i d' = memcpy_at m c (file_bytes i d)"
    and "same_except d d' (insert FREE_LIST_BLOCK (file_blocks i))"
proof -
  let ?k = "m div 1024" and ?o = "m mod 1024" and ?K = "blocks_for (unat (isize i))"
  let ?b = "memcpy_at ?o c (file_blk i d ?k)"
  have rep': "direct_file i d fs ?K" using rep by (simp add: direct_def)
  have "m < unat (isize i)" using le by (cases c) auto
  then have kK: "?k < ?K" by (rule block_below)
  note blk = direct_blk [OF rep' kK]
  have len: "length ?b = 1024" using c blk(4) by simp
  have sz: "unat (isize i) \<le> 1024 * ?K" using rep' by (simp add: direct_file_def)
  show dir: "direct i d' fs" using direct_file_put(1) [OF rep' kK len refl sz] by (simp add: direct_def d'_def)
  have bs: "file_blk i d' j = (if j = ?k then ?b else file_blk i d j)" if "j < ?K" for j
    using direct_file_put(2) [OF rep' kK len refl sz that] by (simp add: d'_def)
  show "file_bytes i d' = memcpy_at m c (file_bytes i d)"
  proof (rule nth_equalityI)
    show "length (file_bytes i d') = length (memcpy_at m c (file_bytes i d))" using le by simp
    fix x assume "x < length (file_bytes i d')"
    then have x: "x < unat (isize i)" by simp
    have byte: "file_bytes i d'' ! x = file_blk i d'' (x div 1024) ! (x mod 1024)" for d'' using x by (simp add: file_bytes_def)
    note xb = bs [OF block_below [OF x]]
    have rhs: "memcpy_at m c (file_bytes i d) ! x = (if m \<le> x \<and> x < m + length c then c ! (x - m) else file_bytes i d ! x)"
      by (rule nth_memcpy_at) (use le x in simp_all)
    show "file_bytes i d' ! x = memcpy_at m c (file_bytes i d) ! x"
    proof (cases "m \<le> x \<and> x < m + length c")
      case True
      then obtain j where j: "x = m + j" "j < length c" by (auto dest: le_Suc_ex)
      have "x div 1024 = ?k" "x mod 1024 = ?o + j" using same_block [of m j] j c by auto
      then show ?thesis using byte [of d'] xb rhs True j c blk(4) by (simp add: nth_memcpy_at)
    next
      case False
      have "\<not> (?o \<le> x mod 1024 \<and> x mod 1024 < ?o + length c)" if "x div 1024 = ?k"
        using False that mult_div_mod_eq [of 1024 x] mult_div_mod_eq [of 1024 m] by linarith
      then have "file_blk i d' (x div 1024) ! (x mod 1024) = file_blk i d (x div 1024) ! (x mod 1024)"
        using xb c blk(4) by (auto simp: nth_memcpy_at)
      then show ?thesis using byte [of d'] byte [of d] rhs False by simp
    qed
  qed
  have "dataBlockNums i ! ?k \<in> file_blocks i" using kK rep'
    by (auto simp: file_blocks_def in_set_conv_nth direct_file_def wf_inCore_def intro!: exI [of _ ?k])
  moreover have "disk_ok d" using rep' by (auto simp: direct_file_def elim: free_listE)
  ultimately show "same_except d d' (insert FREE_LIST_BLOCK (file_blocks i))"
    unfolding d'_def using len by (intro same_except_put) auto
qed

section \<open>Entries without one\<close>

text \<open>Entry \<open>g\<close> is replaced by the last one, which is dropped.\<close>

definition drop_entry :: "nat \<Rightarrow> 'a list \<Rightarrow> 'a list" where
  "drop_entry g es = butlast (es[g := last es])"

lemma length_drop_entry [simp]: "length (drop_entry g es) = length es - 1"
  by (simp add: drop_entry_def)

lemma entries_drop:
  assumes n: "length bs = 64 * n" and g: "g < n"
  shows "entries (take (64 * (n - 1)) (memcpy_at (64 * g) (bytes_at (64 * (n - 1)) 64 bs) bs)) = drop_entry g (entries bs)"
proof -
  let ?l = "bytes_at (64 * (n - 1)) 64 bs"
  let ?bs = "memcpy_at (64 * g) ?l bs"
  have le: "64 * k + 64 \<le> 64 * n" if "k < n" for k using that by (simp add: Suc_leI)
  have len: "length ?l = 64" "length ?bs = 64 * n" using n g le [of "n - 1"] le [of g] by simp_all
  have whole: "entry_at xs k = entry_at ys j" if "bytes_at (64 * k) 64 xs = bytes_at (64 * j) 64 ys" for xs ys k j
    using arg_cong [OF that, of "bytes_at 0 62"] arg_cong [OF that, of "bytes_at 62 2"]
    by (simp add: entry_at_def entry_name_def entry_num_def)
  have at: "entry_at ?bs k = (if k = g then entry_at bs (n - 1) else entry_at bs k)" if "k < n" for k
  proof (cases "k = g")
    case True
    have "bytes_at (64 * g) 64 ?bs = ?l" using len n le [OF g] by simp
    then show ?thesis using whole [of g ?bs "n - 1" bs] True by simp
  next
    case False
    then have "64 * k + 64 \<le> 64 * g \<or> 64 * g + length ?l \<le> 64 * k" unfolding len(1) by arith
    then have "bytes_at (64 * k) 64 ?bs = bytes_at (64 * k) 64 bs"
      by (intro bytes_at_memcpy_other) (simp_all only: len(1) n le [OF g] le [OF that])
    then show ?thesis using whole [of k ?bs k bs] False by simp
  qed
  have tk: "entry_at (take (64 * (n - 1)) ?bs) k = entry_at ?bs k" if "k < n - 1" for k
    using entry_at_append1 [of k "take (64 * (n - 1)) ?bs" "drop (64 * (n - 1)) ?bs"] that len(2) by (simp add: Suc_leI)
  have es: "length (entries bs) = n" "\<And>k. k < n \<Longrightarrow> entries bs ! k = entry_at bs k" using n by (simp_all add: entries_def)
  have last: "last (entries bs) = entry_at bs (n - 1)" using es g by (subst last_conv_nth) auto
  show ?thesis
  proof (rule nth_equalityI)
    show "length (entries (take (64 * (n - 1)) ?bs)) = length (drop_entry g (entries bs))"
      using len es by (simp add: entries_def)
    fix k assume "k < length (entries (take (64 * (n - 1)) ?bs))"
    then have k: "k < n - 1" using len by (simp add: entries_def)
    then have "entries (take (64 * (n - 1)) ?bs) ! k = entry_at ?bs k" using tk len by (simp add: entries_def)
    also have "\<dots> = drop_entry g (entries bs) ! k" using at [of k] k es last g by (simp add: drop_entry_def nth_butlast nth_list_update)
    finally show "entries (take (64 * (n - 1)) ?bs) ! k = drop_entry g (entries bs) ! k" .
  qed
qed

lemma drop_entry_split:
  assumes "g < length es"
  obtains a b where "es = a @ [es ! g] @ b" and "drop_entry g es = (if b = [] then a else a @ [last b] @ butlast b)"
proof -
  have e: "es = take g es @ [es ! g] @ drop (Suc g) es" using id_take_nth_drop [OF assms] by simp
  let ?a = "take g es" and ?b = "drop (Suc g) es"
  have u: "es[g := x] = ?a @ [x] @ ?b" for x using upd_conv_take_nth_drop [OF assms] by simp
  have "drop_entry g es = (if ?b = [] then ?a else ?a @ [last ?b] @ butlast ?b)"
    unfolding drop_entry_def u using assms by (simp add: butlast_append last_drop)
  then show thesis using that [OF e] by blast
qed

lemma drop_entry_perm:
  assumes "g < length es"
  shows "set (drop_entry g es) \<subseteq> set es" and "mset es = add_mset (es ! g) (mset (drop_entry g es))"
proof -
  obtain a b where e: "es = a @ [es ! g] @ b" and b: "drop_entry g es = (if b = [] then a else a @ [last b] @ butlast b)"
    using assms by (rule drop_entry_split)
  have "mset (drop_entry g es) = mset a + mset b"
  proof (cases "b = []")
    case False
    then have "mset b = add_mset (last b) (mset (butlast b))" by (metis append_butlast_last_id mset_append mset.simps union_commute add_mset_add_single)
    then show ?thesis using b False by simp
  qed (use b in simp)
  moreover have "mset es = mset a + mset [es ! g] + mset b" by (subst e) simp
  ultimately show m: "mset es = add_mset (es ! g) (mset (drop_entry g es))" by simp
  show "set (drop_entry g es) \<subseteq> set es" using arg_cong [OF m, of set_mset] by auto
qed

text \<open>Names are unique, so the lookup depends on the set of entries only.\<close>

lemma lookup_entry_unique:
  assumes "distinct (map fst es)"
  shows "lookup_entry es c = Some n \<longleftrightarrow> (Some c, n) \<in> set es"
  using assms
proof (induction es)
  case (Cons e es)
  then show ?case by (cases e) (force simp: lookup_entry_def)
qed (simp add: lookup_entry_def)

lemma lookup_drop_entry:
  assumes dist: "distinct (map fst es)" and g: "g < length es" "fst (es ! g) = Some f"
  shows "distinct (map fst (drop_entry g es))" and "lookup_entry (drop_entry g es) = (lookup_entry es)(f := None)"
proof -
  note m = drop_entry_perm(2) [OF g(1)]
  have mm: "image_mset fst (mset es) = add_mset (Some f) (image_mset fst (mset (drop_entry g es)))" using m g(2) by simp
  have "distinct (fst (es ! g) # map fst (drop_entry g es))"
    using dist mm g(2) by (metis mset_eq_imp_distinct_iff mset.simps(2) mset_map)
  then show d: "distinct (map fst (drop_entry g es))" using g(2) by simp
  have nf: "lookup_entry (drop_entry g es) f = None"
    using \<open>distinct (fst (es ! g) # _)\<close> g(2) by (force simp: lookup_entry_def find_None_iff)
  have "lookup_entry (drop_entry g es) c = lookup_entry es c" if "c \<noteq> f" for c
  proof -
    have "lookup_entry (drop_entry g es) c = Some n \<longleftrightarrow> lookup_entry es c = Some n" for n
      unfolding lookup_entry_unique [OF d] lookup_entry_unique [OF dist]
      using arg_cong [OF m, of set_mset] g(2) that by (cases "es ! g") auto
    then show ?thesis by (metis option.exhaust)
  qed
  then show "lookup_entry (drop_entry g es) = (lookup_entry es)(f := None)" using nf by (auto simp: fun_eq_iff)
qed

section \<open>The search for unlinking\<close>

text \<open>The last entry, as bytes; the number in it is complete only if the memory for it was clean.\<close>

lemma getLastEntry_ok:
  assumes dir: "good_dir i d" and n: "unat (isize i) = 64 * Suc g"
  obtains le where "getLastEntry i e d = Some le" and "length (name le) = 62"
    and "name le @ le_bytes 2 (iNodeNum le) = bytes_at (64 * g) 64 (file_bytes i d)"
    and "dir_num i d g \<noteq> 65535 \<Longrightarrow> iNodeNum le \<noteq> - 1"
proof -
  let ?off = "isize i - 64"
  have ok: "file_ok i d" using dir by (simp add: good_dir_def)
  have g: "64 * g + 64 \<le> unat (isize i)" using n by simp
  obtain b where b: "dir_block i d (g div 16) = Some b" "length b = BLOCK_SIZE" "file_blk i d (g div 16) = b"
    using entry_in_block(2) [OF ok g] by blast
  then obtain blk where blk: "file_block i d (g div 16) = Some blk" "read_block blk d = Some b"
    by (auto simp: dir_block_def bind_Some_iff)
  have "64 \<le> isize i" using g by (simp add: word_le_nat_alt)
  then have off: "unat ?off = 64 * g" using n by (simp add: unat_sub)
  have lt: "?off < isize i" using off n by (simp add: word_less_nat_alt)
  have dm: "64 * g div 1024 = g div 16" "64 * g mod 1024 = 64 * (g mod 16)" using mult_mod_right [of 64 g 16] by simp_all
  have om: "unat (?off mod 1024) = 64 * (g mod 16)" using off dm by (simp add: unat_mod_distrib)
  have le: "64 * (g mod 16) + 64 \<le> 1024" by (simp add: mod_less_divisor Suc_leI)
  let ?e = "if isize i \<le> 128 then zero_entry\<lparr> iNodeNum := - 1 \<rparr> else e"
  let ?le = "load_entry (64 * (g mod 16)) b ?e"
  have bm: "bmap i ?off None READ_MODE d = Some (0, Some (createBMapResponse blk (?off mod 1024)), i, d)"
    using bmap_existing [OF lt] off dm blk(1) by simp
  have src: "length (bytes_at (64 * (g mod 16) + 62) 2 b) = 2" using b(2) le by simp
  have num: "le_bytes 2 (iNodeNum ?le) = bytes_at (64 * (g mod 16) + 62) 2 b"
    using le_bytes_memcpy_low [OF src] by (simp add: load_entry_def)
  have nm: "name ?le = bytes_at (64 * (g mod 16)) 62 b" by (simp add: load_entry_def)
  have split: "bytes_at x 62 b @ bytes_at (x + 62) 2 b = bytes_at x 64 b" for x
    by (simp add: bytes_at_def take_add [of 62 2, simplified] drop_drop add.commute)
  show thesis
  proof (rule that [of ?le])
    show "getLastEntry i e d = Some ?le" using bm blk(2) om le by (simp add: getLastEntry_def createBMapResponse_def)
    show "length (name ?le) = 62" using nm b(2) le by simp
    show "name ?le @ le_bytes 2 (iNodeNum ?le) = bytes_at (64 * g) 64 (file_bytes i d)"
      unfolding nm num split using entry_in_block(1) [OF ok g] b(3) by simp
    assume "dir_num i d g \<noteq> 65535"
    then have "(le_word (bytes_at (64 * (g mod 16) + 62) 2 b) :: size_t) \<noteq> 65535"
      using b(1) src by (simp add: dir_num_def load_entry_def zero_entry_def memcpy_low_clean)
    then show "iNodeNum ?le \<noteq> - 1" using memcpy_low_valid [OF src] by (simp add: load_entry_def)
  qed
qed

lemma load_entry_num:
  assumes "dir_block i d (g div 16) = Some b" and "length b = BLOCK_SIZE" and "unat (iNodeNum e) < 65536"
  shows "iNodeNum (load_entry (64 * (g mod 16)) b e) = dir_num i d g"
proof -
  have le: "64 * (g mod 16) + 64 \<le> 1024" by (simp add: mod_less_divisor Suc_leI)
  have "length (bytes_at (64 * (g mod 16) + 62) 2 b) = 2" using assms(2) le by simp
  then show ?thesis using assms(1,3) by (simp add: dir_num_def load_entry_def zero_entry_def memcpy_low_clean)
qed

lemma unlink_search:
  assumes rep: "direct i d fs" and dir: "good_dir i d" and f: "0 \<notin> set f"
    and look: "lookup_entry (dir_entries i d) f = Some c" and valid: "\<forall>e \<in> set (dir_entries i d). snd e \<noteq> 65535"
    and clean: "unat (iNodeNum (fresh_entry m)) < 65536"
  obtains g e d' where "g < length (dir_entries i d)" and "dir_entries i d ! g = (Some f, c)"
    and "searchINodeDirectoryEntries m i (Some f) 0 [fresh_entry m] 0 True d = Some (1, [e], d')" and "iNodeNum e = c"
    and "direct i d' fs" and "same_except d d' (insert FREE_LIST_BLOCK (file_blocks i))"
    and "file_bytes i d' = memcpy_at (64 * g) (bytes_at (64 * (length (dir_entries i d) - 1)) 64 (file_bytes i d)) (file_bytes i d)"
proof -
  let ?n = "unat (isize i) div 64"
  have ok: "file_ok i d" and n: "unat (isize i) = 64 * ?n" using dir by (auto simp: good_dir_def)
  note es = dir_entries_eq [OF ok]
  obtain g where fnd: "find (\<lambda>g. dir_name i d g = Some f) [0..<?n] = Some g" and c: "dir_num i d g = c"
    using find_entry [OF dir, of f] look by auto
  then have g: "g < ?n" "dir_name i d g = Some f" by (auto simp: find_Some_iff)
  then obtain l where l: "?n = Suc l" by (cases ?n) auto
  have "(dir_name i d l, dir_num i d l) \<in> set (dir_entries i d)" using l es by auto
  then have lv: "dir_num i d l \<noteq> 65535" using valid by fastforce
  obtain le where le: "getLastEntry i (fresh_entry m) d = Some le" "length (name le) = 62"
      "name le @ le_bytes 2 (iNodeNum le) = bytes_at (64 * l) 64 (file_bytes i d)" "iNodeNum le \<noteq> - 1"
    by (rule getLastEntry_ok [OF dir, of l "fresh_entry m"]) (use n l lv in auto)
  have g64: "64 * g + 64 \<le> unat (isize i)" using g(1) n by linarith
  obtain b where b: "dir_block i d (g div 16) = Some b" "length b = BLOCK_SIZE" "file_blk i d (g div 16) = b"
    using entry_in_block(2) [OF ok g64] by blast
  have kK: "g div 16 < blocks_for (unat (isize i))" using block_below [of "64 * g"] g64 by simp
  have fb: "file_block i d (g div 16) = Some (dataBlockNums i ! (g div 16))"
    using direct_blk(1) [OF rep [unfolded direct_def] kK] .
  let ?l = "bytes_at (64 * l) 64 (file_bytes i d)"
  have l64: "64 * l + 64 \<le> unat (isize i)" using n l by linarith
  have len: "length ?l = 64" using l64 by simp
  have dm: "64 * g div 1024 = g div 16" "64 * g mod 1024 = 64 * (g mod 16)" using mult_mod_right [of 64 g 16] by simp_all
  have gl: "64 * (g mod 16) + 64 \<le> 1024" by (simp add: mod_less_divisor Suc_leI)
  have wl: "with_last (Some le) (64 * (g mod 16)) b = memcpy_at (64 * (g mod 16)) ?l b"
    using le(2-4) memcpy_at_join [of "64 * (g mod 16)" "name le" "le_bytes 2 (iNodeNum le)" b] b(2) gl
    by (simp add: with_last_def)
  let ?d = "put_block (dataBlockNums i ! (64 * g div 1024)) (memcpy_at (64 * g mod 1024) ?l (file_blk i d (64 * g div 1024))) d"
  have "searchINodeDirectoryEntries m i (Some f) 0 [fresh_entry m] 0 True d =
      Some (1, [load_entry (64 * (g mod 16)) b (fresh_entry m)], ?d)"
    using search_for_unlink [OF good_dir_ok [OF dir] f le(1), of "fresh_entry m"] fnd b fb le(4) wl dm
    by (simp add: save_last_def)
  moreover have "iNodeNum (load_entry (64 * (g mod 16)) b (fresh_entry m)) = c" using load_entry_num [OF b(1,2) clean] c by simp
  moreover have "64 * g mod 1024 + length ?l \<le> 1024" "64 * g + length ?l \<le> unat (isize i)" "?l \<noteq> []" using dm gl g64 len by auto
  note ow = overwrite_chunk [OF rep this]
  moreover have "length (dir_entries i d) = ?n" "dir_entries i d ! g = (Some f, c)" using es g c by simp_all
  ultimately show thesis using that [of g] g(1) l by simp
qed

lemma unlink_search_missing:
  assumes dir: "good_dir i d" and f: "0 \<notin> set f" and look: "lookup_entry (dir_entries i d) f = None" and ne: "isize i \<noteq> 0"
  shows "searchINodeDirectoryEntries m i (Some f) 0 [e] 0 True d = Some (0, [e], d)"
proof -
  let ?n = "unat (isize i) div 64"
  have n: "unat (isize i) = 64 * ?n" using dir by (auto simp: good_dir_def)
  then obtain l where l: "?n = Suc l" using ne by (cases ?n) (auto simp: word_unat_eq_iff)
  obtain le where le: "getLastEntry i (fresh_entry m) d = Some le"
    by (rule getLastEntry_ok [OF dir, of l "fresh_entry m"]) (use n l in auto)
  have "find (\<lambda>g. dir_name i d g = Some f) [0..<?n] = None" using find_entry [OF dir, of f] look by simp
  then show ?thesis using search_for_unlink [OF good_dir_ok [OF dir] f le] by simp
qed

text \<open>The directory once it is cut: one entry less.\<close>

lemma cut_entries:
  assumes dir: "good_dir i d" and g: "g < length (dir_entries i d)" and rep: "direct i' d' fs"
    and bytes: "file_bytes i' d' = take (unat (isize i) - 64)
      (memcpy_at (64 * g) (bytes_at (64 * (length (dir_entries i d) - 1)) 64 (file_bytes i d)) (file_bytes i d))"
    and mode: "file_mode i' = file_mode i"
  shows "dir_entries i' d' = drop_entry g (dir_entries i d)" and "good_dir i' d'"
proof -
  let ?n = "length (dir_entries i d)"
  have n: "unat (isize i) = 64 * ?n" using dir by (auto simp: good_dir_def dir_entries_def entries_def)
  then show es: "dir_entries i' d' = drop_entry g (dir_entries i d)"
    using entries_drop [of "file_bytes i d" ?n g] bytes g by (simp add: dir_entries_def diff_mult_distrib2)
  have "length (file_bytes i' d') = 64 * (?n - 1)"
    unfolding bytes using n g by (cases ?n) simp_all
  then have "64 dvd unat (isize i')" by simp
  moreover have "set (dir_entries i' d') \<subseteq> set (dir_entries i d)" unfolding es by (rule drop_entry_perm(1) [OF g])
  ultimately show "good_dir i' d'"
    using dir direct_file_ok [OF rep [unfolded direct_def]] mode by (auto simp: good_dir_def validateSearch_iff)
qed

end
