(* ===== verification/Remove.thy ===== *)
theory Remove
  imports DirRemove
begin

text \<open>
  Removal of a name: \<open>unlinkFileFromINode\<close>, \<open>unlinkFile\<close> and \<open>unlinkDir\<close> of \<open>src/interface/unlink.c\<close>.  The
  directory stays locked while the inode of the name is taken, loses a link and is given back, which deletes it if
  that was the last link.
\<close>

section \<open>Taking a link from an inode\<close>

lemma touches_trans:
  assumes "touches s n r x s1" and "touches s1 n r' x' s2"
  shows "touches s n r' x' s2"
proof -
  note A = assms(1) [unfolded touches_def] and B = assms(2) [unfolded touches_def]
  have "card (free_nodes s2) + of_bool (r' \<noteq> 0) = card (free_nodes s) + of_bool (refs s n \<noteq> 0)"
    using A B by auto
  moreover have "holds s2 q m \<and> core s2 q = core s q" if "holds s q m" "m \<noteq> n" for q m
    using A B that by metis
  ultimately show ?thesis using A B unfolding touches_def by auto
qed

text \<open>The inode of a name within the lock of its directory, as one change of its node.\<close>

lemma link_section:
  assumes q: "q \<noteq> p" and un: "\<not> iNodeMutex (core s q)" and l: "l = linksCount (core s q) - 1"
  defines "t \<equiv> upd_core q (\<lambda>i. i\<lparr> linksCount := linksCount i - 1 \<rparr>) (mark q (mark p s))"
  shows "lock q (mark p s) = Some (mark q (mark p s))" and "linksCount (core t q) = l"
    and "unlock q (updateINodeMetadata_at q 0 l t) = mark p (updateINodeMetadata_at q 0 l s)"
proof -
  have c: "core (mark p s) q = core s q" by (rule other_marked(1) [OF q])
  show "lock q (mark p s) = Some (mark q (mark p s))" by (rule lock_mark) (use c un in simp)
  show "linksCount (core t q) = l" using c l by (simp add: t_def mark_node_self)
  let ?i = "core s q" and ?d = "disk s"
  have "(updateINodeMetadata (?i\<lparr> iNodeMutex := True, linksCount := linksCount ?i - 1 \<rparr>) 0 l ?d)\<lparr> iNodeMutex := False \<rparr> =
      updateINodeMetadata ?i 0 l ?d"
    using un by (cases ?i) (simp add: updateINodeMetadata_def Let_def)
  then have "upd_core q (iNodeMutex_update (\<lambda>_. False) \<circ> ((\<lambda>i. updateINodeMetadata i 0 l ?d) \<circ>
      ((\<lambda>i. i\<lparr> linksCount := linksCount i - 1 \<rparr>) \<circ> iNodeMutex_update (\<lambda>_. True)))) (mark p s) =
      upd_core q (\<lambda>i. updateINodeMetadata i 0 l ?d) (mark p s)"
    by (subst (1 2) upd_core_const) (simp add: q)
  then show "unlock q (updateINodeMetadata_at q 0 l t) = mark p (updateINodeMetadata_at q 0 l s)"
    unfolding t_def mark_def [of q] unlock_def updateINodeMetadata_at_def upd_core_comp
    by (simp add: upd_core_marked [OF q] comp_assoc)
qed

text \<open>
  What it does to the inode: one link less.  The blocks of an inode without links go to the free list, its number
  to the list of free inodes.
\<close>

definition unlinked :: "fs \<Rightarrow> size_t \<Rightarrow> size_t list \<Rightarrow> size_t list \<Rightarrow> fs \<Rightarrow> size_t list \<Rightarrow> iNode \<Rightarrow> bool" where
  "unlinked s c fs nums s' fs' x \<longleftrightarrow> touches s c 0 x s' \<and> di_linksCount x = di_linksCount (inode_view s c) - 1 \<and>
     (if di_linksCount (inode_view s c) = 1
      then fs' = all_blocks (dir_view s c) @ fs \<and> inode_stack (disk s') (c # nums)
      else x = (inode_view s c)\<lparr> di_linksCount := di_linksCount (inode_view s c) - 1 \<rparr> \<and> fs' = fs \<and>
        inode_stack (disk s') nums) \<and>
     free_list (disk s') fs' \<and> free_list_linked (disk s') \<and>
     frames (disk s) fs (if di_linksCount (inode_view s c) = 1 then file_blocks (dir_view s c) else {}) (disk s') fs'"

text \<open>Up to the final \<open>iput\<close>: the inode is in the cache with its new link count, not yet written, and nothing else changed.\<close>

lemma drop_ready:
  fixes l :: size_t
  assumes w: "well s" and c: "c < NUM_OF_INODES" "refs s c = 0" and room: "free_nodes s \<noteq> {}" and rep: "direct (dir_view s c) (disk s) fs"
  obtains q s3 s4 where "iget c 0 s = Some (Some q, s3)" and "holds s3 q c" and "\<not> iNodeMutex (core s3 q)"
    and "linksCount (core s3 q) = di_linksCount (inode_view s c)" and "updateINodeMetadata_at q 0 l s3 = s4"
    and "touches s c 1 ((inode_view s c)\<lparr> di_linksCount := l \<rparr>) s4" and "holds s4 q c" and "pending s4 c" and "disk s4 = disk s"
    and "direct (core s4 q) (disk s4) fs" and "all_blocks (core s4 q) = all_blocks (dir_view s c)"
    and "file_blocks (core s4 q) = file_blocks (dir_view s c)" and "\<forall>p n. holds s p n \<longrightarrow> q \<noteq> p"
proof -
  obtain q s3 where g: "iget c 0 s = Some (Some q, s3)" and t3: "touches s c 1 (inode_view s c) s3" and h3: "holds s3 q c"
    and d3: "disk s3 = disk s"
    using iget_touches [OF w c(1)] room c(2) unreferenced(1) [OF w c(2)] by auto
  note T3 = touchesD [OF t3]
  have v3: "inode_view s3 c = inode_view s c" and r3: "refs s3 c = 1" using T3(3) [OF c(1)] T3(4) [of c] by simp_all
  have core3: "getDiskINodeData (core s3 q) = inode_view s c" "\<not> iNodeMutex (core s3 q)" "wf_inCore (core s3 q)"
    using holdsE [OF T3(1) h3] v3 by metis+
  have lc: "linksCount (core s3 q) = di_linksCount (inode_view s c)" by (rule same_links [OF core3(1)])
  let ?s4 = "updateINodeMetadata_at q 0 l s3"
  note L = links_step [OF T3(1) h3, of l]
  have t4: "touches s c 1 ((inode_view s c)\<lparr> di_linksCount := l \<rparr>) ?s4" using touches_trans [OF t3 L(1)] r3 v3 by simp
  have other: "q \<noteq> p" if "holds s p n" for p n
  proof
    assume "q = p"
    have "refs s n \<noteq> 0" by (rule holds_refs_nonzero [OF that])
    then have "n \<noteq> c" using c(2) by auto
    then have "holds s3 p n" using T3(5) [OF that] by simp
    moreover have "inode_number (core s3 q) = c" "inode_number (core s3 p) = n"
      using holdsE [OF T3(1) h3] holdsE [OF T3(1) \<open>holds s3 p n\<close>] by metis+
    ultimately show False using \<open>q = p\<close> \<open>n \<noteq> c\<close> by simp
  qed
  have core4: "dataBlockNums (core ?s4 q) = dataBlockNums (core s3 q)" "isize (core ?s4 q) = isize (core s3 q)"
    by (simp_all add: updateINodeMetadata_at_def updateINodeMetadata_def of_c_int_def Let_def)
  note V = view_contents [OF core3(1) [symmetric] core3(3)] and S = same_contents [OF core4]
  have nums: "dataBlockNums (dir_view s c) = dataBlockNums (core s3 q)" "isize (dir_view s c) = isize (core s3 q)"
    using incore_fields(1,2) [OF core3(3)] unfolding core3(1) by (simp_all add: dir_view_def)
  then have all: "all_blocks (core ?s4 q) = all_blocks (dir_view s c)" "file_blocks (core ?s4 q) = file_blocks (dir_view s c)"
    using core4 by (simp_all add: all_blocks_def file_blocks_def)
  have "direct (core ?s4 q) (disk ?s4) fs" using rep S(1) V(1) L(4) d3 by simp
  then show thesis using that [OF g h3 core3(2) lc refl t4 L(2,3) _ _ all] other L(4) d3 by simp
qed

lemma drop_link:
  assumes w: "well s" and c: "c < NUM_OF_INODES" "c \<noteq> 0" "refs s c = 0" "di_linksCount (inode_view s c) \<noteq> 0"
    and room: "free_nodes s \<noteq> {}" and rep: "direct (dir_view s c) (disk s) fs" and l: "free_list_linked (disk s)"
    and st: "inode_stack (disk s) (y # ys)" "di_linksCount (inode_view s c) = 1 \<Longrightarrow> length (y # ys) < INODE_NOS_PER_BLOCK"
  obtains q s3 s5 fs' x where "iget c 0 s = Some (Some q, s3)" and "holds s3 q c" and "\<not> iNodeMutex (core s3 q)"
    and "linksCount (core s3 q) = di_linksCount (inode_view s c)"
    and "iput q (updateINodeMetadata_at q 0 (di_linksCount (inode_view s c) - 1) s3) = Some (0, s5)"
    and "unlinked s c fs (y # ys) s5 fs' x" and "\<forall>p n. holds s p n \<longrightarrow> q \<noteq> p"
proof -
  let ?l = "di_linksCount (inode_view s c) - 1"
  obtain q s3 s4 where r: "iget c 0 s = Some (Some q, s3)" "holds s3 q c" "\<not> iNodeMutex (core s3 q)"
      "linksCount (core s3 q) = di_linksCount (inode_view s c)" and s4: "updateINodeMetadata_at q 0 ?l s3 = s4"
    and t4: "touches s c 1 ((inode_view s c)\<lparr> di_linksCount := ?l \<rparr>) s4" and h4: "holds s4 q c" "pending s4 c" and d4: "disk s4 = disk s"
    and rep4: "direct (core s4 q) (disk s4) fs" and all: "all_blocks (core s4 q) = all_blocks (dir_view s c)"
      "file_blocks (core s4 q) = file_blocks (dir_view s c)" and other: "\<forall>p n. holds s p n \<longrightarrow> q \<noteq> p"
    using drop_ready [OF w c(1,3) room rep, of ?l] by metis
  note T4 = touchesD [OF t4] and that' = that [OF r, unfolded s4, OF _ _ other]
  have v4: "inode_view s4 c = (inode_view s c)\<lparr> di_linksCount := ?l \<rparr>" and r4: "refs s4 c = 1"
    using T4(3) [OF c(1)] T4(4) [of c] by simp_all
  note ok = well_meta_ok [OF w]
  show thesis
  proof (cases "di_linksCount (inode_view s c) = 1")
    case True
    have l4: "di_linksCount (inode_view s4 c) = 0" using v4 True by simp
    have pre: "free_list_linked (disk s4)" "inode_stack (disk s4) (y # ys)" "length (y # ys) < INODE_NOS_PER_BLOCK"
      using l st True d4 by simp_all
    obtain s5 x where s5: "iput q s4 = Some (0, s5)" "touches s4 c 0 x s5" "di_linksCount x = 0"
      "free_list (disk s5) (all_blocks (core s4 q) @ fs)" "free_list_linked (disk s5)" "inode_stack (disk s5) (c # y # ys)"
      "frames (disk s4) fs (file_blocks (core s4 q)) (disk s5) (all_blocks (core s4 q) @ fs)"
      using iput_delete [OF T4(1) h4(1) r4 c(2) l4 rep4 pre] by blast
    have "unlinked s c fs (y # ys) s5 (all_blocks (dir_view s c) @ fs) x"
      using touches_trans [OF t4 s5(2)] s5(3-7) True d4 unfolding unlinked_def all by simp
    then show thesis using that' [OF s5(1)] by blast
  next
    case False
    then have l0: "?l \<noteq> 0" using c(4) by simp
    have keep: "keeps s4 c" using v4 l0 by (simp add: keeps_def)
    obtain s5 where s5: "iput q s4 = Some (0, s5)" "touches s4 c 0 (inode_view s4 c) s5"
      "disk s5 = (if refs s4 c = 1 \<and> pending s4 c then put_inode c (inode_view s4 c) (disk s4) else disk s4)"
      using iput_touches [OF T4(1) h4(1) keep] r4 by auto
    have d5: "disk s5 = put_inode c (inode_view s4 c) (disk s)" using s5(3) r4 h4(2) d4 by simp
    have wf: "wf_iNode (inode_view s4 c)" using holdsE [OF T4(1) h4(1)] wf_getDiskINodeData by metis
    note ms = meta_step_put_inode [OF ok c(1) wf, folded d5]
    have fl: "free_list (disk s) fs" using rep by (simp add: direct_def direct_file_def)
    have "unlinked s c fs (y # ys) s5 fs (inode_view s4 c)"
      using touches_trans [OF t4 s5(2)] False v4 meta_step_free_list [OF ms fl] meta_step_linked [OF ms ok] l
        inode_stack_put_inode [OF ok c(1) wf st(1)] frames_meta [OF ms] d5
      unfolding unlinked_def by simp
    then show thesis using that' [OF s5(1)] by blast
  qed
qed

section \<open>unlinkFileFromINode\<close>

text \<open>
  The state after name \<open>f\<close> of inode \<open>c\<close> was taken out of directory \<open>n\<close>, which node \<open>p\<close> holds: its inode is now \<open>i\<close>,
  that of \<open>c\<close> is \<open>x\<close>.
\<close>

definition name_gone ::
    "fs \<Rightarrow> nat \<Rightarrow> size_t \<Rightarrow> cstring \<Rightarrow> size_t \<Rightarrow> size_t list \<Rightarrow> size_t list \<Rightarrow> fs \<Rightarrow> size_t list \<Rightarrow> inCoreiNode \<Rightarrow> iNode \<Rightarrow> bool" where
  "name_gone s p n f c fs nums s' fs' i x \<longleftrightarrow>
     well s' \<and> holds s' p n \<and> fileTable s' = fileTable s \<and> (\<forall>k. refs s' k = refs s k) \<and>
     (\<forall>k < NUM_OF_INODES. inode_view s' k = (if k = n then getDiskINodeData i else if k = c then x else inode_view s k)) \<and>
     (\<forall>k. k \<noteq> n \<longrightarrow> k \<noteq> c \<longrightarrow> pending s' k = pending s k) \<and>
     (\<forall>q k. holds s q k \<longrightarrow> k \<noteq> n \<longrightarrow> holds s' q k) \<and>
     resized (core s p) i \<and> wf_inCore i \<and> direct i (disk s') fs' \<and> good_dir i (disk s') \<and>
     distinct (map fst (dir_entries i (disk s'))) \<and>
     lookup_entry (dir_entries i (disk s')) = (lookup_entry (dir_entries (core s p) (disk s)))(f := None) \<and>
     di_linksCount x = di_linksCount (inode_view s c) - 1 \<and>
     (if di_linksCount (inode_view s c) = 1
      then set fs' \<union> file_blocks i = set fs \<union> file_blocks (core s p) \<union> file_blocks (dir_view s c) \<and>
        inode_stack (disk s') (c # nums) \<and>
        frames (disk s) fs (file_blocks (core s p) \<union> file_blocks (dir_view s c)) (disk s') fs'
      else x = (inode_view s c)\<lparr> di_linksCount := di_linksCount (inode_view s c) - 1 \<rparr> \<and>
        set fs' \<union> file_blocks i = set fs \<union> file_blocks (core s p) \<and> inode_stack (disk s') nums \<and>
        frames (disk s) fs (file_blocks (core s p)) (disk s') fs')"

lemma data_step_own:
  assumes "direct i d fs" and "same_except d d' (insert FREE_LIST_BLOCK (file_blocks i))" and "free_list d' fs'"
  shows "data_step d d'" and "meta_ok d'"
proof -
  show ok: "meta_ok d'" using assms(3) by (rule free_listE)
  show "data_step d d'"
    using assms(2) direct_not_free(2) [OF assms(1)] meta_okD(1) [OF ok] by (auto simp: data_step_def same_except_def)
qed

text \<open>The directory is cut by one entry within its lock.\<close>

lemma truncate_marked:
  assumes w: "well s" and h: "holds s p n" and can: "can_resize (core s p) (disk s) fs k" and k: "k \<noteq> unat (isize (core s p))"
    and sz: "unat sz = k"
  obtains i1 d' fs' where "truncateINode_at p sz (mark p s) = Some (upd_core p (\<lambda>_. i1) ((mark p s)\<lparr> disk := d' \<rparr>))"
    and "resize_result (core s p) (disk s) fs k (i1\<lparr> iNodeMutex := False \<rparr>) d' fs'"
    and "unlock p (upd_core p (\<lambda>_. i1) ((mark p s)\<lparr> disk := d' \<rparr>)) = upd_core p (\<lambda>_. i1\<lparr> iNodeMutex := False \<rparr>) (s\<lparr> disk := d' \<rparr>)"
    and "touches s n (refs s n) (getDiskINodeData (i1\<lparr> iNodeMutex := False \<rparr>)) (upd_core p (\<lambda>_. i1\<lparr> iNodeMutex := False \<rparr>) (s\<lparr> disk := d' \<rparr>))"
    and "holds (upd_core p (\<lambda>_. i1\<lparr> iNodeMutex := False \<rparr>) (s\<lparr> disk := d' \<rparr>)) p n"
proof -
  have un: "\<not> iNodeMutex (core s p)" and num: "inode_number (core s p) = n" using holdsE [OF w h] by metis+
  let ?i = "(core s p)\<lparr> iNodeMutex := True \<rparr>"
  obtain i1 d' fs' where r: "truncateINode ?i sz (disk s) = Some (i1, d')" "resize_result ?i (disk s) fs k i1 d' fs'"
    using truncateINode_ok [of ?i "disk s" fs sz] can sz by auto
  let ?j = "i1\<lparr> iNodeMutex := False \<rparr>"
  have rj: "resize_result (core s p) (disk s) fs k ?j d' fs'" using resize_result_mutex [OF r(2)] un by simp
  note R = resize_resultD [OF can rj]
  have dirty: "dirty ?j" using rj k by (auto simp: resize_result_def split: if_splits)
  have wf: "wf_inCore ?j" using R(1) by (simp add: direct_def direct_file_def)
  note t = data_then_change(1,2) [OF w R(4,5) h _ resizedD(2,1) [OF R(3)] wf dirty]
  have "truncateINode_at p sz (mark p s) = Some (upd_core p (\<lambda>_. i1) ((mark p s)\<lparr> disk := d' \<rparr>))"
    using r(1) by (simp add: truncateINode_at_def mark_node_self)
  moreover have "unlock p (upd_core p (\<lambda>_. i1) ((mark p s)\<lparr> disk := d' \<rparr>)) = upd_core p (\<lambda>_. ?j) (s\<lparr> disk := d' \<rparr>)"
    unfolding mark_def by (rule locked_replace)
  ultimately show thesis using that [OF _ rj] t resizedD(3) [OF R(3)] num by simp
qed

text \<open>What the removal of name \<open>f\<close>, which leads to \<open>c\<close>, from the directory that node \<open>p\<close> holds needs.\<close>

definition can_remove :: "mem_env \<Rightarrow> fs \<Rightarrow> inCoreiNode \<Rightarrow> cstring \<Rightarrow> size_t \<Rightarrow> size_t list \<Rightarrow> size_t list \<Rightarrow> bool" where
  "can_remove m s i f c fs nums \<longleftrightarrow> 0 \<notin> set f \<and> unat (iNodeNum (fresh_entry m)) < 65536 \<and>
     direct i (disk s) fs \<and> good_dir i (disk s) \<and> distinct (map fst (dir_entries i (disk s))) \<and>
     lookup_entry (dir_entries i (disk s)) f = Some c \<and> (\<forall>e \<in> set (dir_entries i (disk s)). snd e \<noteq> 65535) \<and>
     c < NUM_OF_INODES \<and> c \<noteq> 0 \<and> refs s c = 0 \<and> di_linksCount (inode_view s c) \<noteq> 0 \<and>
     direct (dir_view s c) (disk s) fs \<and> file_blocks (dir_view s c) \<inter> file_blocks i = {} \<and>
     unat (isize i) < 10240 \<and> 128 \<le> length fs \<and> inode_stack (disk s) nums \<and> nums \<noteq> [] \<and>
     (di_linksCount (inode_view s c) = 1 \<longrightarrow> length nums < INODE_NOS_PER_BLOCK)"

text \<open>The search overwrites the entry with the last one of the directory, within its blocks.\<close>

lemma entry_overwritten:
  assumes w: "well s" and can: "can_remove m s (core s p) f c fs nums"
  obtains g e d1 where "g < length (dir_entries (core s p) (disk s))" and "dir_entries (core s p) (disk s) ! g = (Some f, c)"
    and "searchINodeDirectoryEntries m ((core s p)\<lparr> iNodeMutex := True \<rparr>) (Some f) 0 [fresh_entry m] 0 True (disk s) = Some (1, [e], d1)"
    and "iNodeNum e = c" and "direct (core s p) d1 fs" and "frames (disk s) fs (file_blocks (core s p)) d1 fs"
    and "data_step (disk s) d1" and "meta_ok d1"
    and "file_bytes (core s p) d1 = memcpy_at (64 * g)
      (bytes_at (64 * (length (dir_entries (core s p) (disk s)) - 1)) 64 (file_bytes (core s p) (disk s))) (file_bytes (core s p) (disk s))"
proof -
  note C = can [unfolded can_remove_def]
  let ?i = "core s p" and ?il = "(core s p)\<lparr> iNodeMutex := True \<rparr>" and ?d = "disk s"
  note S = same_contents [of ?il ?i, simplified]
  have gd: "good_dir ?il ?d" using S(6) C by simp
  obtain g e d1 where g: "g < length (dir_entries ?i ?d)" "dir_entries ?i ?d ! g = (Some f, c)"
    and run1: "searchINodeDirectoryEntries m ?il (Some f) 0 [fresh_entry m] 0 True ?d = Some (1, [e], d1)" "iNodeNum e = c"
    and rep1: "direct ?i d1 fs" and se: "same_except ?d d1 (insert FREE_LIST_BLOCK (file_blocks ?i))"
    and b1: "file_bytes ?i d1 = memcpy_at (64 * g) (bytes_at (64 * (length (dir_entries ?i ?d) - 1)) 64 (file_bytes ?i ?d)) (file_bytes ?i ?d)"
    using unlink_search [of ?il ?d fs f c m] C gd unfolding S by auto
  have rep: "direct ?i ?d fs" using C by blast
  have fl1: "free_list d1 fs" using rep1 by (simp add: direct_def direct_file_def)
  have fr1: "frames ?d fs (file_blocks ?i) d1 fs" by (rule frames_same [OF se fl1]) simp
  show thesis by (rule that [OF g run1 rep1 fr1 data_step_own [OF rep se fl1] b1])
qed

text \<open>The directory's bytes after its last entry is cut off.\<close>

lemma entry_cut:
  assumes gd: "good_dir i d" "distinct (map fst (dir_entries i d))" and g: "g < length (dir_entries i d)" "dir_entries i d ! g = (Some f, c)"
    and rep: "direct j d' fs" and rs: "resized i j"
    and bytes: "file_bytes j d' = sized (unat (isize i) - 64)
      (memcpy_at (64 * g) (bytes_at (64 * (length (dir_entries i d) - 1)) 64 (file_bytes i d)) (file_bytes i d))"
  shows "good_dir j d'" and "distinct (map fst (dir_entries j d'))"
    and "lookup_entry (dir_entries j d') = (lookup_entry (dir_entries i d))(f := None)"
proof -
  have n: "unat (isize i) = 64 * length (dir_entries i d)" using gd(1) by (auto simp: good_dir_def dir_entries_def entries_def)
  have "64 * g + 64 \<le> unat (isize i)" using g(1) n by simp
  then have "file_bytes j d' = take (unat (isize i) - 64)
      (memcpy_at (64 * g) (bytes_at (64 * (length (dir_entries i d) - 1)) 64 (file_bytes i d)) (file_bytes i d))"
    unfolding bytes using n by (simp add: sized_def)
  note E = cut_entries [OF gd(1) g(1) rep this resizedD(6) [OF rs]]
  have "fst (dir_entries i d ! g) = Some f" using g(2) by simp
  note L = lookup_drop_entry [OF gd(2) g(1) this, folded E(1)]
  show "good_dir j d'" by (rule E(2))
  show "distinct (map fst (dir_entries j d'))" "lookup_entry (dir_entries j d') = (lookup_entry (dir_entries i d))(f := None)" by (rule L)+
qed

lemma unlink_entry:
  assumes w: "well s" and h: "holds s p n" and can: "can_remove m s (core s p) f c fs nums" and cn: "c \<noteq> n"
    and room: "free_nodes s \<noteq> {}"
  shows "\<exists>t s' fs' i x. unlinkFileFromINode m p f (mark p s) = Some (0, t) \<and> unlock p t = s' \<and>
    name_gone s p n f c fs nums s' fs' i x"
proof -
  note C = can [unfolded can_remove_def]
  let ?i = "core s p" and ?il = "(core s p)\<lparr> iNodeMutex := True \<rparr>" and ?d = "disk s"
  obtain g e d1 where g: "g < length (dir_entries ?i ?d)" "dir_entries ?i ?d ! g = (Some f, c)"
    and run1: "searchINodeDirectoryEntries m ?il (Some f) 0 [fresh_entry m] 0 True ?d = Some (1, [e], d1)" "iNodeNum e = c"
    and rep1: "direct ?i d1 fs" and fr1: "frames ?d fs (file_blocks ?i) d1 fs" and ds: "data_step ?d d1" "meta_ok d1"
    and b1: "file_bytes ?i d1 = memcpy_at (64 * g) (bytes_at (64 * (length (dir_entries ?i ?d) - 1)) 64 (file_bytes ?i ?d)) (file_bytes ?i ?d)"
    by (rule entry_overwritten [OF w can])
  have fl1: "free_list d1 fs" using rep1 by (simp add: direct_def direct_file_def)
  let ?s2 = "s\<lparr> disk := d1 \<rparr>"
  note D = data_change [OF w ds]
  have cN: "c < NUM_OF_INODES" using C by blast
  have v2: "inode_view ?s2 c = inode_view s c" using D(2) [OF cN] .
  then have dv2: "dir_view ?s2 c = dir_view s c" by (simp add: dir_view_def)
  have crep: "direct (dir_view ?s2 c) (disk ?s2) fs" using framesD(1) [OF fr1, of "dir_view s c"] C dv2 by auto
  note ok = well_meta_ok [OF w]
  obtain y ys where nums: "nums = y # ys" using C by (cases nums) auto
  have st2: "inode_stack (disk ?s2) (y # ys)" using data_step_stack [OF ds(1) ok] C nums by simp
  have len: "di_linksCount (inode_view ?s2 c) = 1 \<Longrightarrow> length (y # ys) < INODE_NOS_PER_BLOCK" using C nums v2 by simp
  have c2: "c \<noteq> 0" "refs ?s2 c = 0" "di_linksCount (inode_view ?s2 c) \<noteq> 0" "free_nodes ?s2 \<noteq> {}" using C v2 room by simp_all
  have l2: "free_list_linked (disk ?s2)" using free_list_ready [OF fl1] C by simp
  let ?l = "di_linksCount (inode_view s c) - 1"
  obtain q s3 s5 fs1 x where g3: "iget c 0 ?s2 = Some (Some q, s3)" and h3: "holds s3 q c" and un3: "\<not> iNodeMutex (core s3 q)"
    and lc: "linksCount (core s3 q) = di_linksCount (inode_view s c)"
    and p5: "iput q (updateINodeMetadata_at q 0 ?l s3) = Some (0, s5)" and ul: "unlinked ?s2 c fs (y # ys) s5 fs1 x"
    and ne: "\<forall>p n. holds ?s2 p n \<longrightarrow> q \<noteq> p"
    by (rule drop_link [OF D(1) cN c2(1-4) crep l2 st2 len, unfolded v2])
  have qp: "q \<noteq> p" using ne h by (metis disk_observe(2))
  note U = ul [unfolded unlinked_def v2 dv2]
  have t5: "touches ?s2 c 0 x s5" using U by blast
  note T5 = touchesD [OF t5]
  have h2: "holds ?s2 p n" using h by simp
  have h5: "holds s5 p n" and c5: "core s5 p = ?i" using T5(5,6) [OF h2] cn by auto
  let ?W = "if di_linksCount (inode_view s c) = 1 then file_blocks (dir_view s c) else {}"
  have fr5: "frames d1 fs ?W (disk s5) fs1" using U by simp
  have "file_blocks ?i \<inter> ?W = {}" using C by auto
  note F5 = framesD [OF fr5 rep1 this]
  have can5: "can_resize (core s5 p) (disk s5) fs1 (unat (isize ?i) - 64)"
    using F5(1) C U less_imp_diff_less [of "unat (isize ?i)" "unat (isize ?i)" 64] unfolding c5 can_resize_def
    by (metis diff_le_self not_le)
  have n64: "unat (isize ?i) = 64 * length (dir_entries ?i ?d)" using C by (auto simp: good_dir_def dir_entries_def entries_def)
  then have le: "64 \<le> isize ?i" using g(1) by (simp add: word_le_nat_alt)
  have sz: "unat (isize ?i - 64) = unat (isize ?i) - 64" using le by (simp add: unat_sub)
  have nz: "unat (isize ?i) - 64 \<noteq> unat (isize (core s5 p))" using n64 g(1) unfolding c5 by (cases "length (dir_entries ?i ?d)") auto
  obtain i1 d6 fs' where r6: "truncateINode_at p (isize ?i - 64) (mark p s5) = Some (upd_core p (\<lambda>_. i1) ((mark p s5)\<lparr> disk := d6 \<rparr>))"
    and rr: "resize_result (core s5 p) (disk s5) fs1 (unat (isize ?i) - 64) (i1\<lparr> iNodeMutex := False \<rparr>) d6 fs'"
    and un6: "unlock p (upd_core p (\<lambda>_. i1) ((mark p s5)\<lparr> disk := d6 \<rparr>)) = upd_core p (\<lambda>_. i1\<lparr> iNodeMutex := False \<rparr>) (s5\<lparr> disk := d6 \<rparr>)"
    and t6: "touches s5 n (refs s5 n) (getDiskINodeData (i1\<lparr> iNodeMutex := False \<rparr>)) (upd_core p (\<lambda>_. i1\<lparr> iNodeMutex := False \<rparr>) (s5\<lparr> disk := d6 \<rparr>))"
    and h6: "holds (upd_core p (\<lambda>_. i1\<lparr> iNodeMutex := False \<rparr>) (s5\<lparr> disk := d6 \<rparr>)) p n"
    by (rule truncate_marked [OF T5(1) h5 can5 nz sz])
  let ?j = "i1\<lparr> iNodeMutex := False \<rparr>" and ?t = "upd_core p (\<lambda>_. i1) ((mark p s5)\<lparr> disk := d6 \<rparr>)"
  let ?s6 = "upd_core p (\<lambda>_. ?j) (s5\<lparr> disk := d6 \<rparr>)"
  note R = resize_resultD [OF can5 rr, unfolded c5] and T6 = touchesD [OF t6]
  have run: "unlinkFileFromINode m p f (mark p s) = Some (0, ?t)"
  proof -
    note lk = link_section [OF qp un3, of ?l]
    have core5: "isize (core (mark p s5) p) = isize ?i" using c5 by (simp add: mark_node_self)
    show ?thesis
      using run1 iget_marked [OF g3 qp] lk(1) lk(2,3) lc iput_marked [OF p5 qp] r6 core5
      by (simp add: unlinkFileFromINode_def mark_node_self)
  qed
  have gdi: "good_dir ?i ?d" and di: "distinct (map fst (dir_entries ?i ?d))" using C by blast+
  note E = entry_cut [OF gdi di g R(1,3) R(2) [unfolded F5(2) b1]]
  have refs: "refs ?s6 k = refs s k" for k using T6(4) T5(4) C by simp
  have view: "inode_view ?s6 k = (if k = n then getDiskINodeData ?j else if k = c then x else inode_view s k)"
    if "k < NUM_OF_INODES" for k
    using T6(3) [OF that] T5(3) [OF that] D(2) [OF that] by simp
  have pend: "pending ?s6 k = pending s k" if "k \<noteq> n" "k \<noteq> c" for k using T6(7) [OF that(1)] T5(7) [OF that(2)] by simp
  have holds: "holds ?s6 q k" if "holds s q k" "k \<noteq> n" for q k
  proof -
    have "refs s k \<noteq> 0" by (rule holds_refs_nonzero [OF that(1)])
    then have "k \<noteq> c" using C by auto
    then show ?thesis using T5(5) [of q k] T6(5) [of q k] that by simp
  qed
  have ft: "fileTable ?s6 = fileTable s" using T6(2) T5(2) by simp
  note ok5 = well_meta_ok [OF T5(1)]
  have st6: "inode_stack d6 xs" if "inode_stack (disk s5) xs" for xs using data_step_stack [OF R(4) ok5 that] .
  have fr6: "frames ?d fs (file_blocks ?i \<union> ?W) d6 fs'"
    by (rule frames_trans [OF frames_trans [OF fr1 fr5 subset_refl] R(7)]) blast
  have wf: "wf_inCore ?j" using R(1) by (simp add: direct_def direct_file_def)
  have "name_gone s p n f c fs nums ?s6 fs' ?j x"
    unfolding name_gone_def
    using T6(1) h6 ft refs view pend holds R(3) wf R(1) E U fr6 st6 R(6) nums set_all_blocks [of "dir_view s c"]
    by (auto split: if_splits)
  then show ?thesis using run un6 by blast
qed

section \<open>unlinkFile\<close>

text \<open>The state after the operation, in terms of the contents of inodes.\<close>

definition name_removed ::
    "fs \<Rightarrow> size_t \<Rightarrow> cstring \<Rightarrow> size_t \<Rightarrow> size_t list \<Rightarrow> size_t list \<Rightarrow> fs \<Rightarrow> size_t list \<Rightarrow> bool" where
  "name_removed s n f c fs nums s' fs' \<longleftrightarrow>
     idle s' s' \<and> fileTable s' = fileTable s \<and> pinned s s' \<and> (\<forall>k. refs s' k = refs s k) \<and>
     (\<forall>k < NUM_OF_INODES. k \<noteq> n \<longrightarrow> k \<noteq> c \<longrightarrow> inode_view s' k = inode_view s k) \<and>
     regrown (inode_view s n) (inode_view s' n) \<and> direct (dir_view s' n) (disk s') fs' \<and> good_dir (dir_view s' n) (disk s') \<and>
     distinct (map fst (dir_entries (dir_view s' n) (disk s'))) \<and>
     lookup_entry (dir_entries (dir_view s' n) (disk s')) = (lookup_entry (dir_entries (dir_view s n) (disk s)))(f := None) \<and>
     di_linksCount (inode_view s' c) = di_linksCount (inode_view s c) - 1 \<and>
     (if di_linksCount (inode_view s c) = 1
      then set fs' \<union> file_blocks (dir_view s' n) = set fs \<union> file_blocks (dir_view s n) \<union> file_blocks (dir_view s c) \<and>
        inode_stack (disk s') (c # nums) \<and>
        frames (disk s) fs (file_blocks (dir_view s n) \<union> file_blocks (dir_view s c)) (disk s') fs'
      else inode_view s' c = (inode_view s c)\<lparr> di_linksCount := di_linksCount (inode_view s c) - 1 \<rparr> \<and>
        set fs' \<union> file_blocks (dir_view s' n) = set fs \<union> file_blocks (dir_view s n) \<and> inode_stack (disk s') nums \<and>
        frames (disk s) fs (file_blocks (dir_view s n)) (disk s') fs')"

text \<open>The directory is given back.\<close>

lemma name_gone_put:
  assumes idle: "idle s s" and held: "held s s1 p n" and ch: "changeable s n" and c: "c \<noteq> n" "c < NUM_OF_INODES" "refs s c = 0"
    and gone: "name_gone s1 p n f c fs nums s6 fs' i x"
  shows "\<exists>s'. iput p s6 = Some (0, s') \<and> name_removed s n f c fs nums s' fs'"
proof -
  note H = heldD [OF held] and G = gone [unfolded name_gone_def]
  have data: "inode_view s n = getDiskINodeData (core s1 p)" "wf_inCore (core s1 p)"
    using held_data [OF held] held_unlocked [OF held] by auto
  note V = view_contents [OF data]
  have w6: "well s6" and h6: "holds s6 p n" and rs: "resized (core s1 p) i" and wfi: "wf_inCore i" using G by blast+
  have v6: "inode_view s6 k = (if k = n then getDiskINodeData i else if k = c then x else inode_view s k)" if "k < NUM_OF_INODES" for k
    using G H(6) [OF that] that by simp
  have links: "di_linksCount (inode_view s6 n) = di_linksCount (inode_view s n)" using resizedD(4) [OF rs] data(1) v6 [OF H(5)] by simp
  have ch6: "di_linksCount (inode_view s6 n) \<noteq> 0 \<or> n = 0 \<and> refs s n = 0" using ch links by (auto simp: changeable_def)
  have r6: "refs s6 k = (if k = n then refs s n + 1 else refs s k)" for k using G H(7) by simp
  have pend: "di_linksCount (inode_view s6 k) \<noteq> 0" if k: "k < NUM_OF_INODES" "k \<noteq> n" "pending s6 k" for k
  proof (cases "k = c")
    case True
    have "refs s6 c = 0" using r6 [of c] c by simp
    then show ?thesis using k(3) unreferenced(1) [OF w6] True by blast
  next
    case False
    then have "pending s1 k" using k G by blast
    then show ?thesis using H(8) [OF k(1)] H(6) [OF k(1)] v6 [OF k(1)] k(2) False by simp
  qed
  have pin6: "pinned s s6" using G H(2,10) holds_unique unfolding pinned_def by metis
  obtain s' where s': "iput p s6 = Some (0, s')" and id: "idle s' s'" and pin: "pinned s s'" and refs: "\<And>k. refs s' k = refs s k"
    and ft6: "fileTable s' = fileTable s6" and view6: "\<And>k. k < NUM_OF_INODES \<Longrightarrow> inode_view s' k = inode_view s6 k"
    and ms: "meta_step (disk s6) (disk s')" and stk: "\<And>xs. inode_stack (disk s6) xs \<Longrightarrow> inode_stack (disk s') xs"
    using put_idle [OF idle w6 h6 pin6 r6 ch6 pend] by blast
  have vn: "inode_view s' n = getDiskINodeData i" and vc: "inode_view s' c = x"
    using view6 v6 H(5) c(1,2) by simp_all
  have fr: "frames (disk s) fs W (disk s') fs'" if "frames (disk s1) fs W (disk s6) fs'" for W
    using frames_trans [OF that frames_meta [OF ms, of fs' "{}"]] H(3) by simp
  note V' = view_contents [OF vn wfi]
  have rep: "direct i (disk s6) fs'" and gd: "good_dir i (disk s6)" using G by blast+
  note md = meta_step_direct [OF ms rep]
  have es: "dir_entries i (disk s') = dir_entries i (disk s6)" using md(2) by (simp add: dir_entries_def)
  have gd': "good_dir i (disk s')" by (rule good_dir_meta [OF ms rep gd])
  have rg: "regrown (inode_view s n) (inode_view s' n)" using resized_view [OF rs] data(1) vn by (auto simp: regrown_def)
  have dvc: "dir_view s1 c = dir_view s c" "inode_view s1 c = inode_view s c" using H(6) [OF c(2)] by (simp_all add: dir_view_def)
  have ft: "fileTable s' = fileTable s" using ft6 G H(4) by simp
  have others: "\<forall>k < NUM_OF_INODES. k \<noteq> n \<longrightarrow> k \<noteq> c \<longrightarrow> inode_view s' k = inode_view s k" using view6 v6 by simp
  have "name_removed s n f c fs nums s' fs'"
    unfolding name_removed_def V V' vc es using id ft pin refs others rg md(1) gd' G stk fr dvc H(3)
    by (cases "di_linksCount (inode_view s c) = 1") (simp_all add: vc)
  then show ?thesis using s' by blast
qed

lemma unlinkFile_ok:
  assumes path: "good_path s dir" "lookup_path s (names dir) 0 = Some n" "in_dir dir f" and ch: "changeable s n"
    and can: "can_remove m s (dir_view s n) f c fs nums" and cn: "c \<noteq> n" and room: "2 \<le> card (free_nodes s)"
  shows "\<exists>s' fs'. unlinkFile m (SLASH # dir @ f) s = Some (0, s') \<and> name_removed s n f c fs nums s' fs'"
proof -
  have idle: "idle s s" using path(1) by (simp add: good_path_def)
  obtain p s1 where g: "getFileINode m (SLASH # dir) s = Some (Some p, s1)" and held: "held s s1 p n"
    using path(1,2) by (rule path_found)
  note H = heldD [OF held] and C = can [unfolded can_remove_def]
  have data: "inode_view s n = getDiskINodeData (core s1 p)" "wf_inCore (core s1 p)" and un: "\<not> iNodeMutex (core s1 p)"
    using held_data [OF held] held_unlocked [OF held] by auto
  note V = view_contents [OF data]
  have sz: "isize (dir_view s n) = isize (core s1 p)" using data by (simp add: dir_view_def insertDiskInodeData_def)
  have cN: "c < NUM_OF_INODES" "refs s c = 0" using C by blast+
  have vc: "inode_view s1 c = inode_view s c" "dir_view s1 c = dir_view s c" using H(6) [OF cN(1)] by (simp_all add: dir_view_def)
  have can1: "can_remove m s1 (core s1 p) f c fs nums"
    using C H(7) [of c] cn unfolding can_remove_def V sz vc H(3) by simp
  have room1: "free_nodes s1 \<noteq> {}" by (rule room_after_held [OF idleD(1) [OF idle] H(1,7) room])
  obtain t s6 fs' i x where r: "unlinkFileFromINode m p f (mark p s1) = Some (0, t)" "unlock p t = s6"
    "name_gone s1 p n f c fs nums s6 fs' i x"
    using unlink_entry [OF H(1,2) can1 cn room1] by blast
  obtain s' where s': "iput p s6 = Some (0, s')" "name_removed s n f c fs nums s' fs'"
    using name_gone_put [OF idle held ch cn cN r(3)] by blast
  have "unlinkFile m (SLASH # dir @ f) s = Some (0, s')"
    using g r(1,2) s'(1) split_path [OF path(3)] lock_mark [OF un] by (simp add: unlinkFile_def getParentINode_def)
  then show ?thesis using s'(2) by blast
qed

end
