(* ===== verification/Removal.thy ===== *)
theory Removal
  imports OpenFiles Remove
begin

text \<open>
  Removal of names in consistent states: \<open>unlinkFile\<close> and \<open>unlinkDir\<close> keep \<open>consistent\<close>, take the name out of the
  abstract file system and the inode with its last link; no block and no inode number is lost.
\<close>

section \<open>Removal from the abstract file system\<close>

definition a_unlink :: "size_t \<Rightarrow> cstring \<Rightarrow> size_t \<Rightarrow> afs \<Rightarrow> afs" where
  "a_unlink n f c a =
     (case (a n, a c) of
        (Some y, Some x) \<Rightarrow>
          (case a_content y of
             Folder t \<Rightarrow> a(n \<mapsto> y\<lparr> a_content := Folder (t(f := None)) \<rparr>,
               c := (if a_links x = 1 then None else Some (x\<lparr> a_links := a_links x - 1 \<rparr>)))
           | Bytes _ \<Rightarrow> a)
      | _ \<Rightarrow> a)"

text \<open>Name \<open>f\<close> of directory \<open>n\<close> leads to \<open>c\<close>, which is not open; the directory does not fill its ten blocks.\<close>

definition may_remove :: "afs \<Rightarrow> afiles \<Rightarrow> cstring \<Rightarrow> cstring \<Rightarrow> size_t \<Rightarrow> size_t \<Rightarrow> bool" where
  "may_remove a t dir f n c \<longleftrightarrow> valid_path a dir n \<and> in_dir dir f \<and> 0 \<notin> set f \<and>
     (\<exists>u. folder_at a n = Some u \<and> u f = Some c \<and> card (dom u) < 160) \<and> c \<noteq> 0 \<and> c \<noteq> n \<and> opens t c = {}"

text \<open>An inode with one link has one name.\<close>

definition sole_name :: "afs \<Rightarrow> size_t \<Rightarrow> size_t \<Rightarrow> cstring \<Rightarrow> bool" where
  "sole_name a c n f \<longleftrightarrow> (\<forall>x. a c = Some x \<longrightarrow> a_links x = 1 \<longrightarrow>
     (\<forall>k u g. folder_at a k = Some u \<longrightarrow> u g = Some c \<longrightarrow> k = n \<and> g = f))"

lemma a_unlink_eq:
  assumes "a n = Some y" and "a_content y = Folder t" and "a c = Some x"
  shows "a_unlink n f c a = a(n \<mapsto> y\<lparr> a_content := Folder (t(f := None)) \<rparr>,
    c := (if a_links x = 1 then None else Some (x\<lparr> a_links := a_links x - 1 \<rparr>)))"
  using assms by (simp add: a_unlink_def)

lemma folder_atD: "folder_at a n = Some t \<Longrightarrow> \<exists>y. a n = Some y \<and> a_content y = Folder t"
  by (auto simp: folder_at_def split: option.splits content.splits)

lemma folder_unlink:
  assumes y: "a n = Some y" "a_content y = Folder t" and x: "a c = Some x" and cn: "c \<noteq> n"
  shows "folder_at (a_unlink n f c a) k =
    (if k = n then Some (t(f := None)) else if k = c \<and> a_links x = 1 then None else folder_at a k)"
  using assms by (auto simp: a_unlink_eq folder_at_def)

lemma closed_unlink:
  assumes cl: "closed a" and t: "folder_at a n = Some t" and c: "a c = Some x" "c \<noteq> n" "c \<noteq> 0"
    and sole: "sole_name a c n f"
  shows "closed (a_unlink n f c a)"
proof -
  obtain y where y: "a n = Some y" "a_content y = Folder t" using folder_atD [OF t] by blast
  note F = folder_unlink [OF y c(1,2), of f] and e = a_unlink_eq [OF y c(1), of f]
  have d: "dom (a_unlink n f c a) = (if a_links x = 1 then dom a - {c} else dom a)" using y(1) c by (auto simp: e split: if_splits)
  have "folder_at (a_unlink n f c a) 0 \<noteq> None" using cl c(3) by (auto simp: F closed_def)
  moreover have "ran u \<subseteq> dom (a_unlink n f c a)" if u: "folder_at (a_unlink n f c a) k = Some u" for k u
  proof
    fix j assume "j \<in> ran u"
    then obtain g where g: "u g = Some j" by (auto simp: ran_def)
    obtain u0 where u0: "folder_at a k = Some u0" "u0 g = Some j" "\<not> (k = n \<and> g = f)"
      using u g t by (cases "k = n") (auto simp: F split: if_splits)
    have "j \<in> dom a" using cl u0(1,2) unfolding closed_def by (meson ranI subsetD)
    moreover have "j \<noteq> c" if "a_links x = 1" using sole u0 that c(1) by (auto simp: sole_name_def)
    ultimately show "j \<in> dom (a_unlink n f c a)" by (auto simp: d)
  qed
  ultimately show ?thesis by (simp add: closed_def)
qed

section \<open>unlinkFile\<close>

lemma frames_weaken: "frames d fs W d' fs' \<Longrightarrow> W \<subseteq> V \<Longrightarrow> frames d fs V d' fs'"
  using frames_trans [OF _ frames_refl, of d fs W d' fs' "{}"] by simp

lemma may_removeD:
  assumes con: "consistent s fs nums" and may: "may_remove (abs_fs s) (abs_files s) dir f n c"
  obtains t where "folder_at (abs_fs s) n = Some t" and "t f = Some c" and "card (dom t) < 160" and "used s n"
    and "di_type (inode_view s n) = T_DIRECTORY" and "t = lookup_entry (entries_of s n)" and "used s c" and "refs s c = 0"
    and "di_linksCount (inode_view s c) \<noteq> 0" and "a_links (node_of s c) = di_linksCount (inode_view s c)"
proof -
  obtain t where t: "folder_at (abs_fs s) n = Some t" "t f = Some c" "card (dom t) < 160" using may by (auto simp: may_remove_def)
  have n: "used s n" "di_type (inode_view s n) = T_DIRECTORY" "t = lookup_entry (entries_of s n)"
    using t(1) by (auto simp: folder_at_abs split: if_splits)
  have "c \<in> dom (abs_fs s)" using consistentD(10) [OF con] t(1,2) unfolding closed_def by (meson ranI subsetD)
  then have c: "used s c" by (auto simp: abs_fs_def split: if_splits)
  have "opens (abs_files s) c = {}" "c \<noteq> 0" using may by (auto simp: may_remove_def)
  then have "refs s c = 0" "di_linksCount (inode_view s c) \<noteq> 0" using consistentD(11) [OF con] c by (auto simp: tabled_def used_def)
  then show thesis using that [OF t n c] by (simp add: node_of_def)
qed

lemma may_can_remove:
  assumes con: "consistent s fs nums" and may: "may_remove (abs_fs s) (abs_files s) dir f n c"
    and clean: "unat (iNodeNum (fresh_entry m)) < 65536" and big: "abs_fs s 65535 = None"
    and r: "128 \<le> length fs" "nums \<noteq> []" "di_linksCount (inode_view s c) = 1 \<Longrightarrow> length nums < INODE_NOS_PER_BLOCK"
  shows "can_remove m s (dir_view s n) f c fs nums"
proof -
  obtain t where t: "folder_at (abs_fs s) n = Some t" "t f = Some c" "card (dom t) < 160" and n: "used s n"
    "di_type (inode_view s n) = T_DIRECTORY" "t = lookup_entry (entries_of s n)" and c: "used s c" "refs s c = 0"
    "di_linksCount (inode_view s c) \<noteq> 0"
    using con may by (rule may_removeD)
  have cn: "c \<noteq> 0" "c \<noteq> n" "0 \<notin> set f" using may by (auto simp: may_remove_def)
  note gd = consistentD(7,8) [OF con n(1,2)]
  have "snd e \<noteq> 65535" if e: "e \<in> set (entries_of s n)" for e
  proof -
    obtain g where "fst e = Some g" using gd(1) e by (auto simp: good_dir_def)
    then have "t g = Some (snd e)" unfolding n(3) lookup_entry_unique [OF gd(2)] using e by (metis prod.collapse)
    then have "snd e \<in> dom (abs_fs s)" using consistentD(10) [OF con] t(1) unfolding closed_def by (meson ranI subsetD)
    then show ?thesis using big by auto
  qed
  moreover have "unat (isize (dir_view s n)) < 10240" using folder_size [OF con t(1)] t(3) by linarith
  moreover have "lookup_entry (entries_of s n) f = Some c" using t(2) n(3) by simp
  ultimately show ?thesis
    using clean cn c used_less [OF c(1)] gd consistentD(6) [OF con n(1)] consistentD(6) [OF con c(1)]
      consistentD(9) [OF con c(1) n(1)] consistentD(3) [OF con] r
    by (simp add: can_remove_def)
qed

text \<open>An inode whose link count alone changes.\<close>

lemma links_only:
  assumes con: "consistent s fs nums" and u: "used s c" and v: "inode_view s' c = (inode_view s c)\<lparr> di_linksCount := l \<rparr>"
    and fr: "frames (disk s) fs W (disk s') fs'" and W: "blocks_of s c \<inter> W = {}"
  shows "node_of s' c = (node_of s c)\<lparr> a_links := l \<rparr>" and "sound s' fs' c" and "blocks_of s' c = blocks_of s c"
proof -
  have same: "dataBlockNums (dir_view s' c) = dataBlockNums (dir_view s c)" "isize (dir_view s' c) = isize (dir_view s c)"
    and mode: "file_mode (dir_view s' c) = file_mode (dir_view s c)"
    using v by (simp_all add: dir_view_def insertDiskInodeData_def)
  note S = same_contents [OF same]
  note F = framesD [OF fr consistentD(6) [OF con u] W]
  show "blocks_of s' c = blocks_of s c" by (rule S(5))
  have es: "entries_of s' c = entries_of s c" using F(2) by (simp add: S dir_entries_def)
  show "node_of s' c = (node_of s c)\<lparr> a_links := l \<rparr>" using v es F(2) S(2) by (simp add: node_of_def)
  have "good_dir (dir_view s' c) (disk s')" if "di_type (inode_view s c) = T_DIRECTORY"
    using good_dir_same [OF consistentD(7) [OF con u that] F] S(6) [OF mode] by simp
  then show "sound s' fs' c" using F(1) S(1) es v consistentD(8) [OF con u] by (simp add: sound_def)
qed

lemma removed_abs:
  assumes con: "consistent s fs nums" and may: "may_remove (abs_fs s) (abs_files s) dir f n c"
    and sole: "sole_name (abs_fs s) c n f" and rm: "name_removed s n f c fs nums s' fs'"
  defines "nums' \<equiv> (if di_linksCount (inode_view s c) = 1 then c # nums else nums)"
  shows "consistent s' fs' nums'" and "abs_fs s' = a_unlink n f c (abs_fs s)" and "abs_files s' = abs_files s"
    and "stock s' fs' = stock s fs" and "set nums' \<union> dom (abs_fs s') = set nums \<union> dom (abs_fs s)"
    and "set nums \<subseteq> set nums'"
proof -
  obtain t where t: "folder_at (abs_fs s) n = Some t" "t f = Some c" and n: "used s n"
    "di_type (inode_view s n) = T_DIRECTORY" "t = lookup_entry (entries_of s n)" and c: "used s c" "refs s c = 0"
    "di_linksCount (inode_view s c) \<noteq> 0" and lk: "a_links (node_of s c) = di_linksCount (inode_view s c)"
    using con may by (rule may_removeD)
  have cn: "c \<noteq> 0" "c \<noteq> n" using may by (auto simp: may_remove_def)
  let ?one = "di_linksCount (inode_view s c) = 1"
  note R = rm [unfolded name_removed_def]
  note vn = regrownD [of "inode_view s n" "inode_view s' n"]
  have u': "used s' n" "used s' c \<longleftrightarrow> \<not> ?one" using n(1) vn R cn(1) used_less [OF c(1)] by (auto simp: used_def)
  have N: "{k \<in> {n, c}. used s k} = {n, c}" "{k \<in> {n, c}. used s' k} = (if ?one then {n} else {n, c})" using n(1) c(1) u' by auto
  have fr: "frames (disk s) fs (blocks_of s n \<union> blocks_of s c) (disk s') fs'"
    using R frames_weaken [of "disk s" fs "blocks_of s n" "disk s'" fs' "blocks_of s n \<union> blocks_of s c"] by (auto split: if_splits)
  have cf: "confined s fs {n, c} s' fs'" using R fr unfolding confined_def outside_def N by simp
  have no: "node_of s' n = (node_of s n)\<lparr> a_content := Folder (t(f := None)) \<rparr>"
    using vn R n by (simp add: node_of_def)
  have disj: "blocks_of s c \<inter> blocks_of s n = {}" "blocks_of s c \<inter> set fs = {}"
    using consistentD(9) [OF con c(1) n(1) cn(2)] direct_not_free(1) [OF consistentD(6) [OF con c(1)]] by auto
  have more: "node_of s' c = (node_of s c)\<lparr> a_links := a_links (node_of s c) - 1 \<rparr>" "sound s' fs' c" "blocks_of s' c = blocks_of s c" if "\<not> ?one"
  proof -
    have "inode_view s' c = (inode_view s c)\<lparr> di_linksCount := di_linksCount (inode_view s c) - 1 \<rparr>"
      "frames (disk s) fs (blocks_of s n) (disk s') fs'" using R that by auto
    from links_only [OF con c(1) this disj(1)] show "node_of s' c = (node_of s c)\<lparr> a_links := a_links (node_of s c) - 1 \<rparr>"
      "sound s' fs' c" "blocks_of s' c = blocks_of s c" using lk by simp_all
  qed
  have an: "abs_fs s n = Some (node_of s n)" "a_content (node_of s n) = Folder t" "abs_fs s c = Some (node_of s c)"
    using n c(1) by (simp_all add: abs_fs_def node_of_def)
  have "abs_fs s' = (\<lambda>k. if k \<in> {n, c} then abs_fs s' k else abs_fs s k)"
    by (rule abs_outside [OF con confined_outside [OF cf]]) (use used_less [OF n(1)] used_less [OF c(1)] in simp)
  then have "abs_fs s' k = abs_fs s k" if "k \<noteq> n" "k \<noteq> c" for k using that by (metis insertE singletonD)
  moreover have "abs_fs s' n = Some ((node_of s n)\<lparr> a_content := Folder (t(f := None)) \<rparr>)" using u'(1) no by (simp add: abs_fs_def)
  moreover have "abs_fs s' c = (if ?one then None else Some ((node_of s c)\<lparr> a_links := a_links (node_of s c) - 1 \<rparr>))"
    using u'(2) more(1) by (simp add: abs_fs_def)
  ultimately show a: "abs_fs s' = a_unlink n f c (abs_fs s)"
    unfolding a_unlink_eq [OF an] lk by (intro ext) (use cn(2) lk in auto)
  show "abs_files s' = abs_files s" by (rule confined_tabled(2) [OF con cf]) (use u' c(2) in auto)
  have bl: "set fs' \<union> blocks_in s' {n, c} = set fs \<union> blocks_in s {n, c}"
    unfolding N using R more(3) by (auto split: if_splits)
  show "stock s' fs' = stock s fs" by (rule outside_stock [OF con confined_outside [OF cf] bl])
  have cl: "closed (abs_fs s')" unfolding a by (rule closed_unlink [OF consistentD(10) [OF con] t(1) an(3) cn(2,1) sole])
  have cnums: "c \<notin> set nums" using consistentD(5) [OF con, of c] c(3) by auto
  have dis: "distinct nums'" using consistentD(4) [OF con] cnums by (simp add: nums'_def)
  have nums: "k < NUM_OF_INODES \<and> di_linksCount (inode_view s' k) = 0" if "k \<in> set nums'" for k
  proof (cases "k = c")
    case True
    then have "?one" using that cnums by (auto simp: nums'_def split: if_splits)
    then show ?thesis using True R used_less [OF c(1)] by simp
  next
    case False
    then have k: "k \<in> set nums" using that by (auto simp: nums'_def split: if_splits)
    have "k \<noteq> 0" using consistentD(3) [OF con] k by (auto simp: inode_stack_def)
    moreover have kk: "k < NUM_OF_INODES" "di_linksCount (inode_view s k) = 0" using consistentD(5) [OF con k] by auto
    ultimately have "k \<noteq> n" using n(1) by (auto simp: used_def)
    then show ?thesis using R False kk by simp
  qed
  have st: "inode_stack (disk s') nums'" using R by (auto simp: nums'_def)
  have sn: "sound s' fs' n" using R by (simp add: sound_def)
  have dn: "blocks_of s' n \<inter> blocks_of s' c = {}" if "\<not> ?one"
    using R disj more(3) [OF that] that by auto
  show "consistent s' fs' nums'"
    by (rule confined_consistent [OF con cf _ bl _ _ st dis nums cl]) (use sn more(2) dn u' c(2) in \<open>auto simp: Int_commute\<close>)
  show "set nums' \<union> dom (abs_fs s') = set nums \<union> dom (abs_fs s)"
    unfolding a a_unlink_eq [OF an] lk nums'_def using an cn(2) by auto
  show "set nums \<subseteq> set nums'" by (auto simp: nums'_def)
qed

lemma unlink_abs:
  assumes con: "consistent s fs nums" and may: "may_remove (abs_fs s) (abs_files s) dir f n c"
    and sole: "sole_name (abs_fs s) c n f" and clean: "unat (iNodeNum (fresh_entry m)) < 65536" and big: "abs_fs s 65535 = None"
    and r: "128 \<le> length fs" "nums \<noteq> []" "length nums < INODE_NOS_PER_BLOCK" and two: "2 \<le> card (free_nodes s)"
  shows "\<exists>s' fs' nums'. unlinkFile m (SLASH # dir @ f) s = Some (0, s') \<and> consistent s' fs' nums' \<and>
    abs_fs s' = a_unlink n f c (abs_fs s) \<and> abs_files s' = abs_files s \<and> stock s' fs' = stock s fs \<and>
    set nums' \<union> dom (abs_fs s') = set nums \<union> dom (abs_fs s) \<and> set nums \<subseteq> set nums'"
proof -
  have p: "valid_path (abs_fs s) dir n" "in_dir dir f" "c \<noteq> n" using may by (auto simp: may_remove_def)
  note P = valid_pathD [OF con p(1)]
  obtain s' fs' where s': "unlinkFile m (SLASH # dir @ f) s = Some (0, s')" "name_removed s n f c fs nums s' fs'"
    using unlinkFile_ok [OF P(1,2) p(2) P(3) may_can_remove [OF con may clean big r] p(3) two] by blast
  show ?thesis using s'(1) removed_abs [OF con may sole s'(2)] by blast
qed

text \<open>A name that is not there; an empty directory has no last entry to read, which the code does first.\<close>

lemma unlink_missing:
  assumes con: "consistent s fs nums" and path: "valid_path (abs_fs s) dir n" "in_dir dir f" "0 \<notin> set f"
    and t: "folder_at (abs_fs s) n = Some t" "t f = None" "dom t \<noteq> {}"
  shows "\<exists>s'. unlinkFile m (SLASH # dir @ f) s = Some (- 1, s') \<and> idle s s'"
proof -
  note P = valid_pathD [OF con path(1)]
  have n: "used s n" "di_type (inode_view s n) = T_DIRECTORY" "t = lookup_entry (entries_of s n)"
    using t(1) by (auto simp: folder_at_abs split: if_splits)
  obtain p s1 where g: "getFileINode m (SLASH # dir) s = Some (Some p, s1)" and held: "held s s1 p n"
    using P(1,2) by (rule path_found)
  note H = heldD [OF held]
  have data: "inode_view s n = getDiskINodeData (core s1 p)" "wf_inCore (core s1 p)" and un: "\<not> iNodeMutex (core s1 p)"
    using held_data [OF held] held_unlocked [OF held] by auto
  note V = view_contents [OF data]
  let ?i = "(core s1 p)\<lparr> iNodeMutex := True \<rparr>"
  note S = same_contents [of ?i "core s1 p", simplified]
  have gd: "good_dir ?i (disk s1)" using consistentD(7) [OF con n(1,2)] V(6) S(6) H(3) by simp
  have es: "lookup_entry (dir_entries ?i (disk s1)) f = None" using t(2) n(3) V(4) S(4) H(3) by simp
  have "finite (dom t)" unfolding n(3) by (rule finite_subset [of _ "the ` fst ` set (entries_of s n)"])
      (force simp: lookup_entry_def find_Some_iff image_iff in_set_conv_nth, simp)
  then have "card (dom t) \<noteq> 0" using t(3) by simp
  then have "isize (dir_view s n) \<noteq> 0" using folder_size [OF con t(1)] by auto
  then have "isize ?i \<noteq> 0" using data by (simp add: dir_view_def insertDiskInodeData_def)
  note se = unlink_search_missing [OF gd path(3) es this, of m "fresh_entry m"]
  have run: "unlinkFileFromINode m p f (mark p s1) = Some (- 1, mark p s1)"
    using se by (simp add: unlinkFileFromINode_def mark_node_self)
  have "di_linksCount (inode_view s n) \<noteq> 0 \<or> n = 0" using n(1) by (auto simp: used_def)
  then obtain s' where s': "iput p s1 = Some (0, s')" "idle s s'" using iput_idle [OF held] by blast
  have "unlinkFile m (SLASH # dir @ f) s = Some (- 1, s')"
    using g run s'(1) split_path [OF path(2)] lock_mark [OF un] unlock_mark [OF un] by (simp add: unlinkFile_def getParentINode_def)
  then show ?thesis using s'(2) by blast
qed

lemma unlink_no_parent:
  assumes "good_path s dir" and "lookup_path s (names dir) 0 = None" and "in_dir dir f"
  shows "\<exists>s'. unlinkFile m (SLASH # dir @ f) s = Some (- ENOENT, s') \<and> idle s s'"
proof -
  obtain s' where "getFileINode m (SLASH # dir) s = Some (None, s')" "idle s s'" using assms(1,2) by (rule path_missing)
  then show ?thesis using split_path [OF assms(3)] by (simp add: unlinkFile_def getParentINode_def)
qed

section \<open>unlinkDir\<close>

text \<open>The checks before a directory is removed: files of more than 128 bytes count as directories that are not empty.\<close>

definition dir_check :: "size_t \<Rightarrow> anode \<Rightarrow> int" where
  "dir_check c x =
     (if c = 0 then - EACCES
      else if 128 < a_size (a_content x) then - ENOTEMPTY
      else (case a_content x of Bytes _ \<Rightarrow> - ENOTDIR | Folder _ \<Rightarrow> 0))"

lemma unlinkDir_checked:
  assumes con: "consistent s fs nums" and path: "valid_path (abs_fs s) path c" and x: "abs_fs s c = Some x"
  obtains s1 where "idle s s1" and "unlinkDir m (SLASH # path) False s =
    (if dir_check c x < 0 then Some (dir_check c x, s1) else unlinkFile m (SLASH # path) s1)"
proof -
  note P = valid_pathD [OF con path]
  obtain p s1 where g: "getFileINode m (SLASH # path) s = Some (Some p, s1)" and held: "held s s1 p c"
    using P(1,2) by (rule path_found)
  have data: "inode_view s c = getDiskINodeData (core s1 p)" and un: "\<not> iNodeMutex (core s1 p)"
    and num: "inode_number (core s1 p) = c"
    using held_data [OF held] held_unlocked [OF held] held by (auto simp: held_def)
  have "di_linksCount (inode_view s c) \<noteq> 0 \<or> c = 0" using P(4) by (auto simp: used_def)
  then obtain s2 where s2: "iput p s1 = Some (0, s2)" "idle s s2" using iput_idle [OF held] by blast
  have size: "unat (isize (core s1 p)) = a_size (a_content x)" using node_size [OF con x] data by simp
  have kind: "itype (core s1 p) = T_DIRECTORY \<longleftrightarrow> (\<exists>t. a_content x = Folder t)"
    using x data by (auto simp: abs_fs_def node_of_def split: if_splits)
  have "validate_dir ((core s1 p)\<lparr> iNodeMutex := True \<rparr>) False = Some (dir_check c x)"
    using num size kind by (cases "a_content x") (auto simp: validate_dir_def dir_check_def word_less_nat_alt)
  then have "validateAndEmptyDirectoryIfNeeded m p False (mark p s1) = Some (dir_check c x, mark p s1)"
    by (simp add: validateAndEmptyDirectoryIfNeeded_def mark_node_self)
  then have "unlinkDir m (SLASH # path) False s =
      (if dir_check c x < 0 then Some (dir_check c x, s2) else unlinkFile m (SLASH # path) s2)"
    using g s2(1) lock_mark [OF un] unlock_mark [OF un] by (simp add: unlinkDir_def)
  then show thesis using that [OF s2(2)] by blast
qed

lemma rmdir_abs:
  assumes con: "consistent s fs nums" and path: "valid_path (abs_fs s) (dir @ f) c" and x: "abs_fs s c = Some x"
    and ok: "dir_check c x = 0" and may: "may_remove (abs_fs s) (abs_files s) dir f n c"
    and sole: "sole_name (abs_fs s) c n f" and clean: "unat (iNodeNum (fresh_entry m)) < 65536" and big: "abs_fs s 65535 = None"
    and r: "128 \<le> length fs" "nums \<noteq> []" "length nums < INODE_NOS_PER_BLOCK" and two: "2 \<le> card (free_nodes s)"
  shows "\<exists>s' fs' nums'. unlinkDir m (SLASH # dir @ f) False s = Some (0, s') \<and> consistent s' fs' nums' \<and>
    abs_fs s' = a_unlink n f c (abs_fs s) \<and> abs_files s' = abs_files s \<and> stock s' fs' = stock s fs \<and>
    set nums' \<union> dom (abs_fs s') = set nums \<union> dom (abs_fs s) \<and> set nums \<subseteq> set nums'"
proof -
  obtain s1 where id: "idle s s1" and run: "unlinkDir m (SLASH # dir @ f) False s = unlinkFile m (SLASH # dir @ f) s1"
    using unlinkDir_checked [OF con path x, of m] ok by auto
  note A = idle_abs [OF con id]
  have w: "well s1" using idleD(1) [OF consistentD(1) [OF A(1)]] .
  have "refs s1 k = refs s k" for k using id by (simp add: idle_def same_files_def)
  then have "2 \<le> card (free_nodes s1)" using same_room [OF idleD(1) [OF consistentD(1) [OF con]] w] two by simp
  from unlink_abs [OF A(1) _ _ clean _ r this, of dir f n c] show ?thesis unfolding run A using may sole big A(4) by simp
qed

end
