(* ===== verification/Rename.thy ===== *)
theory Rename
  imports Removal
begin

text \<open>
  \<open>renameFile\<close> (\<open>src/interface/rename.c\<close>) with a destination that does not exist: the inode gets a second name and
  link, then the old name is removed as by \<open>unlinkFile\<close>.
\<close>

section \<open>A second name\<close>

text \<open>The walk along a path does not see that an inode is held.\<close>

lemma walk_same:
  assumes con: "consistent s fs nums" and v: "\<And>k. k < NUM_OF_INODES \<Longrightarrow> inode_view s1 k = inode_view s k" and d: "disk s1 = disk s"
    and f: "folders_on (abs_fs s) cs n"
  shows "dirs_on s1 cs n \<and> lookup_path s1 cs n = path_to (abs_fs s) cs n"
  using f
proof (induction cs arbitrary: n)
  case (Cons c cs)
  then obtain t where t: "folder_at (abs_fs s) n = Some t" by (auto split: option.splits)
  then have "used s n" by (auto simp: folder_at_abs split: if_splits)
  then have e: "inode_view s1 n = inode_view s n" using v used_less by blast
  have "lookup_name s1 n c = lookup_name s n c" "is_dir s1 n = is_dir s n"
    using e d by (simp_all add: lookup_name_def is_dir_def dir_view_def keeps_def)
  then show ?case using Cons t lookup_folder [OF con t] by (auto split: option.splits)
qed simp

lemma upd_core_commute: "p \<noteq> q \<Longrightarrow> upd_core p f (upd_core q g s) = upd_core q g (upd_core p f s)"
  by (auto simp: upd_core_def upd_node_def fun_upd_twist)

text \<open>Adding an entry through a locked inode while another one is locked, and raising the links of the other.\<close>

lemma locked_link:
  assumes ne: "q \<noteq> p" and un: "\<not> iNodeMutex (core s p)" "\<not> iNodeMutex (core s q)"
    and rep: "direct (core s p) (disk s) fs" and fits: "append_fits (core s p) fs 64" and dir: "good_dir (core s p) (disk s)"
  obtains i d' fs' u where "getAndUpdateDirectoryTable m p num g (mark q (mark p s)) = Some (None, u)"
    and "appended (core s p) (disk s) fs (entry_bytes m g num) i d' fs'" and "dirty i"
    and "linksCount (core u q) = linksCount (core s q)"
    and "unlock p (updateINodeMetadata_at q 0 l u) = mark q (updateINodeMetadata_at q 0 l (upd_core p (\<lambda>_. i) (s\<lparr> disk := d' \<rparr>)))"
    and "\<not> iNodeMutex (core (updateINodeMetadata_at q 0 l (upd_core p (\<lambda>_. i) (s\<lparr> disk := d' \<rparr>))) q)"
proof -
  let ?s = "mark q (mark p s)" and ?i = "(core s p)\<lparr> iNodeMutex := True \<rparr>"
  have c: "core ?s p = ?i" "disk ?s = disk s" using ne other_marked(1) [of p q "mark p s"] core_marked [of p s] by simp_all
  note S = same_contents [of ?i "core s p", simplified]
  have pre: "direct (core ?s p) (disk ?s) fs" "append_fits (core ?s p) fs 64" "64 dvd unat (isize (core ?s p))"
    "validateSearch (core ?s p) \<noteq> - 1"
    unfolding c using rep fits dir S by (simp_all add: append_fits_def good_dir_def validateSearch_iff)
  obtain i' d' fs' where a: "getAndUpdateDirectoryTable m p num g ?s = Some (None, upd_core p (\<lambda>_. i') (?s\<lparr> disk := d' \<rparr>))"
    "appended ?i (disk s) fs (entry_bytes m g num) i' d' fs'" "dirty i'"
    using getAndUpdateDirectoryTable_append [OF pre, of m num g] unfolding c by blast
  let ?j = "i'\<lparr> iNodeMutex := False \<rparr>" and ?u = "upd_core p (\<lambda>_. i') (?s\<lparr> disk := d' \<rparr>)"
  have app: "appended (core s p) (disk s) fs (entry_bytes m g num) ?j d' fs'" using appended_mutex [OF a(2)] un(1) by simp
  let ?U = "\<lambda>i. updateINodeMetadata i 0 l d'" and ?L = "iNodeMutex_update (\<lambda>_. True)" and ?s' = "s\<lparr> disk := d' \<rparr>"
  have u: "updateINodeMetadata_at q 0 l ?u = upd_core q ?U (mark q (upd_core p (\<lambda>_. i') (mark p ?s')))"
    using upd_core_marked [OF ne [symmetric]] by (simp add: updateINodeMetadata_at_def)
  have UL: "?U \<circ> ?L = ?L \<circ> ?U" by (auto simp: fun_eq_iff updateINodeMetadata_def Let_def)
  have j: "unlock p (upd_core p (\<lambda>_. i') (mark p ?s')) = upd_core p (\<lambda>_. ?j) ?s'"
    using locked_replace [of p i' d' s] by (simp flip: mark_def)
  have e: "unlock p (updateINodeMetadata_at q 0 l ?u) = mark q (updateINodeMetadata_at q 0 l (upd_core p (\<lambda>_. ?j) (s\<lparr> disk := d' \<rparr>)))"
  proof -
    have "unlock p (upd_core q ?U (mark q x)) = upd_core q (?U \<circ> ?L) (unlock p x)" for x
      unfolding unlock_def mark_def upd_core_comp by (rule upd_core_commute [OF ne [symmetric]])
    then have "unlock p (updateINodeMetadata_at q 0 l ?u) = upd_core q (?U \<circ> ?L) (unlock p (upd_core p (\<lambda>_. i') (mark p ?s')))"
      unfolding u .
    also have "\<dots> = mark q (updateINodeMetadata_at q 0 l (upd_core p (\<lambda>_. ?j) ?s'))"
      unfolding j UL by (simp add: updateINodeMetadata_at_def mark_def upd_core_comp)
    finally show ?thesis .
  qed
  show thesis
    by (rule that [OF a(1) app _ _ e]) (use a(3) un ne in \<open>auto simp: updateINodeMetadata_at_def updateINodeMetadata_def mark_def upd_core_def upd_node_def Let_def\<close>)
qed

text \<open>What the destination's directory must allow.\<close>

definition can_link :: "fs \<Rightarrow> size_t \<Rightarrow> cstring \<Rightarrow> size_t \<Rightarrow> size_t list \<Rightarrow> bool" where
  "can_link s n g c fs \<longleftrightarrow> idle s s \<and> changeable s n \<and> n \<noteq> c \<and> n < NUM_OF_INODES \<and> c < NUM_OF_INODES \<and> refs s c = 0 \<and>
     di_linksCount (inode_view s c) \<noteq> 0 \<and> di_linksCount (inode_view s c) \<noteq> - 1 \<and>
     length g < FILENAME_SIZE \<and> 0 \<notin> set g \<and> good_dir (dir_view s n) (disk s) \<and> direct (dir_view s n) (disk s) fs \<and>
     append_fits (dir_view s n) fs 64 \<and> lookup_entry (dir_entries (dir_view s n) (disk s)) g = None"

lemma no_destination:
  assumes "good_dir (core s p) (disk s)" and "0 \<notin> set g" and "lookup_entry (dir_entries (core s p) (disk s)) g = None"
  shows "removeDestinationIfExists m p g (mark p s) = Some (0, mark p s)"
proof -
  let ?i = "(core s p)\<lparr> iNodeMutex := True \<rparr>"
  note S = same_contents [of ?i "core s p", simplified]
  have gd: "good_dir ?i (disk s)" using assms(1) S(6) by simp
  have "find (\<lambda>k. dir_name ?i (disk s) k = Some g) [0..<unat (isize ?i) div 64] = None"
    using find_entry [OF gd, of g] assms(3) S(4) by simp
  then have "searchINodeDirectoryEntries m ?i (Some g) 0 [fresh_entry m] 0 False (disk s) = Some (0, [fresh_entry m], disk s)"
    using search_directory [OF good_dir_ok [OF gd] assms(2)] by simp
  then show ?thesis by (simp add: removeDestinationIfExists_def mark_node_self)
qed

text \<open>The state after both changes, before the inodes are given back.\<close>

lemma link_made:
  assumes can: "can_link s n g c fs" and h1: "held s s1 q c" and h2: "held s1 s2 p n"
    and app: "appended (core s2 p) (disk s2) fs (entry_bytes m g c) i d' fs'" and di: "dirty i"
  defines "x \<equiv> (inode_view s c)\<lparr> di_linksCount := di_linksCount (inode_view s c) + 1 \<rparr>"
    and "s4 \<equiv> updateINodeMetadata_at q 0 (di_linksCount (inode_view s c) + 1) (upd_core p (\<lambda>_. i) (s2\<lparr> disk := d' \<rparr>))"
  shows "entry_made s fs n g c x s4 p q i fs'" and "inode_stack (disk s) nums \<Longrightarrow> inode_stack (disk s4) nums"
proof -
  note C = can [unfolded can_link_def] and H1 = heldD [OF h1] and H2 = heldD [OF h2]
  let ?s3 = "upd_core p (\<lambda>_. i) (s2\<lparr> disk := d' \<rparr>)"
  have data: "inode_view s n = getDiskINodeData (core s2 p)" "wf_inCore (core s2 p)"
    using held_data [OF h2] held_unlocked [OF h2] H1(6) C by auto
  note V = view_contents [OF data]
  have disk2: "disk s2 = disk s" using H1(3) H2(3) by simp
  have hq: "holds s2 q c" using H1(2) H2(10) by (simp add: pinned_def)
  have rs: "resized (core s2 p) i" and wf: "wf_inCore i" using app by (simp_all add: appended_def direct_def direct_file_def)
  have num: "inode_number (core s2 p) = n" using H2(1,2) by (rule holdsE)
  note t = data_then_change [OF H2(1) appended_data_step [OF app] H2(2) _ resizedD(2) [OF rs] resizedD(1) [OF rs] wf di]
  have t3: "touches s2 n (refs s2 n) (getDiskINodeData i) ?s3" "holds ?s3 p n" using t(1,2) num resizedD(3) [OF rs] by simp_all
  note T3 = touchesD [OF t3(1)]
  have q3: "holds ?s3 q c" using T3(5) [OF hq] C by blast
  note L = links_step [OF T3(1) q3, of "di_linksCount (inode_view s c) + 1", folded s4_def]
  note T4 = touchesD [OF L(1)]
  have view: "inode_view s4 k = (if k = n then getDiskINodeData i else if k = c then x else inode_view s k)" if "k < NUM_OF_INODES" for k
    using T4(3) [OF that] T3(3) [OF that] T3(3) [of c] H2(6) [OF that] H1(6) [OF that] H2(6) [of c] H1(6) [of c] C by (auto simp: x_def)
  have refs: "refs s4 k = (if k = n then refs s n + 1 else if k = c then 1 else refs s k)" for k
    using T4(4) [of k] T3(4) [of k] T3(4) [of c] H2(7) [of k] H1(7) [of k] H2(7) [of c] H1(7) [of c] C by auto
  have pend: "di_linksCount (inode_view s k) \<noteq> 0" if "k < NUM_OF_INODES" "k \<noteq> n" "k \<noteq> c" "pending s4 k" for k
    using that T4(7) [of k] T3(7) [of k] H2(8) [OF that(1)] H2(6) [OF that(1)] H1(6) [OF that(1)] by auto
  have p4: "holds s4 p n" using T4(5) [OF t3(2)] C by blast
  have "pinned s s2" using H1(10) H2(10) by (simp add: pinned_def)
  then have "pinned s ?s3" by (rule pinned_touches [OF _ t3(1)]) (use H2(2) t3(2) in blast)
  then have pin: "pinned s s4" by (rule pinned_touches [OF _ L(1)]) (use C in blast)
  have d4: "disk s4 = d'" using L(4) by simp
  have "c mod 65536 = c" using C by (simp add: word_unat_eq_iff unat_mod_distrib word_less_nat_alt)
  then have e: "dir_entries i d' = dir_entries (dir_view s n) (disk s) @ [(Some g, c)]" "good_dir i d'"
    using appended_entries [OF app] C V(4,6) disk2 by (auto simp: dir_entries_def)
  obtain new where "fs = new @ fs'" "file_blocks i = file_blocks (dir_view s n) \<union> set new"
    using app unfolding V(5) appended_def by blast
  then have bl: "set fs' \<subseteq> set fs" "file_blocks i \<subseteq> file_blocks (dir_view s n) \<union> set fs"
    "set fs \<union> file_blocks (dir_view s n) \<subseteq> set fs' \<union> file_blocks i"
    by auto
  have fr: "frames (disk s) fs (file_blocks (dir_view s n)) d' fs'" using frames_appended [OF app] unfolding V(5) disk2 .
  have rg: "regrown (inode_view s n) (getDiskINodeData i)" "direct i d' fs'"
    using resized_view [OF rs] data(1) app by (auto simp: regrown_def appended_def)
  show "entry_made s fs n g c x s4 p q i fs'"
    unfolding entry_made_def d4
  proof (intro conjI allI impI)
    show "n < NUM_OF_INODES" "c < NUM_OF_INODES" using C by blast+
    show "fileTable s4 = fileTable s" using T4(2) T3(2) H1(4) H2(4) by simp
    show "set fs \<union> file_blocks (dir_view s n) \<subseteq> set fs' \<union> file_blocks i \<union> inode_blocks x" using bl(3) by blast
  qed (use T4(1) p4 L(2) view refs pend pin wf rg e fr bl(1,2) in blast)+
  assume "inode_stack (disk s) nums"
  then show "inode_stack (disk s4) nums"
    unfolding d4 using data_step_stack [OF appended_data_step(1) [OF app]] disk2 well_meta_ok [OF H2(1)] by simp
qed

lemma renameFile_link:
  assumes con: "consistent s fs nums" and source: "valid_path (abs_fs s) from c" and to: "valid_path (abs_fs s) dir n" "in_dir dir g"
    and can: "can_link s n g c fs" and two: "2 \<le> card (free_nodes s)"
  shows "\<exists>s' fs'. renameFile m (SLASH # from) (SLASH # dir @ g) s =
      do { (r, s) \<leftarrow> unlinkFile m (SLASH # from) s'; if r \<noteq> 0 then Some (- 1, s) else Some (0, s) } \<and>
    created s fs n g c ((inode_view s c)\<lparr> di_linksCount := di_linksCount (inode_view s c) + 1 \<rparr>) s' fs' \<and> inode_stack (disk s') nums"
proof -
  note C = can [unfolded can_link_def] and F = valid_pathD [OF con source]
  have idle: "idle s s" by (rule consistentD(1) [OF con])
  obtain q s1 where g1: "getFileINode m (SLASH # from) s = Some (Some q, s1)" and h1: "held s s1 q c"
    using F(1,2) by (rule path_found)
  note H1 = heldD [OF h1]
  have "refs s c + 1 \<noteq> SIZE_MAX" using C by simp
  moreover have "free_nodes s1 \<noteq> {}" by (rule room_after_held [OF idleD(1) [OF idle] H1(1,7) two])
  ultimately have id1: "idle s1 s1" using idleI [OF H1(1,8)] H1(7) idleD(2) [OF idle] by simp
  have fo: "folders_on (abs_fs s) (names dir) 0" "path_to (abs_fs s) (names dir) 0 = Some n" "0 \<notin> set dir"
    using to(1) by (auto simp: valid_path_def)
  have walk: "dirs_on s1 (names dir) 0 \<and> lookup_path s1 (names dir) 0 = path_to (abs_fs s) (names dir) 0"
    by (rule walk_same [OF con H1(6) H1(3) fo(1)])
  then have "good_path s1 dir" "lookup_path s1 (names dir) 0 = Some n" using id1 fo by (simp_all add: good_path_def)
  then obtain p s2 where g2: "getFileINode m (SLASH # dir) s1 = Some (Some p, s2)" and h2: "held s1 s2 p n" by (rule path_found)
  note H2 = heldD [OF h2]
  have hq: "holds s2 q c" using H1(2) H2(10) by (simp add: pinned_def)
  have un: "\<not> iNodeMutex (core s2 p)" "\<not> iNodeMutex (core s2 q)" and nq: "inode_number (core s2 q) = c" "inode_number (core s2 p) = n"
    and vq: "getDiskINodeData (core s2 q) = inode_view s2 c"
    using holdsE [OF H2(1,2)] holdsE [OF H2(1) hq] by metis+
  have qp: "q \<noteq> p" using nq C by auto
  have lq: "linksCount (core s2 q) = di_linksCount (inode_view s c)"
    using same_links [OF vq] H2(6) H1(6) C by simp
  have data: "inode_view s n = getDiskINodeData (core s2 p)" "wf_inCore (core s2 p)"
    using held_data [OF h2] held_unlocked [OF h2] H1(6) C by auto
  note V = view_contents [OF data]
  have disk2: "disk s2 = disk s" using H1(3) H2(3) by simp
  have "append_fits (core s2 p) fs 64" using C data by (simp add: append_fits_def dir_view_def insertDiskInodeData_def)
  then have pre: "direct (core s2 p) (disk s2) fs" "append_fits (core s2 p) fs 64" "good_dir (core s2 p) (disk s2)"
    "lookup_entry (dir_entries (core s2 p) (disk s2)) g = None" "0 \<notin> set g"
    using C V(1,4,6) disk2 by simp_all
  let ?l = "di_linksCount (inode_view s c) + 1"
  obtain i d' fs' u where u: "getAndUpdateDirectoryTable m p c g (mark q (mark p s2)) = Some (None, u)"
    and app: "appended (core s2 p) (disk s2) fs (entry_bytes m g c) i d' fs'" and di: "dirty i"
    and lu: "linksCount (core u q) = linksCount (core s2 q)"
    and ul: "unlock p (updateINodeMetadata_at q 0 ?l u) = mark q (updateINodeMetadata_at q 0 ?l (upd_core p (\<lambda>_. i) (s2\<lparr> disk := d' \<rparr>)))"
    using locked_link [OF qp un pre(1-3)] by metis
  let ?s4 = "updateINodeMetadata_at q 0 ?l (upd_core p (\<lambda>_. i) (s2\<lparr> disk := d' \<rparr>))"
  note M = link_made [OF can h1 h2 app di]
  have l0: "?l \<noteq> 0" using C by (metis add_eq_0_iff2 add.commute)
  have st4: "inode_stack (disk ?s4) nums" by (rule M(2) [OF consistentD(3) [OF con]])
  have fin: "idle s s" "changeable s n" "n \<noteq> c" "refs s c = 0" using C by blast+
  from entry_finish [OF fin M(1) _ st4] l0 obtain s5 s6 where s5: "iput p ?s4 = Some (0, s5)" "iput q s5 = Some (0, s6)"
    and cr: "created s fs n g c ((inode_view s c)\<lparr> di_linksCount := ?l \<rparr>) s6 fs'" "inode_stack (disk s6) nums" by auto
  have un5: "\<not> iNodeMutex (core s5 q)" using s5(2) by (auto simp: iput_def lock_def split: if_splits)
  have lockq: "lock q (mark p s2) = Some (mark q (mark p s2))" by (rule lock_mark) (use other_marked(1) [OF qp] un(2) in simp)
  have numq: "inode_number (core (mark q (mark p s2)) q) = c" using nq(1) other_marked(1) [OF qp, of s2] by (simp add: mark_node_self)
  have "renameFile m (SLASH # from) (SLASH # dir @ g) s =
      do { (r, s) \<leftarrow> unlinkFile m (SLASH # from) s6; if r \<noteq> 0 then Some (- 1, s) else Some (0, s) }"
    unfolding renameFile_def g1 using g2 split_path [OF to(2)] lock_mark [OF un(1)] no_destination [OF pre(3,5,4), of m] lockq numq u
      lu lq ul iput_marked [OF s5(1) qp [symmetric]] unlock_mark [OF un5] s5(2)
    by (simp add: getParentINode_def)
  then show ?thesis using cr by blast
qed

section \<open>The second name in the abstract file system\<close>

definition a_link :: "size_t \<Rightarrow> cstring \<Rightarrow> size_t \<Rightarrow> afs \<Rightarrow> afs" where
  "a_link n g c a =
     (case (a n, a c) of
        (Some y, Some x) \<Rightarrow>
          (case a_content y of
             Folder t \<Rightarrow> a(n \<mapsto> y\<lparr> a_content := Folder (t(g \<mapsto> c)) \<rparr>, c \<mapsto> x\<lparr> a_links := a_links x + 1 \<rparr>)
           | Bytes _ \<Rightarrow> a)
      | _ \<Rightarrow> a)"

lemma a_link_eq:
  assumes "a n = Some y" and "a_content y = Folder t" and "a c = Some x"
  shows "a_link n g c a = a(n \<mapsto> y\<lparr> a_content := Folder (t(g \<mapsto> c)) \<rparr>, c \<mapsto> x\<lparr> a_links := a_links x + 1 \<rparr>)"
  using assms by (simp add: a_link_def)

lemma folder_link:
  assumes y: "a n = Some y" "a_content y = Folder t" and x: "a c = Some x" and cn: "c \<noteq> n"
  shows "folder_at (a_link n g c a) k = (if k = n then Some (t(g \<mapsto> c)) else folder_at a k)"
  using assms by (auto simp: a_link_eq folder_at_def)

lemma dom_a_link: "dom (a_link n g c a) = dom a"
  by (auto simp: a_link_def split: option.splits content.splits if_splits)

lemma closed_link:
  assumes cl: "closed a" and y: "a n = Some y" "a_content y = Folder t" and x: "a c = Some x" and cn: "c \<noteq> n"
  shows "closed (a_link n g c a)"
proof -
  note F = folder_link [OF y x cn, of g]
  have old: "ran u \<subseteq> dom a" if "folder_at a k = Some u" for k u using cl that by (auto simp: closed_def)
  have "ran t \<subseteq> dom a" using old [of n t] y by (simp add: folder_at_def)
  then have "ran (t(g \<mapsto> c)) \<subseteq> dom a" using x by (auto simp: ran_def split: if_splits)
  then show ?thesis using cl old by (auto simp: closed_def F dom_a_link split: if_splits)
qed

lemma linked_abs:
  assumes con: "consistent s fs nums" and add: "may_add (abs_fs s) dir g n" and c: "used s c" "c \<noteq> n" "c \<noteq> 0" "refs s c = 0"
    and l: "di_linksCount (inode_view s c) + 1 \<noteq> 0" and st: "inode_stack (disk s') nums"
    and cr: "created s fs n g c ((inode_view s c)\<lparr> di_linksCount := di_linksCount (inode_view s c) + 1 \<rparr>) s' fs'"
  shows "consistent s' fs' nums" and "abs_fs s' = a_link n g c (abs_fs s)" and "abs_files s' = abs_files s"
    and "stock s' fs' = stock s fs"
proof -
  obtain t where t: "folder_at (abs_fs s) n = Some t" "t g = None" using add by (auto simp: may_add_def)
  have n: "used s n" "di_type (inode_view s n) = T_DIRECTORY" and te: "t = lookup_entry (entries_of s n)"
    using t(1) by (auto simp: folder_at_abs split: if_splits)
  note C = cr [unfolded created_def]
  note vn = regrownD [of "inode_view s n" "inode_view s' n"]
  have u': "used s' n" "used s' c" using n(1) vn l used_less [OF c(1)] C by (auto simp: used_def)
  have N: "{k \<in> {n, c}. used s k} = {n, c}" "{k \<in> {n, c}. used s' k} = {n, c}" using n(1) c(1) u' by auto
  have fr: "frames (disk s) fs (blocks_of s n) (disk s') fs'" using C by blast
  have "frames (disk s) fs (blocks_of s n \<union> blocks_of s c) (disk s') fs'" by (rule frames_weaken [OF fr]) blast
  then have cf: "confined s fs {n, c} s' fs'" using C unfolding confined_def outside_def N by simp
  have disj: "blocks_of s c \<inter> blocks_of s n = {}" "blocks_of s c \<inter> set fs = {}"
    using consistentD(9) [OF con c(1) n(1) c(2)] direct_not_free(1) [OF consistentD(6) [OF con c(1)]] by auto
  have vc: "inode_view s' c = (inode_view s c)\<lparr> di_linksCount := di_linksCount (inode_view s c) + 1 \<rparr>" using C by blast
  note K = links_only [OF con c(1) vc fr disj(1)]
  have es: "entries_of s' n = entries_of s n @ [(Some g, c)]" using C by blast
  have gd: "good_dir (dir_view s n) (disk s)" "distinct (map fst (entries_of s n))" using consistentD(7,8) [OF con n] by auto
  then have fresh: "Some g \<notin> fst ` set (entries_of s n)"
    using lookup_entry_None [of "entries_of s n" g] t(2) te by (simp add: good_dir_def)
  have lk: "lookup_entry (entries_of s' n) = t(g \<mapsto> c)"
    unfolding es te using t(2) te by (auto simp: fun_eq_iff lookup_entry_append) (auto simp: lookup_entry_def split: option.splits)
  have no: "node_of s' n = (node_of s n)\<lparr> a_content := Folder (t(g \<mapsto> c)) \<rparr>" using vn C lk n(2) by (simp add: node_of_def)
  have an: "abs_fs s n = Some (node_of s n)" "a_content (node_of s n) = Folder t" "abs_fs s c = Some (node_of s c)"
    using n te c(1) by (simp_all add: abs_fs_def node_of_def)
  have lc: "a_links (node_of s c) = di_linksCount (inode_view s c)" using c(3) by (simp add: node_of_def)
  have "abs_fs s' = (\<lambda>k. if k \<in> {n, c} then abs_fs s' k else abs_fs s k)"
    by (rule abs_outside [OF con confined_outside [OF cf]]) (use used_less [OF n(1)] used_less [OF c(1)] in simp)
  then have "abs_fs s' k = abs_fs s k" if "k \<noteq> n" "k \<noteq> c" for k using that by (metis insertE singletonD)
  moreover have "abs_fs s' n = Some ((node_of s n)\<lparr> a_content := Folder (t(g \<mapsto> c)) \<rparr>)" using u'(1) no by (simp add: abs_fs_def)
  moreover have "abs_fs s' c = Some ((node_of s c)\<lparr> a_links := a_links (node_of s c) + 1 \<rparr>)" using u'(2) K(1) lc by (simp add: abs_fs_def)
  ultimately show a: "abs_fs s' = a_link n g c (abs_fs s)" unfolding a_link_eq [OF an] by (intro ext) (use c(2) in auto)
  show "abs_files s' = abs_files s" by (rule confined_tabled(2) [OF con cf]) (use u' in auto)
  have ib: "inode_blocks ((inode_view s c)\<lparr> di_linksCount := di_linksCount (inode_view s c) + 1 \<rparr>) = blocks_of s c"
    using inode_blocks_view [of s c] by simp
  have bl: "set fs' \<union> blocks_in s' {n, c} = set fs \<union> blocks_in s {n, c}"
    unfolding N using C K(3) unfolding ib by (simp add: Un_assoc) blast
  show "stock s' fs' = stock s fs" by (rule outside_stock [OF con confined_outside [OF cf] bl])
  have cl: "closed (abs_fs s')" unfolding a by (rule closed_link [OF consistentD(10) [OF con] an c(2)])
  have sn: "sound s' fs' n" using C es gd(2) fresh by (auto simp: sound_def)
  have "blocks_of s' n \<subseteq> blocks_of s n \<union> set fs" using C by blast
  then have dn: "blocks_of s' n \<inter> blocks_of s' c = {}" using disj K(3) by auto
  have nums: "k < NUM_OF_INODES \<and> di_linksCount (inode_view s' k) = 0" if "k \<in> set nums" for k
  proof -
    have "k \<noteq> 0" using consistentD(3) [OF con] that by (auto simp: inode_stack_def)
    moreover have k: "k < NUM_OF_INODES" "di_linksCount (inode_view s k) = 0" using consistentD(5) [OF con that] by auto
    ultimately have "k \<noteq> n" "k \<noteq> c" using n(1) c(1) by (auto simp: used_def)
    then show ?thesis using C k by simp
  qed
  show "consistent s' fs' nums"
    by (rule confined_consistent [OF con cf _ bl _ _ st consistentD(4) [OF con] nums cl]) (use sn K(2) dn u' in \<open>auto simp: Int_commute\<close>)
qed

lemma may_can_link:
  assumes con: "consistent s fs nums" and add: "may_add (abs_fs s) dir g n" and r: "fs \<noteq> []"
    and c: "used s c" "c \<noteq> n" "c \<noteq> 0" "refs s c = 0" "di_linksCount (inode_view s c) \<noteq> - 1"
  shows "can_link s n g c fs"
proof -
  obtain t where path: "valid_path (abs_fs s) dir n" and f: "length g < FILENAME_SIZE" "0 \<notin> set g"
    and t: "folder_at (abs_fs s) n = Some t" "t g = None" "card (dom t) < 160"
    using add by (auto simp: may_add_def)
  note P = valid_pathD [OF con path]
  have n: "used s n" "di_type (inode_view s n) = T_DIRECTORY" and te: "t = lookup_entry (entries_of s n)"
    using t(1) by (auto simp: folder_at_abs split: if_splits)
  have "append_fits (dir_view s n) fs 64"
    using folder_size [OF con t(1)] t(3) r blocks_for_next [of "unat (isize (dir_view s n))"]
    by (cases fs) (auto simp: append_fits_def)
  moreover have "di_linksCount (inode_view s c) \<noteq> 0" using c(1,3) by (auto simp: used_def)
  ultimately show ?thesis
    using f P(3) consistentD(1,6,7) [OF con] n t(2) te c used_less [OF n(1)] used_less [OF c(1)] by (simp add: can_link_def)
qed

text \<open>What \<open>renameFile\<close> does before it removes the old name.\<close>

lemma rename_link_abs:
  assumes con: "consistent s fs nums" and source: "valid_path (abs_fs s) path c" and add: "may_add (abs_fs s) dir g n" and r: "fs \<noteq> []"
    and c: "c \<noteq> n" "c \<noteq> 0" "opens (abs_files s) c = {}" and x: "abs_fs s c = Some x" "a_links x \<noteq> - 1" and two: "2 \<le> card (free_nodes s)"
  shows "\<exists>s' fs'. renameFile m (SLASH # path) (SLASH # dir @ g) s =
      do { (r, s) \<leftarrow> unlinkFile m (SLASH # path) s'; if r \<noteq> 0 then Some (- 1, s) else Some (0, s) } \<and>
    consistent s' fs' nums \<and> abs_fs s' = a_link n g c (abs_fs s) \<and> abs_files s' = abs_files s \<and> stock s' fs' = stock s fs \<and>
    2 \<le> card (free_nodes s')"
proof -
  have u: "used s c" and rc: "refs s c = 0" using valid_pathD(4) [OF con source] c(3) consistentD(11) [OF con] by (auto simp: tabled_def)
  have l: "di_linksCount (inode_view s c) \<noteq> - 1" using x c(2) by (auto simp: abs_fs_def node_of_def split: if_splits)
  then have l0: "di_linksCount (inode_view s c) + 1 \<noteq> 0" by (metis add_eq_0_iff2 add.commute)
  have p: "valid_path (abs_fs s) dir n" "in_dir dir g" using add by (auto simp: may_add_def)
  obtain s' fs' where s': "renameFile m (SLASH # path) (SLASH # dir @ g) s =
      do { (r, s) \<leftarrow> unlinkFile m (SLASH # path) s'; if r \<noteq> 0 then Some (- 1, s) else Some (0, s) }"
    and cr: "created s fs n g c ((inode_view s c)\<lparr> di_linksCount := di_linksCount (inode_view s c) + 1 \<rparr>) s' fs'"
    and st: "inode_stack (disk s') nums"
    using renameFile_link [OF con source p may_can_link [OF con add r u c(1,2) rc l] two] by blast
  note L = linked_abs [OF con add u c(1,2) rc l0 st cr]
  have "refs s' k = refs s k" for k using cr by (simp add: created_def)
  then have "2 \<le> card (free_nodes s')"
    using same_room [OF idleD(1) [OF consistentD(1) [OF con]] idleD(1) [OF consistentD(1) [OF L(1)]]] two by simp
  then show ?thesis using s' L by blast
qed

lemma rename_missing:
  assumes "good_path s path" and "lookup_path s (names path) 0 = None"
  shows "\<exists>s'. renameFile m (SLASH # path) to s = Some (- ENOENT, s') \<and> idle s s'"
proof -
  obtain s' where "getFileINode m (SLASH # path) s = Some (None, s')" "idle s s'" using assms by (rule path_missing)
  then show ?thesis by (simp add: renameFile_def)
qed

end
