(* ===== verification/ReadDir.thy ===== *)
theory ReadDir
  imports OpenFiles
begin

text \<open>
  Listing a directory (\<open>readDirectory\<close> of \<open>src/interface/read.c\<close>): block by block the entries are collected in a
  buffer and their names handed on, in the order of the directory.
\<close>

section \<open>Collecting the entries of a block\<close>

lemma search_block_collect:
  assumes "ptr + 64 * n \<le> length b" and "c + n \<le> length buf"
  shows "search_block n c ptr b None buf le =
    Some (c + n, 0, take c buf @ map (\<lambda>j. load_entry (ptr + 64 * j) b (buf ! (c + j))) [0..<n] @ drop (c + n) buf, b)"
  using assms
proof (induction n arbitrary: c ptr buf)
  case (Suc n)
  have up: "[0..<Suc n] = 0 # map Suc [0..<n]" by (simp add: map_Suc_upt upt_conv_Cons del: upt_Suc)
  let ?e = "load_entry ptr b (buf ! c)"
  let ?buf = "buf[c := ?e]"
  have "search_block n (c + 1) (ptr + 64) b None ?buf le =
      Some (c + 1 + n, 0, take (c + 1) ?buf @ map (\<lambda>j. load_entry (ptr + 64 + 64 * j) b (?buf ! (c + 1 + j))) [0..<n] @
        drop (c + 1 + n) ?buf, b)"
    by (rule Suc.IH) (use Suc.prems in simp_all)
  moreover have "take (c + 1) ?buf = take c buf @ [?e]" using Suc.prems by (simp add: take_Suc_conv_app_nth)
  ultimately show ?case using Suc.prems unfolding up by (simp add: arr_get_def arr_set_def comp_def add.assoc)
qed simp

lemma checkInBlock_collect:
  assumes "read_block (blockNumber r) d = Some b" and "length b = BLOCK_SIZE"
    and "byteOffsetInBlock r = 0" and "bytesLeftInBlock r = 1024"
    and "unat till = 64 * left" and "min 16 left \<le> length buf"
  shows "checkInBlock till r None buf None d =
    Some (min 16 left, map (\<lambda>j. load_entry (64 * j) b (buf ! j)) [0..<min 16 left] @ drop (min 16 left) buf, d)"
proof -
  have n: "unat (if till < 1024 then till div 64 else (1024 :: size_t) div 64) = min 16 left"
    using assms(5) by (auto simp: unat_div word_less_nat_alt)
  show ?thesis
    using assms n search_block_collect [of 0 "min 16 left" b 0 buf None]
    by (cases "till < 1024") (simp_all add: checkInBlock_def searchBlockDirectoryEntries_def)
qed

text \<open>One round of the loop: the entries of block \<open>k\<close> of the directory.\<close>

lemma search_entries_collect:
  assumes dir: "dir_ok i d n" and k: "16 * k < n" and buf: "length buf = 16"
  defines "c \<equiv> min 16 (n - 16 * k)"
  shows "\<exists>es. search_entries i None 16 None (of_nat (1024 * k)) 0 buf None d = Some (c, es, d) \<and>
    map (\<lambda>e. field_string (name e)) (take c es) = map (dir_name i d) [16 * k..<16 * k + c]"
proof -
  let ?off = "of_nat (1024 * k) :: size_t" and ?l = "n - 16 * k"
  have size: "unat (isize i) = 64 * n" "64 * n + 1024 < 2 ^ 64" using dir by (auto simp: dir_ok_def)
  have off: "unat (of_nat (1024 * j) :: size_t) = 1024 * j" if "j \<le> Suc k" for j
    using size k that by (intro unat_of_nat_small) linarith
  obtain b blk where b: "dir_block i d k = Some b" "length b = BLOCK_SIZE" and blk: "file_block i d k = Some blk" "read_block blk d = Some b"
    and bm: "bmap i ?off None READ_MODE d = Some (0, Some (createBMapResponse blk 0), i, d)"
    and till: "unat (isize i - ?off) = 64 * ?l" and en: "\<And>j. j < c \<Longrightarrow> entry_name b (64 * j) = dir_name i d (16 * k + j)"
    using dir_block_step [OF dir k] unfolding c_def by metis
  let ?r = "createBMapResponse blk 0"
  let ?es = "map (\<lambda>j. load_entry (64 * j) b (buf ! j)) [0..<c] @ drop c buf"
  have ch: "checkInBlock (isize i - ?off) ?r None buf None d = Some (c, ?es, d)"
    unfolding c_def by (rule checkInBlock_collect) (use blk b till buf in \<open>auto simp: createBMapResponse_def\<close>)
  have rest: "search_entries i None 16 (Some ?r) (?off + 1024) c ?es None d = Some (c, ?es, d)"
  proof (cases "c = 16")
    case False
    have s: "?off + 1024 = of_nat (1024 * Suc k)" by simp
    have "isize i \<le> ?off + 1024" unfolding s word_le_nat_alt off [OF order_refl] using size False by (simp add: c_def)
    then have "bmap i (?off + 1024) (Some ?r) READ_MODE d = Some (- 1, Some ?r, i, d)" by (intro bmap_beyond) simp
    then show ?thesis by (subst search_entries.simps) (simp del: of_nat_mult)
  qed (subst search_entries.simps, simp)
  have run: "search_entries i None 16 None ?off 0 buf None d = Some (c, ?es, d)"
    using bm ch rest by (subst search_entries.simps) simp
  have nm: "field_string (name (load_entry (64 * j) b e)) = dir_name i d (16 * k + j)" if "j < c" for j e
    using en [OF that] by (simp add: load_entry_def entry_name_def)
  have "map (\<lambda>e. field_string (name e)) (take c ?es) = map (dir_name i d) [16 * k..<16 * k + c]"
    unfolding upt_shift using nm by simp
  then show ?thesis using run by blast
qed

section \<open>Listing a directory\<close>

lemma those_map_Some: "those (map f xs) = Some (map (\<lambda>x. the (f x)) xs)" if "\<forall>x \<in> set xs. f x \<noteq> None"
  using that by (induction xs) auto

lemma fill_loop_names:
  assumes dir: "dir_ok i d n" and k: "16 * k < n + 16"
  shows "fill_loop m i (of_nat n) (of_nat (min n (16 * k))) ns d = Some (ns @ map (\<lambda>g. the (dir_name i d g)) [min n (16 * k)..<n], d)"
  using k
proof (induction "n - 16 * k" arbitrary: k ns rule: less_induct)
  case less
  have "n < 2 ^ 64" using dir by (auto simp: dir_ok_def)
  then have u: "unat (of_nat j :: size_t) = j" if "j \<le> n" for j using that by (intro unat_of_nat_small) linarith
  show ?case
  proof (cases "16 * k < n")
    case False
    then show ?thesis by (subst fill_loop.simps) simp
  next
    case True
    let ?c = "min 16 (n - 16 * k)"
    have lt: "(of_nat (16 * k) :: size_t) < of_nat n" using u [of "16 * k"] u [of n] True by (simp add: word_less_nat_alt)
    obtain es where es: "search_entries i None 16 None (of_nat (1024 * k)) 0 (replicate 16 zero_entry) None d = Some (?c, es, d)"
      "map (\<lambda>e. field_string (name e)) (take ?c es) = map (dir_name i d) [16 * k..<16 * k + ?c]"
      using search_entries_collect [OF dir True, of "replicate 16 zero_entry"] by auto
    have "validateSearch i \<noteq> - 1" using dir by (simp add: dir_ok_def)
    then have run: "searchINodeDirectoryEntries m i None (of_nat (16 * k)) (replicate 16 zero_entry) 16 False d = Some (int ?c, es, d)"
      using es(1) by (simp add: searchINodeDirectoryEntries_def mult.commute)
    have "\<forall>g \<in> set [16 * k..<16 * k + ?c]. dir_name i d g \<noteq> None" using dir by (force simp: dir_ok_def)
    then have th: "those (map (\<lambda>e. field_string (name e)) (take ?c es)) = Some (map (\<lambda>g. the (dir_name i d g)) [16 * k..<16 * k + ?c])"
      unfolding es(2) by (rule those_map_Some)
    have next_off: "(of_nat (16 * k) + of_int (int ?c) :: size_t) = of_nat (min n (16 * Suc k))"
    proof -
      have e: "min n (16 * Suc k) = 16 * k + ?c" using True by auto
      show ?thesis unfolding e by simp
    qed
    have up: "[16 * k..<n] = [16 * k..<16 * k + ?c] @ [min n (16 * Suc k)..<n]"
    proof -
      have "min n (16 * Suc k) = 16 * k + ?c" "16 * k + ?c \<le> n" using True by auto
      then show ?thesis using upt_add_eq_append [of "16 * k" "16 * k + ?c" "n - (16 * k + ?c)"] by simp
    qed
    have "fill_loop m i (of_nat n) (of_nat (min n (16 * Suc k))) (ns @ map (\<lambda>g. the (dir_name i d g)) [16 * k..<16 * k + ?c]) d =
      Some ((ns @ map (\<lambda>g. the (dir_name i d g)) [16 * k..<16 * k + ?c]) @ map (\<lambda>g. the (dir_name i d g)) [min n (16 * Suc k)..<n], d)"
      by (rule less.hyps) (use True in auto)
    then show ?thesis
      using run th lt True unfolding next_off [symmetric] by (subst fill_loop.simps) (simp add: up)
  qed
qed

lemma fillDirectoryEntries_names:
  assumes "good_dir i d"
  shows "fillDirectoryEntries m i d = Some (map (\<lambda>e. the (fst e)) (dir_entries i d), d)"
proof -
  let ?n = "unat (isize i) div 64"
  have "unat (isize i div 64) = ?n" by (simp add: unat_div)
  then have "isize i div 64 = of_nat ?n" by (metis of_nat_unat ucast_id)
  moreover have "file_ok i d" using assms by (simp add: good_dir_def)
  ultimately show ?thesis
    using fill_loop_names [OF good_dir_ok [OF assms], of 0 m "[]"] by (simp add: fillDirectoryEntries_def dir_entries_eq comp_def)
qed

section \<open>readDirectory\<close>

text \<open>What a listing may be: every name of the directory once.\<close>

definition lists_names :: "(cstring \<rightharpoonup> size_t) \<Rightarrow> cstring list \<Rightarrow> bool" where
  "lists_names t ns \<longleftrightarrow> set ns = dom t \<and> distinct ns"

lemma entries_list_names:
  assumes "distinct (map fst es)" and "\<forall>e \<in> set es. fst e \<noteq> None"
  shows "lists_names (lookup_entry es) (map (\<lambda>e. the (fst e)) es)"
proof -
  have "inj_on the (fst ` set es)" 
  proof (rule inj_onI)
    fix x y assume "x \<in> fst ` set es" "y \<in> fst ` set es" "the x = the y"
    moreover from this have "x \<noteq> None" "y \<noteq> None" using assms(2) by auto
    ultimately show "x = y" by auto
  qed
  then have "distinct (map the (map fst es))" using assms(1) by (simp add: distinct_map comp_inj_on)
  moreover have "the ` fst ` set es = dom (lookup_entry es)"
  proof -
    have d: "f \<in> dom (lookup_entry es) \<longleftrightarrow> Some f \<in> fst ` set es" for f
      by (force simp: lookup_entry_def domIff find_None_iff image_iff)
    have e: "f \<in> the ` fst ` set es \<longleftrightarrow> Some f \<in> fst ` set es" for f
    proof
      assume "f \<in> the ` fst ` set es"
      then obtain x where x: "x \<in> set es" "f = the (fst x)" by auto
      then have "fst x = Some f" using assms(2) by simp
      then show "Some f \<in> fst ` set es" using x(1) by (metis imageI)
    qed (force intro: image_eqI)
    show ?thesis by (rule set_eqI) (simp only: d e)
  qed
  ultimately show ?thesis by (simp add: lists_names_def comp_def image_image)
qed

lemma readDirectory_abs:
  assumes con: "consistent s fs nums" and path: "valid_path (abs_fs s) path n" and t: "folder_at (abs_fs s) n = Some t"
  shows "\<exists>ns s'. readDirectory m (SLASH # path) s = Some (0, ns, s') \<and> idle s s' \<and> lists_names t ns"
proof -
  note P = valid_pathD [OF con path]
  have n: "used s n" "di_type (inode_view s n) = T_DIRECTORY" "t = lookup_entry (entries_of s n)"
    using t by (auto simp: folder_at_abs split: if_splits)
  obtain p s1 where g: "getFileINode m (SLASH # path) s = Some (Some p, s1)" and held: "held s s1 p n"
    using P(1,2) by (rule path_found)
  have data: "inode_view s n = getDiskINodeData (core s1 p)" "wf_inCore (core s1 p)" 
    using held_data [OF held] held_unlocked [OF held] by auto
  note V = view_contents [OF data] and H = heldD [OF held]
  have gd: "good_dir (core s1 p) (disk s1)" using consistentD(7) [OF con n(1,2)] V(6) H(3) by simp
  have es: "dir_entries (core s1 p) (disk s1) = entries_of s n" using V(4) H(3) by simp
  let ?ns = "map (\<lambda>e. the (fst e)) (entries_of s n)"
  have "lists_names t ?ns" unfolding n(3)
    by (rule entries_list_names [OF consistentD(8) [OF con n(1,2)]]) (use gd es in \<open>auto simp: good_dir_def\<close>)
  moreover have "di_linksCount (inode_view s n) \<noteq> 0 \<or> n = 0" using n(1) by (auto simp: used_def)
  then obtain s' where s': "iput p s1 = Some (0, s')" "idle s s'" using iput_idle [OF held] by blast
  moreover have "readDirectory m (SLASH # path) s = Some (0, ?ns, s')"
    using g s'(1) fillDirectoryEntries_names [OF gd, of m] es by (simp add: readDirectory_def)
  ultimately show ?thesis by blast
qed

lemma readDirectory_missing:
  assumes "good_path s path" and "lookup_path s (names path) 0 = None"
  shows "\<exists>s'. readDirectory m (SLASH # path) s = Some (- 1, [], s') \<and> idle s s'"
proof -
  obtain s' where "getFileINode m (SLASH # path) s = Some (None, s')" "idle s s'" using assms by (rule path_missing)
  then show ?thesis by (simp add: readDirectory_def)
qed

end
