(* ===== verification/Calls.thy ===== *)
theory Calls
  imports Rename ReadDir
begin

text \<open>
  The file system as its users see it: the calls that FUSE passes to the callbacks of \<open>src/main.c\<close>, the abstract
  machine that says what each call may answer and do to the abstract file system and the open files, and what holds
  of all states of that machine.
\<close>

section \<open>Calls\<close>

datatype call =
    Getattr cstring
  | Create cstring cstring mode_t fuse_file_info fuse_context
  | Mkdir cstring cstring mode_t fuse_context
  | Trunc cstring size_t
  | Chmod cstring mode_t
  | Chown cstring uid_t gid_t
  | Open cstring fuse_file_info fuse_context
  | Release fuse_file_info fuse_context
  | Write "byte list" size_t fuse_file_info fuse_context
  | Read size_t fuse_file_info fuse_context
  | Unlink cstring cstring
  | Rmdir cstring cstring
  | Readdir cstring
  | Rename cstring cstring cstring cstring

text \<open>Answers: a return value, with the descriptor, the bytes, the attributes or the names where the call delivers them.\<close>

datatype reply =
    Code int
  | Handle int size_t
  | Data int "byte list"
  | Attr int stat
  | Listing int "cstring list"

definition exec :: "mem_env \<Rightarrow> call \<Rightarrow> fs \<Rightarrow> (reply \<times> fs) option" where
  "exec m c s =
     (case c of
        Getattr path \<Rightarrow> do { (r, st, s) \<leftarrow> getattr_callback m (SLASH # path) s; Some (Attr r st, s) }
      | Create dir f mode fi ctx \<Rightarrow>
          do { (r, fi, s) \<leftarrow> create_callback m (SLASH # dir @ f) mode fi ctx s; Some (Handle r (fi_fh fi), s) }
      | Mkdir dir f mode ctx \<Rightarrow> do { (r, s) \<leftarrow> mkdir_callback m (SLASH # dir @ f) mode ctx s; Some (Code r, s) }
      | Trunc path sz \<Rightarrow> do { (r, s) \<leftarrow> truncate_callback m (SLASH # path) sz s; Some (Code r, s) }
      | Chmod path mode \<Rightarrow> do { (r, s) \<leftarrow> chmod_callback m (SLASH # path) mode s; Some (Code r, s) }
      | Chown path uid gid \<Rightarrow> do { (r, s) \<leftarrow> chown_callback m (SLASH # path) uid gid s; Some (Code r, s) }
      | Open path fi ctx \<Rightarrow> do { (r, fi, s) \<leftarrow> open_callback m (SLASH # path) fi ctx s; Some (Handle r (fi_fh fi), s) }
      | Release fi ctx \<Rightarrow> do { (r, s) \<leftarrow> release_callback fi ctx s; Some (Code r, s) }
      | Write buf off fi ctx \<Rightarrow> do { (r, s) \<leftarrow> write_callback [] buf off fi ctx s; Some (Code r, s) }
      | Read sz fi ctx \<Rightarrow> do { (r, bs, s) \<leftarrow> read_callback sz 0 fi ctx s; Some (Data r bs, s) }
      | Unlink dir f \<Rightarrow> do { (r, s) \<leftarrow> unlink_callback m (SLASH # dir @ f) s; Some (Code r, s) }
      | Rmdir dir f \<Rightarrow> do { (r, s) \<leftarrow> unlink_dir_callback m (SLASH # dir @ f) s; Some (Code r, s) }
      | Readdir path \<Rightarrow> do { (r, ns, s) \<leftarrow> readdir_callback m (SLASH # path) s; Some (Listing r ns, s) }
      | Rename dir f dir' g \<Rightarrow> do { (r, s) \<leftarrow> rename_callback m (SLASH # dir @ f) (SLASH # dir' @ g) s; Some (Code r, s) })"

section \<open>The abstract machine\<close>

definition new_file :: "mode_t \<Rightarrow> fuse_context \<Rightarrow> anode" where
  "new_file mode ctx = \<lparr> a_mode = mode, a_uid = ctx_uid ctx, a_gid = ctx_gid ctx, a_links = 1, a_content = Bytes [] \<rparr>"

definition new_folder :: "mode_t \<Rightarrow> fuse_context \<Rightarrow> size_t \<Rightarrow> size_t \<Rightarrow> anode" where
  "new_folder mode ctx n par = \<lparr> a_mode = S_IFDIR OR mode, a_uid = ctx_uid ctx, a_gid = ctx_gid ctx, a_links = 2,
     a_content = Folder [dot \<mapsto> n, dotdot \<mapsto> par] \<rparr>"

definition opened :: "size_t \<Rightarrow> fuse_file_info \<Rightarrow> nat \<Rightarrow> afile" where
  "opened n fi len = \<lparr> o_inode = n, o_flags = fi_flags fi, o_offset = (if fi_flags fi = 0 then 0 else of_nat len) \<rparr>"

definition moved :: "afile \<Rightarrow> nat \<Rightarrow> afile" where
  "moved x c = x\<lparr> o_offset := o_offset x + of_nat c \<rparr>"

text \<open>The attributes a node shows; times are not part of the abstract file system.\<close>

definition shows_attrs :: "anode \<Rightarrow> stat \<Rightarrow> bool" where
  "shows_attrs x st \<longleftrightarrow> st_mode st = a_mode x \<and> st_uid st = a_uid x \<and> st_gid st = a_gid x \<and>
     unat (st_size st) = a_size (a_content x)"

definition missing_at :: "afs \<Rightarrow> cstring \<Rightarrow> bool" where
  "missing_at a path \<longleftrightarrow> folders_on a (names path) 0 \<and> path_to a (names path) 0 = None \<and> 0 \<notin> set path"

definition no_name :: "afs \<Rightarrow> cstring \<Rightarrow> cstring \<Rightarrow> bool" where
  "no_name a dir f \<longleftrightarrow> in_dir dir f \<and> 0 \<notin> set f \<and>
     (\<exists>n u. valid_path a dir n \<and> folder_at a n = Some u \<and> u f = None \<and> dom u \<noteq> {})"

text \<open>Name \<open>f\<close> of directory \<open>k\<close> is to become name \<open>g\<close> of directory \<open>n\<close>, where it is new and there is room.\<close>

definition may_rename :: "afs \<Rightarrow> afiles \<Rightarrow> cstring \<Rightarrow> cstring \<Rightarrow> size_t \<Rightarrow> cstring \<Rightarrow> cstring \<Rightarrow> size_t \<Rightarrow> size_t \<Rightarrow> bool" where
  "may_rename a t dir f k dir' g n c \<longleftrightarrow> may_remove a t dir f k c \<and> f \<noteq> [] \<and> may_add a dir' g n \<and> c \<noteq> n \<and>
     (\<exists>u x. folder_at a n = Some u \<and> card (dom u) < 159 \<and> a c = Some x \<and> a_links x \<noteq> 0 \<and> a_links x \<noteq> - 1)"

definition a_rename :: "size_t \<Rightarrow> cstring \<Rightarrow> size_t \<Rightarrow> cstring \<Rightarrow> size_t \<Rightarrow> afs \<Rightarrow> afs" where
  "a_rename k f n g c a = a_unlink k f c (a_link n g c a)"

inductive astep :: "call \<Rightarrow> afs \<Rightarrow> afiles \<Rightarrow> reply \<Rightarrow> afs \<Rightarrow> afiles \<Rightarrow> bool" where
  getattr: "valid_path a path n \<Longrightarrow> a n = Some x \<Longrightarrow> shows_attrs x st \<Longrightarrow> astep (Getattr path) a t (Attr 0 st) a t"
| getattr_none: "missing_at a path \<Longrightarrow> astep (Getattr path) a t (Attr (- ENOENT) zero_stat) a t"
| create: "may_add a dir f n \<Longrightarrow> a i = None \<Longrightarrow> next_fd t k \<Longrightarrow>
    astep (Create dir f mode fi ctx) a t (Handle 0 (of_nat k)) (a_create n f i (new_file mode ctx) a) (t(k \<mapsto> opened i fi 0))"
| mkdir: "may_add a dir f n \<Longrightarrow> a i = None \<Longrightarrow>
    astep (Mkdir dir f mode ctx) a t (Code 0) (a_create n f i (new_folder mode ctx i n) a) t"
| trunc: "valid_path a path n \<Longrightarrow> a n = Some x \<Longrightarrow> a_content x = Bytes bs \<Longrightarrow>
    astep (Trunc path sz) a t (Code 0) (a_update n (a_resize (unat sz)) a) t"
| trunc_none: "missing_at a path \<Longrightarrow> astep (Trunc path sz) a t (Code (- ENOENT)) a t"
| chmod: "valid_path a path n \<Longrightarrow> astep (Chmod path mode) a t (Code 0) (a_update n (a_chmod mode) a) t"
| chown: "valid_path a path n \<Longrightarrow> astep (Chown path uid gid) a t (Code 0) (a_update n (a_chown uid gid) a) t"
| open_file: "valid_path a path n \<Longrightarrow> a n = Some x \<Longrightarrow> next_fd t k \<Longrightarrow>
    astep (Open path fi ctx) a t (Handle 0 (of_nat k)) a (t(k \<mapsto> opened n fi (a_size (a_content x))))"
| open_none: "missing_at a path \<Longrightarrow> astep (Open path fi ctx) a t (Handle (- ENOENT) (fi_fh fi)) a t"
| release: "fi_fh fi = of_nat k \<Longrightarrow> k < MAX_FILE_DESCRIPTORS \<Longrightarrow> t k = Some x \<Longrightarrow> astep (Release fi ctx) a t (Code 0) a (t(k := None))"
| release_closed: "fi_fh fi = of_nat k \<Longrightarrow> k < MAX_FILE_DESCRIPTORS \<Longrightarrow> t k = None \<Longrightarrow> astep (Release fi ctx) a t (Code 0) a t"
| write_file: "fi_fh fi = of_nat k \<Longrightarrow> k < MAX_FILE_DESCRIPTORS \<Longrightarrow> t k = Some x \<Longrightarrow> a (o_inode x) = Some y \<Longrightarrow>
    a_content y = Bytes bs \<Longrightarrow> unat off = length bs \<Longrightarrow>
    astep (Write buf off fi ctx) a t (Code (int (length buf))) (a_update (o_inode x) (a_append buf) a) (t(k \<mapsto> moved x (length buf)))"
| write_closed: "fi_fh fi = of_nat k \<Longrightarrow> k < MAX_FILE_DESCRIPTORS \<Longrightarrow> t k = None \<Longrightarrow> astep (Write buf off fi ctx) a t (Code (- 1)) a t"
| read_file: "fi_fh fi = of_nat k \<Longrightarrow> k < MAX_FILE_DESCRIPTORS \<Longrightarrow> t k = Some x \<Longrightarrow> a (o_inode x) = Some y \<Longrightarrow>
    a_content y = Bytes bs \<Longrightarrow> bs' = take (unat sz) bs \<Longrightarrow>
    astep (Read sz fi ctx) a t (Data (int (length bs')) bs') a (t(k \<mapsto> moved x (length bs')))"
| read_closed: "fi_fh fi = of_nat k \<Longrightarrow> k < MAX_FILE_DESCRIPTORS \<Longrightarrow> t k = None \<Longrightarrow> astep (Read sz fi ctx) a t (Data (- EBADF) []) a t"
| unlink: "may_remove a t dir f n c \<Longrightarrow> a c = Some x \<Longrightarrow> a_content x = Bytes bs \<Longrightarrow>
    astep (Unlink dir f) a t (Code 0) (a_unlink n f c a) t"
| unlink_none: "no_name a dir f \<Longrightarrow> astep (Unlink dir f) a t (Code (- 1)) a t"
| unlink_no_dir: "missing_at a dir \<Longrightarrow> in_dir dir f \<Longrightarrow> astep (Unlink dir f) a t (Code (- ENOENT)) a t"
| rmdir: "may_remove a t dir f n c \<Longrightarrow> a c = Some x \<Longrightarrow> dir_check c x = 0 \<Longrightarrow> a_links x \<noteq> 1 \<Longrightarrow>
    astep (Rmdir dir f) a t (Code 0) (a_unlink n f c a) t"
| rmdir_refused: "valid_path a (dir @ f) c \<Longrightarrow> a c = Some x \<Longrightarrow> dir_check c x < 0 \<Longrightarrow>
    astep (Rmdir dir f) a t (Code (dir_check c x)) a t"
| readdir: "valid_path a path n \<Longrightarrow> folder_at a n = Some u \<Longrightarrow> lists_names u ns \<Longrightarrow> astep (Readdir path) a t (Listing 0 ns) a t"
| readdir_none: "missing_at a path \<Longrightarrow> astep (Readdir path) a t (Listing (- 1) []) a t"
| rename: "may_rename a t dir f k dir' g n c \<Longrightarrow> astep (Rename dir f dir' g) a t (Code 0) (a_rename k f n g c a) t"
| rename_none: "missing_at a (dir @ f) \<Longrightarrow> astep (Rename dir f dir' g) a t (Code (- ENOENT)) a t"

inductive_cases astepE: "astep c a t r a' t'"

text \<open>
  The calls the program handles: paths lead through directories (the code resolves a path through a file to the
  root); a name to be created is new (the code keeps a reference otherwise); directories are not truncated (they stay
  locked); the root is not opened (its changes could be lost, having no links); data stays in the ten direct blocks,
  and a file that fills them does not shrink; writes go to the end of the file and reads start at 0.  At most 512
  inodes exist besides the root, the last of which is never handed out.  The cache holds 32 inodes, of which
  a path and a creation need two.  A file that is removed is not open (the code would forget its blocks), and the
  upper bytes of the entry that \<open>unlinkFileFromINode\<close> allocates and never clears must be zero.
\<close>

definition few_open :: "afiles \<Rightarrow> bool" where
  "few_open t \<longleftrightarrow> card (o_inode ` ran t) \<le> 30"

definition clean_entry :: "mem_env \<Rightarrow> bool" where
  "clean_entry m \<longleftrightarrow> unat (iNodeNum (fresh_entry m)) < 65536"

definition admissible :: "mem_env \<Rightarrow> call \<Rightarrow> afs \<Rightarrow> afiles \<Rightarrow> bool" where
  "admissible m c a t \<longleftrightarrow>
     (case c of
        Getattr path \<Rightarrow> missing_at a path \<or> (\<exists>n. valid_path a path n)
      | Create dir f mode fi ctx \<Rightarrow>
          (\<exists>n. may_add a dir f n) \<and> card (dom a) < 512 \<and> few_open t \<and> (\<exists>k. next_fd t k)
      | Mkdir dir f mode ctx \<Rightarrow>
          (\<exists>n. may_add a dir f n) \<and> card (dom a) < 512 \<and> few_open t \<and> (S_IFDIR OR mode) AND 0xF000 = S_IFDIR
      | Trunc path sz \<Rightarrow> missing_at a path \<or>
          (\<exists>n x bs. valid_path a path n \<and> a n = Some x \<and> a_content x = Bytes bs \<and>
             unat sz \<le> 10240 \<and> (unat sz < length bs \<longrightarrow> length bs < 10240))
      | Chmod path mode \<Rightarrow> (\<exists>n. valid_path a path n) \<and> (S_IFDIR OR mode) AND 0xF000 = S_IFDIR
      | Chown path uid gid \<Rightarrow> (\<exists>n. valid_path a path n) \<and> (uid \<noteq> - 1 \<or> gid \<noteq> - 1)
      | Open path fi ctx \<Rightarrow> missing_at a path \<or>
          (\<exists>n. valid_path a path n \<and> n \<noteq> 0) \<and> few_open t \<and> (\<exists>k. next_fd t k)
      | Release fi ctx \<Rightarrow> unat (fi_fh fi) < MAX_FILE_DESCRIPTORS
      | Write buf off fi ctx \<Rightarrow> unat (fi_fh fi) < MAX_FILE_DESCRIPTORS \<and>
          (\<forall>x. t (unat (fi_fh fi)) = Some x \<longrightarrow> (\<exists>y bs. a (o_inode x) = Some y \<and> a_content y = Bytes bs \<and>
             unat off = length bs \<and> length bs + length buf \<le> 10240))
      | Read sz fi ctx \<Rightarrow> unat (fi_fh fi) < MAX_FILE_DESCRIPTORS \<and> unat sz < 2 ^ 31 \<and>
          (\<forall>x. t (unat (fi_fh fi)) = Some x \<longrightarrow> (\<exists>y bs. a (o_inode x) = Some y \<and> a_content y = Bytes bs))
      | Unlink dir f \<Rightarrow> no_name a dir f \<or> missing_at a dir \<and> in_dir dir f \<or>
          (\<exists>n c x bs. may_remove a t dir f n c \<and> a c = Some x \<and> a_content x = Bytes bs) \<and> few_open t \<and> clean_entry m
      | Rmdir dir f \<Rightarrow>
          (\<exists>c x. valid_path a (dir @ f) c \<and> a c = Some x \<and>
             (dir_check c x < 0 \<or> (\<exists>n. may_remove a t dir f n c) \<and> a_links x \<noteq> 1 \<and> few_open t \<and> clean_entry m))
      | Readdir path \<Rightarrow> missing_at a path \<or> (\<exists>n u. valid_path a path n \<and> folder_at a n = Some u)
      | Rename dir f dir' g \<Rightarrow> missing_at a (dir @ f) \<or>
          (\<exists>k n c. may_rename a t dir f k dir' g n c) \<and> few_open t \<and> clean_entry m)"

section \<open>Lemmas\<close>

lemma names_in_dir:
  assumes "in_dir dir f" and "f \<noteq> []"
  shows "names (dir @ f) = names dir @ [f]"
  using assms(1)
proof (induction "length dir" arbitrary: dir rule: less_induct)
  case less
  have f: "SLASH \<notin> set f" using less.prems by (simp add: in_dir_def)
  show ?case
  proof (cases "dir = []")
    case True
    then show ?thesis using names_word [OF assms(2) f] by simp
  next
    case False
    then have "SLASH \<in> set dir" using less.prems by (metis in_dir_def last_in_set)
    then obtain c r where c: "dir = c @ SLASH # r" "SLASH \<notin> set c" by (meson split_list_first)
    have "in_dir r f" using less.prems False c(1) by (auto simp: in_dir_def split: if_splits)
    then have IH: "names (r @ f) = names r @ [f]" using less.hyps [of r] c(1) by simp
    show ?thesis
    proof (cases "c = []")
      case True
      then show ?thesis using IH c(1) by (simp add: names_def split_tokens_delim)
    next
      case False
      then show ?thesis using IH c split_tokens_word(1) [OF False c(2)] by (simp add: names_def)
    qed
  qed
qed

lemma path_to_append: "path_to a (cs @ cs') n = (case path_to a cs n of None \<Rightarrow> None | Some k \<Rightarrow> path_to a cs' k)"
  by (induction cs arbitrary: n) (auto split: option.splits)

lemma folders_on_append:
  "folders_on a (cs @ cs') n \<longleftrightarrow> folders_on a cs n \<and> (case path_to a cs n of None \<Rightarrow> True | Some k \<Rightarrow> folders_on a cs' k)"
  by (induction cs arbitrary: n) (auto split: option.splits)

text \<open>A path that leads somewhere still leads there when directories gain names.\<close>

lemma path_mono:
  assumes "\<And>k t. folder_at a k = Some t \<Longrightarrow> \<exists>t'. folder_at a' k = Some t' \<and> t \<subseteq>\<^sub>m t'"
    and "path_to a cs n = Some k" and "folders_on a cs n"
  shows "path_to a' cs n = Some k \<and> folders_on a' cs n"
  using assms(2,3)
proof (induction cs arbitrary: n)
  case (Cons c cs)
  then obtain t j where t: "folder_at a n = Some t" "t c = Some j" "path_to a cs j = Some k" "folders_on a cs j"
    by (auto split: option.splits)
  obtain t' where t': "folder_at a' n = Some t'" "t \<subseteq>\<^sub>m t'" using assms(1) [OF t(1)] by blast
  have "t' c = Some j" using t(2) t'(2) by (metis domI map_le_def)
  then show ?case using Cons.IH [OF t(3,4)] t' by simp
qed simp

lemma created_path:
  assumes add: "may_add a dir f n" and i: "a i = None"
  shows "valid_path (a_create n f i x a) (dir @ f) i" and "a_create n f i x a i = Some x"
    and "valid_path (a_create n f i x a) dir n"
proof -
  obtain t where p: "valid_path a dir n" and f: "in_dir dir f" "f \<noteq> []" "0 \<notin> set f" and t: "folder_at a n = Some t" "t f = None"
    using add by (auto simp: may_add_def)
  obtain y where y: "a n = Some y" "a_content y = Folder t"
    using t(1) by (auto simp: folder_at_def split: option.splits content.splits)
  have ni: "n \<noteq> i" using y(1) i by auto
  have e: "a_create n f i x a = a(n \<mapsto> y\<lparr> a_content := Folder (t(f \<mapsto> i)) \<rparr>, i \<mapsto> x)" using y by (simp add: a_create_def)
  then show "a_create n f i x a i = Some x" by simp
  have fn: "folder_at (a_create n f i x a) n = Some (t(f \<mapsto> i))" using ni by (simp add: e folder_at_upd)
  have "\<exists>u'. folder_at (a_create n f i x a) k = Some u' \<and> u \<subseteq>\<^sub>m u'" if "folder_at a k = Some u" for k u
  proof (cases "k = n")
    case True
    then show ?thesis using fn t that by (auto simp: map_le_def)
  next
    case False
    moreover have "k \<noteq> i" using that i by (auto simp: folder_at_def)
    ultimately show ?thesis using that by (simp add: e folder_at_upd)
  qed
  from path_mono [OF this] have q: "path_to (a_create n f i x a) (names dir) 0 = Some n \<and> folders_on (a_create n f i x a) (names dir) 0"
    using p by (simp add: valid_path_def)
  then show "valid_path (a_create n f i x a) dir n" using p by (simp add: valid_path_def)
  show "valid_path (a_create n f i x a) (dir @ f) i"
    using p q f fn by (simp add: valid_path_def names_in_dir folders_on_append path_to_append)
qed

section \<open>Files have one name\<close>

text \<open>In every state of the machine a regular file has one link and at most one name.\<close>

definition one_name :: "afs \<Rightarrow> bool" where
  "one_name a \<longleftrightarrow> (\<forall>c x bs. a c = Some x \<longrightarrow> a_content x = Bytes bs \<longrightarrow> a_links x = 1 \<and>
     (\<forall>k u g k' u' g'. folder_at a k = Some u \<longrightarrow> u g = Some c \<longrightarrow> folder_at a k' = Some u' \<longrightarrow> u' g' = Some c \<longrightarrow>
        k = k' \<and> g = g'))"

lemma one_nameD:
  assumes "one_name a" and "a c = Some x" and "a_content x = Bytes bs"
  shows "a_links x = 1" and "folder_at a k = Some u \<Longrightarrow> u g = Some c \<Longrightarrow> sole_name a c k g"
  using assms unfolding one_name_def sole_name_def by blast+

lemma one_nameI:
  assumes "\<And>c x bs. a c = Some x \<Longrightarrow> a_content x = Bytes bs \<Longrightarrow> a_links x = 1"
    and "\<And>c x bs k u g k' u' g'. a c = Some x \<Longrightarrow> a_content x = Bytes bs \<Longrightarrow> folder_at a k = Some u \<Longrightarrow> u g = Some c \<Longrightarrow>
      folder_at a k' = Some u' \<Longrightarrow> u' g' = Some c \<Longrightarrow> k = k' \<and> g = g'"
  shows "one_name a"
  unfolding one_name_def using assms by blast

text \<open>The entries of directories as a relation, and changes that only take entries away.\<close>

definition names_to :: "afs \<Rightarrow> size_t \<Rightarrow> cstring \<Rightarrow> size_t \<Rightarrow> bool" where
  "names_to a k g c \<longleftrightarrow> (\<exists>u. folder_at a k = Some u \<and> u g = Some c)"

lemma one_name_iff:
  "one_name a \<longleftrightarrow> (\<forall>c x bs. a c = Some x \<longrightarrow> a_content x = Bytes bs \<longrightarrow> a_links x = 1 \<and>
     (\<forall>k g k' g'. names_to a k g c \<longrightarrow> names_to a k' g' c \<longrightarrow> k = k' \<and> g = g'))"
  unfolding one_name_def names_to_def by blast

lemma one_name_less:
  assumes "one_name a" and "\<And>k g c. names_to a' k g c \<Longrightarrow> names_to a k g c"
    and "\<And>c x bs. a' c = Some x \<Longrightarrow> a_content x = Bytes bs \<Longrightarrow> \<exists>y bs'. a c = Some y \<and> a_content y = Bytes bs' \<and> a_links y = a_links x"
  shows "one_name a'"
  unfolding one_name_iff
proof (intro allI impI conjI)
  fix c x bs assume "a' c = Some x" "a_content x = Bytes bs"
  then obtain y bs' where y: "a c = Some y" "a_content y = Bytes bs'" "a_links y = a_links x" using assms(3) by blast
  note Y = assms(1) [unfolded one_name_iff, rule_format, OF y(1,2)]
  show "a_links x = 1" using Y y(3) by simp
  fix k g k' g' assume "names_to a' k g c" "names_to a' k' g' c"
  then show "k = k'" "g = g'" using Y assms(2) by blast+
qed

lemma folder_at_update:
  assumes "\<And>x t. a_content (f x) = Folder t \<longleftrightarrow> a_content x = Folder t"
  shows "folder_at (a_update n f a) k = folder_at a k"
proof (cases "a n")
  case None
  then show ?thesis by (simp add: a_update_def)
next
  case (Some x)
  have "(case a_content (f x) of Folder t \<Rightarrow> Some t | Bytes _ \<Rightarrow> None) = (case a_content x of Folder t \<Rightarrow> Some t | Bytes _ \<Rightarrow> None)"
    using assms [of x] by (cases "a_content x"; cases "a_content (f x)") auto
  then show ?thesis using Some by (simp add: a_update_def folder_at_def)
qed

lemma one_name_update:
  assumes "one_name a" and "\<And>x. a_links (f x) = a_links x"
    and "\<And>x t. a_content (f x) = Folder t \<longleftrightarrow> a_content x = Folder t"
  shows "one_name (a_update n f a)"
proof (rule one_name_less [OF assms(1)])
  show "\<And>k g c. names_to (a_update n f a) k g c \<Longrightarrow> names_to a k g c" by (simp add: names_to_def folder_at_update [OF assms(3)])
  fix c x bs assume x: "a_update n f a c = Some x" "a_content x = Bytes bs"
  show "\<exists>y bs'. a c = Some y \<and> a_content y = Bytes bs' \<and> a_links y = a_links x"
  proof (cases "c = n \<and> a n \<noteq> None")
    case True
    then obtain y where y: "a n = Some y" "x = f y" using x(1) by (auto simp: a_update_def split: option.splits)
    then have "\<exists>bs'. a_content y = Bytes bs'" using assms(3) [of y] x(2) by (cases "a_content y") auto
    then show ?thesis using y True assms(2) by auto
  next
    case False
    then show ?thesis using x by (auto simp: a_update_def split: option.splits if_splits)
  qed
qed

lemma one_name_create:
  assumes one: "one_name a" and cl: "closed a" and add: "may_add a dir f n" and i: "a i = None"
    and x: "\<And>bs. a_content x = Bytes bs \<Longrightarrow> a_links x = 1" "\<And>t. a_content x = Folder t \<Longrightarrow> ran t \<subseteq> {n, i}"
  shows "one_name (a_create n f i x a)"
proof -
  obtain t where t: "folder_at a n = Some t" "t f = None" using add by (auto simp: may_add_def)
  obtain y where y: "a n = Some y" "a_content y = Folder t" using folder_atD [OF t(1)] by blast
  have ni: "n \<noteq> i" using y(1) i by auto
  have e: "a_create n f i x a = a(n \<mapsto> y\<lparr> a_content := Folder (t(f \<mapsto> i)) \<rparr>, i \<mapsto> x)" using y by (simp add: a_create_def)
  have old: "c \<noteq> i" if "names_to a k g c" for k g c
    using cl that i unfolding names_to_def closed_def by (metis domIff ranI subsetD)
  have nm: "names_to a k g c \<or> k = n \<and> g = f \<and> c = i \<or> k = i \<and> c \<in> {n, i}" if N: "names_to (a_create n f i x a) k g c" for k g c
  proof -
    obtain u where u: "folder_at (a_create n f i x a) k = Some u" "u g = Some c" using N unfolding names_to_def by blast
    consider "k = i" | "k = n" | "k \<noteq> i" "k \<noteq> n" by blast
    then show ?thesis
    proof cases
      case 1
      then have "ran u \<subseteq> {n, i}" using u(1) x(2) by (auto simp: e folder_at_upd split: content.splits)
      then show ?thesis using 1 u(2) by (auto simp: ran_def)
    next
      case 2
      then have "u = t(f \<mapsto> i)" using u(1) ni by (simp add: e folder_at_upd)
      then show ?thesis using u(2) 2 t(1) by (auto simp: names_to_def split: if_splits)
    next
      case 3
      then show ?thesis using u by (auto simp: e folder_at_upd names_to_def)
    qed
  qed
  show ?thesis unfolding one_name_iff
  proof (intro allI impI conjI)
    fix c z bs assume z: "a_create n f i x a c = Some z" "a_content z = Bytes bs"
    then have cn: "c \<noteq> n" using ni by (auto simp: e)
    have was: "a c = Some z" if "c \<noteq> i" using z(1) cn that by (simp add: e)
    have "a_links z = 1 \<and> (k = k' \<and> g = g')" if "names_to (a_create n f i x a) k g c" "names_to (a_create n f i x a) k' g' c" for k g k' g'
    proof (cases "c = i")
      case True
      then have "z = x" using z(1) by (simp add: e)
      then have lx: "a_links z = 1" and "a_content x = Bytes bs" using x(1) z(2) by auto
      then have "\<not> names_to (a_create n f i x a) i h j" for h j by (simp add: e names_to_def folder_at_upd)
      then show ?thesis using nm [OF that(1)] nm [OF that(2)] old True that lx by metis
    next
      case False
      then show ?thesis using nm [OF that(1)] nm [OF that(2)] cn one [unfolded one_name_iff, rule_format, OF was z(2)] by auto
    qed
    moreover have "a_links z = 1"
      using z x(1) cn was one [unfolded one_name_iff, rule_format, of c z bs] by (cases "c = i") (auto simp: e)
    ultimately show "a_links z = 1"
      and "\<And>k g k' g'. names_to (a_create n f i x a) k g c \<Longrightarrow> names_to (a_create n f i x a) k' g' c \<Longrightarrow> k = k'"
      and "\<And>k g k' g'. names_to (a_create n f i x a) k g c \<Longrightarrow> names_to (a_create n f i x a) k' g' c \<Longrightarrow> g = g'"
      by blast+
  qed
qed

lemma one_name_unlink:
  assumes one: "one_name a" and may: "may_remove a t dir f n c"
  shows "one_name (a_unlink n f c a)"
proof (cases "a c")
  case None
  then have "a_unlink n f c a = a" by (simp add: a_unlink_def split: option.splits)
  then show ?thesis using one by simp
next
  case (Some x)
  obtain u where u: "folder_at a n = Some u" and cn: "c \<noteq> n" using may by (auto simp: may_remove_def)
  obtain y where y: "a n = Some y" "a_content y = Folder u" using folder_atD [OF u] by blast
  note F = folder_unlink [OF y Some cn, of f] and e = a_unlink_eq [OF y Some, of f]
  show ?thesis
  proof (rule one_name_less [OF one])
    show "names_to a k g j" if "names_to (a_unlink n f c a) k g j" for k g j
      using that u by (auto simp: names_to_def F split: if_splits)
    fix j z bs assume z: "a_unlink n f c a j = Some z" "a_content z = Bytes bs"
    have "j \<noteq> n" using z cn by (auto simp: e split: if_splits)
    show "\<exists>y bs'. a j = Some y \<and> a_content y = Bytes bs' \<and> a_links y = a_links z"
    proof (cases "j = c")
      case True
      then have "a_content x = Bytes bs" "a_links x \<noteq> 1" using z by (auto simp: e split: if_splits)
      then show ?thesis using one_nameD(1) [OF one Some] by simp
    next
      case False
      then show ?thesis using z \<open>j \<noteq> n\<close> by (auto simp: e)
    qed
  qed
qed

text \<open>Renaming: the new name in place of the old one, everything else as it was.\<close>

lemma may_renameD:
  assumes "may_rename a t dir f k dir' g n c" and "closed a"
  obtains y u y' u' x where "a n = Some y" and "a_content y = Folder u" and "u g = None" and "card (dom u) < 159"
    and "a k = Some y'" and "a_content y' = Folder u'" and "u' f = Some c" and "card (dom u') < 160"
    and "a c = Some x" and "a_links x \<noteq> 0" and "a_links x \<noteq> - 1" and "c \<noteq> n" and "c \<noteq> k" and "c \<noteq> 0"
proof -
  obtain u u' x where u: "folder_at a n = Some u" "u g = None" "card (dom u) < 159" and u': "folder_at a k = Some u'" "u' f = Some c" "card (dom u') < 160"
    and x: "a c = Some x" "a_links x \<noteq> 0" "a_links x \<noteq> - 1" "c \<noteq> n" "c \<noteq> k" "c \<noteq> 0"
    using assms(1) by (auto simp: may_rename_def may_remove_def may_add_def)
  obtain y y' where "a n = Some y" "a_content y = Folder u" "a k = Some y'" "a_content y' = Folder u'"
    using folder_atD [OF u(1)] folder_atD [OF u'(1)] by blast
  then show thesis using that u u' x by blast
qed

lemma link_may_remove:
  assumes may: "may_rename a t dir f k dir' g n c" and cl: "closed a"
  shows "may_remove (a_link n g c a) t dir f k c"
proof -
  obtain y u y' u' x where y: "a n = Some y" "a_content y = Folder u" and u: "u g = None" "card (dom u) < 159"
    and y': "a k = Some y'" "a_content y' = Folder u'" and u': "u' f = Some c" "card (dom u') < 160"
    and x: "a c = Some x" and c: "c \<noteq> n" "c \<noteq> k" "c \<noteq> 0"
    using may cl by (rule may_renameD)
  note F = folder_link [OF y x c(1), of g]
  have old: "valid_path a dir k" "in_dir dir f" "0 \<notin> set f" "opens t c = {}" using may by (auto simp: may_rename_def may_remove_def)
  have fn: "folder_at a n = Some u" "folder_at a k = Some u'" using y y' by (simp_all add: folder_at_def)
  have up: "\<exists>v'. folder_at (a_link n g c a) j = Some v' \<and> v \<subseteq>\<^sub>m v'" if "folder_at a j = Some v" for j v
    using that fn(1) u(1) by (cases "j = n") (auto simp: F map_le_def)
  have "valid_path (a_link n g c a) dir k" using old(1) path_mono [OF up] by (auto simp: valid_path_def)
  moreover have "\<exists>v. folder_at (a_link n g c a) k = Some v \<and> v f = Some c \<and> card (dom v) < 160"
  proof (cases "k = n")
    case True
    have "card (dom (u(g \<mapsto> c))) < 160" using u(2) by (cases "finite (dom u)") (simp_all add: card_insert_if)
    then show ?thesis using True y y' u u' by (auto simp: F)
  qed (use fn u' in \<open>simp add: F\<close>)
  ultimately show ?thesis using old c by (simp add: may_remove_def)
qed

lemma names_to_rename:
  assumes may: "may_rename a t dir f k dir' g n c" and cl: "closed a"
  shows "names_to (a_rename k f n g c a) j h i \<longleftrightarrow> names_to a j h i \<and> \<not> (j = k \<and> h = f) \<or> j = n \<and> h = g \<and> i = c"
    and "a_rename k f n g c a j = Some z \<Longrightarrow> a_content z = Bytes bs \<Longrightarrow> a j = Some z"
    and "a_rename k f n g c a c = a c"
proof -
  obtain y u y' u' x where y: "a n = Some y" "a_content y = Folder u" and u: "u g = None"
    and y': "a k = Some y'" "a_content y' = Folder u'" and u': "u' f = Some c"
    and x: "a c = Some x" "a_links x \<noteq> 0" and c: "c \<noteq> n" "c \<noteq> k"
    using may cl by (rule may_renameD)
  let ?b = "a_link n g c a" and ?x = "x\<lparr> a_links := a_links x + 1 \<rparr>"
  note F = folder_link [OF y x(1) c(1), of g]
  have fk: "folder_at ?b k = Some (if k = n then u(g \<mapsto> c) else u')" unfolding F using y' by (simp add: folder_at_def)
  obtain z' where z': "?b k = Some z'" "a_content z' = Folder (if k = n then u(g \<mapsto> c) else u')" using folder_atD [OF fk] by blast
  have bc: "?b c = Some ?x" using c(1) by (simp add: a_link_eq [OF y x(1)])
  have l1: "a_links ?x \<noteq> 1" using x(2) by simp
  let ?v = "if k = n then u(g \<mapsto> c) else u'"
  have e: "a_rename k f n g c a = ?b(k \<mapsto> z'\<lparr> a_content := Folder (?v(f := None)) \<rparr>, c \<mapsto> x)"
    using a_unlink_eq [OF z' bc, of f] l1 by (simp add: a_rename_def)
  then show "a_rename k f n g c a c = a c" using x(1) by simp
  have G: "folder_at (a_rename k f n g c a) j = (if j = k then Some (?v(f := None)) else folder_at ?b j)" for j
    using folder_unlink [OF z' bc c(2), of f j] l1 by (simp add: a_rename_def)
  have fn: "folder_at a n = Some u" "folder_at a k = Some u'" using y y' by (simp_all add: folder_at_def)
  have "k = n \<Longrightarrow> u' = u \<and> f \<noteq> g" using fn u u' by auto
  then show "names_to (a_rename k f n g c a) j h i \<longleftrightarrow> names_to a j h i \<and> \<not> (j = k \<and> h = f) \<or> j = n \<and> h = g \<and> i = c"
    using fn u u' unfolding names_to_def G F by (cases "j = k"; cases "j = n"; cases "h = f"; cases "h = g") auto
  assume z: "a_rename k f n g c a j = Some z" "a_content z = Bytes bs"
  have "j \<noteq> k" using z c(2) by (auto simp: e)
  moreover have "j \<noteq> n" using z \<open>j \<noteq> k\<close> c(1) y by (auto simp: e a_link_eq [OF y x(1)])
  ultimately show "a j = Some z" using z(1) x(1) by (cases "j = c") (auto simp: e a_link_eq [OF y x(1)])
qed

lemma one_name_rename:
  assumes one: "one_name a" and may: "may_rename a t dir f k dir' g n c" and cl: "closed a"
  shows "one_name (a_rename k f n g c a)"
  unfolding one_name_iff
proof (intro allI impI conjI)
  note R = names_to_rename [OF may cl]
  fix j z bs assume "a_rename k f n g c a j = Some z" and b: "a_content z = Bytes bs"
  then have z: "a j = Some z" by (rule R(2))
  note O = one [unfolded one_name_iff, rule_format, OF z b]
  show "a_links z = 1" using O by blast
  obtain u' where "folder_at a k = Some u'" "u' f = Some c" using may by (auto simp: may_rename_def may_remove_def)
  then have kf: "names_to a k f c" by (auto simp: names_to_def)
  fix i h i' h' assume n: "names_to (a_rename k f n g c a) i h j" "names_to (a_rename k f n g c a) i' h' j"
  show "i = i'" "h = h'" using n [unfolded R(1)] O kf by blast+
qed

lemma astep_one_name:
  assumes "astep c a t r a' t'" and "one_name a" and "closed a"
  shows "one_name a'"
  using assms
proof (cases rule: astep.cases)
  case (create dir f n i k mode fi ctx)
  then show ?thesis using one_name_create [of a dir f n i "new_file mode ctx"] assms(2,3) by (simp add: new_file_def)
next
  case (mkdir dir f n i mode ctx)
  have "ran [dot \<mapsto> i, dotdot \<mapsto> n] \<subseteq> {n, i}" by (auto simp: ran_def split: if_splits)
  then show ?thesis using one_name_create [of a dir f n i "new_folder mode ctx i n"] mkdir assms(2,3) by (simp add: new_folder_def)
next
  case (trunc path n x bs sz)
  then show ?thesis using one_name_update [OF assms(2), of "a_resize (unat sz)" n]
    by (simp add: a_resize_def split: content.splits)
next
  case (write_file fi k x y bs off buf ctx)
  then show ?thesis using one_name_update [OF assms(2), of "a_append buf" "o_inode x"]
    by (simp add: a_append_def split: content.splits)
next
  case (rename dir f k dir' g n c)
  then show ?thesis using one_name_rename [OF assms(2) _ assms(3)] by blast
next
  case (unlink dir f n c x bs)
  then show ?thesis using one_name_unlink [OF assms(2)] by blast
next
  case (rmdir dir f n c x)
  then show ?thesis using one_name_unlink [OF assms(2)] by blast
qed (use assms(2) in \<open>auto intro!: one_name_update simp: a_chmod_def a_chown_def\<close>)

text \<open>
  Files do not lose their name either: no step leaves a regular file without an entry in some directory.  A step keeps
  this when each name of the state before is left, apart from names of files that are gone, and each new file has one.
\<close>

definition named :: "afs \<Rightarrow> bool" where
  "named a \<longleftrightarrow> (\<forall>c x bs. a c = Some x \<longrightarrow> a_content x = Bytes bs \<longrightarrow> (\<exists>k g. names_to a k g c))"

lemma named_more:
  assumes "named a"
    and "\<And>c x bs. a' c = Some x \<Longrightarrow> a_content x = Bytes bs \<Longrightarrow>
      (\<exists>k g. names_to a' k g c) \<or> (\<exists>y bs'. a c = Some y \<and> a_content y = Bytes bs') \<and> (\<forall>k g. names_to a k g c \<longrightarrow> names_to a' k g c)"
  shows "named a'"
  using assms unfolding named_def by metis

lemma named_update:
  assumes "named a" and "\<And>x t. a_content (f x) = Folder t \<longleftrightarrow> a_content x = Folder t"
  shows "named (a_update n f a)"
proof (rule named_more [OF assms(1)], rule disjI2, intro conjI)
  fix c x bs assume x: "a_update n f a c = Some x" "a_content x = Bytes bs"
  have "a_content y \<noteq> Folder t" if "a c = Some y" for y t
    using x that assms(2) [of y t] by (auto simp: a_update_def split: option.splits if_splits)
  moreover have "a c \<noteq> None" using x(1) by (auto simp: a_update_def split: option.splits if_splits)
  ultimately show "\<exists>y bs'. a c = Some y \<and> a_content y = Bytes bs'" by (metis content.exhaust option.exhaust)
qed (simp add: names_to_def folder_at_update [OF assms(2)])

lemma named_create:
  assumes "named a" and "may_add a dir f n" and "a i = None"
  shows "named (a_create n f i x a)"
proof (rule named_more [OF assms(1)])
  obtain t where t: "folder_at a n = Some t" "t f = None" using assms(2) by (auto simp: may_add_def)
  obtain y where y: "a n = Some y" "a_content y = Folder t" using folder_atD [OF t(1)] by blast
  have ni: "n \<noteq> i" using y(1) assms(3) by auto
  have e: "a_create n f i x a = a(n \<mapsto> y\<lparr> a_content := Folder (t(f \<mapsto> i)) \<rparr>, i \<mapsto> x)" using y by (simp add: a_create_def)
  have new: "names_to (a_create n f i x a) n f i" using ni by (simp add: e names_to_def folder_at_upd)
  have old: "names_to (a_create n f i x a) k g c" if "names_to a k g c" for k g c
  proof -
    have "k \<noteq> i" using that assms(3) by (auto simp: names_to_def folder_at_def)
    then show ?thesis using that t by (cases "k = n") (auto simp: e names_to_def folder_at_upd)
  qed
  fix c z bs assume z: "a_create n f i x a c = Some z" "a_content z = Bytes bs"
  then have "c \<noteq> n" using ni by (auto simp: e)
  then have "c \<noteq> i \<Longrightarrow> a c = Some z" using z(1) by (simp add: e)
  then show "(\<exists>k g. names_to (a_create n f i x a) k g c) \<or>
      (\<exists>y bs'. a c = Some y \<and> a_content y = Bytes bs') \<and> (\<forall>k g. names_to a k g c \<longrightarrow> names_to (a_create n f i x a) k g c)"
    using new old z(2) by blast
qed

lemma named_unlink:
  assumes "named a" and "may_remove a t dir f n c" and x: "a c = Some x"
    and gone: "(\<exists>u. a_content x = Folder u) \<and> a_links x \<noteq> 1 \<or> (\<exists>bs. a_content x = Bytes bs) \<and> a_links x = 1"
  shows "named (a_unlink n f c a)"
proof (rule named_more [OF assms(1)], rule disjI2, intro conjI allI impI)
  obtain u where u: "folder_at a n = Some u" "u f = Some c" and cn: "c \<noteq> n" using assms(2) by (auto simp: may_remove_def)
  obtain y where y: "a n = Some y" "a_content y = Folder u" using folder_atD [OF u(1)] by blast
  note F = folder_unlink [OF y x cn, of f] and e = a_unlink_eq [OF y x, of f]
  fix j z bs assume z: "a_unlink n f c a j = Some z" "a_content z = Bytes bs"
  have "j \<noteq> n" using z cn by (auto simp: e split: if_splits)
  moreover have jc: "j \<noteq> c" using z gone by (auto simp: e split: if_splits)
  ultimately show "\<exists>y bs'. a j = Some y \<and> a_content y = Bytes bs'" using z by (auto simp: e)
  fix k g assume k: "names_to a k g j"
  then have "\<not> (k = n \<and> g = f)" using u jc by (auto simp: names_to_def)
  moreover have "k = c \<Longrightarrow> a_links x \<noteq> 1" using k x gone by (auto simp: names_to_def folder_at_def)
  ultimately show "names_to (a_unlink n f c a) k g j" using k u by (auto simp: names_to_def F)
qed

lemma astep_named:
  assumes "astep c a t r a' t'" and "named a" and "one_name a" and "closed a"
  shows "named a'"
  using assms(1)
proof (cases rule: astep.cases)
  case (create dir f n i k mode fi ctx)
  then show ?thesis using named_create [OF assms(2)] by blast
next
  case (mkdir dir f n i mode ctx)
  then show ?thesis using named_create [OF assms(2)] by blast
next
  case (unlink dir f n c x bs)
  then show ?thesis using named_unlink [OF assms(2)] one_nameD(1) [OF assms(3)] by blast
next
  case (rmdir dir f n c x)
  then have "\<exists>u. a_content x = Folder u" by (auto simp: dir_check_def split: if_splits content.splits)
  then show ?thesis using rmdir named_unlink [OF assms(2)] by blast
next
  case (rename dir f k dir' g n c)
  note R = names_to_rename [OF rename(5) assms(4)]
  show ?thesis unfolding rename(3)
  proof (rule named_more [OF assms(2)])
    fix j z bs assume z: "a_rename k f n g c a j = Some z" "a_content z = Bytes bs"
    have kf: "names_to a k f c" using rename(5) by (auto simp: may_rename_def may_remove_def names_to_def)
    have "names_to a i h j \<longrightarrow> j = c \<or> names_to (a_rename k f n g c a) i h j" for i h
      using R(1) kf by (auto simp: names_to_def)
    then show "(\<exists>k' h. names_to (a_rename k f n g c a) k' h j) \<or>
        (\<exists>y bs'. a j = Some y \<and> a_content y = Bytes bs') \<and> (\<forall>k' h. names_to a k' h j \<longrightarrow> names_to (a_rename k f n g c a) k' h j)"
      using R(1) R(2) [OF z] z(2) by blast
  qed
next
  case (trunc path n x bs sz)
  then show ?thesis using named_update [OF assms(2), of "a_resize (unat sz)"] by (simp add: a_resize_def split: content.splits)
next
  case (write_file fi k x y bs off buf ctx)
  then show ?thesis using named_update [OF assms(2), of "a_append buf"] by (simp add: a_append_def split: content.splits)
qed (use assms(2) in \<open>auto intro!: named_update simp: a_chmod_def a_chown_def\<close>)

lemma named_once:
  assumes "one_name a" and "named a" and "a c = Some x" and "a_content x = Bytes bs"
  shows "card {(k, g). names_to a k g c} = 1"
proof -
  obtain k g where k: "names_to a k g c" using assms(2-4) unfolding named_def by blast
  have "{(k, g). names_to a k g c} = {(k, g)}"
    using k assms(1) [unfolded one_name_iff, rule_format, OF assms(3,4)] by blast
  then show ?thesis by simp
qed

end
