(* ===== verification/FileSystem.thy ===== *)
theory FileSystem
  imports Calls
begin

text \<open>
  Every admissible call of the program returns and is a step of the abstract machine of \<open>Calls\<close>; the states the
  program can reach, from a formatted and mounted device on, satisfy the global invariant.
\<close>

section \<open>Lemmas\<close>

lemma open_room:
  assumes con: "consistent s fs nums" and "few_open (abs_files s)"
  shows "2 \<le> card (free_nodes s)"
proof -
  have "o_inode ` ran (abs_files s) = {n. refs s n \<noteq> 0}"
  proof (intro set_eqI iffI)
    fix n assume "n \<in> o_inode ` ran (abs_files s)"
    then obtain k x where "abs_files s k = Some x" "n = o_inode x" by (auto simp: ran_def)
    then show "n \<in> {n. refs s n \<noteq> 0}" using holds_refs_nonzero [OF file_node(4) [OF con]] by blast
  next
    fix n assume "n \<in> {n. refs s n \<noteq> 0}"
    then have "opens (abs_files s) n \<noteq> {}" using refs_opens(1) [OF con, of n] by (auto simp: word_unat_eq_iff)
    then show "n \<in> o_inode ` ran (abs_files s)" by (auto simp: opens_def ran_def)
  qed
  then show ?thesis
    using card_free_nodes [OF idleD(1) [OF consistentD(1) [OF con]]] assms(2) by (simp add: few_open_def)
qed

lemma missing_atD:
  assumes "consistent s fs nums" and "missing_at (abs_fs s) path"
  shows "good_path s path" and "lookup_path s (names path) 0 = None"
proof -
  have f: "folders_on (abs_fs s) (names path) 0" "path_to (abs_fs s) (names path) 0 = None" "0 \<notin> set path"
    using assms(2) by (auto simp: missing_at_def)
  show "good_path s path" using walk_abs(1) [OF assms(1) f(1)] consistentD(1) [OF assms(1)] f(3) by (simp add: good_path_def)
  show "lookup_path s (names path) 0 = None" using walk_abs(2) [OF assms(1) f(1)] f(2) by simp
qed

lemma valid_path_node:
  assumes "consistent s fs nums" and "valid_path (abs_fs s) path n"
  shows "abs_fs s n = Some (node_of s n)"
  using valid_pathD(4) [OF assms] by (simp add: abs_fs_def)

section \<open>Every admissible call is a step of the abstract machine\<close>

text \<open>
  The whole state and its resources: all data blocks of the device are free or belong to an inode, all inodes up to
  512 are listed as free or in use.  There are many more blocks than all inodes together can use.  The stack of
  free inodes never becomes empty, and a file has one name.
\<close>

definition accounted :: "fs \<Rightarrow> size_t list \<Rightarrow> size_t list \<Rightarrow> bool" where
  "accounted s fs nums \<longleftrightarrow> consistent s fs nums \<and> stock s fs = set (block_range 16388 31457280) \<and>
     set nums \<union> dom (abs_fs s) = insert 0 (set first_inodes) \<and> nums \<noteq> []"

definition balanced :: "fs \<Rightarrow> size_t list \<Rightarrow> size_t list \<Rightarrow> bool" where
  "balanced s fs nums \<longleftrightarrow> accounted s fs nums \<and> one_name (abs_fs s)"

lemma balancedD:
  assumes "balanced s fs nums"
  shows "accounted s fs nums" and "consistent s fs nums" and "one_name (abs_fs s)"
  using assms by (simp_all add: balanced_def accounted_def)

lemma consistent_free_list: "consistent s fs nums \<Longrightarrow> free_list (disk s) fs"
  using consistentD(6) [of s fs nums 0] by (simp add: direct_def direct_file_def)

lemma blocks_of_card:
  assumes "consistent s fs nums" and "used s n"
  shows "card (blocks_of s n) \<le> 10"
proof -
  have "blocks_for (unat (isize (dir_view s n))) \<le> 10"
    using consistentD(6) [OF assms] by (simp add: direct_def direct_file_def)
  then show ?thesis by (metis card_length file_blocks_def length_take min.cobounded2 order_trans)
qed

lemma accounted_room:
  assumes "accounted s fs nums"
  shows "31000000 \<le> length fs" and "length nums + card (dom (abs_fs s)) = 513"
proof -
  have con: "consistent s fs nums" and st: "stock s fs = set (block_range 16388 31457280)"
    and pool: "set nums \<union> dom (abs_fs s) = insert 0 (set first_inodes)"
    using assms by (auto simp: accounted_def)
  have "card (insert 0 (set first_inodes)) = 513"
    using distinct_card [OF distinct_first_inodes] first_inodes_props(1,2) by (simp add: card_insert_if)
  then have p: "card (set nums \<union> dom (abs_fs s)) = 513" using pool by simp
  have "set nums \<inter> dom (abs_fs s) = {}"
    using consistentD(3,5) [OF con] by (auto simp: inode_stack_def abs_fs_def used_def split: if_splits)
  moreover have "finite (dom (abs_fs s))" by simp
  ultimately show n: "length nums + card (dom (abs_fs s)) = 513"
    using p card_Un_disjoint [of "set nums" "dom (abs_fs s)"] distinct_card [OF consistentD(4) [OF con]] by simp
  have d: "{n. used s n} = dom (abs_fs s)" by (auto simp: abs_fs_def split: if_splits)
  have "card (\<Union>n \<in> {n. used s n}. blocks_of s n) \<le> (\<Sum>n \<in> {n. used s n}. card (blocks_of s n))"
    by (rule card_UN_le) simp
  also have "\<dots> \<le> (\<Sum>n \<in> {n. used s n}. 10)" by (rule sum_mono) (use blocks_of_card [OF con] in simp)
  also have "\<dots> \<le> 5130" using n d by simp
  finally have "card (stock s fs) \<le> length fs + 5130"
    unfolding stock_def using card_Un_le [of "set fs"] card_length [of fs] by (meson add_mono order_trans)
  moreover have "card (stock s fs) = 31457280 - 16388"
    unfolding st distinct_card [OF distinct_block_range [of 31457280 16388, simplified]] by (simp only: block_range_def length_map length_upt)
  ultimately show "31000000 \<le> length fs" by linarith
qed

lemmas balanced_room = accounted_room [OF balancedD(1)]

text \<open>What it means that call \<open>c\<close> returns in state \<open>s\<close> as the abstract machine allows.\<close>

definition refines :: "mem_env \<Rightarrow> call \<Rightarrow> fs \<Rightarrow> bool" where
  "refines m c s \<longleftrightarrow> (\<exists>r s' fs' nums'. exec m c s = Some (r, s') \<and> balanced s' fs' nums' \<and>
     astep c (abs_fs s) (abs_files s) r (abs_fs s') (abs_files s'))"

lemma refinesI:
  assumes bal: "balanced s fs nums" and run: "exec m c s = Some (r, s')" and con: "consistent s' fs' nums'" and st: "stock s' fs' = stock s fs"
    and pool: "set nums' \<union> dom (abs_fs s') = set nums \<union> dom (abs_fs s)" and some: "nums' \<noteq> [] \<or> nums' = nums"
    and step: "astep c (abs_fs s) (abs_files s) r (abs_fs s') (abs_files s')"
  shows "refines m c s"
proof -
  have "consistent s fs nums" "one_name (abs_fs s)" "nums \<noteq> []" using bal by (auto simp: balanced_def accounted_def)
  then have "one_name (abs_fs s')" "nums' \<noteq> []" using astep_one_name [OF step] consistentD(10) some by auto
  then have "balanced s' fs' nums'" using bal con st pool by (simp add: balanced_def accounted_def)
  then show ?thesis unfolding refines_def using run step by blast
qed

lemma dom_a_update: "dom (a_update n f a) = dom a"
  by (auto simp: a_update_def split: option.splits)

lemma dom_a_create: "may_add a dir f n \<Longrightarrow> dom (a_create n f i x a) = insert i (dom a)"
  by (auto simp: may_add_def folder_at_def a_create_def split: option.splits content.splits)

lemma getattr_refines:
  assumes con: "consistent s fs nums" and bal: "balanced s fs nums" and adm: "admissible m (Getattr path) (abs_fs s) (abs_files s)"
  shows "refines m (Getattr path) s"
proof (cases "missing_at (abs_fs s) path")
  case True
  note M = missing_atD [OF con True]
  obtain s' where "attrPopulate m (SLASH # path) zero_stat s = Some (- ENOENT, zero_stat, s')" "idle s s'"
    using attrPopulate_missing [OF M] by blast
  then show ?thesis
    using idle_abs [OF con] getattr_none [OF True] by (intro refinesI [OF bal, where s' = "s'" and fs' = fs and nums' = nums]) (auto simp: exec_def getattr_callback_def)
next
  case False
  then obtain n where p: "valid_path (abs_fs s) path n" using adm by (auto simp: admissible_def)
  note P = valid_pathD [OF con p]
  have "keeps s n" using P(4) by (auto simp: keeps_def used_def)
  then obtain s' where s': "attrPopulate m (SLASH # path) zero_stat s = Some (0, attrs (inode_view s n) zero_stat, s')" "idle s s'"
    using attrPopulate_found [OF P(1,2)] by blast
  have "shows_attrs (node_of s n) (attrs (inode_view s n) zero_stat)"
    using node_size [OF con valid_path_node [OF con p]] by (simp add: shows_attrs_def attrs_def) (simp add: node_of_def)
  from getattr [OF p valid_path_node [OF con p] this] show ?thesis
    using idle_abs [OF con s'(2)] s'(1) by (intro refinesI [OF bal, where s' = "s'" and fs' = fs and nums' = nums]) (auto simp: exec_def getattr_callback_def)
qed

lemma new_inodes:
  assumes "consistent s fs nums" and "2 \<le> length nums"
  obtains i rest where "nums = i # rest" and "rest \<noteq> []" and "abs_fs s i = None"
proof -
  obtain i j rest where n: "nums = i # j # rest" using assms(2) by (metis One_nat_def Suc_1 Suc_le_length_iff)
  have "i \<noteq> 0" using consistentD(3) [OF assms(1)] n by (auto simp: inode_stack_def)
  then have "abs_fs s i = None" using consistentD(5) [OF assms(1), of i] n by (simp add: abs_fs_def used_def)
  then show thesis using that n by blast
qed

lemma create_refines:
  assumes con: "consistent s fs nums" and bal: "balanced s fs nums" and adm: "admissible m (Create dir f mode fi ctx) (abs_fs s) (abs_files s)"
  shows "refines m (Create dir f mode fi ctx) s"
proof -
  obtain n k where add: "may_add (abs_fs s) dir f n" and room: "card (dom (abs_fs s)) < 512"
    and few: "few_open (abs_files s)" and k: "next_fd (abs_files s) k"
    using adm by (auto simp: admissible_def)
  then have r: "2 \<le> length nums" "fs \<noteq> []" using balanced_room [OF bal] by auto
  obtain i rest where i: "nums = i # rest" "rest \<noteq> []" "abs_fs s i = None" by (rule new_inodes [OF con r(1)])
  let ?a = "a_create n f i (new_file mode ctx) (abs_fs s)"
  obtain s1 fs1 where s1: "createFile m (SLASH # dir @ f) T_REGULAR mode ctx s = Some (0, s1)" "consistent s1 fs1 rest"
      "abs_fs s1 = ?a" "abs_files s1 = abs_files s" "stock s1 fs1 = stock s fs"
    using create_abs [OF con [unfolded i(1)] add i(2) r(2) open_room [OF con few]] unfolding new_file_def by blast
  note C = created_path [OF add i(3), of "new_file mode ctx"]
  have i0: "i \<noteq> 0" using consistentD(3) [OF con] i(1) by (auto simp: inode_stack_def)
  obtain s2 where s2: "openFile m (SLASH # dir @ f) fi ctx s1 = Some (0, fi\<lparr> fi_fh := of_nat k \<rparr>, s2)" "consistent s2 fs1 rest"
      "abs_fs s2 = ?a" "abs_files s2 = (abs_files s)(k \<mapsto> opened i fi 0)" "stock s2 fs1 = stock s1 fs1"
    using open_abs [OF s1(2) _ i0, of "dir @ f" "new_file mode ctx" k m fi ctx] C s1(3,4) k open_room [OF s1(2)] few
    by (auto simp: opened_def new_file_def a_size_def)
  from create [OF add i(3) k, of mode fi ctx] show ?thesis
    using s1(1,5) s2 by (intro refinesI [OF bal, where s' = s2 and fs' = fs1 and nums' = rest])
      (auto simp: exec_def create_callback_def dom_a_create [OF add] i(1,2))
qed

lemma mkdir_refines:
  assumes con: "consistent s fs nums" and bal: "balanced s fs nums" and adm: "admissible m (Mkdir dir f mode ctx) (abs_fs s) (abs_files s)"
  shows "refines m (Mkdir dir f mode ctx) s"
proof -
  obtain n where add: "may_add (abs_fs s) dir f n" and room: "card (dom (abs_fs s)) < 512" and few: "few_open (abs_files s)"
    and mode: "(S_IFDIR OR mode) AND 0xF000 = S_IFDIR"
    using adm by (auto simp: admissible_def)
  then have r: "2 \<le> length nums" "2 \<le> length fs" using balanced_room [OF bal] by auto
  obtain i rest where i: "nums = i # rest" "rest \<noteq> []" "abs_fs s i = None" by (rule new_inodes [OF con r(1)])
  obtain s1 fs1 where s1: "createFile m (SLASH # dir @ f) T_DIRECTORY mode ctx s = Some (0, s1)" "consistent s1 fs1 rest"
      "abs_fs s1 = a_create n f i (new_folder mode ctx i n) (abs_fs s)" "abs_files s1 = abs_files s" "stock s1 fs1 = stock s fs"
    using mkdir_abs [OF con [unfolded i(1)] add i(2) r(2) open_room [OF con few] mode] unfolding new_folder_def by blast
  from mkdir [OF add i(3)] show ?thesis
    using s1 by (intro refinesI [OF bal, where s' = s1 and fs' = fs1 and nums' = rest])
      (auto simp: exec_def mkdir_callback_def dom_a_create [OF add] i(1,2))
qed

lemma trunc_refines:
  assumes con: "consistent s fs nums" and bal: "balanced s fs nums" and adm: "admissible m (Trunc path sz) (abs_fs s) (abs_files s)"
  shows "refines m (Trunc path sz) s"
proof (cases "missing_at (abs_fs s) path")
  case True
  obtain s' where "getFileINode m (SLASH # path) s = Some (None, s')" "idle s s'"
    using missing_atD [OF con True] by (rule path_missing)
  then show ?thesis
    using idle_abs [OF con] trunc_none [OF True] by (intro refinesI [OF bal, where s' = "s'" and fs' = fs and nums' = nums]) (auto simp: exec_def truncate_callback_def truncateFile_def)
next
  case False
  then obtain n x bs where p: "valid_path (abs_fs s) path n" "abs_fs s n = Some x" "a_content x = Bytes bs"
    and c: "unat sz \<le> 10240" "unat sz < length bs \<longrightarrow> length bs < 10240"
    using adm by (auto simp: admissible_def)
  have "blocks_for (unat sz) \<le> 10" using c(1) by (simp add: blocks_for_def)
  then have g: "can_grow (length bs) (unat sz) (length fs)" "128 \<le> length fs"
    using c(1) balanced_room(1) [OF bal] by (auto simp: can_grow_def)
  obtain s' fs' where "truncateFile m (SLASH # path) sz s = Some (0, s')" "consistent s' fs' nums"
      "abs_fs s' = a_update n (a_resize (unat sz)) (abs_fs s)" "abs_files s' = abs_files s" "stock s' fs' = stock s fs"
    using truncate_abs [OF con p, of sz m] c(2) g by blast
  then show ?thesis using trunc [OF p] by (intro refinesI [OF bal, where s' = "s'" and fs' = "fs'" and nums' = nums]) (auto simp: exec_def truncate_callback_def dom_a_update)
qed

lemma attribute_refines:
  assumes con: "consistent s fs nums" and bal: "balanced s fs nums"
  shows "admissible m (Chmod path mode) (abs_fs s) (abs_files s) \<Longrightarrow> refines m (Chmod path mode) s"
    and "admissible m (Chown path uid gid) (abs_fs s) (abs_files s) \<Longrightarrow> refines m (Chown path uid gid) s"
proof -
  assume "admissible m (Chmod path mode) (abs_fs s) (abs_files s)"
  then obtain n where p: "valid_path (abs_fs s) path n" and mode: "(S_IFDIR OR mode) AND 0xF000 = S_IFDIR"
    by (auto simp: admissible_def)
  obtain s' where "changeMode m (SLASH # path) mode s = Some (0, s')" "consistent s' fs nums"
      "abs_fs s' = a_update n (a_chmod mode) (abs_fs s)" "abs_files s' = abs_files s" "stock s' fs = stock s fs"
    using chmod_abs [OF con p mode] by blast
  then show "refines m (Chmod path mode) s" using chmod [OF p]
    by (intro refinesI [OF bal, where s' = "s'" and fs' = fs and nums' = nums]) (auto simp: exec_def chmod_callback_def dom_a_update)
next
  assume "admissible m (Chown path uid gid) (abs_fs s) (abs_files s)"
  then obtain n where p: "valid_path (abs_fs s) path n" and some: "uid \<noteq> - 1 \<or> gid \<noteq> - 1"
    by (auto simp: admissible_def)
  obtain s' where "changeOwner m (SLASH # path) uid gid s = Some (0, s')" "consistent s' fs nums"
      "abs_fs s' = a_update n (a_chown uid gid) (abs_fs s)" "abs_files s' = abs_files s" "stock s' fs = stock s fs"
    using chown_abs [OF con p some] by blast
  then show "refines m (Chown path uid gid) s" using chown [OF p]
    by (intro refinesI [OF bal, where s' = "s'" and fs' = fs and nums' = nums]) (auto simp: exec_def chown_callback_def dom_a_update)
qed

lemma open_refines:
  assumes con: "consistent s fs nums" and bal: "balanced s fs nums" and adm: "admissible m (Open path fi ctx) (abs_fs s) (abs_files s)"
  shows "refines m (Open path fi ctx) s"
proof (cases "missing_at (abs_fs s) path")
  case True
  obtain s' where "getFileINode m (SLASH # path) s = Some (None, s')" "idle s s'"
    using missing_atD [OF con True] by (rule path_missing)
  then show ?thesis
    using idle_abs [OF con] open_none [OF True] by (intro refinesI [OF bal, where s' = "s'" and fs' = fs and nums' = nums]) (auto simp: exec_def open_callback_def openFile_def)
next
  case False
  then obtain n k where p: "valid_path (abs_fs s) path n" "n \<noteq> 0" and few: "few_open (abs_files s)" and k: "next_fd (abs_files s) k"
    using adm by (auto simp: admissible_def)
  note x = valid_path_node [OF con p(1)]
  obtain s' where "openFile m (SLASH # path) fi ctx s = Some (0, fi\<lparr> fi_fh := of_nat k \<rparr>, s')" "consistent s' fs nums"
      "abs_fs s' = abs_fs s" "abs_files s' = (abs_files s)(k \<mapsto> opened n fi (a_size (a_content (node_of s n))))" "stock s' fs = stock s fs"
    using open_abs [OF con p x k open_room [OF con few]] unfolding opened_def by blast
  then show ?thesis using open_file [OF p(1) x k, of fi ctx] by (intro refinesI [OF bal, where s' = "s'" and fs' = fs and nums' = nums]) (auto simp: exec_def open_callback_def)
qed

lemma closed_descriptor:
  assumes "k < MAX_FILE_DESCRIPTORS" and "abs_files s k = None"
  shows "\<not> validEntry (fileTable s ! k)"
  using assms by (auto simp: abs_files_def split: if_splits)

lemma release_refines:
  assumes con: "consistent s fs nums" and bal: "balanced s fs nums" and adm: "admissible m (Release fi ctx) (abs_fs s) (abs_files s)"
  shows "refines m (Release fi ctx) s"
proof -
  let ?k = "unat (fi_fh fi)"
  have k: "fi_fh fi = of_nat ?k" by simp
  have k10: "?k < MAX_FILE_DESCRIPTORS" using adm by (simp add: admissible_def)
  note inv = getFileDescriptor_invalid [OF _ closed_descriptor [of ?k s]]
  show ?thesis
  proof (cases "abs_files s ?k")
    case None
    then have "closeFile fi ctx s = Some (0, s)" using inv [of "ctx_pid ctx"] k10 by (simp add: closeFile_def)
    then show ?thesis using con release_closed [where t = "abs_files s", OF k k10 None]
      by (intro refinesI [OF bal, where s' = s and fs' = fs and nums' = nums]) (auto simp: exec_def release_callback_def)
  next
    case (Some x)
    obtain s' where "closeFile fi ctx s = Some (0, s')" "consistent s' fs nums" "abs_fs s' = abs_fs s"
        "abs_files s' = (abs_files s)(?k := None)" "stock s' fs = stock s fs"
      using close_abs [OF con Some k] by blast
    then show ?thesis using release [where t = "abs_files s", OF k k10 Some]
      by (intro refinesI [OF bal, where s' = "s'" and fs' = fs and nums' = nums]) (auto simp: exec_def release_callback_def)
  qed
qed

lemma write_refines:
  assumes con: "consistent s fs nums" and bal: "balanced s fs nums" and adm: "admissible m (Write buf off fi ctx) (abs_fs s) (abs_files s)"
  shows "refines m (Write buf off fi ctx) s"
proof -
  let ?k = "unat (fi_fh fi)"
  have k: "fi_fh fi = of_nat ?k" by simp
  have k10: "?k < MAX_FILE_DESCRIPTORS" using adm by (simp add: admissible_def)
  note inv = getFileDescriptor_invalid [OF _ closed_descriptor [of ?k s]]
  show ?thesis
  proof (cases "abs_files s ?k")
    case None
    then have "writeToFile buf off fi ctx s = Some (- 1, s)" using inv [of "ctx_pid ctx"] k10 by (simp add: writeToFile_def)
    then show ?thesis using con write_closed [where t = "abs_files s", OF k k10 None]
      by (intro refinesI [OF bal, where s' = s and fs' = fs and nums' = nums]) (auto simp: exec_def write_callback_def)
  next
    case (Some x)
    then obtain y bs where y: "abs_fs s (o_inode x) = Some y" "a_content y = Bytes bs" "unat off = length bs"
      and le: "length bs + length buf \<le> 10240"
      using adm by (auto simp: admissible_def)
    then have "blocks_for (length bs + length buf) \<le> 10" by (simp add: blocks_for_def)
    then have g: "can_grow (length bs) (length bs + length buf) (length fs)"
      using le balanced_room(1) [OF bal] by (simp add: can_grow_def)
    have "off = of_nat (length bs)" unfolding y(3) [symmetric] by simp
    then obtain s' fs' where "writeToFile buf off fi ctx s = Some (int (length buf), s')" "consistent s' fs' nums"
        "abs_fs s' = a_update (o_inode x) (a_append buf) (abs_fs s)" "abs_files s' = (abs_files s)(?k \<mapsto> moved x (length buf))"
        "stock s' fs' = stock s fs"
      using write_abs [OF con Some k y(1,2) g] unfolding moved_def by blast
    then show ?thesis using write_file [where t = "abs_files s" and a = "abs_fs s", OF k k10 Some y]
      by (intro refinesI [OF bal, where s' = "s'" and fs' = "fs'" and nums' = nums]) (auto simp: exec_def write_callback_def dom_a_update)
  qed
qed

lemma read_refines:
  assumes con: "consistent s fs nums" and bal: "balanced s fs nums" and adm: "admissible m (Read sz fi ctx) (abs_fs s) (abs_files s)"
  shows "refines m (Read sz fi ctx) s"
proof -
  let ?k = "unat (fi_fh fi)"
  have k: "fi_fh fi = of_nat ?k" by simp
  have k10: "?k < MAX_FILE_DESCRIPTORS" and sz: "unat sz < 2 ^ 31" using adm by (simp_all add: admissible_def)
  note inv = getFileDescriptor_invalid [OF _ closed_descriptor [of ?k s]]
  show ?thesis
  proof (cases "abs_files s ?k")
    case None
    then have "readFile sz 0 fi ctx s = Some (- EBADF, [], s)" using inv [of "ctx_pid ctx"] k10 by (simp add: readFile_def)
    then show ?thesis using con read_closed [where t = "abs_files s", OF k k10 None]
      by (intro refinesI [OF bal, where s' = s and fs' = fs and nums' = nums]) (auto simp: exec_def read_callback_def)
  next
    case (Some x)
    then obtain y bs where y: "abs_fs s (o_inode x) = Some y" "a_content y = Bytes bs"
      using adm by (auto simp: admissible_def)
    obtain s' where "readFile sz 0 fi ctx s = Some (int (min (unat sz) (length bs)), take (unat sz) bs, s')" "consistent s' fs nums"
        "abs_fs s' = abs_fs s" "abs_files s' = (abs_files s)(?k \<mapsto> moved x (min (unat sz) (length bs)))"
        "stock s' fs = stock s fs"
      using read_abs [OF con Some k y sz] unfolding moved_def by blast
    then show ?thesis using read_file [where t = "abs_files s" and a = "abs_fs s" and sz = sz and ctx = ctx, OF k k10 Some y refl]
      by (intro refinesI [OF bal, where s' = "s'" and fs' = fs and nums' = nums]) (auto simp: exec_def read_callback_def min.commute)
  qed
qed

lemma accounted_removal:
  assumes "accounted s fs nums"
  shows "abs_fs s 65535 = None" and "128 \<le> length fs" and "nums \<noteq> []"
    and "a n \<noteq> None \<Longrightarrow> n \<noteq> 0 \<Longrightarrow> a = abs_fs s \<Longrightarrow> length nums < INODE_NOS_PER_BLOCK"
proof -
  have pool: "set nums \<union> dom (abs_fs s) = insert 0 (set first_inodes)" and con: "consistent s fs nums"
    and "nums \<noteq> []" using assms by (auto simp: accounted_def)
  then show "nums \<noteq> []" by simp
  have "unat x < 514" if "x \<in> set first_inodes" for x
    using that by (auto simp: first_inodes_def unat_word_ariths unat_of_nat)
  then have "(65535 :: size_t) \<notin> insert 0 (set first_inodes)" by fastforce
  then show "abs_fs s 65535 = None" unfolding pool [symmetric] by (simp add: domIff)
  show "128 \<le> length fs" using accounted_room(1) [OF assms] by simp
  assume n: "a n \<noteq> None" "n \<noteq> 0" "a = abs_fs s"
  have "{0, n} \<subseteq> dom (abs_fs s)" using n consistentD(10) [OF con] by (auto simp: closed_def folder_at_def split: option.splits)
  then have "2 \<le> card (dom (abs_fs s))" using card_mono [of "dom (abs_fs s)" "{0, n}"] n(2) by simp
  then show "length nums < INODE_NOS_PER_BLOCK" using accounted_room(2) [OF assms] by simp
qed

lemmas balanced_removal = accounted_removal [OF balancedD(1)]

lemma unlink_refines:
  assumes con: "consistent s fs nums" and bal: "balanced s fs nums" and adm: "admissible m (Unlink dir f) (abs_fs s) (abs_files s)"
  shows "refines m (Unlink dir f) s"
proof -
  consider "no_name (abs_fs s) dir f" | "missing_at (abs_fs s) dir" "in_dir dir f"
    | n c x bs where "may_remove (abs_fs s) (abs_files s) dir f n c" "abs_fs s c = Some x" "a_content x = Bytes bs" "few_open (abs_files s)" "clean_entry m"
    using adm unfolding admissible_def call.case by blast
  then show ?thesis
  proof cases
    case 1
    then obtain n u where u: "valid_path (abs_fs s) dir n" "in_dir dir f" "0 \<notin> set f" "folder_at (abs_fs s) n = Some u" "u f = None" "dom u \<noteq> {}"
      unfolding no_name_def by blast
    obtain s' where "unlinkFile m (SLASH # dir @ f) s = Some (- 1, s')" "idle s s'" using unlink_missing [OF con u] by blast
    then show ?thesis using idle_abs [OF con] unlink_none [OF 1] by (intro refinesI [OF bal, where s' = "s'" and fs' = fs and nums' = nums]) (auto simp: exec_def unlink_callback_def)
  next
    case 2
    obtain s' where "unlinkFile m (SLASH # dir @ f) s = Some (- ENOENT, s')" "idle s s'"
      using unlink_no_parent [OF missing_atD [OF con 2(1)] 2(2)] by blast
    then show ?thesis using idle_abs [OF con] unlink_no_dir [OF 2] by (intro refinesI [OF bal, where s' = "s'" and fs' = fs and nums' = nums]) (auto simp: exec_def unlink_callback_def)
  next
    case 3
    obtain u where u: "folder_at (abs_fs s) n = Some u" "u f = Some c" "c \<noteq> 0" using 3(1) by (auto simp: may_remove_def)
    have "sole_name (abs_fs s) c n f" using one_nameD(2) [OF _ 3(2,3) u(1,2)] bal by (simp add: balanced_def)
    from unlink_abs [OF con 3(1) this 3(5) [unfolded clean_entry_def] balanced_removal(1-3) [OF bal]
      balanced_removal(4) [OF bal _ u(3) refl] open_room [OF con 3(4)]] 3(2)
    obtain s' fs' nums' where "unlinkFile m (SLASH # dir @ f) s = Some (0, s')" "consistent s' fs' nums'"
      "abs_fs s' = a_unlink n f c (abs_fs s)" "abs_files s' = abs_files s" "stock s' fs' = stock s fs"
      "set nums' \<union> dom (abs_fs s') = set nums \<union> dom (abs_fs s)" "set nums \<subseteq> set nums'" by auto
    then show ?thesis using unlink [OF 3(1-3)] balanced_removal(3) [OF bal]
      by (intro refinesI [OF bal, where s' = "s'" and fs' = "fs'" and nums' = "nums'"]) (auto simp: exec_def unlink_callback_def)
  qed
qed

lemma rmdir_refines:
  assumes con: "consistent s fs nums" and bal: "balanced s fs nums" and adm: "admissible m (Rmdir dir f) (abs_fs s) (abs_files s)"
  shows "refines m (Rmdir dir f) s"
proof -
  obtain c x where p: "valid_path (abs_fs s) (dir @ f) c" and x: "abs_fs s c = Some x"
    and or: "dir_check c x < 0 \<or> (\<exists>n. may_remove (abs_fs s) (abs_files s) dir f n c) \<and> a_links x \<noteq> 1 \<and> few_open (abs_files s) \<and> clean_entry m"
    using adm unfolding admissible_def call.case by blast
  show ?thesis
  proof (cases "dir_check c x < 0")
    case True
    obtain s' where "idle s s'" "unlinkDir m (SLASH # dir @ f) False s = Some (dir_check c x, s')"
      using unlinkDir_checked [OF con p x, of m] True by auto
    then show ?thesis using idle_abs [OF con] rmdir_refused [OF p x True]
      by (intro refinesI [OF bal, where s' = "s'" and fs' = fs and nums' = nums]) (auto simp: exec_def unlink_dir_callback_def)
  next
    case False
    then obtain n where may: "may_remove (abs_fs s) (abs_files s) dir f n c" and few: "few_open (abs_files s)" and cl: "clean_entry m"
      and l: "a_links x \<noteq> 1" using or by blast
    have ok: "dir_check c x = 0" using False by (auto simp: dir_check_def split: if_splits content.splits)
    have c: "c \<noteq> 0" using may by (simp add: may_remove_def)
    have "sole_name (abs_fs s) c n f" using x l by (simp add: sole_name_def)
    from rmdir_abs [OF con p x ok may this cl [unfolded clean_entry_def] balanced_removal(1-3) [OF bal]
      balanced_removal(4) [OF bal _ c refl] open_room [OF con few]] x
    obtain s' fs' nums' where "unlinkDir m (SLASH # dir @ f) False s = Some (0, s')" "consistent s' fs' nums'"
      "abs_fs s' = a_unlink n f c (abs_fs s)" "abs_files s' = abs_files s" "stock s' fs' = stock s fs"
      "set nums' \<union> dom (abs_fs s') = set nums \<union> dom (abs_fs s)" "set nums \<subseteq> set nums'" by auto
    then show ?thesis using rmdir [OF may x ok l] balanced_removal(3) [OF bal]
      by (intro refinesI [OF bal, where s' = "s'" and fs' = "fs'" and nums' = "nums'"]) (auto simp: exec_def unlink_dir_callback_def)
  qed
qed

lemma readdir_refines:
  assumes con: "consistent s fs nums" and bal: "balanced s fs nums" and adm: "admissible m (Readdir path) (abs_fs s) (abs_files s)"
  shows "refines m (Readdir path) s"
proof (cases "missing_at (abs_fs s) path")
  case True
  obtain s' where "readDirectory m (SLASH # path) s = Some (- 1, [], s')" "idle s s'"
    using readDirectory_missing [OF missing_atD [OF con True]] by blast
  then show ?thesis using idle_abs [OF con] readdir_none [OF True]
    by (intro refinesI [OF bal, where s' = "s'" and fs' = fs and nums' = nums]) (auto simp: exec_def readdir_callback_def)
next
  case False
  then obtain n u where u: "valid_path (abs_fs s) path n" "folder_at (abs_fs s) n = Some u" using adm by (auto simp: admissible_def)
  obtain ns s' where "readDirectory m (SLASH # path) s = Some (0, ns, s')" "idle s s'" "lists_names u ns"
    using readDirectory_abs [OF con u] by blast
  then show ?thesis using idle_abs [OF con] readdir [OF u]
    by (intro refinesI [OF bal, where s' = "s'" and fs' = fs and nums' = nums]) (auto simp: exec_def readdir_callback_def)
qed

lemma rename_refines:
  assumes con: "consistent s fs nums" and bal: "balanced s fs nums" and adm: "admissible m (Rename dir f dir' g) (abs_fs s) (abs_files s)"
  shows "refines m (Rename dir f dir' g) s"
proof (cases "missing_at (abs_fs s) (dir @ f)")
  case True
  obtain s' where "renameFile m (SLASH # dir @ f) (SLASH # dir' @ g) s = Some (- ENOENT, s')" "idle s s'"
    using rename_missing [OF missing_atD [OF con True]] by blast
  then show ?thesis using idle_abs [OF con] rename_none [OF True]
    by (intro refinesI [OF bal, where s' = "s'" and fs' = fs and nums' = nums]) (auto simp: exec_def rename_callback_def)
next
  case False
  then obtain k n c where may: "may_rename (abs_fs s) (abs_files s) dir f k dir' g n c" and few: "few_open (abs_files s)" and cl: "clean_entry m"
    using adm unfolding admissible_def call.case by blast
  note acc = balancedD(1) [OF bal] and closed = consistentD(10) [OF con]
  obtain x u where c: "c \<noteq> n" "c \<noteq> 0" "opens (abs_files s) c = {}" and x: "abs_fs s c = Some x" "a_links x \<noteq> - 1" "a_links x \<noteq> 0"
    and add: "may_add (abs_fs s) dir' g n" and u: "folder_at (abs_fs s) k = Some u" "u f = Some c" "valid_path (abs_fs s) dir k" "in_dir dir f" "f \<noteq> []"
      "0 \<notin> set f"
    using may by (auto simp: may_rename_def may_remove_def)
  have path: "valid_path (abs_fs s) (dir @ f) c"
    using u by (simp add: valid_path_def names_in_dir folders_on_append path_to_append)
  have "fs \<noteq> []" using balanced_room(1) [OF bal] by auto
  from rename_link_abs [OF con path add this c x(1,2) open_room [OF con few], of m] obtain s1 fs1 where
    run: "renameFile m (SLASH # dir @ f) (SLASH # dir' @ g) s =
      do { (r, s) \<leftarrow> unlinkFile m (SLASH # dir @ f) s1; if r \<noteq> 0 then Some (- 1, s) else Some (0, s) }"
    and s1: "consistent s1 fs1 nums" "abs_fs s1 = a_link n g c (abs_fs s)" "abs_files s1 = abs_files s" "stock s1 fs1 = stock s fs"
    and two: "2 \<le> card (free_nodes s1)" by blast
  have acc1: "accounted s1 fs1 nums" using acc s1 by (simp add: accounted_def dom_a_link)
  have may1: "may_remove (abs_fs s1) (abs_files s1) dir f k c" unfolding s1(2,3) by (rule link_may_remove [OF may closed])
  obtain y v where y: "abs_fs s n = Some y" "a_content y = Folder v" using add folder_atD by (fastforce simp: may_add_def)
  have xc: "abs_fs s1 c = Some (x\<lparr> a_links := a_links x + 1 \<rparr>)" unfolding s1(2) a_link_eq [OF y x(1)] by simp
  have "sole_name (abs_fs s1) c k f" using xc x(3) by (simp add: sole_name_def)
  from unlink_abs [OF s1(1) may1 this cl [unfolded clean_entry_def] accounted_removal(1-3) [OF acc1]
      accounted_removal(4) [OF acc1 _ c(2) refl] two] xc
  obtain s' fs' nums' where s': "unlinkFile m (SLASH # dir @ f) s1 = Some (0, s')" "consistent s' fs' nums'"
    "abs_fs s' = a_rename k f n g c (abs_fs s)" "abs_files s' = abs_files s" "stock s' fs' = stock s fs"
    "set nums' \<union> dom (abs_fs s') = set nums \<union> dom (abs_fs s)" "set nums \<subseteq> set nums'"
    unfolding s1(2,3,4) dom_a_link a_rename_def by auto
  then show ?thesis using rename [OF may] balanced_removal(3) [OF bal] run
    by (intro refinesI [OF bal, where s' = "s'" and fs' = "fs'" and nums' = "nums'"]) (auto simp: exec_def rename_callback_def)
qed

lemmas call_refines = getattr_refines create_refines mkdir_refines trunc_refines attribute_refines open_refines release_refines
  write_refines read_refines unlink_refines rmdir_refines readdir_refines rename_refines

lemma step_refines:
  assumes bal: "balanced s fs nums" and adm: "admissible m c (abs_fs s) (abs_files s)"
  shows "refines m c s"
  using adm by (cases c) (simp_all add: call_refines [OF balancedD(2) [OF bal] bal])

section \<open>Reachable states\<close>

text \<open>The file system is formatted and started on a device, then serves admissible calls.\<close>

inductive reachable :: "mem_env \<Rightarrow> fs \<Rightarrow> bool" for m where
  mount: "host dn = Some content \<Longrightarrow> 31457280 * BLOCK_SIZE \<le> length content \<Longrightarrow> length junk = BLOCK_SIZE \<Longrightarrow>
    length dn < 20 \<Longrightarrow> take 6 prog' \<noteq> ''fsname'' \<Longrightarrow>
    exec_mkfs_main junk [prog, dn] (static_dsk host now) = Some (0, d) \<Longrightarrow>
    main_init junk' k [prog', ''fsname='' @ dn] (static_fs (host(dn \<mapsto> device d)) now') = Some (True, s) \<Longrightarrow> reachable m s"
| call: "reachable m s \<Longrightarrow> admissible m c (abs_fs s) (abs_files s) \<Longrightarrow> exec m c s = Some (r, s') \<Longrightarrow> reachable m s'"

lemma fresh_balanced:
  assumes "idle s s" "\<forall>n. refs s n = 0" "free_list (disk s) (block_range 16388 31457280)" "inode_stack (disk s) first_inodes"
    "\<forall>n < NUM_OF_INODES. inode_view s n = fresh_inode x n" "wf_table (fileTable s)" "\<forall>e \<in> set (fileTable s). \<not> validEntry e"
  shows "balanced s (block_range 16388 31457280) first_inodes"
  using fresh_consistent [OF assms] by (simp add: balanced_def accounted_def one_name_def folder_at_def) (simp add: first_inodes_def)

lemma reachable_balanced: "reachable m s \<Longrightarrow> \<exists>fs nums. balanced s fs nums"
proof (induction rule: reachable.induct)
  case (mount host dn content junk prog' prog now d junk' k now' s)
  from mount_device [of host dn content junk prog', OF mount(1-5), of prog now junk' k now'] obtain x where
    "idle s s" "\<forall>n. refs s n = 0" "free_list (disk s) (block_range 16388 31457280)" "inode_stack (disk s) first_inodes"
    "\<forall>n < NUM_OF_INODES. inode_view s n = fresh_inode x n" "wf_table (fileTable s)" "\<forall>e \<in> set (fileTable s). \<not> validEntry e"
    using mount(6,7) by auto
  from fresh_balanced [OF this] show ?case by blast
next
  case (call s c r s')
  then obtain fs nums where bal: "balanced s fs nums" by blast
  show ?case using step_refines [OF bal call.hyps(2)] call.hyps(3) by (auto simp: refines_def)
qed

lemma mount_named:
  assumes "host dn = Some content" "31457280 * BLOCK_SIZE \<le> length content" "length junk = BLOCK_SIZE" "length dn < 20" "take 6 prog' \<noteq> ''fsname''"
    "exec_mkfs_main junk [prog, dn] (static_dsk host now) = Some (0, d)"
    "main_init junk' k [prog', ''fsname='' @ dn] (static_fs (host(dn \<mapsto> device d)) now') = Some (True, s)"
  shows "named (abs_fs s)"
proof -
  from mount_device [of host dn content junk prog', OF assms(1-5), of prog now junk' k now'] obtain x where
    "idle s s" "\<forall>n. refs s n = 0" "free_list (disk s) (block_range 16388 31457280)" "inode_stack (disk s) first_inodes"
    "\<forall>n < NUM_OF_INODES. inode_view s n = fresh_inode x n" "wf_table (fileTable s)" "\<forall>e \<in> set (fileTable s). \<not> validEntry e"
    using assms(6,7) by auto
  from fresh_consistent [OF this] show ?thesis by (simp add: named_def)
qed

lemma reachable_named: "reachable m s \<Longrightarrow> named (abs_fs s)"
proof (induction rule: reachable.induct)
  case (mount host dn content junk prog' prog now d junk' k now' s)
  then show ?case by (rule mount_named)
next
  case (call s c r s')
  obtain fs nums where bal: "balanced s fs nums" using reachable_balanced [OF call.hyps(1)] by blast
  have "astep c (abs_fs s) (abs_files s) r (abs_fs s') (abs_files s')"
    using step_refines [OF bal call.hyps(2)] call.hyps(3) by (auto simp: refines_def)
  then show ?case using call.IH balancedD(2,3) [OF bal] consistentD(10) by (metis astep_named)
qed

section \<open>A file system to start from\<close>

abbreviation empty_fs :: afs where
  "empty_fs \<equiv> [0 \<mapsto> \<lparr> a_mode = root_mode, a_uid = 0, a_gid = 0, a_links = 0, a_content = Folder Map.empty \<rparr>]"

lemma mounted:
  obtains s where "reachable m s" and "abs_fs s = empty_fs" and "abs_files s = Map.empty"
proof -
  let ?host = "[''d'' \<mapsto> replicate (31457280 * BLOCK_SIZE) (0 :: byte)]"
  obtain d s x where run: "exec_mkfs_main (replicate BLOCK_SIZE 0) ['''', ''d''] (static_dsk ?host 0) = Some (0, d)"
      "main_init [] 0 ['''', ''fsname='' @ ''d''] (static_fs (?host(''d'' \<mapsto> device d)) 0) = Some (True, s)"
    and s: "idle s s" "\<forall>n. refs s n = 0" "free_list (disk s) (block_range 16388 31457280)" "inode_stack (disk s) first_inodes"
      "\<forall>n < NUM_OF_INODES. inode_view s n = fresh_inode x n" "wf_table (fileTable s)" "\<forall>e \<in> set (fileTable s). \<not> validEntry e"
    using mount_device [of ?host "''d''" "replicate (31457280 * BLOCK_SIZE) 0" "replicate BLOCK_SIZE 0" "''''" "''''" 0 "[]" 0 0] by auto
  have c: "31457280 * BLOCK_SIZE \<le> length (replicate (31457280 * BLOCK_SIZE) (0 :: byte))" by (simp only: length_replicate)
  have "reachable m s" by (rule reachable.mount [OF _ c _ _ _ run]) simp_all
  then show thesis using that fresh_consistent [OF s] by blast
qed

lemma may_add_root:
  assumes "SLASH \<notin> set f" and "f \<noteq> []" and "length f < FILENAME_SIZE" and "0 \<notin> set f"
  shows "may_add empty_fs [] f 0"
  using assms by (simp add: may_add_def valid_path_def in_dir_def folder_at_def)

text \<open>One step of the program and of the abstract machine.\<close>

lemma reachable_step:
  assumes "reachable m s" and "admissible m c (abs_fs s) (abs_files s)"
  shows "\<exists>r s'. exec m c s = Some (r, s') \<and> reachable m s' \<and> astep c (abs_fs s) (abs_files s) r (abs_fs s') (abs_files s')"
proof -
  obtain fs nums where "balanced s fs nums" using reachable_balanced [OF assms(1)] by blast
  from step_refines [OF this assms(2)] show ?thesis using reachable.call [OF assms] by (auto simp: refines_def)
qed

section \<open>Sequences of calls\<close>

lemma next_fd_unique: "next_fd t k \<Longrightarrow> next_fd t k' \<Longrightarrow> k = k'"
  unfolding next_fd_def by (metis linorder_neqE_nat)

lemma valid_path_unique: "valid_path a path n \<Longrightarrow> valid_path a path k \<Longrightarrow> n = k"
  by (simp add: valid_path_def)

lemma valid_path_present: "valid_path a path n \<Longrightarrow> \<not> missing_at a path"
  by (simp add: valid_path_def missing_at_def)

lemma fd_of_nat:
  assumes "(of_nat k :: size_t) = of_nat j" and "k < MAX_FILE_DESCRIPTORS" and "j < MAX_FILE_DESCRIPTORS"
  shows "k = j"
proof -
  have "unat (of_nat k :: size_t) = k" by (rule unat_of_nat_small) (use assms(2) in simp)
  moreover have "unat (of_nat j :: size_t) = j" by (rule unat_of_nat_small) (use assms(3) in simp)
  ultimately show ?thesis using assms(1) by metis
qed

text \<open>What the program does on a call is what the abstract machine does, where that is determined.\<close>

lemma step_create:
  assumes r: "reachable m s" and add: "may_add (abs_fs s) dir f n" and room: "card (dom (abs_fs s)) < 512" "few_open (abs_files s)"
    and k: "next_fd (abs_files s) k"
  obtains s' i where "exec m (Create dir f mode fi ctx) s = Some (Handle 0 (of_nat k), s')" and "reachable m s'" and "abs_fs s i = None"
    and "abs_fs s' = a_create n f i (new_file mode ctx) (abs_fs s)" and "abs_files s' = (abs_files s)(k \<mapsto> opened i fi 0)"
proof -
  have "admissible m (Create dir f mode fi ctx) (abs_fs s) (abs_files s)" using assms by (auto simp: admissible_def)
  from reachable_step [OF r this] obtain w s' where s': "exec m (Create dir f mode fi ctx) s = Some (w, s')" "reachable m s'"
    "astep (Create dir f mode fi ctx) (abs_fs s) (abs_files s) w (abs_fs s') (abs_files s')" by blast
  from s'(3) show thesis
  proof (cases rule: astep.cases)
    case (create n' i k')
    have "n' = n" using create(4) add valid_path_unique by (auto simp: may_add_def)
    then show thesis using that [OF _ s'(2) create(5)] s'(1) create next_fd_unique [OF k create(6)] by simp
  qed
qed

lemma step_write:
  assumes r: "reachable m s" and k: "fi_fh fi = of_nat k" "k < MAX_FILE_DESCRIPTORS" "abs_files s k = Some x"
    and y: "abs_fs s (o_inode x) = Some y" "a_content y = Bytes bs" and le: "length bs + length buf \<le> 10240"
  obtains s' where "exec m (Write buf (of_nat (length bs)) fi ctx) s = Some (Code (int (length buf)), s')" and "reachable m s'"
    and "abs_fs s' = a_update (o_inode x) (a_append buf) (abs_fs s)" and "abs_files s' = (abs_files s)(k \<mapsto> moved x (length buf))"
proof -
  let ?c = "Write buf (of_nat (length bs)) fi ctx"
  have u: "unat (fi_fh fi) = k" using k(1,2) by (simp add: unat_of_nat_small)
  have "unat (of_nat (length bs) :: size_t) = length bs" using le by (simp add: unat_of_nat_small)
  then have "admissible m ?c (abs_fs s) (abs_files s)" using k(2,3) y le by (simp add: admissible_def u)
  from reachable_step [OF r this] obtain w s' where s': "exec m ?c s = Some (w, s')" "reachable m s'"
    "astep ?c (abs_fs s) (abs_files s) w (abs_fs s') (abs_files s')" by blast
  from s'(3) show thesis
  proof (cases rule: astep.cases)
    case (write_file k' x' y' bs')
    have "k' = k" by (rule fd_of_nat) (use write_file k in simp_all)
    then show thesis using that [OF _ s'(2)] s'(1) write_file k(3) by simp
  next
    case (write_closed k')
    have "k' = k" by (rule fd_of_nat) (use write_closed k in simp_all)
    then show thesis using write_closed k(3) by simp
  qed
qed

lemma step_read:
  assumes r: "reachable m s" and k: "fi_fh fi = of_nat k" "k < MAX_FILE_DESCRIPTORS" "abs_files s k = Some x"
    and y: "abs_fs s (o_inode x) = Some y" "a_content y = Bytes bs" and sz: "unat sz < 2 ^ 31"
  obtains s' where "exec m (Read sz fi ctx) s = Some (Data (int (length (take (unat sz) bs))) (take (unat sz) bs), s')"
    and "reachable m s'" and "abs_fs s' = abs_fs s"
proof -
  let ?c = "Read sz fi ctx"
  have u: "unat (fi_fh fi) = k" using k(1,2) by (simp add: unat_of_nat_small)
  have "admissible m ?c (abs_fs s) (abs_files s)" using k(2,3) y sz by (simp add: admissible_def u)
  from reachable_step [OF r this] obtain w s' where s': "exec m ?c s = Some (w, s')" "reachable m s'"
    "astep ?c (abs_fs s) (abs_files s) w (abs_fs s') (abs_files s')" by blast
  from s'(3) show thesis
  proof (cases rule: astep.cases)
    case (read_file k' x' y' bs' bs'')
    have "k' = k" by (rule fd_of_nat) (use read_file k in simp_all)
    then show thesis using that [OF _ s'(2)] s'(1) read_file k(3) y by simp
  next
    case (read_closed k')
    have "k' = k" by (rule fd_of_nat) (use read_closed k in simp_all)
    then show thesis using read_closed k(3) by simp
  qed
qed

lemma step_getattr:
  assumes r: "reachable m s" and p: "valid_path (abs_fs s) path n" and x: "abs_fs s n = Some x"
  obtains st s' where "exec m (Getattr path) s = Some (Attr 0 st, s')" and "reachable m s'" and "shows_attrs x st" and "abs_fs s' = abs_fs s"
proof -
  have "admissible m (Getattr path) (abs_fs s) (abs_files s)" using p by (auto simp: admissible_def)
  from reachable_step [OF r this] obtain w s' where s': "exec m (Getattr path) s = Some (w, s')" "reachable m s'"
    "astep (Getattr path) (abs_fs s) (abs_files s) w (abs_fs s') (abs_files s')" by blast
  from s'(3) show thesis
  proof (cases rule: astep.cases)
    case (getattr n' x' st)
    then show thesis using that [OF _ s'(2)] s'(1) valid_path_unique [OF p] x by force
  next
    case getattr_none
    then show thesis using valid_path_present [OF p] by simp
  qed
qed

lemma a_update_path:
  assumes "valid_path a path k" and "a n = Some x" and "a_content (f x) = Bytes bs'" and "a_content x = Bytes bs"
  shows "valid_path (a_update n f a) path k"
proof -
  have "folder_at (a_update n f a) = folder_at a"
    using assms(2-4) by (auto simp: a_update_def folder_at_def fun_eq_iff)
  then have "path_to (a_update n f a) cs j = path_to a cs j \<and> folders_on (a_update n f a) cs j = folders_on a cs j" for cs j
    by (induction cs arbitrary: j) (auto split: option.splits)
  then show ?thesis using assms(1) by (simp add: valid_path_def)
qed

lemma session_steps:
  assumes r: "reachable m s" and add: "may_add (abs_fs s) dir f n" and room: "card (dom (abs_fs s)) < 512" "few_open (abs_files s)"
    and k: "next_fd (abs_files s) k" and buf: "length buf \<le> 10240" "length buf \<le> unat sz" "unat sz < 2 ^ 31"
  shows "\<exists>s1 s2 s3 s4 st. exec m (Create dir f mode fi ctx) s = Some (Handle 0 (of_nat k), s1) \<and>
    exec m (Write buf 0 (fi\<lparr> fi_fh := of_nat k \<rparr>) ctx) s1 = Some (Code (int (length buf)), s2) \<and>
    exec m (Read sz (fi\<lparr> fi_fh := of_nat k \<rparr>) ctx) s2 = Some (Data (int (length buf)) buf, s3) \<and>
    exec m (Getattr (dir @ f)) s3 = Some (Attr 0 st, s4) \<and> reachable m s4 \<and>
    st_mode st = mode \<and> st_uid st = ctx_uid ctx \<and> st_gid st = ctx_gid ctx \<and> unat (st_size st) = length buf"
proof -
  let ?fi = "fi\<lparr> fi_fh := of_nat k \<rparr>" and ?x = "new_file mode ctx"
  have k0: "fi_fh ?fi = of_nat k" "k < MAX_FILE_DESCRIPTORS" using k by (simp_all add: next_fd_def)
  obtain s1 i where s1: "exec m (Create dir f mode fi ctx) s = Some (Handle 0 (of_nat k), s1)" "reachable m s1" "abs_fs s i = None"
    "abs_fs s1 = a_create n f i ?x (abs_fs s)" "abs_files s1 = (abs_files s)(k \<mapsto> opened i fi 0)"
    using r add room k by (rule step_create)
  note P = created_path [OF add s1(3), of ?x]
  have f1: "abs_files s1 k = Some (opened i fi 0)" "o_inode (opened i fi 0) = i" using s1(5) by (simp_all add: opened_def)
  have x1: "abs_fs s1 (o_inode (opened i fi 0)) = Some ?x" "a_content ?x = Bytes []" using P(2) f1(2) s1(4) by (simp_all add: new_file_def)
  obtain s2 where s2: "exec m (Write buf (of_nat (length [])) ?fi ctx) s1 = Some (Code (int (length buf)), s2)" "reachable m s2"
    "abs_fs s2 = a_update i (a_append buf) (abs_fs s1)" "abs_files s2 = (abs_files s1)(k \<mapsto> moved (opened i fi 0) (length buf))"
    using step_write [OF s1(2) k0 f1(1) x1, of buf ctx] buf(1) f1(2) by auto
  let ?y = "a_append buf ?x"
  have f2: "abs_files s2 k = Some (moved (opened i fi 0) (length buf))" "o_inode (moved (opened i fi 0) (length buf)) = i"
    using s2(4) f1(2) by (simp_all add: moved_def)
  have x2: "abs_fs s2 (o_inode (moved (opened i fi 0) (length buf))) = Some ?y" and y: "a_content ?y = Bytes buf"
    using x1 f1(2) f2(2) s2(3) by (simp_all add: a_update_def a_append_def)
  obtain s3 where s3: "exec m (Read sz ?fi ctx) s2 = Some (Data (int (length (take (unat sz) buf))) (take (unat sz) buf), s3)"
    "reachable m s3" "abs_fs s3 = abs_fs s2"
    using step_read [OF s2(2) k0 f2(1) x2 y buf(3), of ctx] .
  have p3: "valid_path (abs_fs s3) (dir @ f) i"
    unfolding s3(3) s2(3) by (rule a_update_path [where x = ?x]) (use P s1(4) x1(2) y in simp_all)
  have x3: "abs_fs s3 i = Some ?y" using x2 f2(2) s3(3) by simp
  obtain st s4 where s4: "exec m (Getattr (dir @ f)) s3 = Some (Attr 0 st, s4)" "reachable m s4" "shows_attrs ?y st"
    using s3(2) p3 x3 by (rule step_getattr)
  have "st_mode st = mode" "st_uid st = ctx_uid ctx" "st_gid st = ctx_gid ctx" "unat (st_size st) = length buf"
    using s4(3) by (simp_all add: shows_attrs_def a_append_def new_file_def a_size_def)
  then show ?thesis using s1(1) s2(1) s3(1) s4(1,2) buf(2) by (intro exI [of _ s1] exI [of _ s2] exI [of _ s3] exI [of _ s4] exI [of _ st]) simp
qed

lemma step_release:
  assumes r: "reachable m s" and k: "fi_fh fi = of_nat k" "k < MAX_FILE_DESCRIPTORS" "abs_files s k = Some x"
  obtains s' where "exec m (Release fi ctx) s = Some (Code 0, s')" and "reachable m s'"
    and "abs_fs s' = abs_fs s" and "abs_files s' = (abs_files s)(k := None)"
proof -
  have "unat (fi_fh fi) = k" using k(1,2) by (simp add: unat_of_nat_small)
  then have "admissible m (Release fi ctx) (abs_fs s) (abs_files s)" using k(2) by (simp add: admissible_def)
  from reachable_step [OF r this] obtain w s' where s': "exec m (Release fi ctx) s = Some (w, s')" "reachable m s'"
    "astep (Release fi ctx) (abs_fs s) (abs_files s) w (abs_fs s') (abs_files s')" by blast
  from s'(3) show thesis
  proof (cases rule: astep.cases)
    case (release k' x')
    have "k' = k" by (rule fd_of_nat) (use release k in simp_all)
    then show thesis using that [OF _ s'(2)] s'(1) release by simp
  next
    case (release_closed k')
    have "k' = k" by (rule fd_of_nat) (use release_closed k in simp_all)
    then show thesis using release_closed k(3) by simp
  qed
qed

lemma may_remove_present:
  assumes "may_remove a t dir f n c"
  shows "\<not> no_name a dir f" and "\<not> missing_at a dir" and "may_remove a t dir f n' c' \<Longrightarrow> n' = n \<and> c' = c"
  using assms by (auto simp: may_remove_def no_name_def valid_path_def missing_at_def)

lemma step_unlink:
  assumes r: "reachable m s" and may: "may_remove (abs_fs s) (abs_files s) dir f n c"
    and x: "abs_fs s c = Some x" "a_content x = Bytes bs" and few: "few_open (abs_files s)" and cl: "clean_entry m"
  obtains s' where "exec m (Unlink dir f) s = Some (Code 0, s')" and "reachable m s'"
    and "abs_fs s' = a_unlink n f c (abs_fs s)" and "abs_files s' = abs_files s"
proof -
  have "admissible m (Unlink dir f) (abs_fs s) (abs_files s)" using assms by (auto simp: admissible_def)
  from reachable_step [OF r this] obtain w s' where s': "exec m (Unlink dir f) s = Some (w, s')" "reachable m s'"
    "astep (Unlink dir f) (abs_fs s) (abs_files s) w (abs_fs s') (abs_files s')" by blast
  note M = may_remove_present [OF may]
  from s'(3) show thesis
  proof (cases rule: astep.cases)
    case (unlink n' c' x' bs')
    then show thesis using that [OF _ s'(2)] s'(1) M(3) by blast
  qed (use M(1,2) in simp_all)
qed

lemma step_getattr_none:
  assumes r: "reachable m s" and p: "missing_at (abs_fs s) path"
  obtains s' where "exec m (Getattr path) s = Some (Attr (- ENOENT) zero_stat, s')" and "reachable m s'" and "abs_fs s' = abs_fs s"
proof -
  have "admissible m (Getattr path) (abs_fs s) (abs_files s)" using p by (auto simp: admissible_def)
  from reachable_step [OF r this] obtain w s' where s': "exec m (Getattr path) s = Some (w, s')" "reachable m s'"
    "astep (Getattr path) (abs_fs s) (abs_files s) w (abs_fs s') (abs_files s')" by blast
  from s'(3) show thesis
  proof (cases rule: astep.cases)
    case (getattr n' x' st)
    then show thesis using valid_path_present p by blast
  next
    case getattr_none
    then show thesis using that [OF _ s'(2)] s'(1) by simp
  qed
qed

text \<open>A new file, written to and removed, leaves the abstract file system as it was.\<close>

lemma may_add_missing: "may_add a dir f n \<Longrightarrow> missing_at a (dir @ f)"
  by (auto simp: may_add_def missing_at_def valid_path_def names_in_dir folders_on_append path_to_append)

lemma create_unlink:
  assumes add: "may_add a dir f n" and i: "a i = None"
  shows "a_unlink n f i (a_update i (a_append buf) (a_create n f i (new_file mode ctx) a)) = a"
proof -
  obtain t y where t: "a n = Some y" "a_content y = Folder t" "t f = None"
    using add folder_atD by (fastforce simp: may_add_def)
  have ni: "n \<noteq> i" using t(1) i by auto
  let ?y = "y\<lparr> a_content := Folder (t(f \<mapsto> i)) \<rparr>" and ?x = "a_append buf (new_file mode ctx)"
  have e: "a_update i (a_append buf) (a_create n f i (new_file mode ctx) a) = a(n \<mapsto> ?y, i \<mapsto> ?x)"
    using t by (simp add: a_create_def a_update_def)
  have "a_links ?x = 1" by (simp add: a_append_def new_file_def)
  then have "a_unlink n f i (a(n \<mapsto> ?y, i \<mapsto> ?x)) = a(n \<mapsto> y\<lparr> a_content := Folder ((t(f \<mapsto> i))(f := None)) \<rparr>, i := None)"
    using ni by (simp add: a_unlink_def fun_upd_twist)
  also have "(t(f \<mapsto> i))(f := None) = t" using t(3) by auto
  also have "y\<lparr> a_content := Folder t \<rparr> = y" using t(2) by simp
  also have "a(n \<mapsto> y, i := None) = a" using t(1) i by (auto simp: fun_eq_iff)
  finally show ?thesis unfolding e .
qed

lemma unused_number:
  assumes "reachable m s" and "abs_fs s i = None"
  shows "i \<noteq> 0 \<and> opens (abs_files s) i = {}"
proof -
  obtain fs nums where "consistent s fs nums" using reachable_balanced [OF assms(1)] balancedD(2) by blast
  note C = consistentD(10,11) [OF this]
  have "i \<noteq> 0" using C(1) assms(2) by (auto simp: closed_def folder_at_def)
  moreover have "\<not> used s i" using assms(2) by (auto simp: abs_fs_def split: if_splits)
  ultimately show ?thesis using C(2) by (auto simp: opens_def tabled_def)
qed

lemma created_may_remove:
  assumes add: "may_add a dir f n" and i: "a i = None" "i \<noteq> 0" and room: "folder_at a n = Some u" "card (dom u) < 159"
    and op: "opens t i = {}"
  shows "may_remove (a_create n f i x a) t dir f n i"
proof -
  obtain y where y: "a n = Some y" "a_content y = Folder u" using folder_atD [OF room(1)] by blast
  have p: "in_dir dir f" "0 \<notin> set f" using add by (auto simp: may_add_def)
  have ni: "n \<noteq> i" using y(1) i(1) by auto
  have "folder_at (a_create n f i x a) n = Some (u(f \<mapsto> i))" using ni y by (simp add: a_create_def folder_at_def)
  moreover have "card (dom (u(f \<mapsto> i))) < 160" using room(2) by (cases "finite (dom u)") (simp_all add: card_insert_if)
  ultimately show ?thesis using p i(2) ni op created_path(3) [OF add i(1)] by (simp add: may_remove_def)
qed

lemma may_remove_update:
  assumes "may_remove a t dir f n c" and "a i = Some x" and "a_content (g x) = Bytes bs'" and "a_content x = Bytes bs"
  shows "may_remove (a_update i g a) t dir f n c"
proof -
  have "folder_at (a_update i g a) n = folder_at a n" using assms(2-4) by (auto simp: a_update_def folder_at_def)
  then show ?thesis using assms a_update_path [of a dir n i x g] by (simp add: may_remove_def)
qed

lemma removal_steps:
  assumes r: "reachable m s" and add: "may_add (abs_fs s) dir f n" and room: "card (dom (abs_fs s)) < 512" "few_open (abs_files s)"
    and u: "folder_at (abs_fs s) n = Some u" "card (dom u) < 159" and cl: "clean_entry m"
    and k: "next_fd (abs_files s) k" and buf: "length buf \<le> 10240"
  shows "\<exists>s1 s2 s3 s4 s5. exec m (Create dir f mode fi ctx) s = Some (Handle 0 (of_nat k), s1) \<and>
    exec m (Write buf 0 (fi\<lparr> fi_fh := of_nat k \<rparr>) ctx) s1 = Some (Code (int (length buf)), s2) \<and>
    exec m (Release (fi\<lparr> fi_fh := of_nat k \<rparr>) ctx) s2 = Some (Code 0, s3) \<and>
    exec m (Unlink dir f) s3 = Some (Code 0, s4) \<and> exec m (Getattr (dir @ f)) s4 = Some (Attr (- ENOENT) zero_stat, s5) \<and>
    reachable m s4 \<and> abs_fs s4 = abs_fs s \<and> abs_files s4 = abs_files s"
proof -
  let ?fi = "fi\<lparr> fi_fh := of_nat k \<rparr>" and ?x = "new_file mode ctx"
  have k0: "fi_fh ?fi = of_nat k" "k < MAX_FILE_DESCRIPTORS" "abs_files s k = None" using k by (simp_all add: next_fd_def)
  obtain s1 i where s1: "exec m (Create dir f mode fi ctx) s = Some (Handle 0 (of_nat k), s1)" "reachable m s1" "abs_fs s i = None"
    "abs_fs s1 = a_create n f i ?x (abs_fs s)" "abs_files s1 = (abs_files s)(k \<mapsto> opened i fi 0)"
    using r add room k by (rule step_create)
  have f1: "abs_files s1 k = Some (opened i fi 0)" "o_inode (opened i fi 0) = i" using s1(5) by (simp_all add: opened_def)
  have x1: "abs_fs s1 (o_inode (opened i fi 0)) = Some ?x" "a_content ?x = Bytes []"
    using created_path(2) [OF add s1(3)] f1(2) s1(4) by (simp_all add: new_file_def)
  obtain s2 where s2: "exec m (Write buf (of_nat (length [])) ?fi ctx) s1 = Some (Code (int (length buf)), s2)" "reachable m s2"
    "abs_fs s2 = a_update i (a_append buf) (abs_fs s1)" "abs_files s2 = (abs_files s1)(k \<mapsto> moved (opened i fi 0) (length buf))"
    using step_write [OF s1(2) k0(1,2) f1(1) x1, of buf ctx] buf(1) f1(2) by auto
  obtain s3 where s3: "exec m (Release ?fi ctx) s2 = Some (Code 0, s3)" "reachable m s3" "abs_fs s3 = abs_fs s2"
    "abs_files s3 = (abs_files s2)(k := None)"
    by (rule step_release [OF s2(2) k0(1,2), where x = "moved (opened i fi 0) (length buf)"]) (simp add: s2(4))
  have t3: "abs_files s3 = abs_files s" using s3(4) s2(4) s1(5) k0(3) by (simp add: fun_upd_idem)
  have i: "i \<noteq> 0" "opens (abs_files s) i = {}" using unused_number [OF r s1(3)] by auto
  have may: "may_remove (abs_fs s3) (abs_files s3) dir f n i"
    unfolding s3(3) s2(3) s1(4) t3
    by (rule may_remove_update [OF created_may_remove [OF add s1(3) i(1) u i(2)] created_path(2) [OF add s1(3)]])
      (simp_all add: new_file_def a_append_def)
  have x3: "abs_fs s3 i = Some (a_append buf ?x)" "a_content (a_append buf ?x) = Bytes buf"
    using x1 f1(2) s2(3) s3(3) by (simp_all add: a_update_def a_append_def)
  obtain s4 where s4: "exec m (Unlink dir f) s3 = Some (Code 0, s4)" "reachable m s4"
    "abs_fs s4 = a_unlink n f i (abs_fs s3)" "abs_files s4 = abs_files s3"
    by (rule step_unlink [OF s3(2) may x3 _ cl]) (use room(2) t3 in simp)
  have a4: "abs_fs s4 = abs_fs s" unfolding s4(3) s3(3) s2(3) s1(4) by (rule create_unlink [OF add s1(3)])
  obtain s5 where "exec m (Getattr (dir @ f)) s4 = Some (Attr (- ENOENT) zero_stat, s5)"
    by (rule step_getattr_none [OF s4(2)]) (use may_add_missing [OF add] a4 in simp)
  then show ?thesis using s1(1) s2(1) s3(1) s4(1,2,4) a4 t3 by auto
qed

lemma step_mkdir:
  assumes r: "reachable m s" and add: "may_add (abs_fs s) dir f n" and room: "card (dom (abs_fs s)) < 512" "few_open (abs_files s)"
    and mode: "(S_IFDIR OR mode) AND 0xF000 = S_IFDIR"
  obtains s' i where "exec m (Mkdir dir f mode ctx) s = Some (Code 0, s')" and "reachable m s'" and "abs_fs s i = None"
    and "abs_fs s' = a_create n f i (new_folder mode ctx i n) (abs_fs s)" and "abs_files s' = abs_files s"
proof -
  have "admissible m (Mkdir dir f mode ctx) (abs_fs s) (abs_files s)" using assms by (auto simp: admissible_def)
  from reachable_step [OF r this] obtain w s' where s': "exec m (Mkdir dir f mode ctx) s = Some (w, s')" "reachable m s'"
    "astep (Mkdir dir f mode ctx) (abs_fs s) (abs_files s) w (abs_fs s') (abs_files s')" by blast
  from s'(3) show thesis
  proof (cases rule: astep.cases)
    case (mkdir n' i)
    have "n' = n" using mkdir add valid_path_unique by (auto simp: may_add_def)
    then show thesis using that [OF _ s'(2), of i] s'(1) mkdir by simp
  qed
qed

lemma step_rmdir:
  assumes r: "reachable m s" and may: "may_remove (abs_fs s) (abs_files s) dir f n c" and p: "valid_path (abs_fs s) (dir @ f) c"
    and x: "abs_fs s c = Some x" "dir_check c x = 0" "a_links x \<noteq> 1" and few: "few_open (abs_files s)" and cl: "clean_entry m"
  obtains s' where "exec m (Rmdir dir f) s = Some (Code 0, s')" and "reachable m s'"
    and "abs_fs s' = a_unlink n f c (abs_fs s)" and "abs_files s' = abs_files s"
proof -
  have "admissible m (Rmdir dir f) (abs_fs s) (abs_files s)" using assms by (auto simp: admissible_def)
  from reachable_step [OF r this] obtain w s' where s': "exec m (Rmdir dir f) s = Some (w, s')" "reachable m s'"
    "astep (Rmdir dir f) (abs_fs s) (abs_files s) w (abs_fs s') (abs_files s')" by blast
  from s'(3) show thesis
  proof (cases rule: astep.cases)
    case (rmdir n' c' x')
    then show thesis using that [OF _ s'(2)] s'(1) may_remove_present(3) [OF may] by blast
  next
    case (rmdir_refused c' x')
    then have "c' = c" using valid_path_unique [OF p] by simp
    then show thesis using rmdir_refused x by simp
  qed
qed

lemma missing_new:
  assumes "missing_at a path" and "a i = None"
  shows "missing_at (a(i \<mapsto> x)) path"
proof -
  have "folder_at (a(i \<mapsto> x)) k = Some t" if "folder_at a k = Some t" for k t
    using that assms(2) by (auto simp: folder_at_def)
  then have "folders_on a cs n \<and> path_to a cs n = None \<longrightarrow> folders_on (a(i \<mapsto> x)) cs n \<and> path_to (a(i \<mapsto> x)) cs n = None" for cs n
    by (induction cs arbitrary: n) (auto split: option.splits)
  then show ?thesis using assms(1) by (auto simp: missing_at_def)
qed

text \<open>A new directory that is removed at once: its name is gone, its inode stays with one link.\<close>

lemma create_rmdir:
  assumes add: "may_add a dir f n" and i: "a i = None"
  shows "a_unlink n f i (a_create n f i (new_folder mode ctx i n) a) = a(i \<mapsto> (new_folder mode ctx i n)\<lparr> a_links := 1 \<rparr>)"
proof -
  obtain t y where t: "a n = Some y" "a_content y = Folder t" "t f = None"
    using add folder_atD by (fastforce simp: may_add_def)
  have ni: "n \<noteq> i" using t(1) i by auto
  let ?y = "y\<lparr> a_content := Folder (t(f \<mapsto> i)) \<rparr>" and ?x = "new_folder mode ctx i n"
  have e: "a_create n f i ?x a = a(n \<mapsto> ?y, i \<mapsto> ?x)" using t by (simp add: a_create_def)
  have "a_links ?x = 2" by (simp add: new_folder_def)
  then have "a_unlink n f i (a(n \<mapsto> ?y, i \<mapsto> ?x)) = a(n \<mapsto> y\<lparr> a_content := Folder ((t(f \<mapsto> i))(f := None)) \<rparr>, i \<mapsto> ?x\<lparr> a_links := 1 \<rparr>)"
    using ni by (simp add: a_unlink_def fun_upd_twist)
  also have "(t(f \<mapsto> i))(f := None) = t" using t(3) by auto
  also have "y\<lparr> a_content := Folder t \<rparr> = y" using t(2) by simp
  also have "a(n \<mapsto> y) = a" using t(1) by (auto simp: fun_eq_iff)
  finally show ?thesis unfolding e .
qed

lemma rmdir_steps:
  assumes r: "reachable m s" and add: "may_add (abs_fs s) dir f n" and room: "card (dom (abs_fs s)) < 512" "few_open (abs_files s)"
    and u: "folder_at (abs_fs s) n = Some u" "card (dom u) < 159" and cl: "clean_entry m"
    and mode: "(S_IFDIR OR mode) AND 0xF000 = S_IFDIR"
  shows "\<exists>s1 s2 i. exec m (Mkdir dir f mode ctx) s = Some (Code 0, s1) \<and> exec m (Rmdir dir f) s1 = Some (Code 0, s2) \<and>
    reachable m s2 \<and> abs_fs s i = None \<and> abs_fs s2 = (abs_fs s)(i \<mapsto> (new_folder mode ctx i n)\<lparr> a_links := 1 \<rparr>) \<and>
    abs_files s2 = abs_files s \<and> missing_at (abs_fs s2) (dir @ f)"
proof -
  obtain s1 i where s1: "exec m (Mkdir dir f mode ctx) s = Some (Code 0, s1)" "reachable m s1" "abs_fs s i = None"
    "abs_fs s1 = a_create n f i (new_folder mode ctx i n) (abs_fs s)" "abs_files s1 = abs_files s"
    using r add room mode by (rule step_mkdir)
  let ?x = "new_folder mode ctx i n"
  have i: "i \<noteq> 0" "opens (abs_files s) i = {}" using unused_number [OF r s1(3)] by auto
  note P = created_path [OF add s1(3), of ?x]
  have may: "may_remove (abs_fs s1) (abs_files s1) dir f n i"
    unfolding s1(4,5) by (rule created_may_remove [OF add s1(3) i(1) u i(2)])
  have "card (dom [dot \<mapsto> i, dotdot \<mapsto> n]) \<le> 2" by (simp add: card_insert_if)
  then have ok: "dir_check i ?x = 0" "a_links ?x \<noteq> 1" using i(1) by (simp_all add: dir_check_def new_folder_def a_size_def)
  obtain s2 where s2: "exec m (Rmdir dir f) s1 = Some (Code 0, s2)" "reachable m s2"
    "abs_fs s2 = a_unlink n f i (abs_fs s1)" "abs_files s2 = abs_files s1"
    by (rule step_rmdir [OF s1(2) may _ _ ok _ cl]) (use P s1(4,5) room(2) in simp_all)
  have a2: "abs_fs s2 = (abs_fs s)(i \<mapsto> ?x\<lparr> a_links := 1 \<rparr>)" unfolding s2(3) s1(4) by (rule create_rmdir [OF add s1(3)])
  have "missing_at (abs_fs s2) (dir @ f)" unfolding a2 by (rule missing_new [OF may_add_missing [OF add] s1(3)])
  then show ?thesis using s1 s2 a2 by auto
qed

lemma may_rename_unique:
  assumes "may_rename a t dir f k dir' g n c" and "may_rename a t dir f k2 dir' g n2 c2"
  shows "k2 = k \<and> n2 = n \<and> c2 = c"
  using assms by (auto simp: may_rename_def may_remove_def may_add_def valid_path_def)

lemma step_rename:
  assumes r: "reachable m s" and may: "may_rename (abs_fs s) (abs_files s) dir f k dir' g n c"
    and few: "few_open (abs_files s)" and cl: "clean_entry m"
  obtains s' where "exec m (Rename dir f dir' g) s = Some (Code 0, s')" and "reachable m s'"
    and "abs_fs s' = a_rename k f n g c (abs_fs s)" and "abs_files s' = abs_files s"
proof -
  have "admissible m (Rename dir f dir' g) (abs_fs s) (abs_files s)" using assms by (auto simp: admissible_def)
  from reachable_step [OF r this] obtain w s' where s': "exec m (Rename dir f dir' g) s = Some (w, s')" "reachable m s'"
    "astep (Rename dir f dir' g) (abs_fs s) (abs_files s) w (abs_fs s') (abs_files s')" by blast
  from s'(3) show thesis
  proof (cases rule: astep.cases)
    case (rename k2 n2 c2)
    then show thesis using that [OF _ s'(2)] s'(1) may_rename_unique [OF may] by blast
  next
    case rename_none
    obtain u where "valid_path (abs_fs s) dir k" "folder_at (abs_fs s) k = Some u" "u f = Some c" "in_dir dir f" "f \<noteq> []" "0 \<notin> set f"
      using may by (auto simp: may_rename_def may_remove_def)
    then have "valid_path (abs_fs s) (dir @ f) c" by (simp add: valid_path_def names_in_dir folders_on_append path_to_append)
    then show thesis using valid_path_present rename_none by blast
  qed
qed

lemma step_readdir:
  assumes r: "reachable m s" and p: "valid_path (abs_fs s) path n" "folder_at (abs_fs s) n = Some u"
  obtains ns s' where "exec m (Readdir path) s = Some (Listing 0 ns, s')" and "reachable m s'" and "lists_names u ns"
    and "abs_fs s' = abs_fs s" and "abs_files s' = abs_files s"
proof -
  have "admissible m (Readdir path) (abs_fs s) (abs_files s)" using p by (auto simp: admissible_def)
  from reachable_step [OF r this] obtain w s' where s': "exec m (Readdir path) s = Some (w, s')" "reachable m s'"
    "astep (Readdir path) (abs_fs s) (abs_files s) w (abs_fs s') (abs_files s')" by blast
  from s'(3) show thesis
  proof (cases rule: astep.cases)
    case (readdir n' u' ns)
    then show thesis using that [OF _ s'(2), of ns] s'(1) valid_path_unique [OF p(1)] p(2) by auto
  next
    case readdir_none
    then show thesis using valid_path_present [OF p(1)] by simp
  qed
qed

lemma reachable_bounds:
  assumes "reachable m s"
  shows "(\<forall>n x bs. abs_fs s n = Some x \<longrightarrow> a_content x = Bytes bs \<longrightarrow> length bs \<le> 10240) \<and>
    (\<forall>n. unat (refs s n) = card (opens (abs_files s) n) \<and> unat (refs s n) \<le> MAX_FILE_DESCRIPTORS) \<and>
    (\<exists>fs nums. free_list (disk s) fs \<and> 31000000 \<le> length fs \<and>
       inode_stack (disk s) nums \<and> length nums + card (dom (abs_fs s)) = 513)"
proof -
  obtain fs nums where bal: "balanced s fs nums" using reachable_balanced [OF assms] by blast
  note con = balancedD(2) [OF bal]
  have "length bs \<le> 10240" if x: "abs_fs s n = Some x" "a_content x = Bytes bs" for n x bs
  proof -
    have "blocks_for (length bs) \<le> 10"
      using consistentD(6) [OF con node_file(1) [OF x]] node_file(5) [OF x] by (simp add: direct_def direct_file_def)
    then show ?thesis using blocks_for_bounds(2) [of "length bs"] by linarith
  qed
  then show ?thesis
    using refs_opens [OF con] consistent_free_list [OF con] consistentD(3) [OF con] balanced_room [OF bal] by blast
qed

section \<open>The last link of a file\<close>

text \<open>
  A file that nobody has open, as \<open>unlinkFileFromINode\<close> leaves it to \<open>iput\<close>: fetched, and its only link taken away.
\<close>

lemma last_link_dropped:
  assumes r: "reachable m s" and x: "abs_fs s c = Some x" "a_links x = 1" "a_content x = Bytes bs" and c: "c \<noteq> 0" "opens (abs_files s) c = {}"
  obtains q s' fs y ys where "well s'" and "holds s' q c" and "refs s' c = 1" and "di_linksCount (inode_view s' c) = 0"
    and "direct (core s' q) (disk s') fs" and "free_list_linked (disk s')" and "inode_stack (disk s') (y # ys)"
    and "length (y # ys) < INODE_NOS_PER_BLOCK" and "length (all_blocks (core s' q)) = blocks_for (length bs)"
proof -
  obtain fs nums where bal: "balanced s fs nums" using reachable_balanced [OF r] by blast
  note con = balancedD(2) [OF bal] and B = balanced_removal [OF bal]
  note I = idleD [OF consistentD(1) [OF con]]
  have u: "used s c" and node: "x = node_of s c" using x(1) by (auto simp: abs_fs_def split: if_splits)
  have num: "c < NUM_OF_INODES" by (rule used_less [OF u])
  have rc: "refs s c = 0" using consistentD(11) [OF con] c(2) by (simp add: tabled_def)
  have rep: "direct (dir_view s c) (disk s) fs" by (rule consistentD(6) [OF con u])
  have fl: "free_list (disk s) fs" using rep by (simp add: direct_def direct_file_def)
  obtain y ys where st: "nums = y # ys" "length (y # ys) < INODE_NOS_PER_BLOCK"
    using B(3) B(4) [of "abs_fs s" c] x(1) c(1) by (metis neq_Nil_conv option.distinct(1))
  have len: "length (all_blocks (dir_view s c)) = blocks_for (length bs)"
    using rep x(3) by (auto simp: node all_blocks_def direct_def direct_file_def wf_inCore_def node_of_def split: if_splits)
  obtain q s3 s4 where s4: "touches s c 1 ((inode_view s c)\<lparr> di_linksCount := 0 \<rparr>) s4" "holds s4 q c" "disk s4 = disk s"
      "direct (core s4 q) (disk s4) fs" "all_blocks (core s4 q) = all_blocks (dir_view s c)"
    using drop_ready [OF I(1) num rc I(3) rep, of 0] by metis
  note T = touchesD [OF s4(1)]
  show thesis
    by (rule that [of s4 q fs y ys])
      (use T(1) T(3) [OF num] T(4) [of c] s4 st len free_list_ready [OF fl] B(2) consistentD(3) [OF con] in simp_all)
qed

section \<open>Properties\<close>

text \<open>
  C1. From a formatted and mounted device on, every admissible call returns, and what it answers and what it does
  to the files, directories and open descriptors is a step of the abstract machine.
\<close>

theorem calls_refine:
  assumes "reachable m s" and "admissible m c (abs_fs s) (abs_files s)"
  shows "\<exists>r s'. exec m c s = Some (r, s') \<and> reachable m s' \<and> astep c (abs_fs s) (abs_files s) r (abs_fs s') (abs_files s')"
  by (rule reachable_step [OF assms])

theorem calls_refine_witness:
  "\<exists>s r s'. exec sample_env (Mkdir [] [100] 0x1ED \<lparr> ctx_uid = 5, ctx_gid = 6, ctx_pid = 1 \<rparr>) s = Some (r, s') \<and>
     astep (Mkdir [] [100] 0x1ED \<lparr> ctx_uid = 5, ctx_gid = 6, ctx_pid = 1 \<rparr>) empty_fs Map.empty r (abs_fs s') (abs_files s')"
proof -
  let ?c = "Mkdir [] [100] 0x1ED \<lparr> ctx_uid = 5, ctx_gid = 6, ctx_pid = 1 \<rparr>"
  obtain s where s: "reachable sample_env s" "abs_fs s = empty_fs" "abs_files s = Map.empty" by (rule mounted)
  have "admissible sample_env ?c (abs_fs s) (abs_files s)"
    using may_add_root [of "[100]"] by (auto simp: s(2,3) admissible_def few_open_def)
  from calls_refine [OF s(1) this] show ?thesis unfolding s(2,3) by blast
qed

text \<open>
  C2. Every state the program reaches is consistent: the cache is in order and no lock is held, the references of
  every inode are the descriptors open on it, every inode in use has its own blocks, none of them free, directories are
  well-formed and lead to inodes in use, and no resource is lost: all data blocks of the device are free or belong to an
  inode, all inodes up to 512 are listed as free or in use.
\<close>

theorem reachable_states:
  assumes "reachable m s"
  shows "\<exists>fs nums. balanced s fs nums"
  by (rule reachable_balanced [OF assms])

theorem reachable_states_witness:
  "\<exists>s fs nums. abs_fs s = empty_fs \<and> balanced s fs nums"
proof -
  obtain s where s: "reachable sample_env s" "abs_fs s = empty_fs" "abs_files s = Map.empty" by (rule mounted)
  show ?thesis using reachable_states [OF s(1)] s(2) by blast
qed

text \<open>
  C3. A file that is created, written and read back: after creation under a new name in any directory the
  descriptor takes the bytes, reading from the start returns exactly those bytes, and the path shows a file
  with the mode and owner asked for and the number of bytes written as its size.
\<close>

theorem file_session:
  assumes "reachable m s" and "may_add (abs_fs s) dir f n" and "card (dom (abs_fs s)) < 512" and "few_open (abs_files s)"
    and "next_fd (abs_files s) k" and "length buf \<le> 10240" and "length buf \<le> unat sz" and "unat sz < 2 ^ 31"
  shows "\<exists>s1 s2 s3 s4 st. exec m (Create dir f mode fi ctx) s = Some (Handle 0 (of_nat k), s1) \<and>
    exec m (Write buf 0 (fi\<lparr> fi_fh := of_nat k \<rparr>) ctx) s1 = Some (Code (int (length buf)), s2) \<and>
    exec m (Read sz (fi\<lparr> fi_fh := of_nat k \<rparr>) ctx) s2 = Some (Data (int (length buf)) buf, s3) \<and>
    exec m (Getattr (dir @ f)) s3 = Some (Attr 0 st, s4) \<and> reachable m s4 \<and>
    st_mode st = mode \<and> st_uid st = ctx_uid ctx \<and> st_gid st = ctx_gid ctx \<and> unat (st_size st) = length buf"
  by (rule session_steps [OF assms])

theorem file_session_witness:
  "\<exists>s s1 s2 s3. exec sample_env (Create [] [102] 0x81A4 \<lparr> fi_flags = 2, fi_fh = 0 \<rparr> \<lparr> ctx_uid = 5, ctx_gid = 6, ctx_pid = 1 \<rparr>) s =
       Some (Handle 0 0, s1) \<and>
     exec sample_env (Write [104, 105] 0 \<lparr> fi_flags = 2, fi_fh = 0 \<rparr> \<lparr> ctx_uid = 5, ctx_gid = 6, ctx_pid = 1 \<rparr>) s1 = Some (Code 2, s2) \<and>
     exec sample_env (Read 10 \<lparr> fi_flags = 2, fi_fh = 0 \<rparr> \<lparr> ctx_uid = 5, ctx_gid = 6, ctx_pid = 1 \<rparr>) s2 = Some (Data 2 [104, 105], s3)"
proof -
  obtain s where s: "reachable sample_env s" "abs_fs s = empty_fs" "abs_files s = Map.empty" by (rule mounted)
  have a: "may_add (abs_fs s) [] [102] 0" using may_add_root [of "[102]"] by (simp add: s(2))
  have b: "card (dom (abs_fs s)) < 512" "few_open (abs_files s)" "next_fd (abs_files s) 0"
    by (simp_all add: s(2,3) few_open_def next_fd_def)
  show ?thesis
    using file_session [OF s(1) a b, of "[104, 105]" 10 "0x81A4" "\<lparr> fi_flags = 2, fi_fh = 0 \<rparr>" "\<lparr> ctx_uid = 5, ctx_gid = 6, ctx_pid = 1 \<rparr>"]
    by - (rule exI [of _ s], auto)
qed

text \<open>
  C14. Bounds in every reachable state: files are at most 10240 bytes long, the reference count of an inode is the
  number of descriptors open on it and does not wrap around, there are at most 513 inodes, as many as are not listed
  as free, and at least 31 million free blocks, so no admissible call runs out of blocks.
\<close>

theorem resource_bounds:
  assumes "reachable m s"
  shows "(\<forall>n x bs. abs_fs s n = Some x \<longrightarrow> a_content x = Bytes bs \<longrightarrow> length bs \<le> 10240) \<and>
    (\<forall>n. unat (refs s n) = card (opens (abs_files s) n) \<and> unat (refs s n) \<le> MAX_FILE_DESCRIPTORS) \<and>
    (\<exists>fs nums. free_list (disk s) fs \<and> 31000000 \<le> length fs \<and>
       inode_stack (disk s) nums \<and> length nums + card (dom (abs_fs s)) = 513)"
  by (rule reachable_bounds [OF assms])

theorem resource_bounds_witness:
  "\<exists>s fs. abs_fs s = empty_fs \<and> free_list (disk s) fs \<and> 31000000 \<le> length fs"
proof -
  obtain s where s: "reachable sample_env s" "abs_fs s = empty_fs" "abs_files s = Map.empty" by (rule mounted)
  show ?thesis using resource_bounds [OF s(1)] s(2) by blast
qed

text \<open>
  C4. A file that is created, written, closed and removed: every call succeeds, afterwards the name is not found,
  and the files, directories and open descriptors are what they were before.
\<close>

theorem remove_session:
  assumes "reachable m s" and "may_add (abs_fs s) dir f n" and "card (dom (abs_fs s)) < 512" and "few_open (abs_files s)"
    and "folder_at (abs_fs s) n = Some u" and "card (dom u) < 159" and "clean_entry m"
    and "next_fd (abs_files s) k" and "length buf \<le> 10240"
  shows "\<exists>s1 s2 s3 s4 s5. exec m (Create dir f mode fi ctx) s = Some (Handle 0 (of_nat k), s1) \<and>
    exec m (Write buf 0 (fi\<lparr> fi_fh := of_nat k \<rparr>) ctx) s1 = Some (Code (int (length buf)), s2) \<and>
    exec m (Release (fi\<lparr> fi_fh := of_nat k \<rparr>) ctx) s2 = Some (Code 0, s3) \<and>
    exec m (Unlink dir f) s3 = Some (Code 0, s4) \<and> exec m (Getattr (dir @ f)) s4 = Some (Attr (- ENOENT) zero_stat, s5) \<and>
    reachable m s4 \<and> abs_fs s4 = abs_fs s \<and> abs_files s4 = abs_files s"
  by (rule removal_steps [OF assms])

theorem remove_session_witness:
  "\<exists>s s3 s4. exec sample_env (Unlink [] [102]) s3 = Some (Code 0, s4) \<and> abs_fs s = empty_fs \<and> abs_fs s4 = empty_fs"
proof -
  obtain s where s: "reachable sample_env s" "abs_fs s = empty_fs" "abs_files s = Map.empty" by (rule mounted)
  have a: "may_add (abs_fs s) [] [102] 0" using may_add_root [of "[102]"] by (simp add: s(2))
  have b: "card (dom (abs_fs s)) < 512" "few_open (abs_files s)" and k: "next_fd (abs_files s) 0"
    by (simp_all add: s(2,3) few_open_def next_fd_def)
  have u: "folder_at (abs_fs s) 0 = Some Map.empty" "card (dom (Map.empty :: cstring \<rightharpoonup> size_t)) < 159" "clean_entry sample_env"
    by (simp_all add: s(2) folder_at_def clean_entry_def sample_env_def zero_entry_def)
  show ?thesis
    using remove_session [OF s(1) a b u k, of "[104, 105]" "0x81A4" "\<lparr> fi_flags = 2, fi_fh = 0 \<rparr>" "\<lparr> ctx_uid = 5, ctx_gid = 6, ctx_pid = 1 \<rparr>"] s(2)
    by auto
qed

text \<open>
  C6. A directory that is created and removed at once: both calls succeed and the name is gone, but the inode
  of the directory stays in use with one link (a directory starts with two, removal takes one), so it is lost.
\<close>

theorem remove_directory:
  assumes "reachable m s" and "may_add (abs_fs s) dir f n" and "card (dom (abs_fs s)) < 512" and "few_open (abs_files s)"
    and "folder_at (abs_fs s) n = Some u" and "card (dom u) < 159" and "clean_entry m"
    and "(S_IFDIR OR mode) AND 0xF000 = S_IFDIR"
  shows "\<exists>s1 s2 i. exec m (Mkdir dir f mode ctx) s = Some (Code 0, s1) \<and> exec m (Rmdir dir f) s1 = Some (Code 0, s2) \<and>
    reachable m s2 \<and> abs_fs s i = None \<and> abs_fs s2 = (abs_fs s)(i \<mapsto> (new_folder mode ctx i n)\<lparr> a_links := 1 \<rparr>) \<and>
    abs_files s2 = abs_files s \<and> missing_at (abs_fs s2) (dir @ f)"
  by (rule rmdir_steps [OF assms])

theorem remove_directory_witness:
  "\<exists>s s1 s2. exec sample_env (Mkdir [] [100] 0x1ED \<lparr> ctx_uid = 5, ctx_gid = 6, ctx_pid = 1 \<rparr>) s = Some (Code 0, s1) \<and>
     exec sample_env (Rmdir [] [100]) s1 = Some (Code 0, s2) \<and> missing_at (abs_fs s2) [100] \<and> card (dom (abs_fs s2)) = 2"
proof -
  obtain s where s: "reachable sample_env s" "abs_fs s = empty_fs" "abs_files s = Map.empty" by (rule mounted)
  have a: "may_add (abs_fs s) [] [100] 0" using may_add_root [of "[100]"] by (simp add: s(2))
  have b: "card (dom (abs_fs s)) < 512" "few_open (abs_files s)" by (simp_all add: s(2,3) few_open_def)
  have u: "folder_at (abs_fs s) 0 = Some Map.empty" "card (dom (Map.empty :: cstring \<rightharpoonup> size_t)) < 159" "clean_entry sample_env"
    by (simp_all add: s(2) folder_at_def clean_entry_def sample_env_def zero_entry_def)
  have mode: "(S_IFDIR OR 0x1ED) AND 0xF000 = S_IFDIR" by simp
  from remove_directory [OF s(1) a b u mode, of "\<lparr> ctx_uid = 5, ctx_gid = 6, ctx_pid = 1 \<rparr>"] obtain s1 s2 i where
    "exec sample_env (Mkdir [] [100] 0x1ED \<lparr> ctx_uid = 5, ctx_gid = 6, ctx_pid = 1 \<rparr>) s = Some (Code 0, s1)"
    "exec sample_env (Rmdir [] [100]) s1 = Some (Code 0, s2)" "missing_at (abs_fs s2) [100]" and i: "abs_fs s i = None" and
    a2: "abs_fs s2 = (abs_fs s)(i \<mapsto> (new_folder 0x1ED \<lparr> ctx_uid = 5, ctx_gid = 6, ctx_pid = 1 \<rparr> i 0)\<lparr> a_links := 1 \<rparr>)"
    by auto
  moreover have "card (dom (abs_fs s2)) = 2" using i unfolding a2 s(2) by (simp add: card_insert_if split: if_splits)
  ultimately show ?thesis by blast
qed

text \<open>
  C5. In every reachable state a regular file has exactly one name: one entry of one directory leads to it, and its link
  count is the number of its names.  No call leaves a file without a name, and none makes a second one.
\<close>

theorem files_one_name:
  assumes "reachable m s" and "abs_fs s c = Some x" and "a_content x = Bytes bs"
  shows "(\<exists>k g. \<forall>k' g'. names_to (abs_fs s) k' g' c \<longleftrightarrow> k' = k \<and> g' = g) \<and>
    unat (a_links x) = card {(k, g). names_to (abs_fs s) k g c}"
proof -
  have one: "one_name (abs_fs s)" using reachable_balanced [OF assms(1)] balancedD(3) by blast
  note named = reachable_named [OF assms(1)]
  obtain k g where "names_to (abs_fs s) k g c" using named assms(2,3) unfolding named_def by blast
  then have "\<forall>k' g'. names_to (abs_fs s) k' g' c \<longleftrightarrow> k' = k \<and> g' = g"
    using one [unfolded one_name_iff, rule_format, OF assms(2,3)] by blast
  then show ?thesis using named_once [OF one named assms(2,3)] one_nameD(1) [OF one assms(2,3)] by auto
qed

theorem files_one_name_witness:
  "\<exists>s c x. abs_fs s c = Some x \<and> a_content x = Bytes [] \<and> (\<exists>k g. \<forall>k' g'. names_to (abs_fs s) k' g' c \<longleftrightarrow> k' = k \<and> g' = g)"
proof -
  obtain s where s: "reachable sample_env s" "abs_fs s = empty_fs" "abs_files s = Map.empty" by (rule mounted)
  have a: "may_add (abs_fs s) [] [102] 0" using may_add_root [of "[102]"] by (simp add: s(2))
  have b: "card (dom (abs_fs s)) < 512" "few_open (abs_files s)" "next_fd (abs_files s) 0"
    by (simp_all add: s(2,3) few_open_def next_fd_def)
  obtain s' i where s': "reachable sample_env s'" "abs_fs s i = None" "abs_fs s' = a_create 0 [102] i
      (new_file 0x81A4 \<lparr> ctx_uid = 5, ctx_gid = 6, ctx_pid = 1 \<rparr>) (abs_fs s)"
    using step_create [OF s(1) a b, of "0x81A4" "\<lparr> fi_flags = 2, fi_fh = 0 \<rparr>" "\<lparr> ctx_uid = 5, ctx_gid = 6, ctx_pid = 1 \<rparr>"] .
  let ?x = "new_file 0x81A4 \<lparr> ctx_uid = 5, ctx_gid = 6, ctx_pid = 1 \<rparr>"
  have x: "abs_fs s' i = Some ?x" "a_content ?x = Bytes []"
    unfolding s'(3) using created_path(2) [OF a s'(2)] by (simp_all add: new_file_def)
  show ?thesis using files_one_name [OF s'(1) x] x by blast
qed

text \<open>
  C7. Renaming to a name that does not exist yet, in the same or another directory, succeeds: the old name is gone, the new
  one leads to the same inode, whose mode, owner, links and content are unchanged; no other name changes, nor does any open descriptor.
\<close>

theorem rename_moves:
  assumes "reachable m s" and "may_rename (abs_fs s) (abs_files s) dir f k dir' g n c"
    and "few_open (abs_files s)" and "clean_entry m"
  shows "\<exists>s'. exec m (Rename dir f dir' g) s = Some (Code 0, s') \<and> reachable m s' \<and> abs_files s' = abs_files s \<and>
    abs_fs s' c = abs_fs s c \<and>
    (\<forall>j h i. names_to (abs_fs s') j h i \<longleftrightarrow> names_to (abs_fs s) j h i \<and> \<not> (j = k \<and> h = f) \<or> j = n \<and> h = g \<and> i = c)"
proof -
  obtain s' where s': "exec m (Rename dir f dir' g) s = Some (Code 0, s')" "reachable m s'"
    "abs_fs s' = a_rename k f n g c (abs_fs s)" "abs_files s' = abs_files s"
    using assms by (rule step_rename)
  obtain fs nums where "consistent s fs nums" using reachable_balanced [OF assms(1)] balancedD(2) by blast
  note R = names_to_rename [OF assms(2) consistentD(10) [OF this]]
  show ?thesis using s' R(1,3) by (intro exI [of _ "s'"]) simp
qed

theorem rename_moves_witness:
  "\<exists>s1 s2 i. exec sample_env (Rename [] [100] [] [101]) s1 = Some (Code 0, s2) \<and> names_to (abs_fs s1) 0 [100] i \<and>
     names_to (abs_fs s2) 0 [101] i \<and> \<not> names_to (abs_fs s2) 0 [100] i"
proof -
  let ?ctx = "\<lparr> ctx_uid = 5, ctx_gid = 6, ctx_pid = 1 \<rparr>"
  obtain s where s: "reachable sample_env s" "abs_fs s = empty_fs" "abs_files s = Map.empty" by (rule mounted)
  have a: "may_add (abs_fs s) [] [100] 0" using may_add_root [of "[100]"] by (simp add: s(2))
  have b: "card (dom (abs_fs s)) < 512" "few_open (abs_files s)" by (simp_all add: s(2,3) few_open_def)
  have mode: "(S_IFDIR OR 0x1ED) AND 0xF000 = S_IFDIR" by simp
  obtain s1 i where s1: "reachable sample_env s1" "abs_fs s i = None"
    "abs_fs s1 = a_create 0 [100] i (new_folder 0x1ED ?ctx i 0) (abs_fs s)" "abs_files s1 = abs_files s"
    using step_mkdir [OF s(1) a b mode, of ?ctx] by blast
  have i: "i \<noteq> 0" using unused_number [OF s(1) s1(2)] by simp
  have u: "folder_at (abs_fs s) 0 = Some Map.empty" "card (dom (Map.empty :: cstring \<rightharpoonup> size_t)) < 159"
    by (simp_all add: s(2) folder_at_def)
  have rm: "may_remove (abs_fs s1) (abs_files s1) [] [100] 0 i"
    unfolding s1(3,4) by (rule created_may_remove [OF a s1(2) i u]) (simp add: s(3) opens_def)
  have f1: "folder_at (abs_fs s1) 0 = Some [[100] \<mapsto> i]" using i by (simp add: s1(3) s(2) a_create_def folder_at_def)
  have x1: "abs_fs s1 i = Some (new_folder 0x1ED ?ctx i 0)" unfolding s1(3) by (rule created_path(2) [OF a s1(2)])
  have add: "may_add (abs_fs s1) [] [101] 0" using f1 rm by (simp add: may_add_def may_remove_def in_dir_def)
  have may: "may_rename (abs_fs s1) (abs_files s1) [] [100] 0 [] [101] 0 i"
    using rm add f1 x1 i by (simp add: may_rename_def new_folder_def)
  have few: "few_open (abs_files s1)" "clean_entry sample_env"
    using b(2) s1(4) by (simp_all add: clean_entry_def sample_env_def zero_entry_def)
  have old: "names_to (abs_fs s1) 0 [100] i" "\<not> names_to (abs_fs s1) 0 [101] i" using f1 by (simp_all add: names_to_def)
  from rename_moves [OF s1(1) may few] obtain s2 where s2: "exec sample_env (Rename [] [100] [] [101]) s1 = Some (Code 0, s2)"
    and nm: "\<forall>j h i'. names_to (abs_fs s2) j h i' \<longleftrightarrow> names_to (abs_fs s1) j h i' \<and> \<not> (j = 0 \<and> h = [100]) \<or> j = 0 \<and> h = [101] \<and> i' = i"
    by blast
  have "names_to (abs_fs s2) 0 [101] i" "\<not> names_to (abs_fs s2) 0 [100] i" using nm by simp_all
  then show ?thesis using s2 old(1) by blast
qed

text \<open>
  C8. Listing a directory succeeds and returns every name in it exactly once, without changing anything.
\<close>

theorem directory_listing:
  assumes "reachable m s" and "valid_path (abs_fs s) path n" and "folder_at (abs_fs s) n = Some u"
  shows "\<exists>ns s'. exec m (Readdir path) s = Some (Listing 0 ns, s') \<and> set ns = dom u \<and> distinct ns \<and>
    reachable m s' \<and> abs_fs s' = abs_fs s \<and> abs_files s' = abs_files s"
  using step_readdir [OF assms] unfolding lists_names_def by metis

theorem directory_listing_witness:
  "\<exists>s1 s2. exec sample_env (Readdir []) s1 = Some (Listing 0 [[100]], s2)"
proof -
  let ?ctx = "\<lparr> ctx_uid = 5, ctx_gid = 6, ctx_pid = 1 \<rparr>"
  obtain s where s: "reachable sample_env s" "abs_fs s = empty_fs" "abs_files s = Map.empty" by (rule mounted)
  have a: "may_add (abs_fs s) [] [100] 0" using may_add_root [of "[100]"] by (simp add: s(2))
  have b: "card (dom (abs_fs s)) < 512" "few_open (abs_files s)" by (simp_all add: s(2,3) few_open_def)
  have mode: "(S_IFDIR OR 0x1ED) AND 0xF000 = S_IFDIR" by simp
  obtain s1 i where s1: "reachable sample_env s1" "abs_fs s i = None"
    "abs_fs s1 = a_create 0 [100] i (new_folder 0x1ED ?ctx i 0) (abs_fs s)" "abs_files s1 = abs_files s"
    using step_mkdir [OF s(1) a b mode, of ?ctx] by blast
  have i: "i \<noteq> 0" using unused_number [OF s(1) s1(2)] by simp
  have f1: "folder_at (abs_fs s1) 0 = Some [[100] \<mapsto> i]" using i by (simp add: s1(3) s(2) a_create_def folder_at_def)
  have "valid_path (abs_fs s1) [] 0" by (simp add: valid_path_def)
  from directory_listing [OF s1(1) this f1] obtain ns s' where
    ns: "exec sample_env (Readdir []) s1 = Some (Listing 0 ns, s')" "set ns = {[100]}" "distinct ns" by auto
  then have "ns = [[100]]" by (cases ns rule: remdups_adj.cases) auto
  then show ?thesis using ns(1) by blast
qed

end
