(* ===== verification/Spec2Isabelle.thy ===== *)
theory Spec2Isabelle
  imports FileSystem
begin

text \<open>
  \<^bold>\<open>NAOFS: a verification development\<close>

  NAOFS is a Unix-like file system in C, served through FUSE.  Its parts, bottom up, and the theories
  that model them (paths under \<open>src/\<close>):

  \<^item> \<open>Prelude\<close>: C integers, byte buffers, little-endian images; shared lemmas and rule collections.
  \<^item> \<open>INode\<close>: \<open>struct iNode\<close> with its byte image and \<open>struct inCoreiNode\<close>
    (\<open>include/inode/\<close>, \<open>src/inode/\<close>).
  \<^item> \<open>Disk\<close>: sizes (\<open>src/mandsk/params.c\<close>), memory disk, device file and the dispatch between them
    (\<open>src/dsk/mdisk.c\<close>, \<open>diskAccess.c\<close>, \<open>blkfetch.c\<close>).  State: the record \<open>dsk\<close>.
  \<^item> \<open>MetaBlocks\<close>: formats of the metadata blocks (\<open>src/mkfs/metaBlocks.c\<close>, parts of \<open>src/inode/iNode.c\<close>).
  \<^item> \<open>DiskINodes\<close>: inode table, allocation and release of inodes (\<open>src/mkfs/iNodeManager.c\<close>, \<open>ialloc.c\<close>,
    \<open>ifree.c\<close>).
  \<^item> \<open>BlockAlloc\<close>: the chain of free list blocks (\<open>src/dsk/alloc.c\<close>, \<open>free.c\<close>).
  \<^item> \<open>Mkfs\<close>: creation of a file system, the programs \<open>mkfs\<close> and \<open>diskReader\<close> (\<open>src/mkfs/\<close>).
  \<^item> \<open>InodeCache\<close>: the 32 cache nodes, the ring of free nodes and the hash queues
    (\<open>src/incoreInodeOps/freeList.c\<close>, \<open>hashQ.c\<close>).  State: \<open>icache\<close>, a store of nodes addressed by numbers.
  \<^item> \<open>FileTable\<close>: the table of open files (\<open>src/fdTable/globalFileTable.c\<close>).
  \<^item> \<open>IgetIput\<close>: taking and giving back in-core inodes (\<open>src/incoreInodeOps/iget.c\<close>, \<open>iput.c\<close>).  State: the record
    \<open>fs\<close> of cache, disk and file table, on which everything above works.
  \<^item> \<open>FileBlocks\<close>: from byte offsets to disk blocks (\<open>src/incoreInodeOps/iNodeManager.c\<close>, \<open>bmap.c\<close>).
  \<^item> \<open>FileBytes\<close>: the sequence of bytes a file stands for and how it grows block by block.
  \<^item> \<open>Directory\<close>: strings, directory entries and the code of path resolution (\<open>src/utils/utils.c\<close>,
    \<open>src/trav/directory.c\<close>, \<open>namei.c\<close>).
  \<^item> \<open>Namei\<close>: what path resolution guarantees.
  \<^item> \<open>Handles\<close>: states in which several in-core inodes are held, and what \<open>iget\<close>, \<open>iput\<close> and changes through a held
    node do to everything else.
  \<^item> \<open>DirData\<close>: a directory as a list of entries; searching it and appending to it.
  \<^item> \<open>Interface\<close>: the file operations (\<open>src/interface/\<close>), the FUSE callbacks and the start of the program
    (\<open>src/main.c\<close>).
  \<^item> \<open>FileData\<close>: what reading and appending do to the bytes of a file.
  \<^item> \<open>FileOps\<close>: what the operations guarantee on the whole state.
  \<^item> \<open>Create\<close>: creation of files and directories.
  \<^item> \<open>Truncate\<close>: growing and shrinking of files (\<open>src/interface/truncate.c\<close>).
  \<^item> \<open>Locks\<close>: a held inode that is locked; \<open>iget\<close> and \<open>iput\<close> of others do not see the lock.
  \<^item> \<open>DirRemove\<close>, \<open>Unlink\<close>, \<open>Remove\<close>: removal of an entry, which the last entry of the directory replaces, of the
    last link of an inode with its blocks, and of a name as a whole (\<open>src/interface/unlink.c\<close>).
  \<^item> \<open>Consistency\<close>: the abstract file system \<open>abs_fs\<close> (a map from inode numbers to files and folders) and open files
    \<open>abs_files\<close> of a state, the global invariant \<open>consistent\<close>, and the operations on paths in such states.
  \<^item> \<open>OpenFiles\<close>, \<open>Removal\<close>, \<open>Rename\<close>, \<open>ReadDir\<close>: the same for operations on descriptors, for the removal of names, for
    renaming to a new name and for the listing of directories.
  \<^item> \<open>Calls\<close>: the calls FUSE makes as a datatype, their execution \<open>exec\<close>, and the abstract machine \<open>astep\<close> that says
    what a call may answer and do; \<open>admissible\<close> lists the calls the code handles.
  \<^item> \<open>FileSystem\<close>: every admissible call is a step of the abstract machine; the reachable states.

  Every C function is one definition with its name; a loop of a function is a recursive function of its
  own.  Functions that change state take it and return it.  Integers keep their width: \<open>size_t\<close> is a 64 bit
  word that wraps around, a conversion to \<open>int\<close> truncates; an \<open>int\<close> that only counts is an \<open>int\<close> of HOL.

  \<^bold>\<open>None.\<close>  A result of type \<^typ>\<open>'a option\<close> is \<^term>\<open>None\<close> exactly where the C code has no defined result:
  access outside an array or through \<open>NULL\<close>, use of memory that was never written, a \<open>lock\<close> of a mutex that is
  held (the program runs single-threaded, \<open>-s\<close>, so it would wait for ever), or a loop that does not end.  Error
  codes are ordinary results.  All theorems on operations state that the result is \<^term>\<open>Some\<close>.

  \<^bold>\<open>Loops.\<close>  Loops with a bound are total functions with a \<open>measure\<close>; there is no fuel.  Loops whose end depends
  on the data (\<open>fl_find\<close>, \<open>hash_walk\<close>, \<open>search_entries\<close>, the loops of reading, writing and truncating) are
  \<open>partial_function (option)\<close>; that they end is part of the theorems that use them.

  \<^bold>\<open>Parameters.\<close>  Bytes the code reads without having written them are arguments: the fresh block of the super
  block (\<open>junk\<close>), the start value of an uninitialised counter, and \<open>mem_env\<close> for the memory behind a string.
  The files of the host are a map from names to bytes, the clock is a field of \<open>dsk\<close>.

  \<^bold>\<open>Contracts.\<close>  Each layer is used through a locale that is interpreted on the code's functions:
  \<open>block_store\<close> (interpreted for the memory disk, the device and the dispatch), \<open>inode_store\<close> (the inode table),
  \<open>block_pool\<close> (allocation over \<open>free_list\<close>, the list of blocks a chain of list blocks stands for), \<open>node_queue\<close>
  and \<open>node_index\<close> (ring and hash queue over the lists \<open>fl_list\<close> and \<open>hq_list\<close>), and \<open>inode_handles\<close>
  (\<open>iget\<close>/\<open>iput\<close> over the states \<open>idle\<close> and \<open>held\<close>).

  \<^bold>\<open>What is shown.\<close>
  \<^item> Representation: round trips of all on-disk formats, including inode images and directory entries.
  \<^item> Refinement: blocks as an array, the free block chain as a list, the ring as a queue, the hash queues
    as an index, the inode table as an array, the C arithmetic of \<open>calculateOffset\<close> as the position in the tree of
    blocks, path resolution as a walk over directory contents, a file as a sequence of bytes.
  \<^item> Invariants: \<open>cache_inv\<close> (shape of ring and hash queue, free exactly the unreferenced nodes, unique numbers, no
    lock held) and \<open>coherent\<close> (clean nodes agree with the disk), established by \<open>main\<close> and kept by \<open>iget\<close>,
    \<open>iput\<close> and the operations; \<open>inode_view\<close> is the newest content of an inode, in cache or on disk, and is
    what the theorems on operations speak about.
  \<^item> Operations: attributes, change of mode and owner, open and close, reading, appending, truncating, creation,
    renaming and removal of files and directories, listing of directories, formatting and mounting a device, error paths.
  \<^item> The whole program: from a formatted and mounted device on, every admissible call returns and refines the
    abstract machine; all reachable states satisfy the global invariant (references count open descriptors, blocks have
    one owner, directories are well-formed, every data block is free or owned, every inode free or linked); every
    file has exactly one name; sequences of calls that create, write, read and remove files.
  \<^item> Defects of the code, stated as theorems about what it does: inode exhaustion after 511 files, a
    lock that is never released, a path through a file that resolves to the root, the constant hash, descriptors that
    are negative and not refused, the removal of a directory that does not exist.

  \<^bold>\<open>Not modelled.\<close>  Output on the terminal, \<open>malloc\<close> returning \<open>NULL\<close> and memory leaks; concurrency; FUSE itself;
  the test framework \<open>include/ctest.h\<close>; \<open>src/fdTable/fileTables.c\<close>, which is one comment.  Modelled but without
  theorems: \<open>rename\<close> to a name that exists, with the emptying of directories (\<open>emptyDir\<close>) it may cause, and the
  preservation of the blocks behind indirect blocks when a file grows beyond its ten direct blocks.
\<close>

section \<open>Properties\<close>

text \<open>
  C15. \<open>iget\<close> keeps the invariant of the cache and is transparent: it returns a node that holds the inode asked for with
  the newest data there is, from the cache if it is there and dirty and from the disk otherwise, adds one to that
  inode's references and to no other's, and changes the content of no inode.
\<close>

theorem iget_correct:
  assumes "cache_inv s fl hq" and "coherent s hq" and "n < NUM_OF_INODES"
    and "fl \<noteq> [] \<or> (\<exists>p \<in> set hq. inode_number (core s p) = n)" and "refs s n \<noteq> SIZE_MAX"
    and "\<forall>p \<in> set hq. inode_number (core s p) = n \<longrightarrow> dirty (core s p) \<longrightarrow> linksCount (core s p) \<noteq> 0"
  shows "\<exists>p s' fl' hq'. iget n 0 s = Some (Some p, s') \<and> cache_inv s' fl' hq' \<and> coherent s' hq' \<and>
    p \<in> set hq' \<and> getDiskINodeData (core s' p) = inode_view s n \<and> disk s' = disk s \<and>
    (\<forall>m. refs s' m = (if m = n then refs s n + 1 else refs s m)) \<and>
    (\<forall>m < NUM_OF_INODES. inode_view s' m = inode_view s m)"
  using iget_transparent [OF assms] iget_spec [OF assms(1,3,4,5)] by force

theorem iget_correct_witness:
  "\<exists>p s'. iget 3 0 boot = Some (Some p, s') \<and> getDiskINodeData (core s' p) = inode_view boot 3 \<and> refs s' 3 = 1"
  using iget_correct [OF boot_facts(2,3), of 3] boot_facts(8) by (auto simp del: upt_rec_numeral)

text \<open>
  C16. \<open>iput\<close> keeps the invariant of the cache and takes one reference away from the inode of the node; with the last one a
  changed inode goes back to the disk, and the content of every inode stays what it was.
\<close>

theorem iput_correct:
  assumes "cache_inv s fl hq" and "coherent s hq" and "p \<in> set hq" and "0 < reference_count (core s p)"
    and "linksCount (core s p) \<noteq> 0 \<or> inode_number (core s p) = 0"
  shows "\<exists>s' fl'. iput p s = Some (0, s') \<and> cache_inv s' fl' hq \<and> coherent s' hq \<and>
    (\<forall>m. refs s' m = (if m = inode_number (core s p) then refs s m - 1 else refs s m)) \<and>
    (\<forall>m < NUM_OF_INODES. inode_view s' m = inode_view s m) \<and>
    (reference_count (core s p) = 1 \<longrightarrow> \<not> dirty (core s' p) \<and>
       inode_at (disk s') (inode_number (core s p)) = inode_view s (inode_number (core s p)))"
proof -
  obtain s' fl' where s': "iput p s = Some (0, s')" "cache_inv s' fl' hq" "coherent s' hq"
      "\<forall>m < NUM_OF_INODES. inode_view s' m = inode_view s m"
    using iput_transparent [OF assms] by blast
  have refs: "\<forall>m. refs s' m = (if m = inode_number (core s p) then refs s m - 1 else refs s m)"
    using iput_spec [OF assms(1,3-5)] s'(1) by auto
  have core: "core s' p = given_back (core s p)" using iput_core [OF assms(1,3-5) s'(1)] by simp
  have num: "inode_number (core s p) < NUM_OF_INODES" using assms(1,3) by (auto simp: cache_inv_def node_key_core)
  have "\<not> dirty (core s' p) \<and> inode_at (disk s') (inode_number (core s p)) = inode_view s (inode_number (core s p))"
    if "reference_count (core s p) = 1"
  proof -
    have c: "\<not> dirty (core s' p)" "inode_number (core s' p) = inode_number (core s p)"
      using core that by (simp_all add: given_back_def released_def)
    then have "inode_view s' (inode_number (core s p)) = inode_at (disk s') (inode_number (core s p))"
      using view_cached [OF s'(2) assms(3)] by simp
    then show ?thesis using c s'(4) num by simp
  qed
  then show ?thesis using s' refs by blast
qed

theorem iput_correct_witness:
  "\<exists>p s1 s2. iget 0 0 boot = Some (Some p, s1) \<and> iput p s1 = Some (0, s2) \<and> refs s2 0 = 0 \<and>
     inode_at (disk s2) 0 = inode_view boot 0"
proof -
  obtain p s1 where s1: "iget 0 0 boot = Some (Some p, s1)" and held: "held boot s1 p 0"
    using ih.get_has [OF boot_facts(1)] by force
  obtain fl hq where h: "cache_inv s1 fl hq" "coherent s1 hq" "p \<in> set hq" "0 < reference_count (core s1 p)"
      "inode_number (core s1 p) = 0" "reference_count (core s1 p) = refs boot 0 + 1"
    using held by (rule heldE)
  have "refs s1 0 = 1" "inode_view s1 0 = inode_view boot 0"
    using held boot_facts(8) by (simp_all add: held_def same_files_def)
  then show ?thesis using iput_correct [OF h(1-4)] h(5,6) boot_facts(8) s1 by auto
qed

text \<open>
  C13. Giving back the last reference to an inode without links deletes it: its blocks, all of them and in this
  order, go in front of the free list, its number in front of the list of free inodes, the inode stays without links,
  nothing refers to it any more, and no other inode, reference or file content changes.
\<close>

theorem iput_deletes:
  assumes "well s" and "holds s p n" and "refs s n = 1" and "n \<noteq> 0" and "di_linksCount (inode_view s n) = 0"
    and "direct (core s p) (disk s) fs" and "free_list_linked (disk s)"
    and "inode_stack (disk s) (y # ys)" and "length (y # ys) < INODE_NOS_PER_BLOCK"
  shows "\<exists>s'. iput p s = Some (0, s') \<and> well s' \<and>
    free_list (disk s') (all_blocks (core s p) @ fs) \<and> inode_stack (disk s') (n # y # ys) \<and>
    di_linksCount (inode_view s' n) = 0 \<and> refs s' n = 0 \<and> (\<forall>m. m \<noteq> n \<longrightarrow> refs s' m = refs s m) \<and>
    (\<forall>m < NUM_OF_INODES. m \<noteq> n \<longrightarrow> inode_view s' m = inode_view s m) \<and>
    (\<forall>j. direct j (disk s) fs \<longrightarrow> file_blocks j \<inter> file_blocks (core s p) = {} \<longrightarrow>
       file_bytes j (disk s') = file_bytes j (disk s))"
proof -
  obtain s' x where s': "iput p s = Some (0, s')" "touches s n 0 x s'" "di_linksCount x = 0"
      "free_list (disk s') (all_blocks (core s p) @ fs)" "inode_stack (disk s') (n # y # ys)"
    and fr: "frames (disk s) fs (file_blocks (core s p)) (disk s') (all_blocks (core s p) @ fs)"
    using iput_delete [OF assms] by blast
  have "n < NUM_OF_INODES" using holdsE [OF assms(1,2)] by metis
  then show ?thesis using s' touchesD [OF s'(2)] framesD(2) [OF fr] by (intro exI [of _ "s'"]) simp
qed

theorem iput_deletes_witness:
  "\<exists>s q s' c fs ys. iput q s = Some (0, s') \<and> length (all_blocks (core s q)) = 1 \<and>
     free_list (disk s') (all_blocks (core s q) @ fs) \<and> inode_stack (disk s') (c # ys)"
proof -
  let ?ctx = "\<lparr> ctx_uid = 5, ctx_gid = 6, ctx_pid = 1 \<rparr>" and ?fi = "\<lparr> fi_flags = 2, fi_fh = 0 \<rparr>"
  obtain s where s: "reachable sample_env s" "abs_fs s = empty_fs" "abs_files s = Map.empty" by (rule mounted)
  have a: "may_add (abs_fs s) [] [102] 0" using may_add_root [of "[102]"] by (simp add: s(2))
  have b: "card (dom (abs_fs s)) < 512" "few_open (abs_files s)" "next_fd (abs_files s) 0"
    by (simp_all add: s(2,3) few_open_def next_fd_def)
  obtain s1 i where s1: "reachable sample_env s1" "abs_fs s i = None" "abs_fs s1 = a_create 0 [102] i (new_file 0x81A4 ?ctx) (abs_fs s)"
      "abs_files s1 = [0 \<mapsto> opened i ?fi 0]"
    using step_create [OF s(1) a b, of "0x81A4" ?fi ?ctx] s(3) by metis
  have i: "abs_fs s1 i = Some (new_file 0x81A4 ?ctx)" unfolding s1(3) by (rule created_path(2) [OF a s1(2)])
  have i0: "i \<noteq> 0" using s1(2) by (auto simp: s(2))
  have k: "fi_fh ?fi = of_nat 0" "0 < MAX_FILE_DESCRIPTORS" "abs_files s1 0 = Some (opened i ?fi 0)" using s1(4) by simp_all
  have y: "abs_fs s1 (o_inode (opened i ?fi 0)) = Some (new_file 0x81A4 ?ctx)" "a_content (new_file 0x81A4 ?ctx) = Bytes []"
    "length [] + length [104 :: byte, 105] \<le> 10240"
    using i by (simp_all add: opened_def new_file_def)
  obtain s2 where s2: "reachable sample_env s2" "abs_fs s2 = a_update (o_inode (opened i ?fi 0)) (a_append [104, 105]) (abs_fs s1)"
      "abs_files s2 = (abs_files s1)(0 \<mapsto> moved (opened i ?fi 0) (length [104 :: byte, 105]))"
    using step_write [OF s1(1) k y, of ?ctx] by metis
  have "abs_files s2 0 = Some (moved (opened i ?fi 0) (length [104 :: byte, 105]))" by (simp add: s2(3))
  then obtain s3 where s3: "reachable sample_env s3" "abs_fs s3 = abs_fs s2" "abs_files s3 = (abs_files s2)(0 := None)"
    using step_release [OF s2(1) k(1,2), of _ ?ctx] by metis
  have x: "abs_fs s3 i = Some (a_append [104, 105] (new_file 0x81A4 ?ctx))" using i s2(2) s3(2) by (simp add: a_update_def opened_def)
  have "a_links (a_append [104, 105] (new_file 0x81A4 ?ctx)) = 1"
    "a_content (a_append [104, 105] (new_file 0x81A4 ?ctx)) = Bytes [104, 105]" "opens (abs_files s3) i = {}"
    by (simp_all add: a_append_def new_file_def opens_def s3(3) s2(3) s1(4))
  from last_link_dropped [OF s3(1) x this(1,2) i0 this(3)] obtain q s4 fs y ys where s4: "well s4" "holds s4 q i" "refs s4 i = 1" "di_linksCount (inode_view s4 i) = 0"
      "direct (core s4 q) (disk s4) fs" "free_list_linked (disk s4)" "inode_stack (disk s4) (y # ys)"
      "length (y # ys) < INODE_NOS_PER_BLOCK" "length (all_blocks (core s4 q)) = blocks_for (length [104 :: byte, 105])"
    by metis
  have "length (all_blocks (core s4 q)) = 1" by (simp add: s4(9) blocks_for_def)
  then show ?thesis using iput_deletes [OF s4(1-3) i0 s4(4-8)] by metis
qed

end
